(* ===== verification/Prelude.thy ===== *)
theory Prelude
  imports Main "HOL-Library.Word" "HOL-Library.Multiset"
begin

text \<open>
  Shared ground of the development: the names of the machine types, the collections of
  rules the components add to, generic lemmas on lists, and the two interfaces that do not
  belong to one component.
  \<^item> \<open>transition_invariant\<close>: a predicate that holds initially and is kept by every step of
    a transition relation holds in every reachable state. Interpreted by every component
    that is a state machine.
  \<^item> \<open>resource_pool\<close>: what a client may rely on when it takes objects out of a free list and
    puts them back. Interpreted by the process table and by the file table.
\<close>

section \<open>Machine types\<close>

text \<open>C's \<open>unsigned int\<close> (\<open>uint\<close>), \<open>uint64_t\<close> and \<open>char\<close> keep their widths: additions wrap.\<close>

type_synonym uint32 = "32 word"
type_synonym uint64 = "64 word"
type_synonym byte = "8 word"

section \<open>Rule collections\<close>

named_theorems rl_layout \<open>how an intrusive-list operation changes the layout of a heap\<close>
named_theorems frame \<open>fields an operation leaves alone\<close>

section \<open>Lists\<close>

lemma remove1_append_mid [simp]:
  "x \<notin> set xs \<Longrightarrow> remove1 x (xs @ x # ys) = xs @ ys"
  by (induction xs) auto

lemma remove1_map_inj: "inj f \<Longrightarrow> remove1 (f x) (map f xs) = map f (remove1 x xs)"
  by (induction xs) (auto simp: inj_eq)

lemma sorted_wrt_snoc:
  "sorted_wrt P (xs @ [y]) \<longleftrightarrow> sorted_wrt P xs \<and> (\<forall>x \<in> set xs. P x y)"
  by (simp add: sorted_wrt_append)

section \<open>Words\<close>

lemma unat_Suc_less:
  fixes a b :: "'a::len word"
  assumes "a < b"
  shows "unat (a + 1) = Suc (unat a)"
proof -
  have "unat a < unat b" using assms by (simp add: word_less_nat_alt)
  moreover have "unat b < 2 ^ LENGTH('a)" by simp
  ultimately have "Suc (unat a) < 2 ^ LENGTH('a)" by linarith
  then show ?thesis by (simp add: unat_word_ariths)
qed

lemma uint_Suc:
  fixes a :: "'a::len word"
  assumes "uint a + 1 < 2 ^ LENGTH('a)"
  shows "uint (a + 1) = uint a + 1"
  using assms by (simp add: uint_word_ariths)

lemma uint_pred:
  fixes a :: "'a::len word"
  assumes "a \<noteq> 0"
  shows "uint (a - 1) = uint a - 1"
proof -
  have "0 < uint a" using assms by (simp add: word_neq_0_conv word_less_def)
  moreover have "uint a < 2 ^ LENGTH('a)" by (rule unsigned_less)
  ultimately have "(uint a - 1) mod 2 ^ LENGTH('a) = uint a - 1" by (intro mod_pos_pos_trivial; linarith)
  then show ?thesis by (simp add: uint_word_ariths)
qed

lemma unat_of_nat_small:
  "n < 2 ^ LENGTH('a) \<Longrightarrow> unat (of_nat n :: 'a::len word) = n"
  by (simp add: unsigned_of_nat take_bit_nat_eq_self)

section \<open>Reachable states and invariants\<close>

inductive reach :: "('s \<Rightarrow> bool) \<Rightarrow> ('s \<Rightarrow> 's \<Rightarrow> bool) \<Rightarrow> 's \<Rightarrow> bool"
  for start :: "'s \<Rightarrow> bool" and trans :: "'s \<Rightarrow> 's \<Rightarrow> bool" where
  reach_start: "start s \<Longrightarrow> reach start trans s"
| reach_trans: "reach start trans s \<Longrightarrow> trans s t \<Longrightarrow> reach start trans t"

locale transition_invariant =
  fixes start :: "'s \<Rightarrow> bool"
    and trans :: "'s \<Rightarrow> 's \<Rightarrow> bool"
    and inv :: "'s \<Rightarrow> bool"
  assumes inv_start: "start s \<Longrightarrow> inv s"
    and inv_trans: "inv s \<Longrightarrow> trans s t \<Longrightarrow> inv t"
begin

lemma inv_reach: "reach start trans s \<Longrightarrow> inv s"
  by (induction rule: reach.induct) (auto intro: inv_start inv_trans)

end

section \<open>Pools of resources\<close>

text \<open>
  \<open>pool s fs\<close>: in state \<open>s\<close> the resources of the list \<open>fs\<close>, in this order, are free.
  \<open>acquire\<close> hands out the head; \<open>release\<close> puts a resource that is not free back into the
  list, at whichever end the provider likes.
\<close>

locale resource_pool =
  fixes acquire :: "'s \<Rightarrow> 'r option \<times> 's"
    and release :: "'s \<Rightarrow> 'r \<Rightarrow> 's"
    and pool :: "'s \<Rightarrow> 'r list \<Rightarrow> bool"
    and valid :: "'r \<Rightarrow> bool"
  assumes acquire_empty: "pool s [] \<Longrightarrow> acquire s = (None, s)"
    and acquire_head: "pool s (r # fs) \<Longrightarrow> fst (acquire s) = Some r"
    and acquire_tail: "pool s (r # fs) \<Longrightarrow> pool (snd (acquire s)) fs"
    and release_pool: "pool s fs \<Longrightarrow> valid r \<Longrightarrow> r \<notin> set fs \<Longrightarrow>
        pool (release s r) (r # fs) \<or> pool (release s r) (fs @ [r])"
    and pool_distinct: "pool s fs \<Longrightarrow> distinct fs"
    and pool_valid: "pool s fs \<Longrightarrow> r \<in> set fs \<Longrightarrow> valid r"
begin

lemma acquire_None_iff:
  assumes "pool s fs"
  shows "fst (acquire s) = None \<longleftrightarrow> fs = []"
  using assms acquire_empty acquire_head by (cases fs) auto

lemma acquire_fresh:
  assumes "pool s fs" and "acquire s = (Some r, s')"
  obtains fs' where "fs = r # fs'" and "pool s' fs'" and "r \<notin> set fs'"
proof (cases fs)
  case Nil
  with assms acquire_empty show ?thesis by auto
next
  case (Cons a fs')
  with assms(1) have "fst (acquire s) = Some a" and "pool (snd (acquire s)) fs'"
    by (auto dest: acquire_head acquire_tail)
  with assms(2) have "a = r" and "pool s' fs'" by auto
  moreover have "r \<notin> set fs'"
    using pool_distinct [OF assms(1)] Cons \<open>a = r\<close> by simp
  ultimately show ?thesis using that Cons by blast
qed

lemma release_mset:
  assumes "pool s fs" and "valid r" and "r \<notin> set fs"
  obtains fs' where "pool (release s r) fs'" and "mset fs' = add_mset r (mset fs)"
  using release_pool [OF assms] that by fastforce

lemma release_then_acquire:
  assumes "pool s fs" and "valid r" and "r \<notin> set fs"
  shows "fst (acquire (release s r)) \<noteq> None"
  using release_pool [OF assms]
  by (metis acquire_None_iff append_is_Nil_conv list.discI)

lemma acquire_then_release:
  assumes "pool s fs" and "acquire s = (Some r, s')"
  obtains fs' where "pool (release s' r) fs'" and "mset fs' = mset fs"
proof -
  obtain gs where gs: "fs = r # gs" "pool s' gs" "r \<notin> set gs"
    using acquire_fresh [OF assms] .
  have "valid r" using pool_valid [OF assms(1), of r] gs(1) by simp
  then obtain fs' where "pool (release s' r) fs'" "mset fs' = add_mset r (mset gs)"
    using release_mset [OF gs(2) _ gs(3)] by blast
  with gs(1) that show ?thesis by simp
qed

end

end
