(* ===== verification/Rlist.thy ===== *)
theory Rlist
  imports Prelude
begin

text \<open>
  Resource lists, \<^verbatim>\<open>util.h\<close>: intrusive circular doubly linked lists. A heap gives every node its
  key and its two links; a list is the ring through its sentinel. The operations are those of the
  source, built on \<open>rl_splice\<close>. \<open>layout\<close> describes a heap that holds several lists at once, and the
  locale \<open>intrusive_lists\<close> is the interface that the scheduler, the condition variables, the
  streams and the processes use.
\<close>

section \<open>Nodes and their heap\<close>

record ('n, 'k) rlheap =
  rl_obj :: "'n \<Rightarrow> 'k"
  rl_prev :: "'n \<Rightarrow> 'n"
  rl_next :: "'n \<Rightarrow> 'n"

definition rlnode_new :: "('n, 'k) rlheap \<Rightarrow> 'n \<Rightarrow> ('n, 'k) rlheap" where
  "rlnode_new h p = h\<lparr>rl_prev := (rl_prev h)(p := p), rl_next := (rl_next h)(p := p)\<rparr>"

definition rlnode_init :: "('n, 'k) rlheap \<Rightarrow> 'n \<Rightarrow> 'k \<Rightarrow> ('n, 'k) rlheap" where
  "rlnode_init h p ptr = (let h1 = rlnode_new h p in h1\<lparr>rl_obj := (rl_obj h1)(p := ptr)\<rparr>)"

text \<open>
  \<open>rlnode_swap\<close> takes the addresses of two fields of type \<open>rlnode_ptr\<close>; such an address is
  a field of a node.
\<close>

datatype 'n rlfield = PrevOf 'n | NextOf 'n

fun rl_load :: "('n, 'k) rlheap \<Rightarrow> 'n rlfield \<Rightarrow> 'n" where
  "rl_load h (PrevOf n) = rl_prev h n"
| "rl_load h (NextOf n) = rl_next h n"

fun rl_store :: "('n, 'k) rlheap \<Rightarrow> 'n rlfield \<Rightarrow> 'n \<Rightarrow> ('n, 'k) rlheap" where
  "rl_store h (PrevOf n) v = h\<lparr>rl_prev := (rl_prev h)(n := v)\<rparr>"
| "rl_store h (NextOf n) v = h\<lparr>rl_next := (rl_next h)(n := v)\<rparr>"

definition rlnode_swap :: "('n, 'k) rlheap \<Rightarrow> 'n rlfield \<Rightarrow> 'n rlfield \<Rightarrow> ('n, 'k) rlheap" where
  "rlnode_swap h p q =
     (let temp = rl_load h p;
          h1 = rl_store h p (rl_load h q)
      in rl_store h1 q temp)"

definition rl_splice :: "('n, 'k) rlheap \<Rightarrow> 'n \<Rightarrow> 'n \<Rightarrow> ('n, 'k) rlheap \<times> 'n" where
  "rl_splice h a b =
     (let h1 = rlnode_swap h (PrevOf (rl_next h a)) (PrevOf (rl_next h b));
          h2 = rlnode_swap h1 (NextOf a) (NextOf b)
      in (h2, b))"

definition rlist_remove :: "('n, 'k) rlheap \<Rightarrow> 'n \<Rightarrow> ('n, 'k) rlheap \<times> 'n" where
  "rlist_remove h a = (fst (rl_splice h a (rl_prev h a)), a)"

definition is_rlist_empty :: "('n, 'k) rlheap \<Rightarrow> 'n \<Rightarrow> bool" where
  "is_rlist_empty h a \<longleftrightarrow> a = rl_next h a"

definition rlist_push_front :: "('n, 'k) rlheap \<Rightarrow> 'n \<Rightarrow> 'n \<Rightarrow> ('n, 'k) rlheap" where
  "rlist_push_front h list node = fst (rl_splice h list node)"

definition rlist_push_back :: "('n, 'k) rlheap \<Rightarrow> 'n \<Rightarrow> 'n \<Rightarrow> ('n, 'k) rlheap" where
  "rlist_push_back h list node = fst (rl_splice h (rl_prev h list) node)"

definition rlist_pop_front :: "('n, 'k) rlheap \<Rightarrow> 'n \<Rightarrow> ('n, 'k) rlheap \<times> 'n" where
  "rlist_pop_front h list = rl_splice h list (rl_next h list)"

definition rlist_pop_back :: "('n, 'k) rlheap \<Rightarrow> 'n \<Rightarrow> ('n, 'k) rlheap \<times> 'n" where
  "rlist_pop_back h list = rl_splice h list (rl_prev h list)"

definition rlist_append :: "('n, 'k) rlheap \<Rightarrow> 'n \<Rightarrow> 'n \<Rightarrow> ('n, 'k) rlheap" where
  "rlist_append h ldest lsrc = fst (rlist_remove (rlist_push_back h ldest lsrc) lsrc)"

definition rlist_prepend :: "('n, 'k) rlheap \<Rightarrow> 'n \<Rightarrow> 'n \<Rightarrow> ('n, 'k) rlheap" where
  "rlist_prepend h ldest lsrc = fst (rlist_remove (rlist_push_front h ldest lsrc) lsrc)"

section \<open>Rings\<close>

text \<open>
  \<open>seg h a xs b\<close>: following \<open>next\<close> from \<open>a\<close> passes exactly the nodes \<open>xs\<close> and arrives at
  \<open>b\<close>, and every link has its \<open>prev\<close> counterpart. A ring is a segment from a node back to
  itself without repetition.
\<close>

fun seg :: "('n, 'k) rlheap \<Rightarrow> 'n \<Rightarrow> 'n list \<Rightarrow> 'n \<Rightarrow> bool" where
  "seg h a [] b \<longleftrightarrow> rl_next h a = b \<and> rl_prev h b = a"
| "seg h a (x # xs) b \<longleftrightarrow> rl_next h a = x \<and> rl_prev h x = a \<and> seg h x xs b"

fun ring :: "('n, 'k) rlheap \<Rightarrow> 'n list \<Rightarrow> bool" where
  "ring h [] \<longleftrightarrow> False"
| "ring h (a # xs) \<longleftrightarrow> distinct (a # xs) \<and> seg h a xs a"

lemma seg_append [simp]:
  "seg h a (xs @ y # ys) b \<longleftrightarrow> seg h a xs y \<and> seg h y ys b"
  by (induction xs arbitrary: a) auto

lemma seg_next: "seg h a xs b \<Longrightarrow> rl_next h a = hd (xs @ [b])"
  by (cases xs) auto

lemma seg_prev: "seg h a xs b \<Longrightarrow> rl_prev h b = last (a # xs)"
  by (induction xs arbitrary: a) auto

lemma seg_cong:
  assumes "seg h a xs b"
    and "\<And>x. x \<in> set (a # xs) \<Longrightarrow> rl_next h' x = rl_next h x"
    and "\<And>x. x \<in> set (xs @ [b]) \<Longrightarrow> rl_prev h' x = rl_prev h x"
  shows "seg h' a xs b"
  using assms by (induction xs arbitrary: a) auto

lemma ring_rotate: "ring h (xs @ ys) \<Longrightarrow> ring h (ys @ xs)"
proof (cases xs)
  case (Cons a xs')
  assume r: "ring h (xs @ ys)"
  show ?thesis
  proof (cases ys)
    case (Cons b ys')
    with \<open>xs = a # xs'\<close> r show ?thesis by auto
  qed (use r in simp)
qed simp

lemma ring_rotate1: "ring h (a # xs) \<Longrightarrow> ring h (xs @ [a])"
  using ring_rotate [of h "[a]" xs] by simp

lemma ring_cong:
  assumes "ring h xs"
    and "\<And>x. x \<in> set xs \<Longrightarrow> rl_next h' x = rl_next h x"
    and "\<And>x. x \<in> set xs \<Longrightarrow> rl_prev h' x = rl_prev h x"
  shows "ring h' xs"
proof (cases xs)
  case (Cons a as)
  with assms show ?thesis by (auto intro!: seg_cong [of h])
qed (use assms in simp)

lemma ring_next_mem:
  assumes "ring h xs" and "x \<in> set xs"
  shows "rl_next h x \<in> set xs"
proof -
  obtain ys zs where xs: "xs = ys @ x # zs"
    using assms(2) by (auto simp: in_set_conv_decomp)
  with assms(1) have "ring h (x # zs @ ys)"
    using ring_rotate [of h ys "x # zs"] by simp
  then have "rl_next h x = hd (zs @ ys @ [x])" by (auto dest: seg_next)
  also have "\<dots> \<in> set (zs @ ys @ [x])" by (rule hd_in_set) simp
  finally show ?thesis by (auto simp: xs)
qed

lemma ring_prev_mem:
  assumes "ring h xs" and "x \<in> set xs"
  shows "rl_prev h x \<in> set xs"
proof -
  obtain ys zs where xs: "xs = ys @ x # zs"
    using assms(2) by (auto simp: in_set_conv_decomp)
  with assms(1) have "ring h (x # zs @ ys)"
    using ring_rotate [of h ys "x # zs"] by simp
  then have "rl_prev h x = last (x # zs @ ys)" by (auto dest: seg_prev)
  also have "\<dots> \<in> set (x # zs @ ys)" by (rule last_in_set) simp
  finally show ?thesis by (auto simp: xs)
qed

lemma ring_prev_next:
  assumes "ring h xs" and "x \<in> set xs"
  shows "rl_prev h (rl_next h x) = x" and "rl_next h (rl_prev h x) = x"
proof -
  obtain ys zs where xs: "xs = ys @ x # zs"
    using assms(2) by (auto simp: in_set_conv_decomp)
  with assms(1) have r: "ring h (x # zs @ ys)"
    using ring_rotate [of h ys "x # zs"] by simp
  then show "rl_prev h (rl_next h x) = x" by (cases "zs @ ys") auto
  from r show "rl_next h (rl_prev h x) = x"
    by (cases "zs @ ys" rule: rev_cases) auto
qed

lemma ring_next_neq:
  assumes "ring h (L # xs)" and "n \<in> set xs"
  shows "rl_next h n \<noteq> n"
proof -
  obtain ys zs where xs: "xs = ys @ n # zs"
    using assms(2) by (auto simp: in_set_conv_decomp)
  then have "ring h (n # zs @ L # ys)"
    using assms(1) ring_rotate [of h "L # ys" "n # zs"] by simp
  then show ?thesis by (cases zs) auto
qed

section \<open>What splicing does to rings\<close>

lemma splice_next [simp]:
  "rl_next (fst (rl_splice h a b)) = (rl_next h)(a := rl_next h b, b := rl_next h a)"
  by (auto simp: rl_splice_def rlnode_swap_def Let_def)

lemma splice_prev [simp]:
  "rl_prev (fst (rl_splice h a b)) =
     (rl_prev h)(rl_next h a := rl_prev h (rl_next h b), rl_next h b := rl_prev h (rl_next h a))"
  by (auto simp: rl_splice_def rlnode_swap_def Let_def)

lemma splice_obj [simp]: "rl_obj (fst (rl_splice h a b)) = rl_obj h"
  by (auto simp: rl_splice_def rlnode_swap_def Let_def)

lemma splice_snd [simp]: "snd (rl_splice h a b) = b"
  by (simp add: rl_splice_def Let_def)

lemma seg_restart:
  assumes "seg h b ys c" and "rl_next h' a = rl_next h b" and "rl_prev h' (rl_next h b) = a"
    and "\<And>x. x \<in> set ys \<Longrightarrow> rl_next h' x = rl_next h x"
    and "\<And>x. x \<in> set (tl (ys @ [c])) \<Longrightarrow> rl_prev h' x = rl_prev h x"
  shows "seg h' a ys c"
proof (cases ys)
  case Nil
  with assms show ?thesis by auto
next
  case (Cons y zs)
  with assms have "seg h y zs c" and "rl_next h b = y" by auto
  moreover from this(1) have "seg h' y zs c"
    using assms(4,5) Cons by (auto intro!: seg_cong [of h])
  ultimately show ?thesis using assms(2,3) Cons by simp
qed

text \<open>
  The two transformations of the documentation: splicing nodes of two rings joins them,
  splicing two nodes of one ring cuts it in two.
\<close>

lemma splice_join:
  assumes "ring h (a # xs)" and "ring h (b # ys)" and "set (a # xs) \<inter> set (b # ys) = {}"
  shows "ring (fst (rl_splice h a b)) (a # ys @ b # xs)"
proof -
  let ?h = "fst (rl_splice h a b)"
  from assms(1) have a: "rl_next h a = hd (xs @ [a])" "rl_prev h (rl_next h a) = a"
    by (cases xs; auto)+
  from assms(2) have b: "rl_next h b = hd (ys @ [b])" "rl_prev h (rl_next h b) = b"
    by (cases ys; auto)+
  have "seg ?h a ys b"
    using assms a b by - (rule seg_restart [of h b], (cases xs; cases ys; auto)+)
  moreover have "seg ?h b xs a"
    using assms a b by - (rule seg_restart [of h a], (cases xs; cases ys; auto)+)
  ultimately show ?thesis using assms by auto
qed

lemma splice_cut:
  assumes "ring h (a # xs @ b # ys)"
  shows "ring (fst (rl_splice h a b)) (a # ys)" and "ring (fst (rl_splice h a b)) (b # xs)"
proof -
  let ?h = "fst (rl_splice h a b)"
  from assms have a: "rl_next h a = hd (xs @ [b])" "rl_prev h (rl_next h a) = a"
    by (cases xs; auto)+
  from assms have b: "rl_next h b = hd (ys @ [a])" "rl_prev h (rl_next h b) = b"
    by (cases ys; auto)+
  have "seg ?h a ys a"
    using assms a b by - (rule seg_restart [of h b], (cases xs; cases ys; auto)+)
  then show "ring ?h (a # ys)" using assms by auto
  have "seg ?h b xs b"
    using assms a b by - (rule seg_restart [of h a], (cases xs; cases ys; auto)+)
  then show "ring ?h (b # xs)" using assms by auto
qed

lemma splice_same: "rl_splice h a a = (h, a)"
  by (simp add: rl_splice_def rlnode_swap_def Let_def)

lemma splice_frame:
  assumes "ring h zs" and "{a, b, rl_next h a, rl_next h b} \<inter> set zs = {}"
  shows "ring (fst (rl_splice h a b)) zs"
  by (rule ring_cong [OF assms(1)]) (use assms(2) in auto)

lemma remove_ring:
  assumes "ring h (n # xs)"
  shows "ring (fst (rlist_remove h n)) [n]"
    and "xs \<noteq> [] \<Longrightarrow> ring (fst (rlist_remove h n)) xs"
proof -
  have "ring (fst (rlist_remove h n)) [n] \<and> (xs \<noteq> [] \<longrightarrow> ring (fst (rlist_remove h n)) xs)"
  proof (cases xs rule: rev_cases)
    case Nil
    with assms show ?thesis by (simp add: rlist_remove_def splice_same)
  next
    case (snoc ys p)
    with assms have "rl_prev h n = p" by auto
    with snoc show ?thesis
      using splice_cut [of h n ys p "[]"] ring_rotate1 [of "fst (rl_splice h n p)" p ys] assms
      by (simp add: rlist_remove_def del: ring.simps)
  qed
  then show "ring (fst (rlist_remove h n)) [n]"
    and "xs \<noteq> [] \<Longrightarrow> ring (fst (rlist_remove h n)) xs" by blast+
qed

lemma remove_frame:
  assumes "ring h (n # xs)" and "ring h zs" and "set (n # xs) \<inter> set zs = {}"
  shows "ring (fst (rlist_remove h n)) zs"
proof -
  have p: "rl_prev h n \<in> set (n # xs)" using ring_prev_mem [OF assms(1), of n] by simp
  have "{n, rl_prev h n, rl_next h n, rl_next h (rl_prev h n)} \<subseteq> set (n # xs)"
    using p ring_next_mem [OF assms(1)] by auto
  with assms(3) show ?thesis
    unfolding rlist_remove_def fst_conv by (intro splice_frame [OF assms(2)]) auto
qed

lemma ringD:
  assumes "ring h (a # xs)"
  shows "distinct (a # xs)" and "seg h a xs a"
  using assms by simp_all

lemma seg_unique:
  "seg h a xs b \<Longrightarrow> seg h a ys b \<Longrightarrow> b \<notin> set xs \<Longrightarrow> b \<notin> set ys \<Longrightarrow> xs = ys"
proof (induction xs arbitrary: a ys)
  case Nil
  then show ?case by (cases ys) auto
next
  case (Cons x xs)
  then show ?case by (cases ys) auto
qed

lemma ring_unique: "ring h (a # xs) \<Longrightarrow> ring h (a # ys) \<Longrightarrow> xs = ys"
  by (auto intro: seg_unique)

lemma ring_single [simp]: "ring h [n] \<longleftrightarrow> rl_next h n = n \<and> rl_prev h n = n"
  by auto

lemma ring_new: "ring (rlnode_new h n) [n]"
  by (simp add: rlnode_new_def)

declare ring.simps(2) [simp del]

section \<open>Many lists in one heap\<close>

text \<open>
  \<open>layout h S m F\<close>: every node of \<open>S\<close> is the sentinel of a list, the list of sentinel \<open>L\<close>
  is \<open>m L\<close>, every node of \<open>F\<close> is a singleton ring (a free intrusive node), and no node
  occurs twice.
\<close>

definition layout ::
  "('n, 'k) rlheap \<Rightarrow> 'n set \<Rightarrow> ('n \<Rightarrow> 'n list) \<Rightarrow> 'n set \<Rightarrow> bool" where
  "layout h S m F \<longleftrightarrow>
     (\<forall>L \<in> S. ring h (L # m L)) \<and>
     (\<forall>n \<in> F. ring h [n]) \<and>
     (\<forall>L \<in> S. \<forall>L' \<in> S. L \<noteq> L' \<longrightarrow> set (L # m L) \<inter> set (L' # m L') = {}) \<and>
     (\<forall>L \<in> S. F \<inter> set (L # m L) = {})"

lemma layoutD:
  assumes "layout h S m F"
  shows "L \<in> S \<Longrightarrow> ring h (L # m L)" and "n \<in> F \<Longrightarrow> ring h [n]"
    and "L \<in> S \<Longrightarrow> L' \<in> S \<Longrightarrow> L \<noteq> L' \<Longrightarrow> set (L # m L) \<inter> set (L' # m L') = {}"
    and "L \<in> S \<Longrightarrow> F \<inter> set (L # m L) = {}"
  using assms unfolding layout_def by blast+

lemma layout_single: "layout h {L} m F \<Longrightarrow> m L = xs \<Longrightarrow> layout h {L} (\<lambda>_. xs) F"
  by (simp add: layout_def)

lemma layout_node_unique:
  assumes "layout h S m F" and "L \<in> S" and "L' \<in> S" and "n \<in> set (m L)" and "n \<in> set (m L')"
  shows "L = L'"
  using layoutD(3) [OF assms(1-3)] assms(4,5) by auto

lemma layout_distinct: "layout h S m F \<Longrightarrow> L \<in> S \<Longrightarrow> distinct (m L) \<and> L \<notin> set (m L)"
  using layoutD(1) [THEN ringD(1)] by fastforce

lemma layout_free_notin: "layout h S m F \<Longrightarrow> n \<in> F \<Longrightarrow> L \<in> S \<Longrightarrow> n \<notin> set (m L) \<and> n \<noteq> L"
  using layoutD(4) by fastforce

lemma layout_is_empty [rl_layout]:
  "layout h S m F \<Longrightarrow> L \<in> S \<Longrightarrow> is_rlist_empty h L \<longleftrightarrow> m L = []"
  using layoutD(1) [of h S m F L] by (cases "m L") (auto simp: is_rlist_empty_def ring.simps)

lemma layout_first: "layout h S m F \<Longrightarrow> L \<in> S \<Longrightarrow> m L = x # xs \<Longrightarrow> rl_next h L = x"
  using layoutD(1) [of h S m F L] by (auto simp: ring.simps)

text \<open>One list changes, nodes move between it and the free nodes, every other ring stays.\<close>

lemma layout_change:
  assumes lay: "layout h S m F" and L: "L \<in> S"
    and ys: "ring h' (L # ys)"
    and new: "\<And>n. n \<in> F' \<Longrightarrow> n \<notin> F \<Longrightarrow> ring h' [n]"
    and dom: "set ys \<union> F' \<subseteq> set (m L) \<union> F" and dis: "set ys \<inter> F' = {}"
    and keep: "\<And>zs. ring h zs \<Longrightarrow> set zs \<inter> (set (L # m L) \<union> (F - F')) = {} \<Longrightarrow> ring h' zs"
  shows "layout h' S (m(L := ys)) F'"
proof -
  have others: "ring h' (L' # m L')" "set (L' # m L') \<inter> (set (L # m L) \<union> F) = {}"
    if "L' \<in> S" "L' \<noteq> L" for L'
  proof -
    show dj: "set (L' # m L') \<inter> (set (L # m L) \<union> F) = {}"
      using layoutD(3) [OF lay that(1) L that(2)] layoutD(4) [OF lay that(1)] by auto
    show "ring h' (L' # m L')"
      by (rule keep [OF layoutD(1) [OF lay that(1)]]) (use dj in auto)
  qed
  have free: "ring h' [n]" if "n \<in> F'" for n
  proof (cases "n \<in> F")
    case True
    then show ?thesis
      using keep [OF layoutD(2) [OF lay True]] layoutD(4) [OF lay L] that by auto
  qed (use new that in blast)
  have LF: "L \<notin> F'" using dom ys layoutD(4) [OF lay L] layout_distinct [OF lay L] by auto
  show ?thesis
    unfolding layout_def
  proof (intro conjI ballI impI)
    fix L' assume L': "L' \<in> S"
    show "ring h' (L' # (m(L := ys)) L')" using others(1) [OF L'] ys by auto
    show "F' \<inter> set (L' # (m(L := ys)) L') = {}"
      using others(2) [OF L'] dom dis LF by (cases "L' = L") auto
    fix L'' assume "L'' \<in> S" "L' \<noteq> L''"
    then show "set (L' # (m(L := ys)) L') \<inter> set (L'' # (m(L := ys)) L'') = {}"
      using others(2) [OF L'] others(2) [of L''] dom layoutD(3) [OF lay L' \<open>L'' \<in> S\<close>]
      by (cases "L' = L"; cases "L'' = L"; fastforce)
  qed (use free in blast)
qed

lemma layout_insert:
  assumes lay: "layout h S m F" and L: "L \<in> S" and n: "n \<in> F"
    and m: "m L = xs @ ys" and p: "p = last (L # xs)"
  shows "layout (fst (rl_splice h p n)) S (m(L := xs @ n # ys)) (F - {n})"
proof (rule layout_change [OF lay L])
  have rL: "ring h ((L # xs) @ ys)"
    using layoutD(1) [OF lay L] by (simp only: m append_Cons)
  have rn: "ring h [n]" using layoutD(2) [OF lay n] .
  have nL: "n \<notin> set (L # m L)" using layout_free_notin [OF lay n L] by auto
  obtain us where us: "L # xs = us @ [p]"
    using p by (metis append_butlast_last_id list.discI)
  have rp: "ring h (p # ys @ us)"
    using rL ring_rotate [of h us "p # ys"] by (simp add: us)
  have uL: "set (p # ys @ us) = set (L # m L)"
    using arg_cong [OF us, of set] m by auto
  then have pL: "p \<in> set (L # m L)" by auto
  have "ring (fst (rl_splice h p n)) (p # [] @ n # ys @ us)"
    by (rule splice_join [OF rp rn]) (use nL uL in auto)
  then have "ring (fst (rl_splice h p n)) ((us @ [p]) @ n # ys)"
    using ring_rotate [of "fst (rl_splice h p n)" "p # n # ys" us] by simp
  then show "ring (fst (rl_splice h p n)) (L # xs @ n # ys)"
    by (simp add: us [symmetric])
  show "set (xs @ n # ys) \<union> (F - {n}) \<subseteq> set (m L) \<union> F" using m n by auto
  show "set (xs @ n # ys) \<inter> (F - {n}) = {}" using layoutD(4) [OF lay L] m by auto
  fix zs assume zs: "ring h zs" "set zs \<inter> (set (L # m L) \<union> (F - (F - {n}))) = {}"
  show "ring (fst (rl_splice h p n)) zs"
  proof (rule splice_frame [OF zs(1)])
    have "rl_next h p \<in> set (L # m L)"
      using ring_next_mem [OF layoutD(1) [OF lay L] pL] .
    moreover have "rl_next h n = n" using rn by simp
    ultimately show "{p, n, rl_next h p, rl_next h n} \<inter> set zs = {}"
      using zs(2) n pL by auto
  qed
qed auto

lemma layout_push_front [rl_layout]:
  assumes "layout h S m F" and "L \<in> S" and "n \<in> F"
  shows "layout (rlist_push_front h L n) S (m(L := n # m L)) (F - {n})"
  using layout_insert [OF assms, of "[]" "m L"] by (simp add: rlist_push_front_def)

lemma layout_push_back [rl_layout]:
  assumes "layout h S m F" and "L \<in> S" and "n \<in> F"
  shows "layout (rlist_push_back h L n) S (m(L := m L @ [n])) (F - {n})"
proof -
  have "rl_prev h L = last (L # m L)"
    using seg_prev [OF ringD(2) [OF layoutD(1) [OF assms(1,2)]]] .
  then show ?thesis
    using layout_insert [OF assms, of "m L" "[]"] by (simp add: rlist_push_back_def)
qed

lemma layout_insert_before:
  assumes "layout h S m F" and "L \<in> S" and "n \<in> F" and "m L = xs @ y # ys"
  shows "layout (fst (rl_splice h (rl_prev h y) n)) S (m(L := xs @ n # y # ys)) (F - {n})"
proof -
  have "seg h L xs y" using ringD(2) [OF layoutD(1) [OF assms(1,2)]] assms(4) by simp
  then have "rl_prev h y = last (L # xs)" by (rule seg_prev)
  then show ?thesis using layout_insert [OF assms(1-4)] by simp
qed

lemma layout_remove [rl_layout]:
  assumes lay: "layout h S m F" and L: "L \<in> S" and n: "n \<in> set (m L)"
  shows "layout (fst (rlist_remove h n)) S (m(L := remove1 n (m L))) (insert n F)"
proof -
  obtain xs ys where m: "m L = xs @ n # ys" and nx: "n \<notin> set xs"
    using n by (meson split_list_first)
  have rL: "ring h (L # xs @ n # ys)" using layoutD(1) [OF lay L] m by simp
  then have rn: "ring h (n # ys @ L # xs)"
    using ring_rotate [of h "L # xs" "n # ys"] by simp
  let ?h = "fst (rlist_remove h n)"
  have "layout ?h S (m(L := xs @ ys)) (insert n F)"
  proof (rule layout_change [OF lay L])
    show "ring ?h (L # xs @ ys)"
      using remove_ring(2) [OF rn] ring_rotate [of ?h ys "L # xs"] by simp
    show "set (xs @ ys) \<union> insert n F \<subseteq> set (m L) \<union> F" using m by auto
    show "set (xs @ ys) \<inter> insert n F = {}"
      using layoutD(4) [OF lay L] m ringD(1) [OF rL] by auto
    show "ring ?h [k]" if "k \<in> insert n F" "k \<notin> F" for k
      using that remove_ring(1) [OF rn] by auto
    fix zs assume zs: "ring h zs" "set zs \<inter> (set (L # m L) \<union> (F - insert n F)) = {}"
    then show "ring ?h zs" using m by (intro remove_frame [OF rn]) auto
  qed
  then show ?thesis using m nx by simp
qed

lemma layout_remove_free [rl_layout]:
  assumes "layout h S m F" and "n \<in> F"
  shows "rlist_remove h n = (h, n)"
  using layoutD(2) [OF assms] by (simp add: rlist_remove_def splice_same)

lemma layout_pop_front [rl_layout]:
  assumes lay: "layout h S m F" and L: "L \<in> S" and m: "m L = x # xs"
  shows "snd (rlist_pop_front h L) = x"
    and "layout (fst (rlist_pop_front h L)) S (m(L := xs)) (insert x F)"
proof -
  have rL: "ring h (L # [] @ x # xs)" using layoutD(1) [OF lay L] m by simp
  then have nx: "rl_next h L = x" by (simp add: ring.simps)
  then show "snd (rlist_pop_front h L) = x" by (simp add: rlist_pop_front_def)
  let ?h = "fst (rl_splice h L x)"
  have "layout ?h S (m(L := xs)) (insert x F)"
  proof (rule layout_change [OF lay L])
    show "ring ?h (L # xs)" using splice_cut(1) [OF rL] .
    show "ring ?h [n]" if "n \<in> insert x F" "n \<notin> F" for n
      using splice_cut(2) [OF rL] that by auto
    show "set xs \<inter> insert x F = {}" using layoutD(4) [OF lay L] m ringD(1) [OF rL] by auto
    fix zs assume zs: "ring h zs" "set zs \<inter> (set (L # m L) \<union> (F - insert x F)) = {}"
    have "{L, x, rl_next h L, rl_next h x} \<subseteq> set (L # m L)"
      using ring_next_mem [OF layoutD(1) [OF lay L]] m by auto
    with zs show "ring ?h zs" by (intro splice_frame) auto
  qed (use m in auto)
  then show "layout (fst (rlist_pop_front h L)) S (m(L := xs)) (insert x F)"
    by (simp add: rlist_pop_front_def nx)
qed

lemma layout_pop_front_empty [rl_layout]:
  assumes "layout h S m F" and "L \<in> S" and "m L = []"
  shows "rlist_pop_front h L = (h, L)"
  using layoutD(1) [OF assms(1,2)] assms(3) by (simp add: rlist_pop_front_def splice_same)

text \<open>Appending and prepending whole lists: a splice of the two rings, then the removal of the
  source sentinel.\<close>

lemma layout_transfer:
  fixes h g :: "('n, 'k) rlheap"
  assumes lay: "layout h S m F" and L: "L \<in> S" and M: "M \<in> S" and neq: "L \<noteq> M"
    and j: "ring g (M # zs)" and zs: "zs \<noteq> []"
    and rot: "\<And>g' :: ('n, 'k) rlheap. ring g' zs \<Longrightarrow> ring g' (L # ws)" and ws: "set ws = set (m L) \<union> set (m M)"
    and mem: "set (M # zs) = set (L # m L) \<union> set (M # m M)"
    and fr: "\<And>us. ring h us \<Longrightarrow> set us \<inter> set (M # zs) = {} \<Longrightarrow> ring g us"
  shows "layout (fst (rlist_remove g M)) S (m(L := ws, M := [])) F"
proof -
  let ?h = "fst (rlist_remove g M)"
  have keep: "ring ?h us" if "ring h us" "set us \<inter> set (M # zs) = {}" for us
    using that fr by (intro remove_frame [OF j]) auto
  have other: "set (L' # m L') \<inter> set (M # zs) = {}" if "L' \<in> S" "L' \<noteq> L" "L' \<noteq> M" for L'
    using layoutD(3) [OF lay that(1) L that(2)] layoutD(3) [OF lay that(1) M that(3)] mem by auto
  have free: "F \<inter> set (M # zs) = {}"
    using layoutD(4) [OF lay L] layoutD(4) [OF lay M] mem by auto
  let ?m = "m(L := ws, M := [])"
  have LM: "set (L # ws) \<inter> set [M] = {}"
    using layoutD(3) [OF lay L M neq] layout_distinct [OF lay M] ws by auto
  have sub: "set (X # ?m X) \<subseteq> set (M # zs)" if "X \<in> {L, M}" for X
    using that mem ws neq by auto
  show ?thesis
    unfolding layout_def
  proof (intro conjI ballI impI)
    fix L' assume L': "L' \<in> S"
    show "ring ?h (L' # (m(L := ws, M := [])) L')"
      using remove_ring(1) [OF j] rot [OF remove_ring(2) [OF j zs]] neq
        keep [OF layoutD(1) [OF lay L'] other [OF L']] by auto
    show "F \<inter> set (L' # (m(L := ws, M := [])) L') = {}"
      using free mem ws layoutD(4) [OF lay L'] by (auto split: if_splits)
    fix L'' assume L'': "L'' \<in> S" "L' \<noteq> L''"
    consider "L' \<in> {L, M}" "L'' \<in> {L, M}" | "L' \<in> {L, M}" "L'' \<notin> {L, M}"
      | "L' \<notin> {L, M}" "L'' \<in> {L, M}" | "L' \<notin> {L, M}" "L'' \<notin> {L, M}" by blast
    then show "set (L' # ?m L') \<inter> set (L'' # ?m L'') = {}"
    proof cases
      case 1
      then show ?thesis using L''(2) LM by auto
    next
      case 2
      then show ?thesis using sub [of L'] other [OF L''(1)] by auto
    next
      case 3
      then show ?thesis using sub [of L''] other [OF L'] by auto
    next
      case 4
      then show ?thesis using layoutD(3) [OF lay L' L''] by auto
    qed
  next
    fix n assume "n \<in> F"
    then show "ring ?h [n]" using keep [OF layoutD(2) [OF lay]] free by auto
  qed
qed

lemma layout_splice_frame:
  assumes "ring h (a # xs)" and "ring h (b # ys)" and "ring h us"
    and "set us \<inter> (set (a # xs) \<union> set (b # ys)) = {}"
  shows "ring (fst (rl_splice h a b)) us"
  using ring_next_mem [OF assms(1), of a] ring_next_mem [OF assms(2), of b] assms(4)
  by (intro splice_frame [OF assms(3)]) auto

lemma layout_append [rl_layout]:
  assumes lay: "layout h S m F" and L: "L \<in> S" and M: "M \<in> S" and neq: "L \<noteq> M"
  shows "layout (rlist_append h L M) S (m(L := m L @ m M, M := [])) F"
proof -
  have rL: "ring h (L # m L)" and rM: "ring h (M # m M)"
    using layoutD(1) [OF lay L] layoutD(1) [OF lay M] .
  have dj: "set (L # m L) \<inter> set (M # m M) = {}" using layoutD(3) [OF lay L M neq] .
  obtain us p where p: "L # m L = us @ [p]" by (metis append_butlast_last_id list.discI)
  have pL: "rl_prev h L = p" using rL p by (metis last_snoc ring.simps(2) seg_prev)
  have rp: "ring h (p # us)" using rL p ring_rotate [of h us "[p]"] by simp
  have up: "set (p # us) = set (L # m L)" using arg_cong [OF p, of set] by auto
  let ?h = "fst (rl_splice h p M)"
  have j: "ring ?h (p # m M @ M # us)"
    by (rule splice_join [OF rp rM]) (use dj up in auto)
  have "layout (fst (rlist_remove ?h M)) S (m(L := m L @ m M, M := [])) F"
  proof (rule layout_transfer [OF lay L M neq, where zs = "us @ p # m M"])
    show "ring ?h (M # us @ p # m M)"
      using ring_rotate [of ?h "p # m M" "M # us"] j by simp
    show "ring g (L # m L @ m M)" if "ring g (us @ p # m M)" for g
    proof -
      have "us @ p # m M = (L # m L) @ m M" by (simp add: p)
      with that show ?thesis by (simp only: append_Cons)
    qed
    show "ring ?h vs" if "ring h vs" "set vs \<inter> set (M # us @ p # m M) = {}" for vs
      using that by (intro layout_splice_frame [OF rp rM]) auto
  qed (use up in auto)
  then show ?thesis by (simp add: rlist_append_def rlist_push_back_def pL)
qed

lemma layout_prepend [rl_layout]:
  assumes lay: "layout h S m F" and L: "L \<in> S" and M: "M \<in> S" and neq: "L \<noteq> M"
  shows "layout (rlist_prepend h L M) S (m(L := m M @ m L, M := [])) F"
proof -
  have rL: "ring h (L # m L)" and rM: "ring h (M # m M)"
    using layoutD(1) [OF lay L] layoutD(1) [OF lay M] .
  let ?h = "fst (rl_splice h L M)"
  have j: "ring ?h (L # m M @ M # m L)"
    by (rule splice_join [OF rL rM layoutD(3) [OF lay L M neq]])
  have "layout (fst (rlist_remove ?h M)) S (m(L := m M @ m L, M := [])) F"
  proof (rule layout_transfer [OF lay L M neq, where zs = "m L @ L # m M"])
    show "ring ?h (M # m L @ L # m M)"
      using ring_rotate [of ?h "L # m M" "M # m L"] j by simp
    show "ring g (L # m M @ m L)" if "ring g (m L @ L # m M)" for g
      using that ring_rotate [of g "m L" "L # m M"] by simp
    show "ring ?h vs" if "ring h vs" "set vs \<inter> set (M # m L @ L # m M) = {}" for vs
      using that by (intro layout_splice_frame [OF rL rM]) auto
  qed auto
  then show ?thesis by (simp add: rlist_prepend_def rlist_push_front_def)
qed

section \<open>Loops over a list\<close>

partial_function (option) rlist_len_loop ::
  "('n, 'k) rlheap \<Rightarrow> 'n \<Rightarrow> 'n \<Rightarrow> uint32 \<Rightarrow> uint32 option" where
  "rlist_len_loop h list p cnt =
     (if p \<noteq> list then rlist_len_loop h list (rl_next h p) (cnt + 1) else Some cnt)"

definition rlist_len :: "('n, 'k) rlheap \<Rightarrow> 'n \<Rightarrow> uint64 option" where
  "rlist_len h list = map_option ucast (rlist_len_loop h list (rl_next h list) 0)"

partial_function (option) rlist_equal_loop ::
  "('n, 'k) rlheap \<Rightarrow> 'n \<Rightarrow> 'n \<Rightarrow> 'n \<Rightarrow> 'n \<Rightarrow> bool option" where
  "rlist_equal_loop h L1 L2 i1 i2 =
     (if i1 \<noteq> L1 then
        if i2 = L2 \<or> rl_obj h i1 \<noteq> rl_obj h i2 then Some False
        else rlist_equal_loop h L1 L2 (rl_next h i1) (rl_next h i2)
      else Some (i2 = L2))"

definition rlist_equal :: "('n, 'k) rlheap \<Rightarrow> 'n \<Rightarrow> 'n \<Rightarrow> bool option" where
  "rlist_equal h L1 L2 = rlist_equal_loop h L1 L2 (rl_next h L1) (rl_next h L2)"

partial_function (option) rlist_find_loop ::
  "('n, 'k) rlheap \<Rightarrow> 'n \<Rightarrow> 'k \<Rightarrow> 'n option \<Rightarrow> 'n \<Rightarrow> 'n option option" where
  "rlist_find_loop h List key fail i =
     (if i \<noteq> List then
        if rl_obj h i = key then Some (Some i)
        else rlist_find_loop h List key fail (rl_next h i)
      else Some fail)"

definition rlist_find ::
  "('n, 'k) rlheap \<Rightarrow> 'n \<Rightarrow> 'k \<Rightarrow> 'n option \<Rightarrow> 'n option option" where
  "rlist_find h List key fail = rlist_find_loop h List key fail (rl_next h List)"

partial_function (option) rlist_select_loop ::
  "('n, 'k) rlheap \<Rightarrow> 'n \<Rightarrow> 'n \<Rightarrow> (('n, 'k) rlheap \<Rightarrow> 'n \<Rightarrow> bool) \<Rightarrow> 'n \<Rightarrow> ('n, 'k) rlheap option" where
  "rlist_select_loop h Lsrc Ldest pred I =
     (if rl_next h I \<noteq> Lsrc then
        if pred h (rl_next h I) then
          (let (h1, p) = rlist_remove h (rl_next h I);
               h2 = rlist_push_back h1 Ldest p
           in rlist_select_loop h2 Lsrc Ldest pred I)
        else rlist_select_loop h Lsrc Ldest pred (rl_next h I)
      else Some h)"

definition rlist_select ::
  "('n, 'k) rlheap \<Rightarrow> 'n \<Rightarrow> 'n \<Rightarrow> (('n, 'k) rlheap \<Rightarrow> 'n \<Rightarrow> bool) \<Rightarrow> ('n, 'k) rlheap option" where
  "rlist_select h Lsrc Ldest pred = rlist_select_loop h Lsrc Ldest pred Lsrc"

partial_function (option) rlist_reverse_loop ::
  "('n, 'k) rlheap \<Rightarrow> 'n \<Rightarrow> 'n \<Rightarrow> ('n, 'k) rlheap option" where
  "rlist_reverse_loop h l p =
     (let h1 = rlnode_swap h (PrevOf p) (NextOf p);
          p1 = rl_next h1 p
      in if p1 \<noteq> l then rlist_reverse_loop h1 l p1 else Some h1)"

definition rlist_reverse :: "('n, 'k) rlheap \<Rightarrow> 'n \<Rightarrow> ('n, 'k) rlheap option" where
  "rlist_reverse h l = rlist_reverse_loop h l l"

declare ring.simps(2) [simp]

lemma rlist_len_loop_seg:
  "seg h p xs L \<Longrightarrow> L \<notin> set (p # xs) \<Longrightarrow>
     rlist_len_loop h L p c = Some (c + 1 + of_nat (length xs))"
proof (induction xs arbitrary: p c)
  case Nil
  then show ?case by (simp add: rlist_len_loop.simps [of h L])
next
  case (Cons x xs)
  then show ?case by (subst rlist_len_loop.simps) (auto simp: algebra_simps)
qed

lemma rlist_len_ring:
  assumes "ring h (L # xs)"
  shows "rlist_len h L = Some (ucast (of_nat (length xs) :: uint32))"
proof (cases xs)
  case Nil
  with assms show ?thesis by (simp add: rlist_len_def rlist_len_loop.simps)
next
  case (Cons x zs)
  with assms have "seg h x zs L" "L \<notin> set (x # zs)" "rl_next h L = x" by auto
  with Cons show ?thesis by (simp add: rlist_len_def rlist_len_loop_seg)
qed

lemma rlist_equal_loop_seg:
  assumes "ring h (L1 # us @ xs)" and "ring h (L2 # vs @ ys)"
  shows "rlist_equal_loop h L1 L2 (hd (xs @ [L1])) (hd (ys @ [L2])) =
     Some (map (rl_obj h) xs = map (rl_obj h) ys)"
  using assms
proof (induction xs arbitrary: us vs ys)
  case Nil
  then show ?case by (cases ys) (auto simp: rlist_equal_loop.simps [of h L1 L2 L1])
next
  case (Cons x xs)
  have x: "x \<noteq> L1" "rl_next h x = hd (xs @ [L1])"
    using Cons.prems(1) by (auto dest: seg_next)
  show ?case
  proof (cases ys)
    case Nil
    with x show ?thesis by (simp add: rlist_equal_loop.simps [of h L1 L2 x])
  next
    case ys: (Cons y zs)
    have y: "y \<noteq> L2" "rl_next h y = hd (zs @ [L2])"
      using Cons.prems(2) ys by (auto dest: seg_next)
    have "rlist_equal_loop h L1 L2 (hd (xs @ [L1])) (hd (zs @ [L2])) =
        Some (map (rl_obj h) xs = map (rl_obj h) zs)"
      using Cons.IH [of "us @ [x]" "vs @ [y]" zs] Cons.prems ys by simp
    with x y ys show ?thesis by (simp add: rlist_equal_loop.simps [of h L1 L2 x])
  qed
qed

lemma rlist_equal_ring:
  assumes "ring h (L1 # xs)" and "ring h (L2 # ys)"
  shows "rlist_equal h L1 L2 = Some (map (rl_obj h) xs = map (rl_obj h) ys)"
proof -
  have "rl_next h L1 = hd (xs @ [L1])" "rl_next h L2 = hd (ys @ [L2])"
    using assms by (auto dest: seg_next)
  then show ?thesis
    using rlist_equal_loop_seg [of h L1 "[]" xs L2 "[]" ys] assms by (simp add: rlist_equal_def)
qed

lemma rlist_find_loop_seg:
  assumes "ring h (L # us @ xs)"
  shows "rlist_find_loop h L k fail (hd (xs @ [L])) =
     Some (case List.find (\<lambda>n. rl_obj h n = k) xs of Some n \<Rightarrow> Some n | None \<Rightarrow> fail)"
  using assms
proof (induction xs arbitrary: us)
  case Nil
  then show ?case by (simp add: rlist_find_loop.simps [of h L k fail L])
next
  case (Cons x xs)
  have x: "x \<noteq> L" "rl_next h x = hd (xs @ [L])"
    using Cons.prems by (auto dest: seg_next)
  then show ?case using Cons.IH [of "us @ [x]"] Cons.prems
    by (simp add: rlist_find_loop.simps [of h L k fail x])
qed

lemma rlist_find_ring:
  assumes "ring h (L # xs)"
  shows "rlist_find h L k fail =
     Some (case List.find (\<lambda>n. rl_obj h n = k) xs of Some n \<Rightarrow> Some n | None \<Rightarrow> fail)"
proof -
  have "rl_next h L = hd (xs @ [L])" using assms by (auto dest: seg_next)
  then show ?thesis
    using rlist_find_loop_seg [of h L "[]" xs] assms by (simp add: rlist_find_def)
qed

declare ring.simps(2) [simp del]

text \<open>Removing a node and pushing it on another list, seen on layouts.\<close>

lemma layout_move:
  assumes lay: "layout h S m F" and L: "L \<in> S" and M: "M \<in> S" and neq: "L \<noteq> M"
    and m: "m L = xs @ n # ys"
  shows "layout (rlist_push_back (fst (rlist_remove h n)) M n) S
           (m(L := xs @ ys, M := m M @ [n])) F"
proof -
  have nF: "n \<notin> F" using layoutD(4) [OF lay L] m by auto
  have "remove1 n (m L) = xs @ ys"
    using layout_distinct [OF lay L] m by simp
  then have "layout (fst (rlist_remove h n)) S (m(L := xs @ ys)) (insert n F)"
    using layout_remove [OF lay L, of n] m by simp
  from layout_push_back [OF this M, of n] neq nF show ?thesis by simp
qed

lemma rlist_select_loop_layout:
  assumes "layout h S m F" and "L \<in> S" and "M \<in> S" and "L \<noteq> M"
    and "m L = us @ xs" and "I = last (L # us)"
    and "\<And>g n. rl_obj g = rl_obj h \<Longrightarrow> pred g n \<longleftrightarrow> P n"
  shows "\<exists>h'. rlist_select_loop h L M pred I = Some h' \<and>
     layout h' S (m(L := us @ filter (\<lambda>n. \<not> P n) xs, M := m M @ filter P xs)) F"
  using assms
proof (induction xs arbitrary: h m us I)
  case Nil
  have "seg h L us L" using ringD(2) [OF layoutD(1) [OF Nil.prems(1,2)]] Nil.prems(5) by simp
  then have "rl_next h I = L"
    using Nil.prems(6) by (cases us rule: rev_cases) auto
  then show ?case using Nil.prems(1,5)
    by (simp add: rlist_select_loop.simps [of h] fun_upd_idem)
next
  case (Cons x xs)
  have r: "ring h (L # us @ x # xs)" using layoutD(1) [OF Cons.prems(1,2)] Cons.prems(5) by simp
  then have nx: "rl_next h I = x" "x \<noteq> L"
    using Cons.prems(6) by (cases us rule: rev_cases; auto simp: ring.simps)+
  show ?case
  proof (cases "P x")
    case True
    let ?h = "rlist_push_back (fst (rlist_remove h x)) M x"
    let ?m = "m(L := us @ xs, M := m M @ [x])"
    have obj: "rl_obj ?h = rl_obj h" by (simp add: rlist_push_back_def rlist_remove_def)
    have "layout ?h S ?m F"
      by (rule layout_move [OF Cons.prems(1-4), OF Cons.prems(5)])
    then have IH: "\<exists>h'. rlist_select_loop ?h L M pred I = Some h' \<and>
      layout h' S (?m(L := us @ filter (\<lambda>n. \<not> P n) xs, M := ?m M @ filter P xs)) F"
      by (rule Cons.IH) (use Cons.prems(2-4,6,7) obj in auto)
    have eq: "?m(L := us @ filter (\<lambda>n. \<not> P n) xs, M := ?m M @ filter P xs) =
      m(L := us @ filter (\<lambda>n. \<not> P n) (x # xs), M := m M @ filter P (x # xs))"
      using True Cons.prems(4) by (simp add: fun_upd_twist)
    have "rlist_select_loop h L M pred I = rlist_select_loop ?h L M pred I"
      using nx True Cons.prems(7) [of h x]
      by (simp add: rlist_select_loop.simps [of h] Let_def case_prod_beta rlist_remove_def)
    then show ?thesis using IH by (simp only: eq)
  next
    case False
    have "\<exists>h'. rlist_select_loop h L M pred x = Some h' \<and>
      layout h' S (m(L := (us @ [x]) @ filter (\<lambda>n. \<not> P n) xs, M := m M @ filter P xs)) F"
      using Cons.prems by (intro Cons.IH) auto
    moreover have "rlist_select_loop h L M pred I = rlist_select_loop h L M pred x"
      using nx False Cons.prems(7) [of h x] by (simp add: rlist_select_loop.simps [of h L M pred I])
    moreover have "filter (\<lambda>n. \<not> P n) (x # xs) = x # filter (\<lambda>n. \<not> P n) xs"
      and "filter P (x # xs) = filter P xs" using False by simp_all
    ultimately show ?thesis by (simp only: append_assoc append_Cons append_Nil)
  qed
qed

lemma rlist_select_layout:
  assumes "layout h S m F" and "L \<in> S" and "M \<in> S" and "L \<noteq> M"
    and "\<And>g n. rl_obj g = rl_obj h \<Longrightarrow> pred g n \<longleftrightarrow> P n"
  obtains h' where "rlist_select h L M pred = Some h'"
    and "layout h' S (m(L := filter (\<lambda>n. \<not> P n) (m L), M := m M @ filter P (m L))) F"
  using rlist_select_loop_layout [OF assms(1-4), of "[]" "m L" L pred P] assms(5)
  by (auto simp: rlist_select_def)

section \<open>Reversal\<close>

lemma swap_links [simp]:
  "rl_next (rlnode_swap h (PrevOf p) (NextOf p)) = (rl_next h)(p := rl_prev h p)"
  "rl_prev (rlnode_swap h (PrevOf p) (NextOf p)) = (rl_prev h)(p := rl_next h p)"
  "rl_obj (rlnode_swap h (PrevOf p) (NextOf p)) = rl_obj h"
  by (auto simp: rlnode_swap_def Let_def)

text \<open>Going backwards from \<open>p\<close> through \<open>ps\<close> to \<open>l\<close>, the loop exchanges the links of exactly
  these nodes.\<close>

fun back_path :: "('n, 'k) rlheap \<Rightarrow> 'n \<Rightarrow> 'n list \<Rightarrow> 'n \<Rightarrow> bool" where
  "back_path h p [] l \<longleftrightarrow> rl_prev h p = l"
| "back_path h p (q # ps) l \<longleftrightarrow> rl_prev h p = q \<and> back_path h q ps l"

lemma back_path_snoc: "back_path h p (ps @ [q]) l \<longleftrightarrow> back_path h p ps q \<and> rl_prev h q = l"
  by (induction ps arbitrary: p) auto

lemma seg_back_path: "seg h a xs b \<Longrightarrow> back_path h b (rev xs) a"
  by (induction xs arbitrary: a) (auto simp: back_path_snoc)

lemma back_path_cong:
  "back_path h p ps l \<Longrightarrow> (\<And>x. x \<in> set (p # ps) \<Longrightarrow> rl_prev h' x = rl_prev h x) \<Longrightarrow>
     back_path h' p ps l"
  by (induction ps arbitrary: p) auto

text \<open>\<open>flipped h h' A\<close>: the heaps agree, but for exchanged links at the nodes of \<open>A\<close>.\<close>

definition flipped :: "('n, 'k) rlheap \<Rightarrow> ('n, 'k) rlheap \<Rightarrow> 'n set \<Rightarrow> bool" where
  "flipped h h' A \<longleftrightarrow> rl_obj h' = rl_obj h \<and>
     (\<forall>x. rl_next h' x = (if x \<in> A then rl_prev h x else rl_next h x) \<and>
          rl_prev h' x = (if x \<in> A then rl_next h x else rl_prev h x))"

lemma flippedD:
  assumes "flipped h h' A"
  shows "rl_obj h' = rl_obj h"
    and "x \<in> A \<Longrightarrow> rl_next h' x = rl_prev h x" and "x \<in> A \<Longrightarrow> rl_prev h' x = rl_next h x"
    and "x \<notin> A \<Longrightarrow> rl_next h' x = rl_next h x" and "x \<notin> A \<Longrightarrow> rl_prev h' x = rl_prev h x"
  using assms by (simp_all add: flipped_def)

lemma flipped_swap: "flipped h (rlnode_swap h (PrevOf p) (NextOf p)) {p}"
  by (simp add: flipped_def)

lemma flipped_trans:
  "flipped h h1 A \<Longrightarrow> flipped h1 h2 B \<Longrightarrow> A \<inter> B = {} \<Longrightarrow> flipped h h2 (A \<union> B)"
  unfolding flipped_def by (metis (no_types, lifting) Un_iff disjoint_iff)

lemma rlist_reverse_loop_path:
  assumes "back_path h p ps l" and "distinct (p # ps)" and "l \<notin> set ps"
  shows "\<exists>h'. rlist_reverse_loop h l p = Some h' \<and> flipped h h' (set (p # ps))"
  using assms
proof (induction ps arbitrary: h p)
  case Nil
  then have "rlist_reverse_loop h l p = Some (rlnode_swap h (PrevOf p) (NextOf p))"
    by (subst rlist_reverse_loop.simps) (simp add: Let_def)
  then show ?case using flipped_swap [of h p] by simp
next
  case (Cons q ps)
  let ?h = "rlnode_swap h (PrevOf p) (NextOf p)"
  have "back_path ?h q ps l"
    by (rule back_path_cong [of h]) (use Cons.prems in auto)
  then obtain h' where h': "rlist_reverse_loop ?h l q = Some h'" "flipped ?h h' (set (q # ps))"
    using Cons.IH [of ?h q] Cons.prems(2,3) by auto
  have "rlist_reverse_loop h l p = rlist_reverse_loop ?h l q"
    using Cons.prems by (subst rlist_reverse_loop.simps) (auto simp: Let_def)
  moreover have "flipped h h' ({p} \<union> set (q # ps))"
    by (rule flipped_trans [OF flipped_swap h'(2)]) (use Cons.prems(2) in auto)
  ultimately show ?case using h'(1) by (simp add: insert_commute)
qed

lemma seg_reversed:
  assumes "seg h a xs b" and "flipped h h' A" and "set (a # xs @ [b]) \<subseteq> A"
  shows "seg h' b (rev xs) a"
  using assms by (induction xs arbitrary: a) (auto simp: flippedD)

lemma rlist_reverse_ring:
  assumes "ring h (L # xs)"
  obtains h' where "rlist_reverse h L = Some h'" and "ring h' (L # rev xs)"
    and "\<And>zs. ring h zs \<Longrightarrow> set zs \<inter> set (L # xs) = {} \<Longrightarrow> ring h' zs"
    and "rl_obj h' = rl_obj h"
proof -
  note s = ringD [OF assms]
  obtain h' where h': "rlist_reverse_loop h L L = Some h'" "flipped h h' (set (L # xs))"
    using rlist_reverse_loop_path [OF seg_back_path [OF s(2)]] s(1) by auto
  show ?thesis
  proof (rule that)
    show "rlist_reverse h L = Some h'" using h'(1) by (simp add: rlist_reverse_def)
    have "seg h' L (rev xs) L" by (rule seg_reversed [OF s(2) h'(2)]) simp
    then show "ring h' (L # rev xs)" using s(1) by (simp add: ring.simps)
    show "ring h' zs" if "ring h zs" "set zs \<inter> set (L # xs) = {}" for zs
      by (rule ring_cong [OF that(1)]) (use that(2) flippedD [OF h'(2)] in blast)+
  qed (rule flippedD(1) [OF h'(2)])
qed

section \<open>Initialisation\<close>

lemma init_links [simp]:
  "rl_next (rlnode_init h p k) = (rl_next h)(p := p)"
  "rl_prev (rlnode_init h p k) = (rl_prev h)(p := p)"
  "rl_obj (rlnode_init h p k) = (rl_obj h)(p := k)"
  by (simp_all add: rlnode_init_def rlnode_new_def Let_def)

lemma init_frame: "ring h zs \<Longrightarrow> p \<notin> set zs \<Longrightarrow> ring (rlnode_init h p k) zs"
  by (rule ring_cong [of h]) auto

lemma layout_init_node:
  assumes "layout h S m F" and "\<And>L. L \<in> S \<Longrightarrow> n \<notin> set (L # m L)"
  shows "layout (rlnode_init h n k) S m (insert n F)"
  using assms init_frame [of h _ n k] unfolding layout_def by (auto simp del: ring.simps)

lemma layout_init_sentinel:
  assumes lay: "layout h S m F" and new: "L \<notin> S" "L \<notin> F" "\<And>L'. L' \<in> S \<Longrightarrow> L \<notin> set (m L')"
  shows "layout (rlnode_init h L k) (insert L S) (m(L := [])) F"
proof -
  have "ring (rlnode_init h L k) (L' # m L')" if "L' \<in> S" for L'
    using init_frame [OF layoutD(1) [OF lay that], of L k] new that by auto
  moreover have "ring (rlnode_init h L k) [n]" if "n \<in> F" for n
    using init_frame [OF layoutD(2) [OF lay that], of L k] new that by auto
  ultimately show ?thesis
    using lay new unfolding layout_def by (auto simp del: ring.simps)
qed

section \<open>The interface its clients use\<close>

text \<open>
  What the kernel relies on when it threads its objects through intrusive lists: each
  operation acts on the list of one sentinel as the corresponding operation on HOL lists
  acts on a sequence, and leaves every other list of the heap alone.
\<close>

locale intrusive_lists =
  fixes lay :: "'h \<Rightarrow> 'n set \<Rightarrow> ('n \<Rightarrow> 'n list) \<Rightarrow> 'n set \<Rightarrow> bool"
    and push_front :: "'h \<Rightarrow> 'n \<Rightarrow> 'n \<Rightarrow> 'h"
    and push_back :: "'h \<Rightarrow> 'n \<Rightarrow> 'n \<Rightarrow> 'h"
    and pop_front :: "'h \<Rightarrow> 'n \<Rightarrow> 'h \<times> 'n"
    and remove :: "'h \<Rightarrow> 'n \<Rightarrow> 'h \<times> 'n"
    and is_empty :: "'h \<Rightarrow> 'n \<Rightarrow> bool"
  assumes push_front: "lay h S m F \<Longrightarrow> L \<in> S \<Longrightarrow> n \<in> F \<Longrightarrow>
      lay (push_front h L n) S (m(L := n # m L)) (F - {n})"
    and push_back: "lay h S m F \<Longrightarrow> L \<in> S \<Longrightarrow> n \<in> F \<Longrightarrow>
      lay (push_back h L n) S (m(L := m L @ [n])) (F - {n})"
    and pop_front_node: "lay h S m F \<Longrightarrow> L \<in> S \<Longrightarrow> m L = x # xs \<Longrightarrow> snd (pop_front h L) = x"
    and pop_front: "lay h S m F \<Longrightarrow> L \<in> S \<Longrightarrow> m L = x # xs \<Longrightarrow>
      lay (fst (pop_front h L)) S (m(L := xs)) (insert x F)"
    and pop_front_empty: "lay h S m F \<Longrightarrow> L \<in> S \<Longrightarrow> m L = [] \<Longrightarrow> pop_front h L = (h, L)"
    and remove: "lay h S m F \<Longrightarrow> L \<in> S \<Longrightarrow> n \<in> set (m L) \<Longrightarrow>
      lay (fst (remove h n)) S (m(L := remove1 n (m L))) (insert n F)"
    and remove_free: "lay h S m F \<Longrightarrow> n \<in> F \<Longrightarrow> remove h n = (h, n)"
    and is_empty: "lay h S m F \<Longrightarrow> L \<in> S \<Longrightarrow> is_empty h L \<longleftrightarrow> m L = []"
    and free_outside: "lay h S m F \<Longrightarrow> n \<in> F \<Longrightarrow> L \<in> S \<Longrightarrow> n \<notin> set (m L)"
begin

text \<open>Nodes pushed at the back of an empty list come out of the front in the same order.\<close>

lemma push_all:
  assumes "lay h S m F" and "L \<in> S" and "set ns \<subseteq> F" and "distinct ns"
  shows "lay (foldl (\<lambda>g n. push_back g L n) h ns) S (m(L := m L @ ns)) (F - set ns)"
  using assms
proof (induction ns arbitrary: h m F)
  case Nil
  then show ?case by simp
next
  case (Cons n ns)
  have "lay (push_back h L n) S (m(L := m L @ [n])) (F - {n})"
    using Cons.prems by (intro push_back) auto
  then have "lay (foldl (\<lambda>g n. push_back g L n) (push_back h L n) ns) S
      ((m(L := m L @ [n]))(L := (m(L := m L @ [n])) L @ ns)) (F - {n} - set ns)"
    by (rule Cons.IH) (use Cons.prems in auto)
  moreover have "F - {n} - set ns = F - set (n # ns)" by auto
  ultimately show ?case by (simp del: fun_upd_apply add: fun_upd_same)
qed

lemma push_pop_fifo:
  assumes "lay h S m F" and "L \<in> S" and "n \<in> F" and "m L = x # xs"
  shows "snd (pop_front (push_back h L n) L) = x"
    and "lay (fst (pop_front (push_back h L n) L)) S (m(L := xs @ [n])) (insert x (F - {n}))"
proof -
  have l: "lay (push_back h L n) S (m(L := m L @ [n])) (F - {n})"
    using assms by (intro push_back) auto
  show "snd (pop_front (push_back h L n) L) = x"
    using pop_front_node [OF l assms(2)] assms(4) by simp
  show "lay (fst (pop_front (push_back h L n) L)) S (m(L := xs @ [n])) (insert x (F - {n}))"
    using pop_front [OF l assms(2)] assms(4) by simp
qed

lemma push_then_remove:
  assumes "lay h S m F" and "L \<in> S" and "n \<in> F"
  shows "lay (fst (remove (push_back h L n) n)) S m F"
proof -
  have l: "lay (push_back h L n) S (m(L := m L @ [n])) (F - {n})"
    using assms by (intro push_back) auto
  have "remove1 n (m L @ [n]) = m L"
    using free_outside [OF assms(1,3,2)] by (simp add: remove1_append)
  then show ?thesis
    using remove [OF l assms(2), of n] assms(3) by (simp add: insert_absorb)
qed

end

interpretation rl: intrusive_lists layout rlist_push_front rlist_push_back rlist_pop_front
  rlist_remove is_rlist_empty
  by unfold_locales (simp_all add: rl_layout layout_free_notin)

text \<open>No list operation touches the payload of a node.\<close>

lemma obj_rlist [simp]:
  "rl_obj (rlist_push_back h L n) = rl_obj h"
  "rl_obj (rlist_push_front h L n) = rl_obj h"
  "rl_obj (fst (rlist_remove h n)) = rl_obj h"
  "rl_obj (fst (rlist_pop_front h L)) = rl_obj h"
  by (simp_all add: rlist_push_back_def rlist_push_front_def rlist_remove_def rlist_pop_front_def)

end
