(* ===== verification/Rlist_Props.thy ===== *)
theory Rlist_Props
  imports Rlist
begin

text \<open>
  What the resource lists of \<^verbatim>\<open>util.h\<close> promise: splicing twice restores the heap, each operation
  acts on the list of a sentinel as its counterpart on HOL lists does, the loops end and compute
  their functional counterparts, and the one operation that does not do what its comment says.
\<close>

section \<open>A concrete heap\<close>

text \<open>Two lists with sentinels 0 and 5: the nodes 1, 2, 3 and the empty list; node 4 is free.\<close>

definition ex_ring :: "(nat, nat) rlheap" where
  "ex_ring = \<lparr>rl_obj = (\<lambda>n. 10 * n), rl_prev = id(0 := 3, 1 := 0, 2 := 1, 3 := 2),
     rl_next = id(0 := 1, 1 := 2, 2 := 3, 3 := 0)\<rparr>"

definition ex_lists :: "nat \<Rightarrow> nat list" where
  "ex_lists = (\<lambda>_. [])(0 := [1, 2, 3])"

lemma ex_ring_ring: "ring ex_ring [0, 1, 2, 3]" "ring ex_ring [5]" "ring ex_ring [4]"
  by (simp_all add: ex_ring_def ring.simps)

lemma ex_layout: "layout ex_ring {0, 5} ex_lists {4}"
  using ex_ring_ring by (simp add: layout_def ex_lists_def)

section \<open>Properties\<close>

text \<open>A splice is undone by repeating it, on every heap and for any two nodes.\<close>

lemma splice_involution: "rl_splice (fst (rl_splice h a b)) a b = (h, b)"
proof -
  define g where "g = fst (rl_splice h a b)"
  have g: "rl_next g = (rl_next h)(a := rl_next h b, b := rl_next h a)"
    "rl_prev g = (rl_prev h)(rl_next h a := rl_prev h (rl_next h b), rl_next h b := rl_prev h (rl_next h a))"
    "rl_obj g = rl_obj h" by (simp_all add: g_def)
  have "rl_next (fst (rl_splice g a b)) = rl_next h" by (auto simp: g(1))
  moreover have "rl_next g a = rl_next h b" "rl_next g b = rl_next h a" by (auto simp: g(1))
  then have "rl_prev (fst (rl_splice g a b)) = rl_prev h" by (auto simp: g(2))
  moreover have "rl_obj (fst (rl_splice g a b)) = rl_obj h" by (simp add: g(3))
  ultimately have "fst (rl_splice g a b) = h" by simp
  then show ?thesis unfolding g_def [symmetric] by (metis prod.collapse splice_snd)
qed



text \<open>C33: The loops over a list end and compute what they should: \<open>rlist_len\<close> the length (as an
  \<open>unsigned int\<close>), \<open>rlist_equal\<close> whether the keys agree, \<open>rlist_find\<close> the first node with the key
  or the default, \<open>rlist_reverse\<close> the reversed list.\<close>

theorem list_loops_correct:
  assumes "ring h (L # xs)" and "ring h (M # ys)"
  shows "rlist_len h L = Some (ucast (of_nat (length xs) :: uint32)) \<and>
     rlist_equal h L M = Some (map (rl_obj h) xs = map (rl_obj h) ys) \<and>
     rlist_find h L key dflt = Some (case find (\<lambda>n. rl_obj h n = key) xs of Some n \<Rightarrow> Some n | None \<Rightarrow> dflt) \<and>
     (\<exists>h'. rlist_reverse h L = Some h' \<and> ring h' (L # rev xs) \<and> rl_obj h' = rl_obj h)"
proof (intro conjI)
  show "\<exists>h'. rlist_reverse h L = Some h' \<and> ring h' (L # rev xs) \<and> rl_obj h' = rl_obj h"
    by (rule rlist_reverse_ring [OF assms(1)]) blast
qed (rule rlist_len_ring rlist_equal_ring rlist_find_ring assms)+

theorem list_loops_correct_witness:
  "rlist_len ex_ring 0 = Some 3 \<and> rlist_equal ex_ring 0 5 = Some False \<and>
   rlist_find ex_ring 0 20 None = Some (Some 2) \<and>
   (\<exists>h'. rlist_reverse ex_ring 0 = Some h' \<and> ring h' [0, 3, 2, 1])"
  using list_loops_correct [OF ex_ring_ring(1,2), of 20 None] by (auto simp: ex_ring_def)

text \<open>\<open>rlist_select\<close> ends and moves exactly the nodes that satisfy the predicate, in order, to
  the end of the destination.\<close>

lemma list_select_correct:
  assumes "layout h S m F" and "L \<in> S" and "M \<in> S" and "L \<noteq> M"
    and "\<And>g n. rl_obj g = rl_obj h \<Longrightarrow> pred g n \<longleftrightarrow> P n"
  shows "\<exists>h'. rlist_select h L M pred = Some h' \<and>
     layout h' S (m(L := filter (\<lambda>n. \<not> P n) (m L), M := m M @ filter P (m L))) F"
  by (rule rlist_select_layout [where pred = pred and P = P, OF assms(1-4)]) (use assms(5) in auto)

text \<open>\<open>rlist_pop_back\<close> does not pop the tail: on a list that is not empty it returns the last node,
  but leaves the list empty and the returned node in a ring with all the other nodes.\<close>

lemma pop_back_empties_list:
  assumes "ring h (L # xs @ [x])"
  shows "snd (rlist_pop_back h L) = x \<and> ring (fst (rlist_pop_back h L)) [L] \<and>
     ring (fst (rlist_pop_back h L)) (x # xs)"
proof -
  have "rl_prev h L = x" using seg_prev [OF ringD(2) [OF assms]] by simp
  then show ?thesis using splice_cut [of h L xs x "[]"] assms by (simp add: rlist_pop_back_def)
qed

end
