(* ===== verification/Exceptions.thy ===== *)
theory Exceptions
  imports Prelude
begin

text \<open>
  The exception mechanism, \<^verbatim>\<open>util.h\<close> and \<^verbatim>\<open>util.c\<close>.

  An exception context is the stack of the frames of the active TRY blocks, innermost first. A
  handler changes the state of the program and may itself raise an exception (the boolean): the
  frame is still on the stack then, so the \<open>longjmp\<close> goes to the \<open>setjmp\<close> of the same TRY block, which
  enters \<open>exception_unwind\<close> again with code 1 for the handlers that are left. After a jump the
  program continues behind the TRY block whose frame was popped last, so the remaining stack says
  where that is.
\<close>

section \<open>Frames and handlers\<close>

type_synonym 's exception_handler = "int \<Rightarrow> 's \<Rightarrow> 's \<times> bool"

record 's exception_stack_frame =
  catchers :: "'s exception_handler list"
  finalizers :: "'s exception_handler list"

type_synonym 's exception_context = "'s exception_stack_frame list"

fun exception_unwind ::
  "int \<Rightarrow> bool \<Rightarrow> 's exception_handler list \<Rightarrow> 's exception_handler list \<Rightarrow> 's \<Rightarrow> 's \<times> bool" where
  "exception_unwind errcode captured (c # cs) fs s =
     (let (s1, raises) = c errcode s
      in if raises then exception_unwind 1 False cs fs s1 else exception_unwind errcode True cs fs s1)"
| "exception_unwind errcode captured [] (f # fs) s =
     (let (s1, raises) = f errcode s
      in if raises then exception_unwind 1 False [] fs s1 else exception_unwind errcode captured [] fs s1)"
| "exception_unwind errcode captured [] [] s = (s, errcode \<noteq> 0 \<and> \<not> captured)"

text \<open>\<open>raise_exception\<close> on an empty context returns.\<close>

fun raise_exception :: "'s exception_context \<Rightarrow> 's \<Rightarrow> 's exception_context \<times> 's" where
  "raise_exception [] s = ([], s)"
| "raise_exception (frame # rest) s =
     (let (s1, propagate) = exception_unwind 1 False (catchers frame) (finalizers frame) s
      in if propagate then raise_exception rest s1 else (rest, s1))"

definition exc_push_frame ::
  "'s exception_context \<Rightarrow> 's exception_stack_frame \<Rightarrow> 's exception_context" where
  "exc_push_frame context frame = frame # context"

fun exc_exit_try :: "'s exception_context \<Rightarrow> 's \<Rightarrow> 's exception_context \<times> 's" where
  "exc_exit_try [] s = ([], s)"
| "exc_exit_try (frame # rest) s =
     (let (s1, propagate) = exception_unwind 0 False [] (finalizers frame) s
      in if propagate then raise_exception rest s1 else (rest, s1))"

fun on_error :: "'s exception_handler \<Rightarrow> 's exception_context \<Rightarrow> 's exception_context" where
  "on_error h [] = []"
| "on_error h (frame # rest) = frame\<lparr>catchers := h # catchers frame\<rparr> # rest"

fun on_finally :: "'s exception_handler \<Rightarrow> 's exception_context \<Rightarrow> 's exception_context" where
  "on_finally h [] = []"
| "on_finally h (frame # rest) = frame\<lparr>finalizers := h # finalizers frame\<rparr> # rest"

section \<open>Programs with TRY blocks\<close>

text \<open>A statement does something and may raise, declares a handler, or is a nested block.\<close>

datatype 's stmt =
  Do "'s \<Rightarrow> 's \<times> bool" | ON_ERROR "'s exception_handler" | FINALLY "'s exception_handler" |
  TRY "'s stmt list"

text \<open>\<open>run_block\<close> executes the body of a block whose frame is on top of the context; the boolean
  says that control has left it by a jump. \<open>TRY_WITH\<close> is \<open>run_stmt\<close> on a block.\<close>

fun run_stmt :: "'s stmt \<Rightarrow> 's exception_context \<Rightarrow> 's \<Rightarrow> 's exception_context \<times> 's \<times> bool"
and run_block :: "'s stmt list \<Rightarrow> 's exception_context \<Rightarrow> 's \<Rightarrow> 's exception_context \<times> 's \<times> bool" where
  "run_stmt (Do f) ctx s =
     (let (s1, raises) = f s
      in if raises \<and> ctx \<noteq> [] then (case raise_exception ctx s1 of (ctx1, s2) \<Rightarrow> (ctx1, s2, True))
         else (ctx, s1, False))"
| "run_stmt (ON_ERROR h) ctx s = (on_error h ctx, s, False)"
| "run_stmt (FINALLY h) ctx s = (on_finally h ctx, s, False)"
| "run_stmt (TRY body) ctx s =
     (let (ctx1, s1, jumped) = run_block body (exc_push_frame ctx \<lparr>catchers = [], finalizers = []\<rparr>) s;
          (ctx2, s2) = (if jumped then (ctx1, s1) else exc_exit_try ctx1 s1)
      in (ctx2, s2, length ctx2 < length ctx))"
| "run_block [] ctx s = (ctx, s, False)"
| "run_block (st # sts) ctx s =
     (let (ctx1, s1, jumped) = run_stmt st ctx s
      in if jumped then (ctx1, s1, True) else run_block sts ctx1 s1)"

section \<open>Unwinding one frame\<close>

text \<open>Handlers that write their name and the code into a trace; \<open>R\<close> tells which of them raise.\<close>

type_synonym 'h trace = "('h \<times> int) list"

definition logged :: "('h \<Rightarrow> bool) \<Rightarrow> 'h \<Rightarrow> 'h trace exception_handler" where
  "logged R h = (\<lambda>e tr. (tr @ [(h, e)], R h))"

text \<open>The codes the handlers of a frame get: the code of the exception, and 1 once one of them has
  raised.\<close>

fun deliveries :: "('h \<Rightarrow> bool) \<Rightarrow> int \<Rightarrow> 'h list \<Rightarrow> 'h trace" where
  "deliveries R e [] = []"
| "deliveries R e (h # hs) = (h, e) # deliveries R (if R h then 1 else e) hs"

lemma deliveries_names: "map fst (deliveries R e hs) = hs"
  by (induction hs arbitrary: e) auto

lemma deliveries_quiet: "(\<And>h. h \<in> set hs \<Longrightarrow> \<not> R h) \<Longrightarrow> deliveries R e hs = map (\<lambda>h. (h, e)) hs"
  by (induction hs) auto

lemma run_logged [simp]: "(case logged R h e tr of (t, raises) \<Rightarrow> f t raises) = f (tr @ [(h, e)]) (R h)"
  by (simp add: logged_def)

lemma unwind_finalizers:
  "exception_unwind e cap [] (map (logged R) fs) tr =
     (tr @ deliveries R e fs, (\<exists>f \<in> set fs. R f) \<or> e \<noteq> 0 \<and> \<not> cap)"
  by (induction fs arbitrary: e cap tr) auto

lemma unwind_all:
  "exception_unwind e cap (map (logged R) cs) (map (logged R) fs) tr =
     (tr @ deliveries R e (cs @ fs),
      (\<exists>f \<in> set fs. R f) \<or> (if cs = [] then e \<noteq> 0 \<and> \<not> cap else R (last cs)))"
  by (induction cs arbitrary: e cap tr) (auto simp: unwind_finalizers)

section \<open>The stack\<close>

lemma raise_suffix: "\<exists>n. fst (raise_exception ctx s) = drop n ctx \<and> (ctx \<noteq> [] \<longrightarrow> 0 < n)"
proof (induction ctx arbitrary: s)
  case (Cons fr rest)
  obtain s1 p where u: "exception_unwind 1 False (catchers fr) (finalizers fr) s = (s1, p)" by force
  obtain n where "fst (raise_exception rest s1) = drop n rest" using Cons by blast
  then show ?case using u by (cases p) (auto intro: exI [of _ "Suc n"] exI [of _ "Suc 0"])
qed simp

lemma exit_suffix: "\<exists>n. fst (exc_exit_try (fr # rest) s) = drop n rest"
proof -
  obtain s1 p where u: "exception_unwind 0 False [] (finalizers fr) s = (s1, p)" by force
  show ?thesis using u raise_suffix [of rest s1] by (cases p) (auto intro: exI [of _ 0])
qed

text \<open>\<open>below ctx ctx' j\<close>: a jump left a proper suffix of the frames below the top; otherwise only
  the handlers of the top frame have changed.\<close>

definition below :: "'s exception_context \<Rightarrow> 's exception_context \<Rightarrow> bool \<Rightarrow> bool" where
  "below ctx ctx' j \<longleftrightarrow>
     (if j then \<exists>n > 0. ctx' = drop n ctx \<and> ctx \<noteq> [] else length ctx' = length ctx \<and> tl ctx' = tl ctx)"

lemma below_trans: "below ctx ctx1 False \<Longrightarrow> below ctx1 ctx2 j \<Longrightarrow> below ctx ctx2 j"
proof (cases j)
  case True
  assume b: "below ctx ctx1 False" "below ctx1 ctx2 j"
  then obtain n where n: "0 < n" "ctx2 = drop n ctx1" "ctx1 \<noteq> []" using True by (auto simp: below_def)
  then obtain m where "n = Suc m" by (cases n) auto
  then have "ctx2 = drop m (tl ctx1)" using n by (simp add: drop_Suc)
  then have "ctx2 = drop n ctx" "ctx \<noteq> []" using b(1) n \<open>n = Suc m\<close> by (auto simp: below_def drop_Suc)
  then show ?thesis using True n(1) by (auto simp: below_def)
qed (auto simp: below_def)

lemma try_pops:
  assumes "below (fr # ctx) ctx1 j"
  shows "\<exists>n. fst (if j then (ctx1, s1) else exc_exit_try ctx1 s1) = drop n ctx"
proof (cases j)
  case True
  then obtain n where "0 < n" "ctx1 = drop n (fr # ctx)" using assms by (auto simp: below_def)
  then show ?thesis using True by (cases n) auto
next
  case False
  then obtain fr' where "ctx1 = fr' # ctx" using assms by (cases ctx1) (auto simp: below_def)
  then show ?thesis using exit_suffix [of fr' ctx s1] False by simp
qed

lemma run_below:
  "below ctx (fst (run_stmt st ctx s)) (snd (snd (run_stmt st ctx s)))"
  "below ctx (fst (run_block sts ctx s)) (snd (snd (run_block sts ctx s)))"
proof (induction st ctx s and sts ctx s rule: run_stmt_run_block.induct)
  case (1 f ctx s)
  then show ?case using raise_suffix [of ctx "fst (f s)"]
    by (auto simp: below_def Let_def split: prod.splits)
next
  case (2 h ctx s)
  then show ?case by (cases ctx) (simp_all add: below_def)
next
  case (3 h ctx s)
  then show ?case by (cases ctx) (simp_all add: below_def)
next
  case (4 body ctx s)
  let ?fr = "\<lparr>catchers = [], finalizers = []\<rparr>"
  obtain ctx1 s1 j where r: "run_block body (exc_push_frame ctx ?fr) s = (ctx1, s1, j)" by (metis prod_cases3)
  have b: "below (?fr # ctx) ctx1 j" using 4 r by (simp add: exc_push_frame_def)
  define ctx2 where "ctx2 = fst (if j then (ctx1, s1) else exc_exit_try ctx1 s1)"
  have "\<exists>n. ctx2 = drop n ctx" using try_pops [OF b] by (simp add: ctx2_def)
  then obtain n where n: "ctx2 = drop n ctx" by blast
  have res: "fst (run_stmt (TRY body) ctx s) = ctx2"
    "snd (snd (run_stmt (TRY body) ctx s)) = (length ctx2 < length ctx)"
    by (simp_all add: r ctx2_def split_beta Let_def)
  show ?case unfolding res
  proof (cases "length ctx2 < length ctx")
    case True
    then have "0 < n" using n by (cases n) auto
    then show "below ctx ctx2 (length ctx2 < length ctx)" using True n by (auto simp: below_def)
  next
    case False
    then have "n = 0 \<or> ctx = []" using n by (cases ctx) auto
    then show "below ctx ctx2 (length ctx2 < length ctx)" using n False by (auto simp: below_def)
  qed
next
  case (5 ctx s)
  then show ?case by (simp add: below_def)
next
  case (6 st sts ctx s)
  obtain ctx1 s1 j where r: "run_stmt st ctx s = (ctx1, s1, j)" by (metis prod_cases3)
  show ?case
  proof (cases j)
    case True
    then show ?thesis using 6(1) r by simp
  next
    case False
    have "below ctx1 (fst (run_block sts ctx1 s1)) (snd (snd (run_block sts ctx1 s1)))"
      using 6(2) r False by simp
    then show ?thesis using 6(1) r False below_trans [of ctx ctx1] by simp
  qed
qed

lemma try_suffix:
  assumes "run_stmt (TRY body) ctx s = (ctx', s', False)"
  shows "ctx' = ctx"
proof -
  let ?fr = "\<lparr>catchers = [], finalizers = []\<rparr>"
  obtain ctx1 s1 j where r: "run_block body (exc_push_frame ctx ?fr) s = (ctx1, s1, j)" by (metis prod_cases3)
  have b: "below (?fr # ctx) ctx1 j"
    using run_below(2) [of "?fr # ctx" body s] r by (simp add: exc_push_frame_def)
  obtain n where n: "fst (if j then (ctx1, s1) else exc_exit_try ctx1 s1) = drop n ctx"
    using try_pops [OF b] by blast
  have "ctx' = drop n ctx" "\<not> length ctx' < length ctx"
    using assms n by (auto simp: r split: prod.splits if_splits)
  then show ?thesis by (cases "n = 0 \<or> ctx = []") auto
qed

section \<open>Properties\<close>



text \<open>Without raising handlers, an exception is handled by the innermost frame that has a
  catcher; the frames inside it run their finalizers only, from the innermost frame on, the frames
  outside it are untouched.\<close>

lemma innermost_catcher_handles:
  assumes "cs \<noteq> []"
  shows "raise_exception
       (map (\<lambda>gs. \<lparr>catchers = [], finalizers = map (logged (\<lambda>_. False)) gs\<rparr>) inner @
        \<lparr>catchers = map (logged (\<lambda>_. False)) cs, finalizers = map (logged (\<lambda>_. False)) fs\<rparr> # outer) tr =
     (outer, tr @ map (\<lambda>h. (h, 1)) (concat inner @ cs @ fs))"
  using assms
proof (induction inner arbitrary: tr)
  case Nil
  then show ?case by (simp add: unwind_all deliveries_quiet)
next
  case (Cons gs inner)
  then show ?case by (simp add: unwind_finalizers deliveries_quiet)
qed

lemma innermost_catcher_handles_witness:
  "raise_exception
     [\<lparr>catchers = [], finalizers = [logged (\<lambda>_. False) (1::nat)]\<rparr>,
      \<lparr>catchers = [logged (\<lambda>_. False) 2], finalizers = [logged (\<lambda>_. False) 3]\<rparr>,
      \<lparr>catchers = [logged (\<lambda>_. False) 4], finalizers = []\<rparr>] [] =
   ([\<lparr>catchers = [logged (\<lambda>_. False) 4], finalizers = []\<rparr>], [(1, 1), (2, 1), (3, 1)])"
  using innermost_catcher_handles [of "[2::nat]" "[[1]]" "[3]"
      "[\<lparr>catchers = [logged (\<lambda>_. False) (4::nat)], finalizers = []\<rparr>]" "[]"] by simp

text \<open>However a program with nested TRY blocks runs, its blocks keep the exception stack: after a
  TRY block the context is the one before it, unless an exception left the block, and then what
  remains is the context of an enclosing block, reached by popping frames only.\<close>

lemma try_keeps_stack:
  "case run_stmt (TRY body) ctx s of
     (ctx', s', jumped) \<Rightarrow> if jumped then \<exists>n > 0. ctx' = drop n ctx \<and> ctx \<noteq> [] else ctx' = ctx"
proof -
  obtain ctx' s' j where r: "run_stmt (TRY body) ctx s = (ctx', s', j)" by (metis prod_cases3)
  have "below ctx ctx' j" using run_below(1) [of ctx "TRY body" s] r by simp
  moreover have "ctx' = ctx" if "\<not> j" using try_suffix [of body ctx s] r that by auto
  ultimately show ?thesis using r by (auto simp: below_def)
qed

end
