(* ===== verification/Bios.thy ===== *)
theory Bios
  imports Rlist
begin

text \<open>
  The virtual machine of \<^verbatim>\<open>bios.c\<close>: cores with their interrupt vectors, pending interrupts and
  halt state, the per-core timer, the coarse clock and the serial devices.

  The POSIX layer below it (signals, threads, \<open>poll\<close>, \<open>read\<close>, \<open>write\<close>, \<open>timer_settime\<close>) is not
  part of the repository. A queued \<open>SIGUSR1\<close> is a counter per core, whose handler is the
  function \<open>sigusr1_handler\<close>; what a system call returns is an argument of the operation that
  makes it. An interrupt handler is a pointer to kernel code: the functions that call one take
  its effect on the machine as the argument \<open>run\<close>.
\<close>

section \<open>Cores\<close>

datatype Interrupt = ICI | ALARM | SERIAL_RX_READY | SERIAL_TX_READY

text \<open>The interrupt numbers below \<open>maximum_interrupt_no\<close>, in numerical order.\<close>

definition interrupt_numbers :: "Interrupt list" where
  "interrupt_numbers = [ICI, ALARM, SERIAL_RX_READY, SERIAL_TX_READY]"

definition MAX_CORES :: nat where "MAX_CORES = 32"
definition MAX_TERMINALS :: nat where "MAX_TERMINALS = 4"

text \<open>\<open>struct itimerspec\<close>: the timer is one-shot, so only \<open>it_value\<close> is kept.\<close>

record itimer =
  tv_sec :: uint64
  tv_nsec :: uint64

record 'h Core =
  core_id :: nat
  intvec :: "Interrupt \<Rightarrow> 'h option"
  intpending :: "Interrupt \<Rightarrow> bool"
  int_disabled :: bool
  halted :: bool
  irq_count :: int
  irq_raised :: "Interrupt \<Rightarrow> int"
  irq_delivered :: "Interrupt \<Rightarrow> int"
  core_timer :: itimer

datatype cnode = Halted_list | Halted_node nat

record 'h bios =
  CORE :: "nat \<Rightarrow> 'h Core"
  ncores :: nat
  halted_heap :: "(cnode, nat option) rlheap"
  sigusr1_queued :: "nat \<Rightarrow> nat"
  PIC_active :: bool
  system_clock :: uint64

definition upd_core :: "'h bios \<Rightarrow> nat \<Rightarrow> ('h Core \<Rightarrow> 'h Core) \<Rightarrow> 'h bios" where
  "upd_core b c f = b\<lparr>CORE := (CORE b)(c := f (CORE b c))\<rparr>"

lemma upd_core_simps [simp]:
  "CORE (upd_core b c f) = (CORE b)(c := f (CORE b c))"
  "ncores (upd_core b c f) = ncores b"
  "halted_heap (upd_core b c f) = halted_heap b"
  "sigusr1_queued (upd_core b c f) = sigusr1_queued b"
  "system_clock (upd_core b c f) = system_clock b"
  by (simp_all add: upd_core_def)

section \<open>Halting and restarting cores\<close>

definition core_restart :: "'h bios \<Rightarrow> nat \<Rightarrow> 'h bios" where
  "core_restart b c =
     (if halted (CORE b c) then
        (let b1 = upd_core b c (\<lambda>k. k\<lparr>halted := False\<rparr>)
         in b1\<lparr>halted_heap := fst (rlist_remove (halted_heap b1) (Halted_node c))\<rparr>)
      else b)"

definition cpu_core_restart :: "'h bios \<Rightarrow> nat \<Rightarrow> 'h bios" where
  "cpu_core_restart b c = core_restart b c"

definition cpu_core_restart_one :: "'h bios \<Rightarrow> 'h bios" where
  "cpu_core_restart_one b =
     (if \<not> is_rlist_empty (halted_heap b) Halted_list then
        (let (h, n) = rlist_pop_front (halted_heap b) Halted_list
         in case rl_obj h n of
              Some c \<Rightarrow> core_restart (b\<lparr>halted_heap := h\<rparr>) c
            | None \<Rightarrow> b\<lparr>halted_heap := h\<rparr>)
      else b)"

fun restart_from :: "nat list \<Rightarrow> 'h bios \<Rightarrow> 'h bios" where
  "restart_from [] b = b"
| "restart_from (c # cs) b = restart_from cs (core_restart b c)"

definition cpu_core_restart_all :: "'h bios \<Rightarrow> 'h bios" where
  "cpu_core_restart_all b = restart_from [0..<ncores b] b"

text \<open>\<open>cpu_core_halt\<close> up to its wait on \<open>halt_cond\<close>, and after it: the wait ends when the core is
  no longer halted. \<open>None\<close>: the assertion on \<open>int_disabled\<close> fails.\<close>

definition cpu_core_halt :: "'h bios \<Rightarrow> nat \<Rightarrow> 'h bios option" where
  "cpu_core_halt b c =
     (if int_disabled (CORE b c) then None
      else Some ((upd_core b c (\<lambda>k. k\<lparr>halted := True\<rparr>))
             \<lparr>halted_heap := rlist_push_front (halted_heap b) Halted_list (Halted_node c)\<rparr>))"

section \<open>Interrupts\<close>

definition raise_interrupt :: "'h bios \<Rightarrow> nat \<Rightarrow> Interrupt \<Rightarrow> 'h bios" where
  "raise_interrupt b c intno =
     (let b1 = upd_core b c (\<lambda>k. k\<lparr>intpending := (intpending k)(intno := True),
                irq_raised := (irq_raised k)(intno := irq_raised k intno + 1)\<rparr>);
          b2 = b1\<lparr>sigusr1_queued := (sigusr1_queued b1)(c := Suc (sigusr1_queued b1 c))\<rparr>
      in cpu_core_restart b2 c)"

fun dispatch_loop :: "('h \<Rightarrow> 'h bios \<Rightarrow> 'h bios) \<Rightarrow> nat \<Rightarrow> Interrupt list \<Rightarrow> 'h bios \<Rightarrow> 'h bios" where
  "dispatch_loop run c [] b = b"
| "dispatch_loop run c (intno # is) b =
     (if int_disabled (CORE b c) then b
      else if intpending (CORE b c) intno then
        (let b1 = upd_core b c (\<lambda>k. k\<lparr>intpending := (intpending k)(intno := False),
                    irq_delivered := (irq_delivered k)(intno := irq_delivered k intno + 1)\<rparr>)
         in dispatch_loop run c is
              (case intvec (CORE b1 c) intno of Some handler \<Rightarrow> run handler b1 | None \<Rightarrow> b1))
      else dispatch_loop run c is b)"

definition dispatch_interrupts :: "('h \<Rightarrow> 'h bios \<Rightarrow> 'h bios) \<Rightarrow> 'h bios \<Rightarrow> nat \<Rightarrow> 'h bios" where
  "dispatch_interrupts run b c = dispatch_loop run c interrupt_numbers b"

text \<open>The kernel delivers a queued signal to the core's thread: the handler runs.\<close>

definition sigusr1_handler :: "('h \<Rightarrow> 'h bios \<Rightarrow> 'h bios) \<Rightarrow> 'h bios \<Rightarrow> nat \<Rightarrow> 'h bios" where
  "sigusr1_handler run b c =
     (let b1 = upd_core b c (\<lambda>k. k\<lparr>irq_count := irq_count k + 1\<rparr>)
      in if int_disabled (CORE b1 c) then b1 else dispatch_interrupts run b1 c)"

definition cpu_ici :: "'h bios \<Rightarrow> nat \<Rightarrow> 'h bios option" where
  "cpu_ici b core = (if core < ncores b then Some (raise_interrupt b core ICI) else None)"

definition cpu_interrupt_handler :: "'h bios \<Rightarrow> nat \<Rightarrow> Interrupt \<Rightarrow> 'h option \<Rightarrow> 'h bios" where
  "cpu_interrupt_handler b c interrupt handler =
     upd_core b c (\<lambda>k. k\<lparr>intvec := (intvec k)(interrupt := handler)\<rparr>)"

definition cpu_disable_interrupts :: "'h bios \<Rightarrow> nat \<Rightarrow> 'h bios" where
  "cpu_disable_interrupts b c =
     (if \<not> int_disabled (CORE b c) then upd_core b c (\<lambda>k. k\<lparr>int_disabled := True\<rparr>) else b)"

definition cpu_enable_interrupts ::
  "('h \<Rightarrow> 'h bios \<Rightarrow> 'h bios) \<Rightarrow> 'h bios \<Rightarrow> nat \<Rightarrow> 'h bios" where
  "cpu_enable_interrupts run b c =
     (if int_disabled (CORE b c) then
        dispatch_interrupts run (upd_core b c (\<lambda>k. k\<lparr>int_disabled := False\<rparr>)) c
      else b)"

section \<open>Timers and the clock\<close>

text \<open>\<open>remaining\<close> is the old value that \<open>timer_settime\<close> stores into \<open>oldtime\<close>.\<close>

definition bios_set_timer :: "'h bios \<Rightarrow> nat \<Rightarrow> uint64 \<Rightarrow> itimer \<Rightarrow> 'h bios \<times> uint64" where
  "bios_set_timer b c usec remaining =
     (let sec = usec div 1000000;
          nsec = (usec mod 1000000) * 1000
      in (upd_core b c (\<lambda>k. k\<lparr>core_timer := \<lparr>tv_sec = sec, tv_nsec = nsec\<rparr>,
            intpending := (intpending k)(ALARM := False)\<rparr>),
          1000000 * tv_sec remaining + tv_nsec remaining div 1000))"

definition bios_cancel_timer :: "'h bios \<Rightarrow> nat \<Rightarrow> itimer \<Rightarrow> 'h bios \<times> uint64" where
  "bios_cancel_timer b c remaining = bios_set_timer b c 0 remaining"

definition bios_clock :: "'h bios \<Rightarrow> uint64" where
  "bios_clock b = system_clock b * 1000"

end
