(* ===== verification/Sched.thy ===== *)
theory Sched
  imports Bios "HOL-Library.Monad_Syntax"
begin

text \<open>
  The scheduler of \<^verbatim>\<open>kernel_sched.c\<close> and the preemption flag of \<^verbatim>\<open>kernel_cc.c\<close>.

  A thread is named by the address of its TCB: a block from \<open>allocate_thread\<close>, or the idle
  thread inside a core control block. The two scheduler lists live in one heap of list nodes,
  as in the code, so a TCB whose node is pushed while it still sits in the other list would
  corrupt both. A function returns \<open>None\<close> where an assertion of the code fails or a loop does
  not end; the theory shows that no reachable state gets there.

  Every function below is one critical section of \<open>sched_spinlock\<close>, with the unlocked code
  around it: \<open>yield\<close> stops where \<open>cpu_swap_context\<close> gives the core to the next thread, and
  \<open>gain\<close> is what that thread executes first. The interleaving of the cores is the step
  relation of theory \<open>Sched_Machine\<close>.
\<close>

section \<open>Thread control blocks\<close>

datatype Thread_state = INIT | READY | RUNNING | STOPPED | EXITED
datatype Thread_phase = CTX_CLEAN | CTX_DIRTY
datatype Thread_type = IDLE_THREAD | NORMAL_THREAD

datatype SCHED_CAUSE =
    SCHED_QUANTUM | SCHED_IO | SCHED_MUTEX | SCHED_PIPE | SCHED_POLL | SCHED_IDLE | SCHED_USER

datatype tcb_ref = Idle_thread nat | Thread nat

type_synonym pcb_ref = nat
type_synonym funptr = nat

record TCB =
  owner_pcb :: "pcb_ref option"
  ttype :: Thread_type
  state :: Thread_state
  phase :: Thread_phase
  thread_func :: funptr
  wakeup_time :: uint64
  prev :: tcb_ref
  "next" :: tcb_ref

definition NO_TIMEOUT :: uint64 where "NO_TIMEOUT = - 1"

definition QUANTUM :: uint64 where "QUANTUM = 10000"

datatype snode = SCHED | TIMEOUT_LIST | Sched_node tcb_ref

datatype handler = Yield_handler | Ici_handler | Serial_rx_handler | Serial_tx_handler

text \<open>\<open>live\<close> marks the TCBs whose memory is allocated; \<open>current_thread\<close> and \<open>preemption\<close> are the
  fields of the core control blocks \<open>cctx\<close>.\<close>

record sched =
  tcb :: "tcb_ref \<Rightarrow> TCB"
  live :: "tcb_ref \<Rightarrow> bool"
  current_thread :: "nat \<Rightarrow> tcb_ref"
  preemption :: "nat \<Rightarrow> bool"
  qheap :: "(snode, tcb_ref option) rlheap"
  active_threads :: uint32
  vm :: "handler bios"

definition upd_tcb :: "sched \<Rightarrow> tcb_ref \<Rightarrow> (TCB \<Rightarrow> TCB) \<Rightarrow> sched" where
  "upd_tcb s t f = s\<lparr>tcb := (tcb s)(t := f (tcb s t))\<rparr>"

lemma upd_tcb_simps [simp]:
  "tcb (upd_tcb s t f) = (tcb s)(t := f (tcb s t))"
  "live (upd_tcb s t f) = live s"
  "current_thread (upd_tcb s t f) = current_thread s"
  "preemption (upd_tcb s t f) = preemption s"
  "qheap (upd_tcb s t f) = qheap s"
  "active_threads (upd_tcb s t f) = active_threads s"
  "vm (upd_tcb s t f) = vm s"
  by (simp_all add: upd_tcb_def)

section \<open>Preemption control\<close>

text \<open>The flag and the interrupt mask; interrupts that were pending are dispatched by the core
  at its next step, not inside this function.\<close>

definition set_core_preemption :: "sched \<Rightarrow> nat \<Rightarrow> bool \<Rightarrow> sched \<times> bool" where
  "set_core_preemption s c preempt =
     (let old_preempt = preemption s c
      in if preempt then
           (s\<lparr>preemption := (preemption s)(c := True),
              vm := upd_core (vm s) c (\<lambda>k. k\<lparr>int_disabled := False\<rparr>)\<rparr>, old_preempt)
         else
           (s\<lparr>vm := cpu_disable_interrupts (vm s) c,
              preemption := (preemption s)(c := False)\<rparr>, old_preempt))"

definition get_core_preemption :: "sched \<Rightarrow> nat \<Rightarrow> bool" where
  "get_core_preemption s c = preemption s c"

definition preempt_off :: "sched \<Rightarrow> nat \<Rightarrow> sched \<times> bool" where
  "preempt_off s c = set_core_preemption s c False"

definition preempt_on :: "sched \<Rightarrow> nat \<Rightarrow> sched" where
  "preempt_on s c = fst (set_core_preemption s c True)"

section \<open>Creation and release of threads\<close>

text \<open>\<open>p\<close> is the block that \<open>allocate_thread\<close> (\<open>aligned_alloc\<close>) returns. Its \<open>prev\<close> and \<open>next\<close>
  fields are not initialised.\<close>

definition spawn_thread :: "sched \<Rightarrow> tcb_ref \<Rightarrow> pcb_ref option \<Rightarrow> funptr \<Rightarrow> sched" where
  "spawn_thread s p pcb func =
     (let s1 = upd_tcb s p (\<lambda>t. t\<lparr>owner_pcb := pcb, ttype := NORMAL_THREAD, state := INIT,
                 phase := CTX_CLEAN, thread_func := func, wakeup_time := NO_TIMEOUT\<rparr>);
          s2 = s1\<lparr>live := (live s1)(p := True),
                  qheap := rlnode_init (qheap s1) (Sched_node p) (Some p)\<rparr>
      in s2\<lparr>active_threads := active_threads s2 + 1\<rparr>)"

definition release_TCB :: "sched \<Rightarrow> tcb_ref \<Rightarrow> sched" where
  "release_TCB s t =
     s\<lparr>live := (live s)(t := False), active_threads := active_threads s - 1\<rparr>"

section \<open>The scheduler queue and the timeout list\<close>

partial_function (option) timeout_position ::
  "sched \<Rightarrow> uint64 \<Rightarrow> snode \<Rightarrow> snode option" where
  "timeout_position s wt n =
     (if n \<noteq> TIMEOUT_LIST then
        (case rl_obj (qheap s) n of
           None \<Rightarrow> None
         | Some t \<Rightarrow>
             if wt < wakeup_time (tcb s t) then Some n
             else timeout_position s wt (rl_next (qheap s) n))
      else Some n)"

definition sched_register_timeout ::
  "sched \<Rightarrow> tcb_ref \<Rightarrow> uint64 \<Rightarrow> uint64 \<Rightarrow> sched option" where
  "sched_register_timeout s t timeout curtime =
     (if timeout \<noteq> NO_TIMEOUT then
        (let s1 = upd_tcb s t (\<lambda>k. k\<lparr>wakeup_time :=
                    (if timeout = NO_TIMEOUT then NO_TIMEOUT else curtime + timeout)\<rparr>)
         in do {
              n \<leftarrow> timeout_position s1 (wakeup_time (tcb s1 t)) (rl_next (qheap s1) TIMEOUT_LIST);
              Some (s1\<lparr>qheap := fst (rl_splice (qheap s1) (rl_prev (qheap s1) n) (Sched_node t))\<rparr>)
            })
      else Some s)"

definition sched_queue_add :: "sched \<Rightarrow> tcb_ref \<Rightarrow> sched" where
  "sched_queue_add s t =
     (let s1 = s\<lparr>qheap := rlist_push_back (qheap s) SCHED (Sched_node t)\<rparr>
      in s1\<lparr>vm := cpu_core_restart_one (vm s1)\<rparr>)"

definition sched_make_ready :: "sched \<Rightarrow> tcb_ref \<Rightarrow> sched option" where
  "sched_make_ready s t = do {
     _ \<leftarrow> (if state (tcb s t) = STOPPED \<or> state (tcb s t) = INIT then Some () else None);
     s1 \<leftarrow> (if wakeup_time (tcb s t) \<noteq> NO_TIMEOUT then
              if rl_next (qheap s) (Sched_node t) \<noteq> Sched_node t \<and> state (tcb s t) = STOPPED
              then Some ((upd_tcb s t (\<lambda>k. k\<lparr>wakeup_time := NO_TIMEOUT\<rparr>))
                     \<lparr>qheap := fst (rlist_remove (qheap s) (Sched_node t))\<rparr>)
              else None
            else Some s);
     let s2 = upd_tcb s1 t (\<lambda>k. k\<lparr>state := READY\<rparr>) in
     Some (if phase (tcb s2 t) = CTX_CLEAN then sched_queue_add s2 t else s2)
   }"

partial_function (option) expire_timeouts :: "uint64 \<Rightarrow> sched \<Rightarrow> sched option" where
  "expire_timeouts curtime s =
     (if \<not> is_rlist_empty (qheap s) TIMEOUT_LIST then
        (case rl_obj (qheap s) (rl_next (qheap s) TIMEOUT_LIST) of
           None \<Rightarrow> None
         | Some t \<Rightarrow>
             if curtime < wakeup_time (tcb s t) then Some s
             else do { s1 \<leftarrow> sched_make_ready s t; expire_timeouts curtime s1 })
      else Some s)"

definition sched_queue_select :: "sched \<Rightarrow> uint64 \<Rightarrow> (sched \<times> tcb_ref option) option" where
  "sched_queue_select s curtime = do {
     s1 \<leftarrow> expire_timeouts curtime s;
     let (h, sel) = rlist_pop_front (qheap s1) SCHED in
     Some (s1\<lparr>qheap := h\<rparr>, rl_obj h sel)
   }"

section \<open>Blocking, waking and switching\<close>

definition wakeup :: "sched \<Rightarrow> nat \<Rightarrow> tcb_ref \<Rightarrow> (sched \<times> bool) option" where
  "wakeup s c t = do {
     let (s1, oldpre) = preempt_off s c in
     do {
       (s2, ret) \<leftarrow> (if state (tcb s1 t) = STOPPED \<or> state (tcb s1 t) = INIT
                     then do { s' \<leftarrow> sched_make_ready s1 t; Some (s', True) }
                     else Some (s1, False));
       Some (if oldpre then preempt_on s2 c else s2, ret)
     }
   }"

text \<open>\<open>sleep_releasing\<close> up to its call of \<open>yield\<close>; the mutex \<open>mx\<close> is released by the caller's
  model. The boolean is the saved preemption status.\<close>

definition sleep_releasing ::
  "sched \<Rightarrow> nat \<Rightarrow> Thread_state \<Rightarrow> uint64 \<Rightarrow> uint64 \<Rightarrow> (sched \<times> bool) option" where
  "sleep_releasing s c st timeout curtime = do {
     _ \<leftarrow> (if st = STOPPED \<or> st = EXITED then Some () else None);
     let t = current_thread s c;
         (s1, preempt) = preempt_off s c;
         s2 = upd_tcb s1 t (\<lambda>k. k\<lparr>state := st\<rparr>)
     in do {
       s3 \<leftarrow> (if st \<noteq> EXITED then sched_register_timeout s2 t timeout curtime else Some s2);
       Some (s3, preempt)
     }
   }"

text \<open>\<open>yield\<close> up to the context switch. The boolean is its local variable \<open>preempt\<close>, which stays
  on the stack of the thread that gives up the core.\<close>

definition yield_classify :: "sched \<Rightarrow> tcb_ref \<Rightarrow> (sched \<times> bool) option" where
  "yield_classify s t =
     (case state (tcb s t) of
        RUNNING \<Rightarrow> Some (upd_tcb s t (\<lambda>k. k\<lparr>state := READY\<rparr>), True)
      | READY \<Rightarrow> Some (s, True)
      | STOPPED \<Rightarrow> Some (s, False)
      | EXITED \<Rightarrow> Some (s, False)
      | INIT \<Rightarrow> None)"

definition yield_link :: "sched \<Rightarrow> nat \<Rightarrow> tcb_ref \<Rightarrow> sched" where
  "yield_link s c nxt =
     (let current = current_thread s c;
          s1 = upd_tcb s current (\<lambda>k. k\<lparr>next := nxt\<rparr>);
          s2 = upd_tcb s1 nxt (\<lambda>k. k\<lparr>prev := current\<rparr>)
      in if current \<noteq> nxt
         then s2\<lparr>current_thread := (current_thread s2)(c := nxt)\<rparr> else s2)"

definition yield :: "sched \<Rightarrow> nat \<Rightarrow> SCHED_CAUSE \<Rightarrow> uint64 \<Rightarrow> itimer \<Rightarrow> (sched \<times> bool) option" where
  "yield s c cause curtime remaining =
     (let s0 = s\<lparr>vm := fst (bios_cancel_timer (vm s) c remaining)\<rparr>;
          (s1, preempt) = preempt_off s0 c;
          current = current_thread s1 c
      in do {
           (s2, current_ready) \<leftarrow> yield_classify s1 current;
           (s3, sel) \<leftarrow> sched_queue_select s2 curtime;
           let nxt = (case sel of Some t \<Rightarrow> t
                      | None \<Rightarrow> if current_ready then current else Idle_thread c) in
           Some (yield_link s3 c nxt, preempt)
         })"

definition gain :: "sched \<Rightarrow> nat \<Rightarrow> bool \<Rightarrow> itimer \<Rightarrow> sched option" where
  "gain s c preempt remaining =
     (let current = current_thread s c;
          prv = prev (tcb s current);
          s1 = upd_tcb s current (\<lambda>k. k\<lparr>state := RUNNING, phase := CTX_DIRTY\<rparr>)
      in do {
           s2 \<leftarrow> (if current \<noteq> prv then
                    let s' = upd_tcb s1 prv (\<lambda>k. k\<lparr>phase := CTX_CLEAN\<rparr>) in
                    (case state (tcb s' prv) of
                       READY \<Rightarrow> Some (if ttype (tcb s' prv) \<noteq> IDLE_THREAD
                                     then sched_queue_add s' prv else s')
                     | EXITED \<Rightarrow> Some (release_TCB s' prv)
                     | STOPPED \<Rightarrow> Some s'
                     | _ \<Rightarrow> None)
                  else Some s1);
           let s3 = (if preempt then preempt_on s2 c else s2) in
           Some (s3\<lparr>vm := fst (bios_set_timer (vm s3) c QUANTUM remaining)\<rparr>)
         })"

section \<open>Starting the scheduler\<close>

definition initialize_scheduler :: "sched \<Rightarrow> sched" where
  "initialize_scheduler s =
     s\<lparr>qheap := rlnode_init (rlnode_init (qheap s) SCHED None) TIMEOUT_LIST None\<rparr>"

text \<open>\<open>run_scheduler\<close> up to the call of \<open>idle_thread\<close>; \<open>pcb0\<close> is \<open>get_pcb(0)\<close>.\<close>

definition run_scheduler_init :: "sched \<Rightarrow> nat \<Rightarrow> pcb_ref option \<Rightarrow> sched" where
  "run_scheduler_init s c pcb0 =
     (let idle = Idle_thread c;
          s1 = s\<lparr>current_thread := (current_thread s)(c := idle)\<rparr>;
          s2 = upd_tcb s1 idle (\<lambda>k. k\<lparr>owner_pcb := pcb0, ttype := IDLE_THREAD, state := RUNNING,
                 phase := CTX_DIRTY, wakeup_time := NO_TIMEOUT\<rparr>);
          s3 = s2\<lparr>qheap := rlnode_init (qheap s2) (Sched_node idle) (Some idle)\<rparr>;
          s4 = s3\<lparr>vm := cpu_interrupt_handler
                   (cpu_interrupt_handler (vm s3) c ALARM (Some Yield_handler))
                   c ICI (Some Ici_handler)\<rparr>
      in preempt_on s4 c)"

end
