(* ===== verification/Sched_Machine.thy ===== *)
theory Sched_Machine
  imports Sched
begin

text \<open>
  The interleaving of the cores over the critical sections of theory \<open>Sched\<close>, and the
  scheduler's invariant. Between two critical sections a core is at one of three points: it
  runs a thread (\<open>Run\<close>), it is in \<open>sleep_releasing\<close> between setting the state and calling
  \<open>yield\<close> (\<open>Slept\<close>), or it has left \<open>yield\<close> through \<open>cpu_swap_context\<close> and has not yet executed
  \<open>gain\<close> (\<open>Switch\<close>). \<open>up\<close> is the set of cores that have entered \<open>run_scheduler\<close>.

  \<open>rep s q w\<close> relates the heap of list nodes to the abstract queue \<open>q\<close> and the abstract list of
  timeouts \<open>w\<close>. \<open>sinv\<close> is shown for every operation, and holds in every reachable machine by the
  interpretation of \<open>transition_invariant\<close>; the properties at the end are read off it.
\<close>

section \<open>The machine\<close>

datatype point = Run | Slept | Switch

record smach =
  sch :: sched
  up :: "nat set"
  pc :: "nat \<Rightarrow> point"
  ypre :: "tcb_ref \<Rightarrow> bool"
  spre :: "tcb_ref \<Rightarrow> bool"

abbreviation thread_at :: "smach \<Rightarrow> nat \<Rightarrow> tcb_ref" where
  "thread_at m c \<equiv> current_thread (sch m) c"

definition held :: "smach \<Rightarrow> nat \<Rightarrow> tcb_ref set" where
  "held m c = insert (thread_at m c)
     (if pc m c = Switch then {prev (tcb (sch m) (thread_at m c))} else {})"

section \<open>Representation of the two lists\<close>

fun qlists :: "tcb_ref list \<Rightarrow> tcb_ref list \<Rightarrow> snode \<Rightarrow> snode list" where
  "qlists q w SCHED = map Sched_node q"
| "qlists q w TIMEOUT_LIST = map Sched_node w"
| "qlists q w (Sched_node t) = []"

definition free_nodes :: "sched \<Rightarrow> tcb_ref list \<Rightarrow> tcb_ref list \<Rightarrow> snode set" where
  "free_nodes s q w = {Sched_node (Thread k) | k. live s (Thread k) \<and> Thread k \<notin> set q \<union> set w}"

definition rep :: "sched \<Rightarrow> tcb_ref list \<Rightarrow> tcb_ref list \<Rightarrow> bool" where
  "rep s q w \<longleftrightarrow>
     layout (qheap s) {SCHED, TIMEOUT_LIST} (qlists q w) (free_nodes s q w) \<and>
     rl_obj (qheap s) SCHED = None \<and> rl_obj (qheap s) TIMEOUT_LIST = None \<and>
     (\<forall>k. live s (Thread k) \<longrightarrow> rl_obj (qheap s) (Sched_node (Thread k)) = Some (Thread k))"

lemma qlists_upd [simp]:
  "(qlists q w)(SCHED := map Sched_node q') = qlists q' w"
  "(qlists q w)(TIMEOUT_LIST := map Sched_node w') = qlists q w'"
  by (rule ext; case_tac x; simp)+

lemma repD:
  assumes "rep s q w"
  shows "layout (qheap s) {SCHED, TIMEOUT_LIST} (qlists q w) (free_nodes s q w)"
    and "rl_obj (qheap s) SCHED = None" and "rl_obj (qheap s) TIMEOUT_LIST = None"
    and "live s (Thread k) \<Longrightarrow> rl_obj (qheap s) (Sched_node (Thread k)) = Some (Thread k)"
  using assms by (auto simp: rep_def)

lemma rep_distinct:
  assumes "rep s q w"
  shows "distinct q" and "distinct w" and "set q \<inter> set w = {}"
proof -
  note lay = repD(1) [OF assms]
  show "distinct q" "distinct w"
    using layout_distinct [OF lay, of SCHED] layout_distinct [OF lay, of TIMEOUT_LIST]
    by (auto simp: distinct_map)
  show "set q \<inter> set w = {}"
    using layoutD(3) [OF lay, of SCHED TIMEOUT_LIST] by auto
qed

lemma rep_queue_unique: "rep s q w \<Longrightarrow> rep s q' w' \<Longrightarrow> q = q'"
  using ring_unique [of "qheap s" SCHED "map Sched_node q" "map Sched_node q'"]
    layoutD(1) [OF repD(1), of s _ _ SCHED]
  by (auto simp del: ring.simps dest!: map_injective intro: injI)

lemma rep_timeouts_unique: "rep s q w \<Longrightarrow> rep s q' w' \<Longrightarrow> w = w'"
  using ring_unique [of "qheap s" TIMEOUT_LIST "map Sched_node w" "map Sched_node w'"]
    layoutD(1) [OF repD(1), of s _ _ TIMEOUT_LIST]
  by (auto simp del: ring.simps dest!: map_injective intro: injI)

lemma rep_queue_add:
  assumes "rep s q w" and "live s (Thread k)" and "Thread k \<notin> set q \<union> set w"
  shows "rep (sched_queue_add s (Thread k)) (q @ [Thread k]) w"
proof -
  have "layout (rlist_push_back (qheap s) SCHED (Sched_node (Thread k))) {SCHED, TIMEOUT_LIST}
     ((qlists q w)(SCHED := qlists q w SCHED @ [Sched_node (Thread k)]))
     (free_nodes s q w - {Sched_node (Thread k)})"
    using assms by (intro rl.push_back [OF repD(1)]) (auto simp: free_nodes_def)
  moreover have "qlists q w SCHED @ [Sched_node (Thread k)] = map Sched_node (q @ [Thread k])"
    by simp
  moreover have "free_nodes (sched_queue_add s (Thread k)) (q @ [Thread k]) w =
     free_nodes s q w - {Sched_node (Thread k)}"
    by (auto simp: free_nodes_def sched_queue_add_def Let_def)
  ultimately show ?thesis
    using assms(1) by (simp only: rep_def qlists_upd) (simp add: rep_def sched_queue_add_def Let_def)
qed

lemma rep_timeout_remove:
  assumes "rep s q w" and "Thread k \<in> set w" and "live s (Thread k)"
    and "live s' = live s" and "qheap s' = fst (rlist_remove (qheap s) (Sched_node (Thread k)))"
  shows "rep s' q (remove1 (Thread k) w)"
proof -
  have "layout (qheap s') {SCHED, TIMEOUT_LIST}
     ((qlists q w)(TIMEOUT_LIST := remove1 (Sched_node (Thread k)) (qlists q w TIMEOUT_LIST)))
     (insert (Sched_node (Thread k)) (free_nodes s q w))"
    using assms by (simp only: assms(5)) (intro rl.remove [OF repD(1)], auto)
  moreover have "remove1 (Sched_node (Thread k)) (qlists q w TIMEOUT_LIST) =
      map Sched_node (remove1 (Thread k) w)"
    by (simp add: remove1_map_inj inj_def)
  moreover have "free_nodes s' q (remove1 (Thread k) w) =
      insert (Sched_node (Thread k)) (free_nodes s q w)"
    using assms rep_distinct [OF assms(1)] by (auto simp: free_nodes_def set_remove1_eq)
  ultimately show ?thesis
    using assms(1,4,5) by (simp only: rep_def qlists_upd) (simp add: rep_def)
qed

lemma rep_pop:
  assumes "rep s (Thread k # q) w" and "live s (Thread k)"
    and "live s' = live s" and "qheap s' = fst (rlist_pop_front (qheap s) SCHED)"
  shows "rep s' q w" and "snd (rlist_pop_front (qheap s) SCHED) = Sched_node (Thread k)"
proof -
  note lay = repD(1) [OF assms(1)]
  show "snd (rlist_pop_front (qheap s) SCHED) = Sched_node (Thread k)"
    using rl.pop_front_node [OF lay] by simp
  have "layout (qheap s') {SCHED, TIMEOUT_LIST} ((qlists (Thread k # q) w)(SCHED := map Sched_node q))
     (insert (Sched_node (Thread k)) (free_nodes s (Thread k # q) w))"
    unfolding assms(4) by (rule rl.pop_front [OF lay]) auto
  moreover have "free_nodes s' q w = insert (Sched_node (Thread k)) (free_nodes s (Thread k # q) w)"
    using assms(2,3) rep_distinct [OF assms(1)] by (auto simp: free_nodes_def)
  ultimately show "rep s' q w"
    using assms(1,3,4) by (simp only: rep_def qlists_upd) (simp add: rep_def)
qed

lemma rep_pop_empty:
  assumes "rep s [] w"
  shows "rlist_pop_front (qheap s) SCHED = (qheap s, SCHED)"
  using rl.pop_front_empty [OF repD(1) [OF assms], of SCHED] by simp

lemma rep_cong:
  "rep s q w \<Longrightarrow> qheap s' = qheap s \<Longrightarrow> live s' = live s \<Longrightarrow> rep s' q w"
  by (simp add: rep_def free_nodes_def)

lemma rep_spawn:
  assumes "rep s q w" and "\<not> live s (Thread k)" and "Thread k \<notin> set q \<union> set w"
  shows "rep (spawn_thread s (Thread k) pcb f) q w"
proof -
  have "layout (rlnode_init (qheap s) (Sched_node (Thread k)) (Some (Thread k))) {SCHED, TIMEOUT_LIST}
     (qlists q w) (insert (Sched_node (Thread k)) (free_nodes s q w))"
    using assms by (intro layout_init_node [OF repD(1)]) auto
  moreover have "free_nodes (spawn_thread s (Thread k) pcb f) q w =
     insert (Sched_node (Thread k)) (free_nodes s q w)"
    using assms by (auto simp: free_nodes_def spawn_thread_def Let_def)
  ultimately show ?thesis
    using assms(1) by (simp add: rep_def spawn_thread_def Let_def)
qed

lemma rep_release:
  assumes "rep s q w" and "t \<notin> set q \<union> set w"
  shows "rep (release_TCB s t) q w"
proof -
  have "layout (qheap s) {SCHED, TIMEOUT_LIST} (qlists q w) (free_nodes (release_TCB s t) q w)"
    using repD(1) [OF assms(1)] unfolding layout_def free_nodes_def release_TCB_def
    by (auto simp del: ring.simps)
  then show ?thesis using assms(1) by (simp add: rep_def release_TCB_def)
qed

text \<open>Registering a timeout inserts behind every entry that is not later.\<close>

lemma timeout_position_seg:
  assumes "rep s q (us @ xs)" and "\<And>t. t \<in> set (us @ xs) \<Longrightarrow> \<exists>k. t = Thread k \<and> live s t"
  shows "timeout_position s wt (hd (map Sched_node xs @ [TIMEOUT_LIST])) =
     Some (hd (map Sched_node (dropWhile (\<lambda>t. \<not> wt < wakeup_time (tcb s t)) xs) @ [TIMEOUT_LIST]))"
  using assms
proof (induction xs arbitrary: us)
  case Nil
  then show ?case by (simp add: timeout_position.simps)
next
  case (Cons x xs)
  obtain k where x: "x = Thread k" "live s (Thread k)" using Cons.prems(2) [of x] by auto
  have "ring (qheap s) (TIMEOUT_LIST # qlists q (us @ x # xs) TIMEOUT_LIST)"
    by (rule layoutD(1) [OF repD(1) [OF Cons.prems(1)]]) simp
  then have nx: "rl_next (qheap s) (Sched_node x) = hd (map Sched_node xs @ [TIMEOUT_LIST])"
    by (auto simp: ring.simps dest: seg_next)
  have ob: "rl_obj (qheap s) (Sched_node x) = Some x" using repD(4) [OF Cons.prems(1)] x by simp
  show ?case
    using Cons.IH [of "us @ [x]"] Cons.prems nx ob
    by (simp add: timeout_position.simps [of s wt "Sched_node x"])
qed

definition insert_timeout :: "sched \<Rightarrow> tcb_ref \<Rightarrow> tcb_ref list \<Rightarrow> tcb_ref list" where
  "insert_timeout s t w =
     takeWhile (\<lambda>u. \<not> wakeup_time (tcb s t) < wakeup_time (tcb s u)) w @ t #
     dropWhile (\<lambda>u. \<not> wakeup_time (tcb s t) < wakeup_time (tcb s u)) w"

lemma set_insert_timeout [simp]: "set (insert_timeout s t w) = insert t (set w)"
proof -
  have "set (takeWhile P w) \<union> set (dropWhile P w) = set w" for P
    by (metis set_append takeWhile_dropWhile_id)
  then show ?thesis by (simp add: insert_timeout_def)
qed

lemma sorted_insert_timeout:
  assumes "sorted_wrt (\<lambda>a b. wakeup_time (tcb s a) \<le> wakeup_time (tcb s b)) w"
  shows "sorted_wrt (\<lambda>a b. wakeup_time (tcb s a) \<le> wakeup_time (tcb s b)) (insert_timeout s t w)"
proof -
  let ?P = "\<lambda>u. \<not> wakeup_time (tcb s t) < wakeup_time (tcb s u)"
  let ?R = "\<lambda>a b. wakeup_time (tcb s a) \<le> wakeup_time (tcb s b)"
  have "sorted_wrt ?R (takeWhile ?P w @ dropWhile ?P w)" using assms by simp
  then have s: "sorted_wrt ?R (takeWhile ?P w)" "sorted_wrt ?R (dropWhile ?P w)"
    "\<forall>a \<in> set (takeWhile ?P w). \<forall>b \<in> set (dropWhile ?P w). ?R a b"
    unfolding sorted_wrt_append by blast+
  have lo: "?R a t" if "a \<in> set (takeWhile ?P w)" for a
    using set_takeWhileD [OF that] by (simp add: not_less)
  have hi: "?R t b" if "b \<in> set (dropWhile ?P w)" for b
  proof -
    from that obtain v vs where v: "dropWhile ?P w = v # vs" by (rule list.set_cases)
    then have "\<not> ?P v" by (simp add: dropWhile_eq_Cons_conv)
    moreover have "?R v b" using s(2) that v by auto
    ultimately show ?thesis by simp
  qed
  show ?thesis
    unfolding insert_timeout_def sorted_wrt_append using s lo hi by auto
qed

lemma register_timeout_rep:
  fixes curtime :: uint64
  assumes "rep s q w" and "\<And>u. u \<in> set w \<Longrightarrow> \<exists>j. u = Thread j \<and> live s u"
    and "live s (Thread k)" and "Thread k \<notin> set q \<union> set w" and "timeout \<noteq> NO_TIMEOUT"
    and s1: "s1 = upd_tcb s (Thread k) (\<lambda>u. u\<lparr>wakeup_time := curtime + timeout\<rparr>)"
  obtains h where "sched_register_timeout s (Thread k) timeout curtime = Some (s1\<lparr>qheap := h\<rparr>)"
    and "rep (s1\<lparr>qheap := h\<rparr>) q (insert_timeout s1 (Thread k) w)"
proof -
  define P where "P = (\<lambda>u. \<not> wakeup_time (tcb s1 (Thread k)) < wakeup_time (tcb s1 u))"
  define ys where "ys = takeWhile P w"
  define zs where "zs = dropWhile P w"
  have w: "w = ys @ zs" by (simp add: ys_def zs_def)
  have ins: "insert_timeout s1 (Thread k) w = ys @ Thread k # zs"
    by (simp add: insert_timeout_def ys_def zs_def P_def)
  let ?n = "hd (map Sched_node zs @ [TIMEOUT_LIST])"
  have rep1: "rep s1 q w" by (rule rep_cong [OF assms(1)]) (simp_all add: s1)
  note lay = repD(1) [OF rep1]
  have rg: "ring (qheap s1) (TIMEOUT_LIST # map Sched_node w)"
    using layoutD(1) [OF lay, of TIMEOUT_LIST] by simp
  have nx: "rl_next (qheap s1) TIMEOUT_LIST = hd (map Sched_node w @ [TIMEOUT_LIST])"
    using seg_next [OF ringD(2) [OF rg]] .
  have pos: "timeout_position s1 (wakeup_time (tcb s1 (Thread k))) (rl_next (qheap s1) TIMEOUT_LIST)
      = Some ?n"
    unfolding nx zs_def P_def
    using timeout_position_seg [of s1 q "[]" w] rep1 assms(2) by (simp add: s1)
  let ?h = "fst (rl_splice (qheap s1) (rl_prev (qheap s1) ?n) (Sched_node (Thread k)))"
  have prv: "rl_prev (qheap s1) ?n = last (TIMEOUT_LIST # map Sched_node ys)"
  proof (cases zs)
    case Nil
    then show ?thesis using seg_prev [OF ringD(2) [OF rg]] w by simp
  next
    case (Cons v vs)
    then have "seg (qheap s1) TIMEOUT_LIST (map Sched_node ys) (Sched_node v)"
      using ringD(2) [OF rg] w by simp
    from seg_prev [OF this] show ?thesis using Cons by simp
  qed
  have "layout ?h {SCHED, TIMEOUT_LIST}
     ((qlists q w)(TIMEOUT_LIST := map Sched_node ys @ Sched_node (Thread k) # map Sched_node zs))
     (free_nodes s1 q w - {Sched_node (Thread k)})"
    using assms(3,4) by (intro layout_insert [OF lay _ _ _ prv]) (auto simp: free_nodes_def s1 w)
  moreover have "map Sched_node ys @ Sched_node (Thread k) # map Sched_node zs =
      map Sched_node (insert_timeout s1 (Thread k) w)" by (simp add: ins)
  moreover have "free_nodes s1 q w - {Sched_node (Thread k)} =
      free_nodes (s1\<lparr>qheap := ?h\<rparr>) q (insert_timeout s1 (Thread k) w)"
    by (auto simp: free_nodes_def)
  ultimately have "rep (s1\<lparr>qheap := ?h\<rparr>) q (insert_timeout s1 (Thread k) w)"
    using rep1 by (simp only: rep_def qlists_upd) (simp add: rep_def)
  moreover have "sched_register_timeout s (Thread k) timeout curtime = Some (s1\<lparr>qheap := ?h\<rparr>)"
    using pos assms(5) by (simp add: sched_register_timeout_def s1 Let_def)
  ultimately show ?thesis by (rule that [rotated])
qed

section \<open>The invariant\<close>

text \<open>
  What each core may hold. A running core owns one RUNNING thread with a dirty context; a core
  in \<open>sleep_releasing\<close> or inside \<open>yield\<close> owns a thread that is no longer RUNNING but whose
  context is still dirty; a core between \<open>yield\<close> and \<open>gain\<close> owns the thread it switches to and
  the one it comes from.
\<close>

definition core_ok :: "smach \<Rightarrow> nat \<Rightarrow> bool" where
  "core_ok m c \<longleftrightarrow>
     (let T = tcb (sch m); t = thread_at m c; p = prev (T t) in
      (\<forall>u \<in> held m c. u = Idle_thread c \<or> (\<exists>k. u = Thread k \<and> live (sch m) u)) \<and>
      (case pc m c of
         Run \<Rightarrow> state (T t) = RUNNING \<and> phase (T t) = CTX_DIRTY
       | Slept \<Rightarrow> state (T t) \<in> {READY, STOPPED, EXITED} \<and> phase (T t) = CTX_DIRTY \<and>
                (t = Idle_thread c \<longrightarrow> state (T t) = READY)
       | Switch \<Rightarrow> phase (T p) = CTX_DIRTY \<and> state (T t) = READY \<and>
                (p \<noteq> t \<longrightarrow> phase (T t) = CTX_CLEAN \<and> state (T p) \<in> {READY, STOPPED, EXITED} \<and>
                  (p = Idle_thread c \<longrightarrow> state (T p) = READY))))"

definition queue_ok :: "smach \<Rightarrow> tcb_ref list \<Rightarrow> bool" where
  "queue_ok m q \<longleftrightarrow>
     (\<forall>t \<in> set q. (\<exists>k. t = Thread k) \<and> live (sch m) t \<and> state (tcb (sch m) t) = READY \<and>
        phase (tcb (sch m) t) = CTX_CLEAN \<and> (\<forall>c \<in> up m. t \<notin> held m c))"

definition timeouts_ok :: "smach \<Rightarrow> tcb_ref list \<Rightarrow> bool" where
  "timeouts_ok m w \<longleftrightarrow>
     (\<forall>t \<in> set w. (\<exists>k. t = Thread k) \<and> live (sch m) t \<and> state (tcb (sch m) t) = STOPPED \<and>
        wakeup_time (tcb (sch m) t) \<noteq> NO_TIMEOUT) \<and>
     sorted_wrt (\<lambda>a b. wakeup_time (tcb (sch m) a) \<le> wakeup_time (tcb (sch m) b)) w \<and>
     (\<forall>k. live (sch m) (Thread k) \<longrightarrow> Thread k \<notin> set w \<longrightarrow>
        wakeup_time (tcb (sch m) (Thread k)) = NO_TIMEOUT)"

definition offcore_ok :: "smach \<Rightarrow> tcb_ref list \<Rightarrow> bool" where
  "offcore_ok m q \<longleftrightarrow>
     (\<forall>k. live (sch m) (Thread k) \<longrightarrow> (\<forall>c \<in> up m. Thread k \<notin> held m c) \<longrightarrow>
        phase (tcb (sch m) (Thread k)) = CTX_CLEAN \<and>
        (state (tcb (sch m) (Thread k)) \<in> {INIT, STOPPED} \<or>
         state (tcb (sch m) (Thread k)) = READY \<and> Thread k \<in> set q))"

definition cores_ok :: "smach \<Rightarrow> bool" where
  "cores_ok m \<longleftrightarrow> (\<forall>c \<in> up m. core_ok m c) \<and>
     (\<forall>c \<in> up m. \<forall>d \<in> up m. c \<noteq> d \<longrightarrow> held m c \<inter> held m d = {})"

definition idle_ok :: "smach \<Rightarrow> bool" where
  "idle_ok m \<longleftrightarrow> (\<forall>c \<in> up m. ttype (tcb (sch m) (Idle_thread c)) = IDLE_THREAD \<and>
     (Idle_thread c \<notin> held m c \<longrightarrow>
        state (tcb (sch m) (Idle_thread c)) = READY \<and>
        phase (tcb (sch m) (Idle_thread c)) = CTX_CLEAN))"

definition threads_ok :: "sched \<Rightarrow> bool" where
  "threads_ok s \<longleftrightarrow> (\<forall>k. live s (Thread k) \<longrightarrow> ttype (tcb s (Thread k)) = NORMAL_THREAD) \<and>
     finite {k. live s (Thread k)} \<and> active_threads s = of_nat (card {k. live s (Thread k)})"

definition sinv_qw :: "smach \<Rightarrow> tcb_ref list \<Rightarrow> tcb_ref list \<Rightarrow> bool" where
  "sinv_qw m q w \<longleftrightarrow> rep (sch m) q w \<and> queue_ok m q \<and> timeouts_ok m w \<and> offcore_ok m q \<and>
     cores_ok m \<and> idle_ok m \<and> threads_ok (sch m)"

definition sinv :: "smach \<Rightarrow> bool" where
  "sinv m \<longleftrightarrow> (\<exists>q w. sinv_qw m q w)"

lemmas sinv_parts = queue_ok_def timeouts_ok_def offcore_ok_def cores_ok_def idle_ok_def
  threads_ok_def

lemma sinv_qwD:
  assumes "sinv_qw m q w"
  shows "rep (sch m) q w" and "queue_ok m q" and "timeouts_ok m w" and "offcore_ok m q"
    and "cores_ok m" and "idle_ok m" and "threads_ok (sch m)"
  using assms by (simp_all add: sinv_qw_def)

lemma core_okD: "cores_ok m \<Longrightarrow> c \<in> up m \<Longrightarrow> core_ok m c"
  by (simp add: cores_ok_def)

lemma held_disjoint:
  "cores_ok m \<Longrightarrow> c \<in> up m \<Longrightarrow> d \<in> up m \<Longrightarrow> t \<in> held m c \<Longrightarrow> t \<in> held m d \<Longrightarrow> c = d"
  by (auto simp: cores_ok_def)

text \<open>A change that only makes blocked threads READY.\<close>

definition woken :: "sched \<Rightarrow> sched \<Rightarrow> bool" where
  "woken s s' \<longleftrightarrow>
     live s' = live s \<and> current_thread s' = current_thread s \<and> preemption s' = preemption s \<and>
     active_threads s' = active_threads s \<and>
     (\<forall>t. prev (tcb s' t) = prev (tcb s t) \<and> phase (tcb s' t) = phase (tcb s t) \<and>
          ttype (tcb s' t) = ttype (tcb s t) \<and> owner_pcb (tcb s' t) = owner_pcb (tcb s t) \<and>
          (state (tcb s' t) = state (tcb s t) \<or>
           state (tcb s t) \<in> {STOPPED, INIT} \<and> state (tcb s' t) = READY))"

lemma woken_refl [simp]: "woken s s"
  by (simp add: woken_def)

lemma woken_trans: "woken s s1 \<Longrightarrow> woken s1 s2 \<Longrightarrow> woken s s2"
  unfolding woken_def by (intro conjI allI) (simp_all, metis Thread_state.distinct(1,9,11,13))

lemma queue_add_simps [simp]:
  "tcb (sched_queue_add s t) = tcb s"
  "live (sched_queue_add s t) = live s"
  "current_thread (sched_queue_add s t) = current_thread s"
  "preemption (sched_queue_add s t) = preemption s"
  "active_threads (sched_queue_add s t) = active_threads s"
  by (simp_all add: sched_queue_add_def Let_def)

lemma held_cong:
  "current_thread s' = current_thread (sch m) \<Longrightarrow> (\<And>t. prev (tcb s' t) = prev (tcb (sch m) t)) \<Longrightarrow>
     held (m\<lparr>sch := s'\<rparr>) c = held m c"
  by (simp add: held_def)

lemma core_ok_held:
  assumes "core_ok m c" and "t \<in> held m c"
  shows "state (tcb (sch m) t) = RUNNING \<or> state (tcb (sch m) t) = READY \<or>
     phase (tcb (sch m) t) = CTX_DIRTY"
    and "state (tcb (sch m) t) \<noteq> INIT"
    and "t = Idle_thread c \<or> (\<exists>k. t = Thread k \<and> live (sch m) t)"
  using assms by (auto simp: core_ok_def held_def Let_def split: point.splits if_splits)

lemma blocked_not_held:
  assumes "cores_ok m" and "state (tcb (sch m) t) \<in> {STOPPED, INIT}"
    and "phase (tcb (sch m) t) = CTX_CLEAN" and "c \<in> up m"
  shows "t \<notin> held m c"
  using core_ok_held(1) [OF core_okD [OF assms(1,4)], of t] assms(2,3) by auto

text \<open>The state after a thread was made READY, whichever list operations were needed.\<close>

lemma ready_parts:
  assumes inv: "sinv_qw m q w" and lv: "live (sch m) (Thread k)"
    and st: "state (tcb (sch m) (Thread k)) \<in> {STOPPED, INIT}"
    and s': "tcb s' = (tcb (sch m))(Thread k := (tcb (sch m) (Thread k))
               \<lparr>wakeup_time := NO_TIMEOUT, state := READY\<rparr>)"
      "live s' = live (sch m)" "current_thread s' = current_thread (sch m)"
      "active_threads s' = active_threads (sch m)"
      "rep s' q' (remove1 (Thread k) w)"
    and q': "q' = (if phase (tcb (sch m) (Thread k)) = CTX_CLEAN then q @ [Thread k] else q)"
  shows "sinv_qw (m\<lparr>sch := s'\<rparr>) q' (remove1 (Thread k) w)"
proof -
  note I = sinv_qwD [OF inv]
  let ?m = "m\<lparr>sch := s'\<rparr>"
  have h: "held ?m c = held m c" for c
    by (rule held_cong) (simp_all add: s')
  have nq: "Thread k \<notin> set q" using I(2) st by (auto simp: queue_ok_def)
  have dw: "distinct w" using rep_distinct(2) [OF I(1)] .
  have "queue_ok ?m q'"
    using I(2) nq lv blocked_not_held [OF I(5) st] by (auto simp: queue_ok_def h s' q')
  moreover have "timeouts_ok ?m (remove1 (Thread k) w)"
  proof -
    have "sorted_wrt (\<lambda>a b. wakeup_time (tcb (sch m) a) \<le> wakeup_time (tcb (sch m) b))
        (remove1 (Thread k) w)"
      using I(3) dw by (simp add: timeouts_ok_def distinct_remove1_removeAll removeAll_filter_not_eq sorted_wrt_filter)
    then have "sorted_wrt (\<lambda>a b. wakeup_time (tcb s' a) \<le> wakeup_time (tcb s' b))
        (remove1 (Thread k) w)"
      using dw by (elim sorted_wrt_mono_rel [rotated]) (auto simp: s' set_remove1_eq)
    then show ?thesis using I(3) dw by (auto simp: timeouts_ok_def s' set_remove1_eq)
  qed
  moreover have "offcore_ok ?m q'"
    using I(4) lv unfolding offcore_ok_def h q' by (auto simp: s' h)
  moreover have "cores_ok ?m"
  proof -
    have "core_ok ?m c" if "c \<in> up m" for c
    proof -
      have "Thread k \<noteq> Idle_thread c" by simp
      then show ?thesis
        using core_okD [OF I(5) that] core_ok_held [OF core_okD [OF I(5) that], of "Thread k"] st
        by (auto simp: core_ok_def h s' Let_def split: point.splits if_splits)
    qed
    then show ?thesis using I(5) by (auto simp: cores_ok_def h s')
  qed
  moreover have "idle_ok ?m" using I(6) by (auto simp: idle_ok_def h s')
  moreover have "threads_ok s'" using I(7) by (auto simp: threads_ok_def s')
  ultimately show ?thesis using s'(5) by (simp add: sinv_qw_def)
qed

lemma make_ready_sinv:
  assumes inv: "sinv_qw m q w" and lv: "live (sch m) (Thread k)"
    and st: "state (tcb (sch m) (Thread k)) \<in> {STOPPED, INIT}"
  obtains s' q' where "sched_make_ready (sch m) (Thread k) = Some s'"
    and "sinv_qw (m\<lparr>sch := s'\<rparr>) q' (remove1 (Thread k) w)" and "woken (sch m) s'"
    and "state (tcb s' (Thread k)) = READY"
    and "q' = (if phase (tcb (sch m) (Thread k)) = CTX_CLEAN then q @ [Thread k] else q)"
proof -
  note I = sinv_qwD [OF inv]
  let ?s = "sch m" and ?t = "Thread k"
  obtain s1 where s1: "tcb s1 = (tcb ?s)(?t := (tcb ?s ?t)\<lparr>wakeup_time := NO_TIMEOUT\<rparr>)"
      "live s1 = live ?s" "current_thread s1 = current_thread ?s" "preemption s1 = preemption ?s"
      "active_threads s1 = active_threads ?s" "vm s1 = vm ?s" "rep s1 q (remove1 ?t w)"
    and mk: "sched_make_ready ?s ?t =
      (let s2 = upd_tcb s1 ?t (\<lambda>k. k\<lparr>state := READY\<rparr>)
       in Some (if phase (tcb s2 ?t) = CTX_CLEAN then sched_queue_add s2 ?t else s2))"
  proof (cases "wakeup_time (tcb ?s ?t) = NO_TIMEOUT")
    case True
    then have "?t \<notin> set w" using I(3) by (auto simp: timeouts_ok_def)
    then have "rep ?s q (remove1 ?t w)" using I(1) by (simp add: remove1_idem)
    moreover have "tcb ?s = (tcb ?s)(?t := (tcb ?s ?t)\<lparr>wakeup_time := NO_TIMEOUT\<rparr>)"
      using True by (simp add: fun_upd_idem)
    ultimately show ?thesis
      using that [of ?s] st True by (simp add: sched_make_ready_def)
  next
    case False
    then have tw: "?t \<in> set w" using I(3) lv by (auto simp: timeouts_ok_def)
    have "rl_next (qheap ?s) (Sched_node ?t) \<noteq> Sched_node ?t"
      using ring_next_neq [OF layoutD(1) [OF repD(1) [OF I(1)], of TIMEOUT_LIST]] tw by simp
    moreover have "state (tcb ?s ?t) = STOPPED" using I(3) tw by (auto simp: timeouts_ok_def)
    moreover have "rep ((upd_tcb ?s ?t (\<lambda>k. k\<lparr>wakeup_time := NO_TIMEOUT\<rparr>))
        \<lparr>qheap := fst (rlist_remove (qheap ?s) (Sched_node ?t))\<rparr>) q (remove1 ?t w)"
      by (rule rep_timeout_remove [OF I(1) tw lv]) simp_all
    ultimately show ?thesis
      using that [of "(upd_tcb ?s ?t (\<lambda>k. k\<lparr>wakeup_time := NO_TIMEOUT\<rparr>))
        \<lparr>qheap := fst (rlist_remove (qheap ?s) (Sched_node ?t))\<rparr>"] False
      by (simp add: sched_make_ready_def)
  qed
  let ?s2 = "upd_tcb s1 ?t (\<lambda>k. k\<lparr>state := READY\<rparr>)"
  let ?s' = "if phase (tcb ?s ?t) = CTX_CLEAN then sched_queue_add ?s2 ?t else ?s2"
  let ?q = "if phase (tcb ?s ?t) = CTX_CLEAN then q @ [?t] else q"
  have s2: "rep ?s2 q (remove1 ?t w)" by (rule rep_cong [OF s1(7)]) simp_all
  have "?t \<notin> set q \<union> set (remove1 ?t w)"
    using I(2) st rep_distinct(2) [OF I(1)] by (auto simp: queue_ok_def set_remove1_eq)
  then have rep': "rep ?s' ?q (remove1 ?t w)"
    using s2 rep_queue_add [OF s2, of k] lv s1(2) by auto
  show ?thesis
  proof (rule that)
    show "sched_make_ready ?s ?t = Some ?s'" using mk s1(1) by (simp add: Let_def)
    show "sinv_qw (m\<lparr>sch := ?s'\<rparr>) ?q (remove1 ?t w)"
      by (rule ready_parts [OF inv lv st _ _ _ _ rep' refl]) (simp_all add: s1)
    show "woken ?s ?s'" using st by (auto simp: woken_def s1)
    show "state (tcb ?s' ?t) = READY" by simp
  qed simp
qed

lemma expire_sinv:
  assumes "sinv_qw m q w"
  shows "\<exists>s' q' w'. expire_timeouts ct (sch m) = Some s' \<and> sinv_qw (m\<lparr>sch := s'\<rparr>) q' w' \<and>
     woken (sch m) s' \<and> (\<exists>zs. q' = q @ zs) \<and> set w' \<subseteq> set w \<and>
     (\<forall>t \<in> set w'. ct < wakeup_time (tcb s' t))"
  using assms
proof (induction "length w" arbitrary: m q w)
  case 0
  then show ?case
    using rl.is_empty [OF repD(1) [OF sinv_qwD(1) [OF 0(2)]], of TIMEOUT_LIST]
    by (intro exI [of _ "sch m"] exI [of _ q] exI [of _ w]) (simp add: expire_timeouts.simps)
next
  case (Suc n)
  note I = sinv_qwD [OF Suc.prems]
  obtain t ws where w: "w = t # ws" using Suc(2) by (cases w) auto
  then obtain k where t: "t = Thread k" "live (sch m) (Thread k)" "state (tcb (sch m) t) = STOPPED"
    using I(3) by (auto simp: timeouts_ok_def)
  have nempty: "\<not> is_rlist_empty (qheap (sch m)) TIMEOUT_LIST"
    and hd: "rl_next (qheap (sch m)) TIMEOUT_LIST = Sched_node t"
    and ob: "rl_obj (qheap (sch m)) (Sched_node t) = Some t"
    using rl.is_empty [OF repD(1) [OF I(1)], of TIMEOUT_LIST]
      layout_first [OF repD(1) [OF I(1)], of TIMEOUT_LIST] repD(4) [OF I(1) t(2)] w t(1)
    by simp_all
  show ?case
  proof (cases "ct < wakeup_time (tcb (sch m) t)")
    case True
    then have "\<forall>u \<in> set w. ct < wakeup_time (tcb (sch m) u)"
      using I(3) w by (auto simp: timeouts_ok_def)
    with True nempty hd ob Suc.prems show ?thesis
      by (intro exI [of _ "sch m"] exI [of _ q] exI [of _ w]) (simp add: expire_timeouts.simps)
  next
    case False
    obtain s1 q1 where s1: "sched_make_ready (sch m) t = Some s1"
      "sinv_qw (m\<lparr>sch := s1\<rparr>) q1 (remove1 t w)" "woken (sch m) s1" "\<exists>zs. q1 = q @ zs"
      using make_ready_sinv [OF Suc.prems t(2)] t by (metis append_Nil2 insertI1)
    have "n = length (remove1 t w)" using Suc(2) w by simp
    from Suc(1) [OF this s1(2)] obtain s' q' w' where
      "expire_timeouts ct s1 = Some s'" "sinv_qw (m\<lparr>sch := s'\<rparr>) q' w'" "woken s1 s'"
      "\<exists>zs. q' = q1 @ zs" "set w' \<subseteq> set (remove1 t w)" "\<forall>t \<in> set w'. ct < wakeup_time (tcb s' t)"
      by auto
    moreover have "expire_timeouts ct (sch m) = expire_timeouts ct s1"
      using nempty hd ob False s1(1) by (simp add: expire_timeouts.simps [of ct "sch m"])
    moreover have "\<exists>zs. q' = q @ zs" using s1(4) calculation(4) by auto
    ultimately show ?thesis
      using woken_trans [OF s1(3)] set_remove1_subset [of t w] by (metis subset_trans)
  qed
qed

section \<open>Every operation keeps the invariant\<close>

text \<open>Fields the invariant does not read.\<close>

lemma sinv_other:
  assumes "sinv_qw m q w" and "pc m' = pc m"
    and "tcb (sch m') = tcb (sch m)" "live (sch m') = live (sch m)"
      "current_thread (sch m') = current_thread (sch m)" "qheap (sch m') = qheap (sch m)"
      "active_threads (sch m') = active_threads (sch m)" "up m' = up m"
  shows "sinv_qw m' q w"
proof -
  have h: "held m' c = held m c" for c by (simp add: held_def assms)
  note I = sinv_qwD [OF assms(1)]
  have "rep (sch m') q w" by (rule rep_cong [OF I(1)]) (simp_all add: assms)
  moreover have "cores_ok m'" using I(5) assms
    by (simp add: cores_ok_def core_ok_def h Let_def)
  ultimately show ?thesis
    using I(2-4,6,7) assms
    by (simp add: sinv_qw_def queue_ok_def timeouts_ok_def offcore_ok_def idle_ok_def threads_ok_def h)
qed

lemma preempt_off_eq:
  "preempt_off s c = (s\<lparr>preemption := (preemption s)(c := False),
     vm := cpu_disable_interrupts (vm s) c\<rparr>, preemption s c)"
  by (simp add: preempt_off_def set_core_preemption_def Let_def)

lemma preempt_on_eq:
  "preempt_on s c = s\<lparr>preemption := (preemption s)(c := True),
     vm := upd_core (vm s) c (\<lambda>k. k\<lparr>int_disabled := False\<rparr>)\<rparr>"
  by (simp add: preempt_on_def set_core_preemption_def Let_def)

lemma sinv_restore_preempt:
  "sinv_qw (m\<lparr>sch := s\<rparr>) q w \<Longrightarrow> sinv_qw (m\<lparr>sch := if b then preempt_on s c else s\<rparr>) q w"
  by (auto intro: sinv_other simp: preempt_on_eq)

lemma wakeup_sinv:
  assumes "sinv_qw m q w" and "live (sch m) (Thread k)"
  obtains s' r q' w' where "wakeup (sch m) c (Thread k) = Some (s', r)"
    and "sinv_qw (m\<lparr>sch := s'\<rparr>) q' w'"
    and "r \<longleftrightarrow> state (tcb (sch m) (Thread k)) \<in> {STOPPED, INIT}"
    and "r \<Longrightarrow> state (tcb s' (Thread k)) = READY"
    and "live s' = live (sch m)"
    and "q' = (if r \<and> phase (tcb (sch m) (Thread k)) = CTX_CLEAN then q @ [Thread k] else q)"
    and "w' = (if r then remove1 (Thread k) w else w)"
proof -
  let ?s1 = "fst (preempt_off (sch m) c)"
  have inv1: "sinv_qw (m\<lparr>sch := ?s1\<rparr>) q w"
    by (rule sinv_other [OF assms(1)]) (simp_all add: preempt_off_eq)
  show ?thesis
  proof (cases "state (tcb (sch m) (Thread k)) \<in> {STOPPED, INIT}")
    case True
    then obtain s' q' where s': "sched_make_ready ?s1 (Thread k) = Some s'"
      "sinv_qw (m\<lparr>sch := s'\<rparr>) q' (remove1 (Thread k) w)"
      "state (tcb s' (Thread k)) = READY" "woken ?s1 s'"
      "q' = (if phase (tcb (sch m) (Thread k)) = CTX_CLEAN then q @ [Thread k] else q)"
      using make_ready_sinv [OF inv1, of k] assms(2) by (simp add: preempt_off_eq) metis
    let ?s' = "if preemption (sch m) c then preempt_on s' c else s'"
    have wk: "wakeup (sch m) c (Thread k) = Some (?s', True)"
      using True s'(1) by (auto simp: wakeup_def preempt_off_eq)
    moreover have "live ?s' = live (sch m)"
      using s'(4) by (auto simp: woken_def preempt_off_eq preempt_on_eq)
    moreover have "state (tcb ?s' (Thread k)) = READY" using s'(3) by (simp add: preempt_on_eq)
    ultimately show ?thesis
      using True s'(5) by (intro that [OF wk sinv_restore_preempt [OF s'(2)]]) simp_all
  next
    case False
    let ?s' = "if preemption (sch m) c then preempt_on ?s1 c else ?s1"
    have wk: "wakeup (sch m) c (Thread k) = Some (?s', False)"
      using False by (auto simp: wakeup_def preempt_off_eq)
    moreover have "live ?s' = live (sch m)" by (simp add: preempt_off_eq preempt_on_eq)
    ultimately show ?thesis
      using False by (intro that [OF wk sinv_restore_preempt [OF inv1]]) simp_all
  qed
qed

text \<open>A running thread stops being RUNNING: it blocks, exits or is about to yield.\<close>

lemma leave_running_sinv:
  assumes inv: "sinv_qw m q w" and c: "c \<in> up m" and run: "pc m c = Run"
    and t: "thread_at m c = t" and st: "st \<in> {READY, STOPPED, EXITED}"
    and idle: "t = Idle_thread c \<Longrightarrow> st = READY"
    and s': "tcb s' = (tcb (sch m))(t := (tcb (sch m) t)\<lparr>state := st\<rparr>)"
      "live s' = live (sch m)" "current_thread s' = current_thread (sch m)"
      "active_threads s' = active_threads (sch m)" "qheap s' = qheap (sch m)"
    and m': "sch m' = s'" "pc m' = (pc m)(c := Slept)" "up m' = up m"
  shows "sinv_qw m' q w"
proof -
  note I = sinv_qwD [OF inv]
  have h: "held m' d = held m d" for d
    using run by (auto simp: held_def m' s')
  have kh: "t \<in> held m c" using t by (simp add: held_def)
  have ks: "state (tcb (sch m) t) = RUNNING" "phase (tcb (sch m) t) = CTX_DIRTY"
    using core_okD [OF I(5) c] run t by (auto simp: core_ok_def held_def Let_def)
  have kd: "d = c" if "d \<in> up m" "t \<in> held m d" for d
    using held_disjoint [OF I(5) c that(1) kh that(2)] by simp
  have "rep (sch m') q w" by (rule rep_cong [OF I(1)]) (simp_all add: m' s')
  moreover have "queue_ok m' q" using I(2) c kh by (auto simp: queue_ok_def h m' s')
  moreover have "timeouts_ok m' w"
  proof -
    have "t \<notin> set w" using I(3) ks by (auto simp: timeouts_ok_def)
    moreover have "wakeup_time (tcb s' u) = wakeup_time (tcb (sch m) u)" for u by (simp add: s')
    ultimately show ?thesis using I(3) by (auto simp: timeouts_ok_def m' s')
  qed
  moreover have "offcore_ok m' q" using I(4) c kh by (auto simp: offcore_ok_def h m' s')
  moreover have "cores_ok m'"
  proof -
    have "core_ok m' d" if d: "d \<in> up m" for d
    proof (cases "d = c")
      case True
      then show ?thesis using st t ks idle core_okD [OF I(5) c]
        by (auto simp: core_ok_def h m' s' Let_def held_def)
    next
      case False
      then have "t \<notin> held m d" using kd d by blast
      then have "thread_at m d \<noteq> t" and "pc m d = Switch \<Longrightarrow> prev (tcb (sch m) (thread_at m d)) \<noteq> t"
        by (auto simp: held_def)
      then show ?thesis using core_okD [OF I(5) d] False
        by (cases "pc m d") (auto simp: core_ok_def h m' s' Let_def)
    qed
    then show ?thesis using I(5) by (auto simp: cores_ok_def h m' s')
  qed
  moreover have "idle_ok m'"
  proof -
    have "t = Idle_thread d \<Longrightarrow> d \<in> up m \<Longrightarrow> Idle_thread d \<in> held m d" for d
      using core_okD [OF I(5) c] kh by (auto simp: core_ok_def Let_def)
    then show ?thesis using I(6) by (auto simp: idle_ok_def h m' s')
  qed
  moreover have "threads_ok (sch m')" using I(7) by (auto simp: threads_ok_def m' s')
  ultimately show ?thesis by (simp add: sinv_qw_def)
qed

lemma timeout_sinv:
  fixes curtime :: uint64
  assumes inv: "sinv_qw m q w" and c: "c \<in> up m" and pt: "pc m c = Slept"
    and t: "thread_at m c = Thread k" and st: "state (tcb (sch m) (Thread k)) = STOPPED"
    and nw: "Thread k \<notin> set w"
    and to: "timeout \<noteq> NO_TIMEOUT" "curtime + timeout \<noteq> NO_TIMEOUT"
  obtains s' w' where "sched_register_timeout (sch m) (Thread k) timeout curtime = Some s'"
    and "sinv_qw (m\<lparr>sch := s'\<rparr>) q w'"
proof -
  note I = sinv_qwD [OF inv]
  define s1 where "s1 = upd_tcb (sch m) (Thread k) (\<lambda>u. u\<lparr>wakeup_time := curtime + timeout\<rparr>)"
  have kh: "Thread k \<in> held m c" using t by (simp add: held_def)
  have lv: "live (sch m) (Thread k)"
    using core_ok_held(3) [OF core_okD [OF I(5) c] kh] by auto
  have nq: "Thread k \<notin> set q" using I(2) c kh by (auto simp: queue_ok_def)
  obtain hp where hp: "sched_register_timeout (sch m) (Thread k) timeout curtime = Some (s1\<lparr>qheap := hp\<rparr>)"
    "rep (s1\<lparr>qheap := hp\<rparr>) q (insert_timeout s1 (Thread k) w)"
    using register_timeout_rep [OF I(1) _ lv _ to(1) s1_def] I(3) nq nw
    by (metis Un_iff timeouts_ok_def)
  define s2 where "s2 = s1\<lparr>qheap := hp\<rparr>"
  let ?m = "m\<lparr>sch := s2\<rparr>"
  have s2: "tcb s2 = tcb s1" "live s2 = live (sch m)" "current_thread s2 = current_thread (sch m)"
    "active_threads s2 = active_threads (sch m)" "vm s2 = vm (sch m)"
    "phase (tcb s1 u) = phase (tcb (sch m) u)" "state (tcb s1 u) = state (tcb (sch m) u)"
    "prev (tcb s1 u) = prev (tcb (sch m) u)" "ttype (tcb s1 u) = ttype (tcb (sch m) u)" for u
    by (simp_all add: s1_def s2_def)
  have h: "held ?m d = held m d" for d by (rule held_cong) (simp_all add: s2)
  have "queue_ok ?m q" using I(2) by (simp add: queue_ok_def h s2)
  moreover have "timeouts_ok ?m (insert_timeout s1 (Thread k) w)"
  proof -
    have "sorted_wrt (\<lambda>a b. wakeup_time (tcb s1 a) \<le> wakeup_time (tcb s1 b)) w"
      using I(3) nw unfolding timeouts_ok_def s1_def
      by (elim conjE, elim sorted_wrt_mono_rel [rotated]) auto
    then have "sorted_wrt (\<lambda>a b. wakeup_time (tcb s1 a) \<le> wakeup_time (tcb s1 b))
        (insert_timeout s1 (Thread k) w)" by (rule sorted_insert_timeout)
    moreover have "wakeup_time (tcb s1 u) =
        (if u = Thread k then curtime + timeout else wakeup_time (tcb (sch m) u))" for u
      by (simp add: s1_def)
    ultimately show ?thesis using I(3) lv st to(2) by (auto simp: timeouts_ok_def s2)
  qed
  moreover have "offcore_ok ?m q" using I(4) by (simp add: offcore_ok_def h s2)
  moreover have "cores_ok ?m"
    using I(5) by (simp add: cores_ok_def core_ok_def h s2 Let_def cong: point.case_cong)
  moreover have "idle_ok ?m" using I(6) by (simp add: idle_ok_def h s2)
  moreover have "threads_ok s2" using I(7) by (simp add: threads_ok_def s2)
  ultimately have "sinv_qw ?m q (insert_timeout s1 (Thread k) w)"
    using hp(2) by (simp add: sinv_qw_def s2_def)
  then show ?thesis using that hp(1) by (auto simp: s2_def)
qed

lemma sleep_sinv:
  assumes inv: "sinv_qw m q w" and c: "c \<in> up m" and run: "pc m c = Run"
    and t: "thread_at m c = Thread k" and st: "st \<in> {STOPPED, EXITED}"
    and to: "timeout \<noteq> NO_TIMEOUT \<Longrightarrow> curtime + timeout \<noteq> NO_TIMEOUT"
  obtains s' pre q' w' where "sleep_releasing (sch m) c st timeout curtime = Some (s', pre)"
    and "sinv_qw (m\<lparr>sch := s', pc := (pc m)(c := Slept)\<rparr>) q' w'"
proof -
  let ?s1 = "fst (preempt_off (sch m) c)"
  let ?s2 = "upd_tcb ?s1 (Thread k) (\<lambda>k. k\<lparr>state := st\<rparr>)"
  let ?m2 = "m\<lparr>sch := ?s2, pc := (pc m)(c := Slept)\<rparr>"
  have inv2: "sinv_qw ?m2 q w"
    using st by (intro leave_running_sinv [OF inv c run t]) (auto simp: preempt_off_eq)
  show ?thesis
  proof (cases "st = EXITED \<or> timeout = NO_TIMEOUT")
    case True
    then have "sleep_releasing (sch m) c st timeout curtime = Some (?s2, preemption (sch m) c)"
      using st t by (auto simp: sleep_releasing_def preempt_off_eq sched_register_timeout_def)
    with that inv2 show ?thesis by blast
  next
    case False
    have "state (tcb (sch m) (Thread k)) = RUNNING"
      using core_okD [OF sinv_qwD(5) [OF inv] c] run t by (auto simp: core_ok_def Let_def)
    then have nw: "Thread k \<notin> set w"
      using sinv_qwD(3) [OF inv] by (auto simp: timeouts_ok_def)
    obtain s' w' where s': "sched_register_timeout ?s2 (Thread k) timeout curtime = Some s'"
      "sinv_qw (?m2\<lparr>sch := s'\<rparr>) q w'"
      using timeout_sinv [OF inv2, of c k timeout curtime] c t st False nw to
      by (auto simp: preempt_off_eq)
    then have "sleep_releasing (sch m) c st timeout curtime = Some (s', preemption (sch m) c)"
      using st t False by (auto simp: sleep_releasing_def preempt_off_eq)
    moreover have "?m2\<lparr>sch := s'\<rparr> = m\<lparr>sch := s', pc := (pc m)(c := Slept)\<rparr>" by simp
    ultimately show ?thesis using that s'(2) by metis
  qed
qed

text \<open>The switch inside \<open>yield\<close>: the core takes \<open>nxt\<close> and remembers where it comes from.\<close>

lemma link_sinv:
  assumes inv: "sinv_qw m q w" and c: "c \<in> up m" and pt: "pc m c = Slept"
    and cur: "thread_at m c = cur" and ready: "state (tcb (sch m) nxt) = READY"
    and nxt: "nxt \<noteq> cur \<Longrightarrow> phase (tcb (sch m) nxt) = CTX_CLEAN"
      "\<And>d. nxt \<noteq> cur \<Longrightarrow> d \<in> up m \<Longrightarrow> nxt \<notin> held m d"
      "nxt \<noteq> cur \<Longrightarrow> nxt = Idle_thread c \<or> (\<exists>k. nxt = Thread k \<and> live (sch m) nxt)"
    and s: "tcb s = tcb (sch m)" "live s = live (sch m)"
      "current_thread s = current_thread (sch m)" "active_threads s = active_threads (sch m)"
    and rep': "rep s q' w" "set q' = set q - {nxt}"
    and m': "sch m' = yield_link s c nxt" "pc m' = (pc m)(c := Switch)" "up m' = up m"
  shows "sinv_qw m' q' w"
proof -
  note I = sinv_qwD [OF inv]
  let ?T = "tcb (sch m)" and ?T' = "tcb (sch m')"
  have hc: "held m c = {cur}" using pt cur by (simp add: held_def)
  have T': "state (?T' u) = state (?T u)" "phase (?T' u) = phase (?T u)"
    "ttype (?T' u) = ttype (?T u)" "wakeup_time (?T' u) = wakeup_time (?T u)"
    "prev (?T' u) = (if u = nxt then cur else prev (?T u))" for u
    using cur by (auto simp: m' yield_link_def Let_def s)
  have f: "live (sch m') = live (sch m)" "active_threads (sch m') = active_threads (sch m)"
    "thread_at m' = (thread_at m)(c := nxt)"
    using cur by (auto simp: m' yield_link_def Let_def s)
  have hc': "held m' c = {nxt, cur}" by (auto simp: held_def f T' m'(2))
  have nd: "nxt \<notin> held m d" if "d \<in> up m" "d \<noteq> c" for d
    using nxt(2) [OF _ that(1)] held_disjoint [OF I(5) c that(1), of cur] that(2) hc
    by (cases "nxt = cur") auto
  have hd: "held m' d = held m d" if "d \<in> up m" "d \<noteq> c" for d
    using nd [OF that] that by (auto simp: held_def f T' m'(2))
  have live': "nxt = Idle_thread c \<or> (\<exists>k. nxt = Thread k \<and> live (sch m) nxt)"
    using nxt(3) core_ok_held(3) [OF core_okD [OF I(5) c]] hc by blast
  have "rep (sch m') q' w" by (rule rep_cong [OF rep'(1)]) (simp_all add: m' yield_link_def Let_def)
  moreover have "queue_ok m' q'"
    using I(2) rep'(2) c hc by (auto simp: queue_ok_def f T' m'(3)) (metis hc' hd insertE singletonD)
  moreover have "timeouts_ok m' w" using I(3) by (simp add: timeouts_ok_def f T')
  moreover have "offcore_ok m' q'"
    using I(4) c rep'(2) hc by (auto simp: offcore_ok_def f T' m'(3)) (metis hc' hd insertCI singletonD)+
  moreover have "cores_ok m'"
  proof -
    have "core_ok m' d" if d: "d \<in> up m" for d
    proof (cases "d = c")
      case True
      show ?thesis
        using core_okD [OF I(5) c] pt cur ready nxt(1) live' hc
        unfolding core_ok_def True hc' by (auto simp: Let_def f T' m'(2))
    next
      case False
      then show ?thesis
        using core_okD [OF I(5) d] nd [OF d False]
        unfolding core_ok_def hd [OF d False]
        by (cases "pc m d") (auto simp: Let_def f T' m'(2) held_def)
    qed
    moreover have "held m' d \<inter> held m' e = {}" if "d \<in> up m" "e \<in> up m" "d \<noteq> e" for d e
      using that nd I(5) hc hc' hd unfolding cores_ok_def by (cases "d = c"; cases "e = c") auto
    ultimately show ?thesis by (simp add: cores_ok_def m'(3))
  qed
  moreover have "idle_ok m'"
    using I(6) hc hc' hd unfolding idle_ok_def T' m'(3) by (metis insertI1 insertI2 singletonD)
  moreover have "threads_ok (sch m')" using I(7) by (simp add: threads_ok_def f T')
  ultimately show ?thesis by (simp add: sinv_qw_def)
qed

lemma smach_order: "m\<lparr>pc := p, sch := s\<rparr> = m\<lparr>sch := s, pc := p\<rparr>"
  by simp

lemma classify_sinv:
  assumes inv: "sinv_qw m q w" and c: "c \<in> up m" and pt: "pc m c \<in> {Run, Slept}"
  obtains s' where
    "yield_classify (sch m) (thread_at m c) = Some (s', state (tcb s' (thread_at m c)) = READY)"
    and "sinv_qw (m\<lparr>sch := s', pc := (pc m)(c := Slept)\<rparr>) q w"
    and "current_thread s' = current_thread (sch m)"
    and "\<And>t. t \<noteq> thread_at m c \<Longrightarrow> tcb s' t = tcb (sch m) t"
proof -
  let ?t = "thread_at m c"
  have k: "core_ok m c" using core_okD [OF sinv_qwD(5) [OF inv] c] .
  show ?thesis
  proof (cases "pc m c = Run")
    case True
    let ?s' = "upd_tcb (sch m) ?t (\<lambda>k. k\<lparr>state := READY\<rparr>)"
    have "state (tcb (sch m) ?t) = RUNNING" using k True by (simp add: core_ok_def Let_def)
    then have "yield_classify (sch m) ?t = Some (?s', state (tcb ?s' ?t) = READY)"
      by (simp add: yield_classify_def)
    moreover have "sinv_qw (m\<lparr>sch := ?s', pc := (pc m)(c := Slept)\<rparr>) q w"
      by (rule leave_running_sinv [OF inv c True refl, where st = READY]) simp_all
    ultimately show ?thesis using that [of ?s'] by simp
  next
    case False
    then have pt: "pc m c = Slept" using pt by simp
    then have "m\<lparr>sch := sch m, pc := (pc m)(c := Slept)\<rparr> = m" by (simp add: fun_upd_idem)
    moreover have "yield_classify (sch m) ?t = Some (sch m, state (tcb (sch m) ?t) = READY)"
      using k pt by (auto simp: core_ok_def Let_def yield_classify_def)
    ultimately show ?thesis using that [of "sch m"] inv by simp
  qed
qed

text \<open>The choice of \<open>yield\<close>: the head of the queue, else the current thread if it can go on,
  else the idle thread of the core.\<close>

definition chosen :: "tcb_ref list \<Rightarrow> bool \<Rightarrow> tcb_ref \<Rightarrow> nat \<Rightarrow> tcb_ref" where
  "chosen q rdy cur c = (case q of t # _ \<Rightarrow> t | [] \<Rightarrow> if rdy then cur else Idle_thread c)"

lemma select_link_sinv:
  assumes inv: "sinv_qw m q w" and c: "c \<in> up m" and pt: "pc m c = Slept"
    and rdy: "rdy \<Longrightarrow> state (tcb (sch m) (thread_at m c)) = READY"
      "\<not> rdy \<Longrightarrow> thread_at m c \<noteq> Idle_thread c"
    and hp: "rlist_pop_front (qheap (sch m)) SCHED = (h, n)"
  shows "sinv_qw (m\<lparr>sch := yield_link ((sch m)\<lparr>qheap := h\<rparr>) c (chosen q rdy (thread_at m c) c),
       pc := (pc m)(c := Switch)\<rparr>) (tl q) w"
    and "rl_obj h n = (case q of t # _ \<Rightarrow> Some t | [] \<Rightarrow> None)"
proof -
  note I = sinv_qwD [OF inv]
  let ?n = "chosen q rdy (thread_at m c) c"
  have k: "core_ok m c" using core_okD [OF I(5) c] .
  have r: "rl_obj h = rl_obj (qheap (sch m))"
    using obj_rlist(4) [of "qheap (sch m)" SCHED] hp by simp
  have "sinv_qw (m\<lparr>sch := yield_link ((sch m)\<lparr>qheap := h\<rparr>) c ?n, pc := (pc m)(c := Switch)\<rparr>) (tl q) w
      \<and> rl_obj h n = (case q of t # _ \<Rightarrow> Some t | [] \<Rightarrow> None)"
  proof (cases q)
    case Nil
    then have hn: "h = qheap (sch m)" "n = SCHED" using rep_pop_empty [of "sch m" w] I(1) hp by auto
    have out: "Idle_thread c \<notin> held m d" if "\<not> rdy" "d \<in> up m" for d
      using that rdy(2) core_ok_held(3) [OF core_okD [OF I(5) that(2)], of "Idle_thread c"] pt
      by (cases "d = c") (auto simp: held_def)
    have "Idle_thread c \<notin> held m c \<Longrightarrow> state (tcb (sch m) (Idle_thread c)) = READY \<and>
        phase (tcb (sch m) (Idle_thread c)) = CTX_CLEAN"
      using I(6) c by (simp add: idle_ok_def)
    then have "sinv_qw (m\<lparr>sch := yield_link ((sch m)\<lparr>qheap := h\<rparr>) c ?n,
        pc := (pc m)(c := Switch)\<rparr>) [] w"
      using Nil rdy out c I(1) hn
      by (intro link_sinv [OF inv c pt refl, where nxt = ?n and s = "(sch m)\<lparr>qheap := h\<rparr>"])
         (auto simp: chosen_def)
    then show ?thesis using Nil hn I(1) by (simp add: rep_def)
  next
    case (Cons t qs)
    then obtain k where t: "t = Thread k" "live (sch m) (Thread k)" "state (tcb (sch m) t) = READY"
        "phase (tcb (sch m) t) = CTX_CLEAN" "\<And>d. d \<in> up m \<Longrightarrow> t \<notin> held m d"
      using I(2) by (auto simp: queue_ok_def)
    have rp: "rep ((sch m)\<lparr>qheap := h\<rparr>) qs w"
      using rep_pop(1) [of "sch m" k qs w "(sch m)\<lparr>qheap := h\<rparr>"] I(1) Cons t hp by simp
    have nn: "n = Sched_node t"
      using rep_pop(2) [of "sch m" k qs w "(sch m)\<lparr>qheap := h\<rparr>"] I(1) Cons t hp by simp
    have "distinct q" using rep_distinct(1) [OF I(1)] .
    then have "sinv_qw (m\<lparr>sch := yield_link ((sch m)\<lparr>qheap := h\<rparr>) c ?n,
        pc := (pc m)(c := Switch)\<rparr>) qs w"
      using Cons t rp
      by (intro link_sinv [OF inv c pt refl, where nxt = ?n and s = "(sch m)\<lparr>qheap := h\<rparr>"])
         (auto simp: chosen_def)
    then show ?thesis using Cons nn r t repD(4) [OF I(1) t(2)] by simp
  qed
  then show "sinv_qw (m\<lparr>sch := yield_link ((sch m)\<lparr>qheap := h\<rparr>) c ?n,
       pc := (pc m)(c := Switch)\<rparr>) (tl q) w"
    and "rl_obj h n = (case q of t # _ \<Rightarrow> Some t | [] \<Rightarrow> None)" by blast+
qed

lemma yield_sinv:
  assumes inv: "sinv_qw m q w" and c: "c \<in> up m" and pt: "pc m c \<in> {Run, Slept}"
  obtains s' q' w' where "yield (sch m) c cause ct r = Some (s', preemption (sch m) c)"
    and "sinv_qw (m\<lparr>sch := s', pc := (pc m)(c := Switch)\<rparr>) q' w'"
    and "\<forall>t \<in> set w'. ct < wakeup_time (tcb s' t)"
    and "q \<noteq> [] \<Longrightarrow> current_thread s' c = hd q \<and> (\<exists>zs. q' = tl q @ zs)"
    and "prev (tcb s' (current_thread s' c)) = thread_at m c"
proof -
  define s1 where "s1 = fst (preempt_off ((sch m)\<lparr>vm := fst (bios_cancel_timer (vm (sch m)) c r)\<rparr>) c)"
  have pre: "preempt_off ((sch m)\<lparr>vm := fst (bios_cancel_timer (vm (sch m)) c r)\<rparr>) c =
      (s1, preemption (sch m) c)"
    by (simp add: s1_def preempt_off_eq)
  have f1: "tcb s1 = tcb (sch m)" "current_thread s1 = current_thread (sch m)"
    by (simp_all add: s1_def preempt_off_eq)
  have inv1: "sinv_qw (m\<lparr>sch := s1\<rparr>) q w"
    by (rule sinv_other [OF inv]) (simp_all add: s1_def preempt_off_eq)
  let ?cur = "thread_at m c"
  obtain s2 where s2: "yield_classify s1 ?cur = Some (s2, state (tcb s2 ?cur) = READY)"
    "sinv_qw (m\<lparr>sch := s2, pc := (pc m)(c := Slept)\<rparr>) q w"
    "current_thread s2 = current_thread (sch m)"
    using classify_sinv [OF inv1, of c] c pt f1(2) by auto
  let ?rdy = "state (tcb s2 ?cur) = READY"
  obtain s3 q3 w3 where s3: "expire_timeouts ct s2 = Some s3"
    "sinv_qw (m\<lparr>sch := s3, pc := (pc m)(c := Slept)\<rparr>) q3 w3" "woken s2 s3"
    "\<forall>t \<in> set w3. ct < wakeup_time (tcb s3 t)" "\<exists>zs. q3 = q @ zs"
    using expire_sinv [OF s2(2), of ct] by (auto simp: smach_order)
  obtain h n where hn: "rlist_pop_front (qheap s3) SCHED = (h, n)" by force
  have cur3: "current_thread s3 = current_thread (sch m)" using s3(3) s2(3) by (simp add: woken_def)
  have ok3: "core_ok (m\<lparr>sch := s2, pc := (pc m)(c := Slept)\<rparr>) c"
    using core_okD [OF sinv_qwD(5) [OF s2(2)]] c by simp
  have r1: "state (tcb s3 ?cur) = READY" if ?rdy using that s3(3) unfolding woken_def by metis
  have r2: "?cur \<noteq> Idle_thread c" if "\<not> ?rdy"
    using that ok3 s2(3) by (auto simp: core_ok_def Let_def)
  let ?n = "chosen q3 ?rdy ?cur c"
  have L: "sinv_qw (m\<lparr>sch := yield_link (s3\<lparr>qheap := h\<rparr>) c ?n, pc := (pc m)(c := Switch)\<rparr>) (tl q3) w3"
    "rl_obj h n = (case q3 of t # _ \<Rightarrow> Some t | [] \<Rightarrow> None)"
    using select_link_sinv [OF s3(2), of c ?rdy h n] c hn cur3 r1 r2 by simp_all
  have "yield (sch m) c cause ct r = Some (yield_link (s3\<lparr>qheap := h\<rparr>) c ?n, preemption (sch m) c)"
    using s2(1) s3(1) hn L(2)
    by (simp add: yield_def pre f1 sched_queue_select_def chosen_def split: list.splits)
  moreover have "\<forall>t \<in> set w3. ct < wakeup_time (tcb (yield_link (s3\<lparr>qheap := h\<rparr>) c ?n) t)"
    using s3(4) by (auto simp: yield_link_def Let_def)
  moreover have "current_thread (yield_link (s3\<lparr>qheap := h\<rparr>) c ?n) c = hd q \<and>
      (\<exists>zs. tl q3 = tl q @ zs)" if "q \<noteq> []"
    using that s3(5) by (cases q) (auto simp: chosen_def yield_link_def Let_def)
  moreover have "prev (tcb (yield_link (s3\<lparr>qheap := h\<rparr>) c ?n)
      (current_thread (yield_link (s3\<lparr>qheap := h\<rparr>) c ?n) c)) = ?cur"
    using cur3 by (simp add: yield_link_def Let_def)
  ultimately show ?thesis using that L(1) by blast
qed

text \<open>\<open>gain\<close>: the previous thread of the core is handed back, to the queue, to its waker or to
  the allocator.\<close>

lemma gain_parts:
  assumes inv: "sinv_qw m q w" and c: "c \<in> up m" and pt: "pc m c = Switch"
    and cur: "thread_at m c = cur" and prv: "prev (tcb (sch m) cur) = prv"
    and T: "\<And>t. state (tcb s' t) = (if t = cur then RUNNING else state (tcb (sch m) t))"
      "\<And>t. phase (tcb s' t) = (if t = cur then CTX_DIRTY else if t = prv then CTX_CLEAN
                              else phase (tcb (sch m) t))"
      "\<And>t. ttype (tcb s' t) = ttype (tcb (sch m) t)" "\<And>t. prev (tcb s' t) = prev (tcb (sch m) t)"
      "\<And>t. wakeup_time (tcb s' t) = wakeup_time (tcb (sch m) t)"
    and lv: "\<And>t. live s' t \<longleftrightarrow> live (sch m) t \<and>
               \<not> (t = prv \<and> prv \<noteq> cur \<and> state (tcb (sch m) prv) = EXITED)"
    and s': "current_thread s' = current_thread (sch m)" "threads_ok s'" "rep s' q' w"
    and q': "q' = (if prv \<noteq> cur \<and> prv \<noteq> Idle_thread c \<and> state (tcb (sch m) prv) = READY
                   then q @ [prv] else q)"
    and m': "sch m' = s'" "pc m' = (pc m)(c := Run)" "up m' = up m"
  shows "sinv_qw m' q' w"
proof -
  note I = sinv_qwD [OF inv]
  let ?T = "tcb (sch m)"
  have k: "core_ok m c" using core_okD [OF I(5) c] .
  have hc: "held m c = {cur, prv}" using pt cur prv by (auto simp: held_def)
  have hc': "held m' c = {cur}" using cur by (simp add: held_def m' s')
  have hd: "held m' d = held m d" if "d \<noteq> c" for d using that by (simp add: held_def m' s' T)
  have out: "cur \<notin> held m d" "prv \<notin> held m d" if "d \<in> up m" "d \<noteq> c" for d
    using held_disjoint [OF I(5) c that(1)] that(2) hc by auto
  have kc: "state (?T cur) = READY" "prv \<noteq> cur \<Longrightarrow> state (?T prv) \<in> {READY, STOPPED, EXITED}"
    "prv = Idle_thread c \<Longrightarrow> state (?T prv) = READY"
    "\<And>u. u \<in> {cur, prv} \<Longrightarrow> u = Idle_thread c \<or> (\<exists>k. u = Thread k \<and> live (sch m) u)"
    using k unfolding core_ok_def Let_def pt cur prv hc point.case by blast+
  have nq: "cur \<notin> set q" "prv \<notin> set q" using I(2) c hc by (auto simp: queue_ok_def)
  have nw: "cur \<notin> set w" using I(3) kc(1) by (auto simp: timeouts_ok_def)
  have "queue_ok m' q'"
  proof -
    have a: "t \<notin> held m' d" if "t \<in> set q" "d \<in> up m" for t d
      using I(2) that c hc' hd [of d] nq by (cases "d = c") (auto simp: queue_ok_def)
    have b: "prv \<notin> held m' d" if "d \<in> up m" "prv \<noteq> cur" for d
      using that out(2) hd [of d] hc' by (cases "d = c") auto
    show ?thesis using I(2) nq a b kc(4) [of prv]
      by (auto simp: queue_ok_def m' q' T lv split: if_splits)
  qed
  moreover have "timeouts_ok m' w" using I(3) nw by (auto simp: timeouts_ok_def m' T lv)
  moreover have "offcore_ok m' q'"
    unfolding offcore_ok_def
  proof (intro allI impI)
    fix j assume j: "live (sch m') (Thread j)" "\<forall>d \<in> up m'. Thread j \<notin> held m' d"
    then have nc: "Thread j \<noteq> cur" using c hc' m' by auto
    show "phase (tcb (sch m') (Thread j)) = CTX_CLEAN \<and>
        (state (tcb (sch m') (Thread j)) \<in> {INIT, STOPPED} \<or>
         state (tcb (sch m') (Thread j)) = READY \<and> Thread j \<in> set q')"
    proof (cases "Thread j = prv")
      case True
      then show ?thesis using nc j(1) kc(2) by (auto simp: m' T lv q')
    next
      case False
      then have "\<forall>d \<in> up m. Thread j \<notin> held m d" using j(2) nc hc hd m'(3) by (metis insertE singletonD)
      then show ?thesis using I(4) j(1) nc False by (auto simp: offcore_ok_def m' T lv q')
    qed
  qed
  moreover have "cores_ok m'"
  proof -
    have "core_ok m' d" if d: "d \<in> up m" for d
    proof (cases "d = c")
      case True
      then show ?thesis using kc(4) cur kc(1) unfolding core_ok_def True hc'
        by (auto simp: Let_def m' s' T lv)
    next
      case False
      have "t \<in> held m d \<Longrightarrow> t \<noteq> cur \<and> t \<noteq> prv" for t using out [OF d False] by blast
      then show ?thesis
        using core_okD [OF I(5) d] False unfolding core_ok_def hd [OF False]
        by (cases "pc m d") (auto simp: Let_def m' s' T lv held_def)
    qed
    moreover have "held m' d \<inter> held m' e = {}" if "d \<in> up m" "e \<in> up m" "d \<noteq> e" for d e
      using that out I(5) hc hc' hd unfolding cores_ok_def by (cases "d = c"; cases "e = c") auto
    ultimately show ?thesis by (simp add: cores_ok_def m'(3))
  qed
  moreover have "idle_ok m'"
    unfolding idle_ok_def
  proof (intro ballI conjI impI)
    fix d assume d: "d \<in> up m'"
    show "ttype (tcb (sch m') (Idle_thread d)) = IDLE_THREAD"
      using I(6) d by (simp add: idle_ok_def m' T)
    assume n: "Idle_thread d \<notin> held m' d"
    have "d \<noteq> c \<Longrightarrow> Idle_thread d \<notin> {cur, prv}" using kc(4) by blast
    then have "Idle_thread d = prv \<or> Idle_thread d \<noteq> cur \<and> Idle_thread d \<notin> held m d"
      using n hc hc' hd [of d] by (cases "d = c") auto
    moreover have "Idle_thread d \<noteq> cur" using n hc' kc(4) by blast
    ultimately show "state (tcb (sch m') (Idle_thread d)) = READY"
      "phase (tcb (sch m') (Idle_thread d)) = CTX_CLEAN"
      using I(6) d kc(3,4) by (auto simp: idle_ok_def m' T)
  qed
  ultimately show ?thesis using s' m' by (simp add: sinv_qw_def)
qed

lemma threads_ok_release:
  assumes "threads_ok s" and "live s (Thread k)"
  shows "threads_ok (release_TCB s (Thread k))"
proof -
  let ?A = "{j. live s (Thread j)}"
  have A: "finite ?A" "k \<in> ?A" "active_threads s = of_nat (card ?A)"
    using assms by (auto simp: threads_ok_def)
  have e: "{j. live (release_TCB s (Thread k)) (Thread j)} = ?A - {k}"
    by (auto simp: release_TCB_def)
  have "card ?A = Suc (card (?A - {k}))" using A by (simp only: card.remove)
  then have "active_threads s - 1 = of_nat (card (?A - {k}))" using A(3) by simp
  then show ?thesis
    using assms(1) A(1) e by (auto simp: threads_ok_def release_TCB_def)
qed

lemma threads_ok_cong:
  "threads_ok s \<Longrightarrow> live s' = live s \<Longrightarrow> (\<And>t. ttype (tcb s' t) = ttype (tcb s t)) \<Longrightarrow>
     active_threads s' = active_threads s \<Longrightarrow> threads_ok s'"
  by (simp add: threads_ok_def)

lemma sinv_gain_tail:
  assumes "sinv_qw (m\<lparr>sch := s, pc := p\<rparr>) q w"
  shows "sinv_qw (m\<lparr>sch := (if b then preempt_on s c else s)
      \<lparr>vm := V\<rparr>, pc := p\<rparr>) q w"
  by (rule sinv_other [OF assms]) (simp_all add: preempt_on_eq)

lemma gain_sinv:
  assumes inv: "sinv_qw m q w" and c: "c \<in> up m" and pt: "pc m c = Switch"
  obtains s' q' where "gain (sch m) c pre r = Some s'"
    and "sinv_qw (m\<lparr>sch := s', pc := (pc m)(c := Run)\<rparr>) q' w"
proof -
  note I = sinv_qwD [OF inv]
  define cur where "cur = thread_at m c"
  define prv where "prv = prev (tcb (sch m) cur)"
  let ?s1 = "upd_tcb (sch m) cur (\<lambda>k. k\<lparr>state := RUNNING, phase := CTX_DIRTY\<rparr>)"
  let ?s2 = "upd_tcb ?s1 prv (\<lambda>k. k\<lparr>phase := CTX_CLEAN\<rparr>)"
  have "prv \<in> held m c" using pt by (simp add: held_def cur_def prv_def)
  from core_ok_held(3) [OF core_okD [OF I(5) c] this]
  have pk: "prv \<noteq> Idle_thread c \<Longrightarrow> \<exists>k. prv = Thread k \<and> live (sch m) prv" by blast
  have pst: "prv \<noteq> cur \<Longrightarrow> state (tcb (sch m) prv) \<in> {READY, STOPPED, EXITED}"
    "prv = Idle_thread c \<Longrightarrow> state (tcb (sch m) prv) = READY"
    using core_okD [OF I(5) c] pt unfolding core_ok_def Let_def prv_def cur_def by auto
  have pty: "ttype (tcb (sch m) prv) = IDLE_THREAD \<longleftrightarrow> prv = Idle_thread c"
    using pk I(6,7) c by (cases "prv = Idle_thread c") (auto simp: idle_ok_def threads_ok_def)
  have pq: "prv \<notin> set q" using I(2) c \<open>prv \<in> held m c\<close> by (auto simp: queue_ok_def)
  have pw: "prv \<in> set w \<Longrightarrow> state (tcb (sch m) prv) = STOPPED"
    using I(3) by (auto simp: timeouts_ok_def)
  let ?s3 = "if cur = prv then ?s1
     else if state (tcb (sch m) prv) = READY \<and> prv \<noteq> Idle_thread c then sched_queue_add ?s2 prv
     else if state (tcb (sch m) prv) = EXITED then release_TCB ?s2 prv else ?s2"
  let ?q = "if prv \<noteq> cur \<and> prv \<noteq> Idle_thread c \<and> state (tcb (sch m) prv) = READY
            then q @ [prv] else q"
  have g: "gain (sch m) c pre r = Some ((if pre then preempt_on ?s3 c else ?s3)
      \<lparr>vm := fst (bios_set_timer (vm (if pre then preempt_on ?s3 c else ?s3)) c QUANTUM r)\<rparr>)"
    using pst pty by (auto simp: gain_def Let_def cur_def [symmetric] prv_def [symmetric])
  have rep1: "rep ?s1 q w" "rep ?s2 q w" by (rule rep_cong [OF I(1)], simp_all)+
  have qa: "rep (sched_queue_add ?s2 prv) (q @ [prv]) w"
    if p: "prv \<noteq> Idle_thread c" "state (tcb (sch m) prv) = READY"
  proof -
    obtain k where k: "prv = Thread k" "live (sch m) (Thread k)" using pk [OF p(1)] by auto
    then show ?thesis using rep_queue_add [OF rep1(2), of k] pq pw p(2) by auto
  qed
  have re: "rep (release_TCB ?s2 prv) q w" if "state (tcb (sch m) prv) = EXITED"
    by (rule rep_release [OF rep1(2)]) (use that pq pw in auto)
  have rep3: "rep ?s3 ?q w" using rep1 qa re by auto
  have th1: "threads_ok ?s1" "threads_ok ?s2" by (rule threads_ok_cong [OF I(7)], simp_all)+
  have te: "threads_ok (release_TCB ?s2 prv)" if p: "state (tcb (sch m) prv) = EXITED"
  proof -
    obtain k where k: "prv = Thread k" "live (sch m) (Thread k)" using pk pst(2) p by (metis Thread_state.distinct(13))
    then show ?thesis using threads_ok_release [OF th1(2), of k] by simp
  qed
  have "threads_ok (sched_queue_add ?s2 prv)" by (rule threads_ok_cong [OF th1(2)]) simp_all
  then have th3: "threads_ok ?s3" using th1 te by auto
  have "sinv_qw (m\<lparr>sch := ?s3, pc := (pc m)(c := Run)\<rparr>) ?q w"
    using pst
    by (intro gain_parts [OF inv c pt cur_def [symmetric] prv_def [symmetric] _ _ _ _ _ _ _ th3 rep3 refl])
       (auto simp: release_TCB_def)
  then show ?thesis using that [OF g] sinv_gain_tail by blast
qed

lemma spawn_sinv:
  assumes inv: "sinv_qw m q w" and nl: "\<not> live (sch m) (Thread k)"
  shows "sinv_qw (m\<lparr>sch := spawn_thread (sch m) (Thread k) pcb f, ypre := yp, spre := sp\<rparr>) q w"
proof -
  note I = sinv_qwD [OF inv]
  define m' where "m' = m\<lparr>sch := spawn_thread (sch m) (Thread k) pcb f, ypre := yp, spre := sp\<rparr>"
  let ?A = "{j. live (sch m) (Thread j)}"
  have f: "live (sch m') = (live (sch m))(Thread k := True)" "thread_at m' = thread_at m"
      "active_threads (sch m') = active_threads (sch m) + 1"
      "prev (tcb (sch m') t) = prev (tcb (sch m) t)"
      "t \<noteq> Thread k \<Longrightarrow> tcb (sch m') t = tcb (sch m) t"
      "state (tcb (sch m') (Thread k)) = INIT" "phase (tcb (sch m') (Thread k)) = CTX_CLEAN"
      "wakeup_time (tcb (sch m') (Thread k)) = NO_TIMEOUT"
      "ttype (tcb (sch m') (Thread k)) = NORMAL_THREAD"
      "up m' = up m" "pc m' = pc m" for t
    by (simp_all add: spawn_thread_def Let_def m'_def)
  have h: "held m' d = held m d" for d using f(2,4,11) by (simp add: held_def)
  have nh: "Thread k \<notin> held m d" if "d \<in> up m" for d
    using core_ok_held(3) [OF core_okD [OF I(5) that], of "Thread k"] nl by auto
  have nq: "Thread k \<notin> set q" "Thread k \<notin> set w"
    using I(2,3) nl by (auto simp: queue_ok_def timeouts_ok_def)
  have ne: "t \<in> set q \<Longrightarrow> t \<noteq> Thread k" "t \<in> set w \<Longrightarrow> t \<noteq> Thread k" for t using nq by auto
  have "rep (sch m') q w" using rep_spawn [OF I(1) nl] nq by (simp add: m'_def)
  moreover have "queue_ok m' q"
    using I(2) ne(1) unfolding queue_ok_def h f(1,10) by (simp add: f(5))
  moreover have "timeouts_ok m' w"
  proof -
    have "sorted_wrt (\<lambda>a b. wakeup_time (tcb (sch m') a) \<le> wakeup_time (tcb (sch m') b)) w"
      using I(3) ne(2) unfolding timeouts_ok_def
      by (elim conjE, elim sorted_wrt_mono_rel [rotated]) (metis f(5))
    moreover have "wakeup_time (tcb (sch m') (Thread j)) = NO_TIMEOUT"
      if "live (sch m') (Thread j)" "Thread j \<notin> set w" for j
      using I(3) that f(1,8) f(5) [of "Thread j"] by (cases "j = k") (auto simp: timeouts_ok_def)
    ultimately show ?thesis using I(3) ne(2) f(1) f(5) by (simp add: timeouts_ok_def)
  qed
  moreover have "offcore_ok m' q"
    unfolding offcore_ok_def
  proof (intro allI impI)
    fix j assume j: "live (sch m') (Thread j)" "\<forall>d \<in> up m'. Thread j \<notin> held m' d"
    show "phase (tcb (sch m') (Thread j)) = CTX_CLEAN \<and>
        (state (tcb (sch m') (Thread j)) \<in> {INIT, STOPPED} \<or>
         state (tcb (sch m') (Thread j)) = READY \<and> Thread j \<in> set q)"
      using I(4) j f(1,6,7) f(5) [of "Thread j"] unfolding h f(10) offcore_ok_def
      by (cases "j = k") auto
  qed
  moreover have "cores_ok m'"
  proof -
    have "core_ok m' d" if d: "d \<in> up m" for d
    proof -
      have "t \<in> held m d \<Longrightarrow> tcb (sch m') t = tcb (sch m) t" for t
        using nh [OF d] f(5) [of t] by (cases "t = Thread k") auto
      then have e: "tcb (sch m') (thread_at m d) = tcb (sch m) (thread_at m d)"
        "pc m d = Switch \<Longrightarrow> tcb (sch m') (prev (tcb (sch m) (thread_at m d))) =
           tcb (sch m) (prev (tcb (sch m) (thread_at m d)))" by (auto simp: held_def)
      show ?thesis using core_okD [OF I(5) d] e
        unfolding core_ok_def h f(1,2,11) by (cases "pc m d") (auto simp: Let_def)
    qed
    then show ?thesis using I(5) unfolding cores_ok_def h f(10) by simp
  qed
  moreover have "idle_ok m'" using I(6) unfolding idle_ok_def h f(10) by (simp add: f(5))
  moreover have "threads_ok (sch m')"
  proof -
    have "{j. live (sch m') (Thread j)} = insert k ?A" using f(1) by auto
    moreover have "ttype (tcb (sch m') (Thread j)) = NORMAL_THREAD"
      if "live (sch m') (Thread j)" for j
      using I(7) that f(1,9) f(5) [of "Thread j"] by (cases "j = k") (auto simp: threads_ok_def)
    ultimately show ?thesis using I(7) nl f(3) unfolding threads_ok_def by simp
  qed
  ultimately show ?thesis unfolding sinv_qw_def m'_def by blast
qed

lemma rep_init_idle:
  assumes "rep s q w" and "Idle_thread c \<notin> set q \<union> set w"
    and "live s' = live s" and "qheap s' = rlnode_init (qheap s) (Sched_node (Idle_thread c)) (Some (Idle_thread c))"
  shows "rep s' q w"
proof -
  have "layout (qheap s') {SCHED, TIMEOUT_LIST} (qlists q w)
      (insert (Sched_node (Idle_thread c)) (free_nodes s q w))"
    unfolding assms(4) using assms(2) by (intro layout_init_node [OF repD(1) [OF assms(1)]]) auto
  then have "layout (qheap s') {SCHED, TIMEOUT_LIST} (qlists q w) (free_nodes s' q w)"
    unfolding layout_def free_nodes_def assms(3) by (auto simp del: ring.simps)
  then show ?thesis using assms by (simp add: rep_def)
qed

text \<open>A core enters the scheduler with its idle thread.\<close>

lemma enter_sinv:
  assumes inv: "sinv_qw m q w" and c: "c \<notin> up m"
  shows "sinv_qw (m\<lparr>sch := run_scheduler_init (sch m) c pcb0, up := insert c (up m),
     pc := (pc m)(c := Run)\<rparr>) q w"
proof -
  note I = sinv_qwD [OF inv]
  define m' where "m' = m\<lparr>sch := run_scheduler_init (sch m) c pcb0, up := insert c (up m),
     pc := (pc m)(c := Run)\<rparr>"
  have f: "live (sch m') = live (sch m)" "thread_at m' = (thread_at m)(c := Idle_thread c)"
    "active_threads (sch m') = active_threads (sch m)" "up m' = insert c (up m)"
    "pc m' = (pc m)(c := Run)" "prev (tcb (sch m') t) = prev (tcb (sch m) t)"
    "t \<noteq> Idle_thread c \<Longrightarrow> tcb (sch m') t = tcb (sch m) t"
    "state (tcb (sch m') (Idle_thread c)) = RUNNING"
    "phase (tcb (sch m') (Idle_thread c)) = CTX_DIRTY"
    "ttype (tcb (sch m') (Idle_thread c)) = IDLE_THREAD"
    "qheap (sch m') = rlnode_init (qheap (sch m)) (Sched_node (Idle_thread c)) (Some (Idle_thread c))"
    for t
    by (simp_all add: m'_def run_scheduler_init_def Let_def preempt_on_eq fun_eq_iff)
  have hc: "held m' c = {Idle_thread c}" by (simp add: held_def f(2,5))
  have hd: "held m' d = held m d" if "d \<in> up m" for d
    using that c by (auto simp: held_def f(2,5,6))
  have nh: "Idle_thread c \<notin> held m d" if "d \<in> up m" for d
    using core_ok_held(3) [OF core_okD [OF I(5) that], of "Idle_thread c"] that c by auto
  have nt: "tcb (sch m') (Thread k) = tcb (sch m) (Thread k)" for k using f(7) by simp
  have q: "t \<in> set q \<Longrightarrow> \<exists>k. t = Thread k" "t \<in> set w \<Longrightarrow> \<exists>k. t = Thread k" for t
    using I(2,3) by (auto simp: queue_ok_def timeouts_ok_def)
  then have e: "tcb (sch m') t = tcb (sch m) t" if "t \<in> set q \<or> t \<in> set w" for t
    using that nt by auto
  have "rep (sch m') q w"
    by (rule rep_init_idle [OF I(1) _ f(1,11)]) (use q in auto)
  moreover have "queue_ok m' q"
    using I(2) q(1) e hd hc by (auto simp: queue_ok_def f(1,4))
  moreover have "timeouts_ok m' w"
  proof -
    have "sorted_wrt (\<lambda>a b. wakeup_time (tcb (sch m') a) \<le> wakeup_time (tcb (sch m') b)) w"
      using I(3) e unfolding timeouts_ok_def
      by (elim conjE, elim sorted_wrt_mono_rel [rotated]) simp
    then show ?thesis using I(3) e by (auto simp: timeouts_ok_def f(1) nt)
  qed
  moreover have "offcore_ok m' q" using I(4) hd by (simp add: offcore_ok_def f(1,4) nt)
  moreover have "cores_ok m'"
  proof -
    have "core_ok m' d" if d: "d \<in> up m" for d
    proof -
      have dc: "d \<noteq> c" using d c by blast
      have "t \<in> held m d \<Longrightarrow> tcb (sch m') t = tcb (sch m) t" for t
        using nh [OF d] f(7) [of t] by (cases "t = Idle_thread c") auto
      then have "tcb (sch m') (thread_at m d) = tcb (sch m) (thread_at m d)"
        "pc m d = Switch \<Longrightarrow> tcb (sch m') (prev (tcb (sch m) (thread_at m d))) =
           tcb (sch m) (prev (tcb (sch m) (thread_at m d)))" by (auto simp: held_def)
      then show ?thesis using core_okD [OF I(5) d] dc
        unfolding core_ok_def hd [OF d] f(1,2,5) by (cases "pc m d") (auto simp: Let_def)
    qed
    moreover have "core_ok m' c" by (simp add: core_ok_def hc f(2,5,8,9))
    ultimately show ?thesis using I(5) hc hd nh by (auto simp: cores_ok_def f(4))
  qed
  moreover have "idle_ok m'"
  proof -
    have "tcb (sch m') (Idle_thread d) = tcb (sch m) (Idle_thread d)" if "d \<in> up m" for d
      by (rule f(7)) (use that c in auto)
    then show ?thesis using I(6) hc hd f(10) by (auto simp: idle_ok_def f(4))
  qed
  moreover have "threads_ok (sch m')" using I(7) by (simp add: threads_ok_def f(1,3) nt)
  ultimately show ?thesis unfolding sinv_qw_def m'_def by blast
qed

section \<open>The step relation\<close>

text \<open>
  One step is one critical section of the scheduler on one core. Other effects on a core (its
  interrupt mask, its timer, halting) only touch the BIOS part and the preemption flag. The
  clock is \<open>bios_clock\<close>, a multiple of 1000 microseconds, and a timeout is \<open>NO_TIMEOUT\<close> or a
  number of milliseconds times 1000. \<open>spre\<close> keeps the preemption status that
  \<open>sleep_releasing\<close> saved, which it restores after \<open>yield\<close> has returned in the same thread;
  a thread that runs for the first time starts with \<open>gain(1)\<close>.
\<close>

inductive sstep :: "smach \<Rightarrow> smach \<Rightarrow> bool" where
  spawn: "\<not> live (sch m) (Thread k) \<Longrightarrow>
    sstep m (m\<lparr>sch := spawn_thread (sch m) (Thread k) pcb func,
       ypre := (ypre m)(Thread k := True), spre := (spre m)(Thread k := False)\<rparr>)"
| wake: "live (sch m) (Thread k) \<Longrightarrow> wakeup (sch m) c (Thread k) = Some (s', ret) \<Longrightarrow>
    sstep m (m\<lparr>sch := s'\<rparr>)"
| enter: "c \<notin> up m \<Longrightarrow>
    sstep m (m\<lparr>sch := run_scheduler_init (sch m) c pcb0, up := insert c (up m),
       pc := (pc m)(c := Run)\<rparr>)"
| sleep: "c \<in> up m \<Longrightarrow> pc m c = Run \<Longrightarrow> thread_at m c = Thread k \<Longrightarrow>
    timeout = NO_TIMEOUT \<or> timeout = ms * 1000 \<Longrightarrow>
    sleep_releasing (sch m) c newstate timeout (clk * 1000) = Some (s', pre) \<Longrightarrow>
    sstep m (m\<lparr>sch := s', pc := (pc m)(c := Slept), spre := (spre m)(Thread k := pre)\<rparr>)"
| yield: "c \<in> up m \<Longrightarrow> pc m c \<in> {Run, Slept} \<Longrightarrow>
    Sched.yield (sch m) c cause (clk * 1000) r = Some (s', pre) \<Longrightarrow>
    sstep m (m\<lparr>sch := s', pc := (pc m)(c := Switch), ypre := (ypre m)(thread_at m c := pre)\<rparr>)"
| gain: "c \<in> up m \<Longrightarrow> pc m c = Switch \<Longrightarrow>
    Sched.gain (sch m) c (ypre m (thread_at m c)) r = Some s' \<Longrightarrow>
    sstep m (m\<lparr>sch := (if spre m (thread_at m c) then preempt_on s' c else s'),
       pc := (pc m)(c := Run), spre := (spre m)(thread_at m c := False)\<rparr>)"
| bios: "sstep m (m\<lparr>sch := (sch m)\<lparr>vm := V, preemption := P\<rparr>\<rparr>)"

text \<open>The machine when \<open>initialize_scheduler\<close> returns, before any thread exists.\<close>

definition sstart :: "smach \<Rightarrow> bool" where
  "sstart m \<longleftrightarrow> up m = {} \<and> (\<exists>s0. sch m = initialize_scheduler s0 \<and>
     (\<forall>k. \<not> live s0 (Thread k)) \<and> active_threads s0 = 0)"

lemma start_sinv:
  assumes "sstart m"
  shows "sinv_qw m [] []"
proof -
  obtain s0 where s0: "sch m = initialize_scheduler s0" "\<And>k. \<not> live s0 (Thread k)"
    "active_threads s0 = 0" and up: "up m = {}" using assms by (auto simp: sstart_def)
  have "layout (qheap s0) {} (qlists [] []) {}" by (simp add: layout_def)
  then have "layout (rlnode_init (qheap s0) SCHED None) {SCHED} ((qlists [] [])(SCHED := [])) {}"
    by (rule layout_init_sentinel) auto
  then have "layout (rlnode_init (rlnode_init (qheap s0) SCHED None) TIMEOUT_LIST None)
      {TIMEOUT_LIST, SCHED} (((qlists [] [])(SCHED := []))(TIMEOUT_LIST := [])) {}"
    by (rule layout_init_sentinel) auto
  moreover have "((qlists [] [])(SCHED := []))(TIMEOUT_LIST := []) = qlists [] []"
    by (rule ext) (case_tac x, simp_all)
  ultimately have "rep (sch m) [] []"
    using s0(2) by (auto simp: rep_def s0(1) initialize_scheduler_def free_nodes_def
        insert_commute)
  then show ?thesis using s0 up
    by (simp add: sinv_qw_def sinv_parts initialize_scheduler_def)
qed

lemma even_not_NO_TIMEOUT:
  fixes a b :: uint64
  shows "a * 1000 + b * 1000 \<noteq> NO_TIMEOUT"
proof -
  have "even (a * 1000 + b * 1000)" by simp
  moreover have "odd NO_TIMEOUT" by (simp add: NO_TIMEOUT_def)
  ultimately show ?thesis by metis
qed

inductive_cases sstepE: "sstep m m'"

lemma sinv_saved1:
  "sinv_qw m q w \<Longrightarrow> sinv_qw (m\<lparr>ypre := a\<rparr>) q w"
  "sinv_qw m q w \<Longrightarrow> sinv_qw (m\<lparr>spre := a\<rparr>) q w"
  by (erule sinv_other; simp)+

lemma sstep_sinv:
  assumes "sinv m" and "sstep m m'"
  shows "sinv m'"
proof -
  obtain q w where inv: "sinv_qw m q w" using assms(1) by (auto simp: sinv_def)
  from assms(2) have "\<exists>q' w'. sinv_qw m' q' w'"
  proof cases
    case (spawn k pcb func)
    then show ?thesis using spawn_sinv [OF inv] by blast
  next
    case (wake k c s' ret)
    then show ?thesis using wakeup_sinv [OF inv wake(2), of c] by (metis option.inject prod.inject)
  next
    case (enter c pcb0)
    then show ?thesis using enter_sinv [OF inv] by blast
  next
    case (sleep c k timeout ms newstate clk s' pre)
    have "newstate \<in> {STOPPED, EXITED}"
      using sleep(6) by (auto simp: sleep_releasing_def Let_def split: if_splits bind_splits)
    moreover have "timeout \<noteq> NO_TIMEOUT \<Longrightarrow> clk * 1000 + timeout \<noteq> NO_TIMEOUT"
      using sleep(5) even_not_NO_TIMEOUT [of clk ms] by auto
    ultimately show ?thesis
      using sleep_sinv [OF inv sleep(2-4), of newstate timeout "clk * 1000"] sleep(1,6)
        sinv_saved1(2) [of "m\<lparr>sch := s', pc := (pc m)(c := Slept)\<rparr>"]
      by (metis option.inject prod.inject smach.update_convs)
  next
    case (yield c cause clk r s' pre)
    then show ?thesis
      using yield_sinv [OF inv yield(2,3), of cause "clk * 1000" r]
        sinv_saved1(1) [of "m\<lparr>sch := s', pc := (pc m)(c := Switch)\<rparr>"]
      by (metis option.inject prod.inject)
  next
    case (gain c r s')
    obtain q' where "sinv_qw (m\<lparr>sch := s', pc := (pc m)(c := Run)\<rparr>) q' w"
      using gain_sinv [OF inv gain(2,3), of "ypre m (thread_at m c)" r] gain(4)
      by (metis option.inject)
    then have "sinv_qw (m\<lparr>sch := (if spre m (thread_at m c) then preempt_on s' c else s'),
        pc := (pc m)(c := Run)\<rparr>) q' w"
      by (rule sinv_other) (simp_all add: preempt_on_eq)
    then show ?thesis using gain(1) sinv_saved1(2) by blast
  next
    case (bios V P)
    have "sinv_qw m' q w" by (rule sinv_other [OF inv]) (simp_all add: bios)
    then show ?thesis by blast
  qed
  then show ?thesis by (simp add: sinv_def)
qed

interpretation scheduler: transition_invariant sstart sstep sinv
  by unfold_locales (auto simp: sinv_def dest: start_sinv intro: sstep_sinv [unfolded sinv_def])

section \<open>A concrete machine\<close>

text \<open>Two cores, one thread: the states the witnesses speak about.\<close>

definition ex_vm :: "handler bios" where
  "ex_vm = \<lparr>CORE = (\<lambda>c. \<lparr>core_id = c, intvec = (\<lambda>_. None), intpending = (\<lambda>_. False),
       int_disabled = True, halted = False, irq_count = 0, irq_raised = (\<lambda>_. 0),
       irq_delivered = (\<lambda>_. 0), core_timer = \<lparr>tv_sec = 0, tv_nsec = 0\<rparr>\<rparr>),
     ncores = 2, halted_heap = rlnode_init \<lparr>rl_obj = (\<lambda>_. None), rl_prev = id, rl_next = id\<rparr>
       Halted_list None,
     sigusr1_queued = (\<lambda>_. 0), PIC_active = True, system_clock = 0\<rparr>"

definition ex_tcb :: TCB where
  "ex_tcb = \<lparr>owner_pcb = None, ttype = NORMAL_THREAD, state = INIT, phase = CTX_CLEAN,
     thread_func = 0, wakeup_time = 0, prev = Idle_thread 0, next = Idle_thread 0\<rparr>"

definition ex_start :: smach where
  "ex_start = \<lparr>sch = initialize_scheduler \<lparr>tcb = (\<lambda>_. ex_tcb), live = (\<lambda>_. False),
       current_thread = (\<lambda>_. Idle_thread 0), preemption = (\<lambda>_. False),
       qheap = \<lparr>rl_obj = (\<lambda>_. None), rl_prev = id, rl_next = id\<rparr>, active_threads = 0, vm = ex_vm\<rparr>,
     up = {}, pc = (\<lambda>_. Run), ypre = (\<lambda>_. False), spre = (\<lambda>_. False)\<rparr>"

definition ex_enter :: "nat \<Rightarrow> smach \<Rightarrow> smach" where
  "ex_enter c m = m\<lparr>sch := run_scheduler_init (sch m) c (Some 0), up := insert c (up m),
     pc := (pc m)(c := Run)\<rparr>"

definition ex_idle :: smach where "ex_idle = ex_enter 1 (ex_enter 0 ex_start)"

definition ex_spawned :: smach where
  "ex_spawned = ex_idle\<lparr>sch := spawn_thread (sch ex_idle) (Thread 0) (Some 1) 7,
     ypre := (ypre ex_idle)(Thread 0 := True), spre := (spre ex_idle)(Thread 0 := False)\<rparr>"

definition ex_ready :: smach where
  "ex_ready = ex_spawned\<lparr>sch := fst (the (wakeup (sch ex_spawned) 0 (Thread 0)))\<rparr>"

lemma ex_idle_reach: "reach sstart sstep ex_idle"
proof -
  have "sstart ex_start" by (auto simp: sstart_def ex_start_def)
  moreover have "sstep ex_start (ex_enter 0 ex_start)"
    unfolding ex_enter_def by (rule sstep.enter) (simp add: ex_start_def)
  moreover have "sstep (ex_enter 0 ex_start) ex_idle"
    unfolding ex_idle_def ex_enter_def [of 1] by (rule sstep.enter) (simp add: ex_start_def ex_enter_def)
  ultimately show ?thesis by (blast intro: reach.intros)
qed

lemma ex_spawned_reach: "reach sstart sstep ex_spawned"
  unfolding ex_spawned_def
  by (rule reach_trans [OF ex_idle_reach sstep.spawn])
     (simp add: ex_idle_def ex_enter_def ex_start_def run_scheduler_init_def preempt_on_eq
        initialize_scheduler_def Let_def)

lemma ex_live: "live (sch ex_spawned) (Thread 0)"
  by (simp add: ex_spawned_def spawn_thread_def Let_def)

lemma ex_spawned_sinv: "sinv_qw ex_spawned [] []"
proof -
  have "sinv_qw ex_start [] []" by (rule start_sinv) (auto simp: sstart_def ex_start_def)
  then have "sinv_qw (ex_enter 0 ex_start) [] []"
    unfolding ex_enter_def by (rule enter_sinv) (simp add: ex_start_def)
  then have "sinv_qw ex_idle [] []"
    unfolding ex_idle_def ex_enter_def [of 1]
    by (rule enter_sinv) (simp add: ex_start_def ex_enter_def)
  then show ?thesis unfolding ex_spawned_def
    by (rule spawn_sinv)
       (simp add: ex_idle_def ex_enter_def ex_start_def run_scheduler_init_def preempt_on_eq
          initialize_scheduler_def Let_def)
qed

lemma ex_ready_facts:
  "reach sstart sstep ex_ready \<and> rep (sch ex_ready) [Thread 0] [] \<and>
   state (tcb (sch ex_ready) (Thread 0)) = READY \<and> live (sch ex_ready) (Thread 0)"
proof (rule wakeup_sinv [OF ex_spawned_sinv ex_live, of 0])
  fix s' r q' w'
  assume s': "wakeup (sch ex_spawned) 0 (Thread 0) = Some (s', r)"
    "sinv_qw (ex_spawned\<lparr>sch := s'\<rparr>) q' w'"
    "r = (state (tcb (sch ex_spawned) (Thread 0)) \<in> {STOPPED, INIT})"
    "r \<Longrightarrow> state (tcb s' (Thread 0)) = READY" "live s' = live (sch ex_spawned)"
    "q' = (if r \<and> phase (tcb (sch ex_spawned) (Thread 0)) = CTX_CLEAN then [] @ [Thread 0] else [])"
    "w' = (if r then remove1 (Thread 0) [] else [])"
  have "state (tcb (sch ex_spawned) (Thread 0)) = INIT" "phase (tcb (sch ex_spawned) (Thread 0)) = CTX_CLEAN"
    by (simp_all add: ex_spawned_def spawn_thread_def Let_def)
  moreover have "reach sstart sstep ex_ready"
    unfolding ex_ready_def s'(1) option.sel fst_conv
    by (rule reach_trans [OF ex_spawned_reach sstep.wake [OF ex_live s'(1)]])
  ultimately show ?thesis using s' ex_live sinv_qwD(1) [OF s'(2)] by (simp add: ex_ready_def)
qed

lemmas ex_ready_reach = ex_ready_facts [THEN conjunct1]
lemmas ex_ready_rep = ex_ready_facts [THEN conjunct2, THEN conjunct1]
lemmas ex_ready_thread = ex_ready_facts [THEN conjunct2, THEN conjunct2, THEN conjunct1]
  ex_ready_facts [THEN conjunct2, THEN conjunct2, THEN conjunct2]

lemma ex_cores: "up ex_idle = {1, 0}" "up ex_ready = {1, 0}" "pc ex_ready 0 = Run"
  "pc ex_ready 1 = Run"
  by (simp_all add: ex_idle_def ex_ready_def ex_spawned_def ex_enter_def ex_start_def)

section \<open>Properties\<close>

lemma reach_sinv:
  assumes "reach sstart sstep m"
  obtains q w where "sinv_qw m q w"
  using scheduler.inv_reach [OF assms] by (auto simp: sinv_def)

text \<open>C5: In every reachable machine no scheduler operation trips an assertion of the code, no
  list walk leaves its list, and every loop ends: \<open>yield\<close> returns from \<open>Run\<close> and from \<open>Slept\<close>,
  \<open>gain\<close> after a switch, and \<open>wakeup\<close> for every live thread, with the result whether the thread
  was blocked.\<close>

theorem scheduler_operations_return:
  assumes "reach sstart sstep m"
  shows "(c \<in> up m \<and> pc m c \<in> {Run, Slept} \<longrightarrow>
      (\<exists>s'. yield (sch m) c cause ct r = Some (s', preemption (sch m) c))) \<and>
    (c \<in> up m \<and> pc m c = Switch \<longrightarrow> (\<exists>s'. gain (sch m) c pre r = Some s')) \<and>
    (live (sch m) (Thread k) \<longrightarrow> (\<exists>s'. wakeup (sch m) d (Thread k) =
      Some (s', state (tcb (sch m) (Thread k)) \<in> {STOPPED, INIT})))"
proof -
  obtain q w where inv: "sinv_qw m q w" by (rule reach_sinv [OF assms])
  have "\<exists>s'. wakeup (sch m) d (Thread k) =
      Some (s', state (tcb (sch m) (Thread k)) \<in> {STOPPED, INIT})" if "live (sch m) (Thread k)"
    by (rule wakeup_sinv [OF inv that, of d]) simp
  then show ?thesis using yield_sinv [OF inv] gain_sinv [OF inv] by metis
qed

theorem scheduler_operations_return_witness:
  "(\<exists>s'. yield (sch ex_ready) 0 SCHED_QUANTUM 0 \<lparr>tv_sec = 0, tv_nsec = 0\<rparr> =
      Some (s', preemption (sch ex_ready) 0)) \<and>
   (\<exists>s' b. wakeup (sch ex_ready) 1 (Thread 0) = Some (s', b))"
  using scheduler_operations_return
      [OF ex_ready_reach, of 0 SCHED_QUANTUM 0 "\<lparr>tv_sec = 0, tv_nsec = 0\<rparr>" True 0 1]
    ex_cores ex_ready_thread(2) by auto

text \<open>C6: Two cores never hold the same thread, whether they run it, switch to it or still stand
  on its stack; and what a core holds is its own idle thread or a TCB that is not freed.\<close>

theorem threads_on_one_core:
  assumes "reach sstart sstep m" and "c \<in> up m" and "d \<in> up m" and "c \<noteq> d"
  shows "held m c \<inter> held m d = {} \<and>
     (\<forall>t \<in> held m c. t = Idle_thread c \<or> (\<exists>k. t = Thread k \<and> live (sch m) t))"
proof -
  obtain q w where inv: "sinv_qw m q w" by (rule reach_sinv [OF assms(1)])
  show ?thesis
    using held_disjoint [OF sinv_qwD(5) [OF inv] assms(2,3)] assms(4)
      core_ok_held(3) [OF core_okD [OF sinv_qwD(5) [OF inv] assms(2)]] by blast
qed

theorem threads_on_one_core_witness: "held ex_ready 0 \<inter> held ex_ready 1 = {}"
  using threads_on_one_core [OF ex_ready_reach, of 0 1] ex_cores by simp

text \<open>C13: No READY thread is lost or queued twice: a live READY thread is in the scheduler queue,
  where it occurs once and no core holds it, or exactly one core holds it. Threads in the queue
  are READY with a clean context.\<close>

theorem ready_threads_accounted:
  assumes "reach sstart sstep m"
  shows "\<exists>q w. rep (sch m) q w \<and> distinct q \<and>
     (\<forall>t \<in> set q. state (tcb (sch m) t) = READY \<and> phase (tcb (sch m) t) = CTX_CLEAN \<and>
        (\<forall>c \<in> up m. t \<notin> held m c)) \<and>
     (\<forall>k. live (sch m) (Thread k) \<longrightarrow> state (tcb (sch m) (Thread k)) = READY \<longrightarrow>
        Thread k \<in> set q \<or> (\<exists>!c. c \<in> up m \<and> Thread k \<in> held m c))"
proof -
  obtain q w where inv: "sinv_qw m q w" by (rule reach_sinv [OF assms])
  note I = sinv_qwD [OF inv]
  have "Thread k \<in> set q \<or> (\<exists>!c. c \<in> up m \<and> Thread k \<in> held m c)"
    if k: "live (sch m) (Thread k)" "state (tcb (sch m) (Thread k)) = READY" for k
  proof (cases "\<exists>c \<in> up m. Thread k \<in> held m c")
    case True
    then show ?thesis using held_disjoint [OF I(5), of _ _ "Thread k"] by blast
  next
    case False
    then have "Thread k \<in> set q" using I(4) k by (auto simp: offcore_ok_def)
    then show ?thesis ..
  qed
  then show ?thesis using I(1,2) rep_distinct(1) [OF I(1)]
    by (intro exI [of _ q] exI [of _ w]) (simp add: queue_ok_def)
qed

theorem ready_threads_accounted_witness:
  "\<exists>q w. rep (sch ex_ready) q w \<and>
     (Thread 0 \<in> set q \<or> (\<exists>!c. c \<in> up ex_ready \<and> Thread 0 \<in> held ex_ready c))"
  using ready_threads_accounted [OF ex_ready_reach] ex_ready_thread by blast

text \<open>C14: The timeout list is sorted by wakeup time and holds exactly the live threads that have
  a wakeup time; all of them are STOPPED and none is in the scheduler queue.\<close>

theorem timeouts_sorted:
  assumes "reach sstart sstep m"
  shows "\<exists>q w. rep (sch m) q w \<and> distinct w \<and> set q \<inter> set w = {} \<and>
     sorted_wrt (\<lambda>a b. wakeup_time (tcb (sch m) a) \<le> wakeup_time (tcb (sch m) b)) w \<and>
     (\<forall>t \<in> set w. state (tcb (sch m) t) = STOPPED) \<and>
     (\<forall>k. live (sch m) (Thread k) \<longrightarrow>
        (Thread k \<in> set w \<longleftrightarrow> wakeup_time (tcb (sch m) (Thread k)) \<noteq> NO_TIMEOUT))"
proof -
  obtain q w where inv: "sinv_qw m q w" by (rule reach_sinv [OF assms])
  note I = sinv_qwD [OF inv]
  have "\<forall>k. live (sch m) (Thread k) \<longrightarrow>
      (Thread k \<in> set w \<longleftrightarrow> wakeup_time (tcb (sch m) (Thread k)) \<noteq> NO_TIMEOUT)"
    using I(3) unfolding timeouts_ok_def by blast
  then show ?thesis using I(1,3) rep_distinct [OF I(1)] unfolding timeouts_ok_def by blast
qed

theorem timeouts_sorted_witness:
  "\<exists>q w. rep (sch ex_ready) q w \<and>
     (Thread 0 \<in> set w \<longleftrightarrow> wakeup_time (tcb (sch ex_ready) (Thread 0)) \<noteq> NO_TIMEOUT)"
  using timeouts_sorted [OF ex_ready_reach] ex_ready_thread by blast

text \<open>\<open>active_threads\<close> counts the TCBs that are allocated, modulo the width of \<open>uint\<close>.\<close>

lemma active_threads_counts:
  assumes "reach sstart sstep m"
  shows "finite {k. live (sch m) (Thread k)} \<and>
     active_threads (sch m) = of_nat (card {k. live (sch m) (Thread k)})"
proof -
  obtain q w where inv: "sinv_qw m q w" by (rule reach_sinv [OF assms])
  show ?thesis using sinv_qwD(7) [OF inv] by (simp add: threads_ok_def)
qed



text \<open>\<open>wakeup\<close> of a blocked thread makes it READY, takes it out of the timeout list and
  appends it to the scheduler queue unless its context is still dirty, in which case the core
  that leaves it will queue it; \<open>wakeup\<close> of any other thread changes neither list.\<close>

lemma wakeup_effect:
  assumes "reach sstart sstep m" and "rep (sch m) q w" and "live (sch m) (Thread k)"
  shows "\<exists>s' r. wakeup (sch m) c (Thread k) = Some (s', r) \<and>
     (if state (tcb (sch m) (Thread k)) \<in> {STOPPED, INIT}
      then r \<and> state (tcb s' (Thread k)) = READY \<and>
           rep s' (if phase (tcb (sch m) (Thread k)) = CTX_CLEAN then q @ [Thread k] else q)
             (remove1 (Thread k) w)
      else \<not> r \<and> rep s' q w)"
proof -
  obtain q1 w1 where inv: "sinv_qw m q1 w1" by (rule reach_sinv [OF assms(1)])
  have q: "q1 = q" by (rule rep_queue_unique [OF sinv_qwD(1) [OF inv] assms(2)])
  have w: "w1 = w" by (rule rep_timeouts_unique [OF sinv_qwD(1) [OF inv] assms(2)])
  show ?thesis
  proof (rule wakeup_sinv [OF inv assms(3), of c])
    fix s' r q' w'
    assume s': "wakeup (sch m) c (Thread k) = Some (s', r)" "sinv_qw (m\<lparr>sch := s'\<rparr>) q' w'"
      "r = (state (tcb (sch m) (Thread k)) \<in> {STOPPED, INIT})"
      "r \<Longrightarrow> state (tcb s' (Thread k)) = READY"
      "q' = (if r \<and> phase (tcb (sch m) (Thread k)) = CTX_CLEAN then q1 @ [Thread k] else q1)"
      "w' = (if r then remove1 (Thread k) w1 else w1)"
    then show ?thesis using sinv_qwD(1) [OF s'(2)] q w by auto
  qed
qed

end
