(* ===== verification/CC.thy ===== *)
theory CC
  imports Sched_Machine
begin

text \<open>
  Concurrency control, \<^verbatim>\<open>kernel_cc.c\<close>: the mutex as a step machine over the threads that use it,
  condition variables with their rings of waiters, and the kernel lock, a semaphore built as a
  monitor on top of them.

  A waiter is a variable on the stack of the waiting thread; it is named by a number, and its
  \<open>rlnode\<close> shares that name. A condition variable is named by a number too. The operations run
  with \<open>waitset_lock\<close> held, so each is atomic; \<open>cv_wait\<close> is cut where the thread sleeps.
\<close>

section \<open>Condition variables\<close>

record cv_waiter =
  thread :: tcb_ref
  signalled :: bool
  removed :: bool

record cvs =
  waitset :: "nat \<Rightarrow> nat option"
  waiter :: "nat \<Rightarrow> cv_waiter"
  wheap :: "(nat, nat) rlheap"

definition upd_waiter :: "cvs \<Rightarrow> nat \<Rightarrow> (cv_waiter \<Rightarrow> cv_waiter) \<Rightarrow> cvs" where
  "upd_waiter s w f = s\<lparr>waiter := (waiter s)(w := f (waiter s w))\<rparr>"

definition remove_from_ring :: "cvs \<Rightarrow> nat \<Rightarrow> nat \<Rightarrow> cvs" where
  "remove_from_ring s cv w =
     (let s1 = (if waitset s cv = Some w then
                  let nextw = rl_obj (wheap s) (rl_next (wheap s) w) in
                  s\<lparr>waitset := (waitset s)(cv := if nextw = w then None else Some nextw)\<rparr>
                else s)
      in s1\<lparr>wheap := fst (rlist_remove (wheap s1) w)\<rparr>)"

text \<open>\<open>cv_wait\<close> up to \<open>sleep_releasing\<close>, and from the point where the thread runs again and has
  the lock of the ring. \<open>None\<close>: the assertion on \<open>signalled\<close> fails.\<close>

definition cv_wait_enter :: "cvs \<Rightarrow> nat \<Rightarrow> nat \<Rightarrow> tcb_ref \<Rightarrow> cvs" where
  "cv_wait_enter s cv w t =
     (let s1 = s\<lparr>waiter := (waiter s)(w := \<lparr>thread = t, signalled = False, removed = False\<rparr>),
                 wheap := rlnode_init (wheap s) w w\<rparr>
      in case waitset s1 cv of
           Some wset \<Rightarrow> s1\<lparr>wheap := rlist_push_back (wheap s1) wset w\<rparr>
         | None \<Rightarrow> s1\<lparr>waitset := (waitset s1)(cv := Some w)\<rparr>)"

definition cv_wait_leave :: "cvs \<Rightarrow> nat \<Rightarrow> nat \<Rightarrow> (cvs \<times> bool) option" where
  "cv_wait_leave s cv w =
     (if \<not> removed (waiter s w) then
        if \<not> signalled (waiter s w)
        then let s1 = remove_from_ring s cv w in Some (s1, signalled (waiter s1 w))
        else None
      else Some (s, signalled (waiter s w)))"

partial_function (option) cv_signal ::
  "nat \<Rightarrow> nat \<Rightarrow> sched \<Rightarrow> cvs \<Rightarrow> (sched \<times> cvs) option" where
  "cv_signal c cv sc s =
     (case waitset s cv of
        None \<Rightarrow> Some (sc, s)
      | Some w \<Rightarrow>
          let s1 = remove_from_ring s cv w;
              s2 = upd_waiter s1 w (\<lambda>k. k\<lparr>removed := True\<rparr>)
          in do {
            (sc', r) \<leftarrow> wakeup sc c (thread (waiter s2 w));
            if r then Some (sc', upd_waiter s2 w (\<lambda>k. k\<lparr>signalled := True\<rparr>))
            else cv_signal c cv sc' s2
          })"

definition Cond_Signal :: "nat \<Rightarrow> nat \<Rightarrow> sched \<Rightarrow> cvs \<Rightarrow> (sched \<times> cvs) option" where
  "Cond_Signal c cv sc s = cv_signal c cv sc s"

partial_function (option) Cond_Broadcast ::
  "nat \<Rightarrow> nat \<Rightarrow> sched \<Rightarrow> cvs \<Rightarrow> (sched \<times> cvs) option" where
  "Cond_Broadcast c cv sc s =
     (case waitset s cv of
        None \<Rightarrow> Some (sc, s)
      | Some _ \<Rightarrow> do { (sc', s') \<leftarrow> cv_signal c cv sc s; Cond_Broadcast c cv sc' s' })"

section \<open>The rings of waiters\<close>

text \<open>\<open>Q cv\<close> is the queue of waiters of the condition variable \<open>cv\<close>, oldest first.\<close>

definition cvs_ok :: "cvs \<Rightarrow> (nat \<Rightarrow> nat list) \<Rightarrow> bool" where
  "cvs_ok s Q \<longleftrightarrow>
     (\<forall>cv. waitset s cv = (case Q cv of [] \<Rightarrow> None | w # _ \<Rightarrow> Some w)) \<and>
     (\<forall>cv. Q cv \<noteq> [] \<longrightarrow> ring (wheap s) (Q cv)) \<and>
     (\<forall>cv cv'. cv \<noteq> cv' \<longrightarrow> set (Q cv) \<inter> set (Q cv') = {}) \<and>
     (\<forall>cv. \<forall>w \<in> set (Q cv). rl_obj (wheap s) w = w)"

lemma cvs_okD:
  assumes "cvs_ok s Q"
  shows "waitset s cv = (case Q cv of [] \<Rightarrow> None | w # _ \<Rightarrow> Some w)"
    and "Q cv \<noteq> [] \<Longrightarrow> ring (wheap s) (Q cv)"
    and "cv \<noteq> cv' \<Longrightarrow> set (Q cv) \<inter> set (Q cv') = {}"
    and "w \<in> set (Q cv) \<Longrightarrow> rl_obj (wheap s) w = w"
  using assms by (auto simp: cvs_ok_def)

lemma cvs_ok_upd:
  assumes ok: "cvs_ok s Q" and "waitset s' cv = (case q of [] \<Rightarrow> None | w # _ \<Rightarrow> Some w)"
    and "\<And>cv'. cv' \<noteq> cv \<Longrightarrow> waitset s' cv' = waitset s cv'"
    and "q \<noteq> [] \<Longrightarrow> ring (wheap s') q"
    and "\<And>cv'. cv' \<noteq> cv \<Longrightarrow> Q cv' \<noteq> [] \<Longrightarrow> ring (wheap s') (Q cv')"
    and "\<And>cv'. cv' \<noteq> cv \<Longrightarrow> set q \<inter> set (Q cv') = {}"
    and "\<And>w. w \<in> set q \<Longrightarrow> rl_obj (wheap s') w = w"
    and "\<And>w cv'. cv' \<noteq> cv \<Longrightarrow> w \<in> set (Q cv') \<Longrightarrow> rl_obj (wheap s') w = rl_obj (wheap s) w"
  shows "cvs_ok s' (Q(cv := q))"
proof -
  note D = cvs_okD [OF ok]
  have "set ((Q(cv := q)) a) \<inter> set ((Q(cv := q)) b) = {}" if "a \<noteq> b" for a b
    using assms(6) [of a] assms(6) [of b] D(3) [OF that] that by auto
  moreover have "waitset s' a = (case (Q(cv := q)) a of [] \<Rightarrow> None | w # _ \<Rightarrow> Some w)" for a
    using assms(2,3) D(1) by simp
  moreover have "ring (wheap s') ((Q(cv := q)) a)" if "(Q(cv := q)) a \<noteq> []" for a
    using assms(4,5) that by (cases "a = cv") auto
  moreover have "rl_obj (wheap s') w = w" if "w \<in> set ((Q(cv := q)) a)" for w a
    using assms(7,8) D(4) that by (cases "a = cv") auto
  ultimately show ?thesis unfolding cvs_ok_def by blast
qed

lemma remove_ring_mid:
  assumes "ring h (xs @ n # ys)" and "xs @ ys \<noteq> []"
  shows "ring (fst (rlist_remove h n)) (xs @ ys)"
proof -
  have "ring h (n # ys @ xs)" using ring_rotate [OF assms(1)] by simp
  then have "ring (fst (rlist_remove h n)) (ys @ xs)"
    using remove_ring(2) assms(2) by (metis append_is_Nil_conv)
  then show ?thesis by (rule ring_rotate)
qed

lemma ring_distinct: "ring h xs \<Longrightarrow> distinct xs"
  by (cases xs) (auto dest: ringD)

lemma remove_from_ring_ok:
  assumes ok: "cvs_ok s Q" and w: "w \<in> set (Q cv)"
  shows "cvs_ok (remove_from_ring s cv w) (Q(cv := remove1 w (Q cv)))"
    and "waiter (remove_from_ring s cv w) = waiter s"
proof -
  show "waiter (remove_from_ring s cv w) = waiter s" by (simp add: remove_from_ring_def Let_def)
  note D = cvs_okD [OF ok]
  let ?s = "remove_from_ring s cv w"
  obtain xs ys where q: "Q cv = xs @ w # ys" using split_list [OF w] by blast
  have rg: "ring (wheap s) (xs @ w # ys)" using D(2) [of cv] q by simp
  then have rot: "ring (wheap s) (w # ys @ xs)" using ring_rotate by fastforce
  have dq: "distinct (xs @ w # ys)" using ring_distinct [OF rg] .
  have r1: "remove1 w (Q cv) = xs @ ys" using dq q by simp
  have heap: "wheap ?s = fst (rlist_remove (wheap s) w)"
    by (simp add: remove_from_ring_def Let_def)
  have nx: "rl_next (wheap s) w = hd (ys @ xs @ [w])"
    using seg_next [OF ringD(2) [OF rot]] by simp
  have ob: "rl_obj (wheap s) (hd (ys @ xs @ [w])) = hd (ys @ xs @ [w])"
    using D(4) [of _ cv] q by (cases ys; cases xs) auto
  have ws: "waitset ?s cv = (case xs @ ys of [] \<Rightarrow> None | v # _ \<Rightarrow> Some v)"
  proof (cases xs)
    case Nil
    then show ?thesis using D(1) [of cv] q nx ob dq
      by (cases ys) (auto simp: remove_from_ring_def Let_def)
  next
    case (Cons x xs')
    then show ?thesis using D(1) [of cv] q dq by (auto simp: remove_from_ring_def Let_def)
  qed
  have wo: "waitset ?s cv' = waitset s cv'" if "cv' \<noteq> cv" for cv'
    using that by (simp add: remove_from_ring_def Let_def)
  have "ring (wheap ?s) (Q cv')" if "cv' \<noteq> cv" "Q cv' \<noteq> []" for cv'
    unfolding heap using D(3) [OF that(1)] q
    by (intro remove_frame [OF rot D(2) [OF that(2)]]) auto
  moreover have "ring (wheap ?s) (xs @ ys)" if "xs @ ys \<noteq> []"
    unfolding heap by (rule remove_ring_mid [OF rg that])
  moreover have "rl_obj (wheap ?s) = rl_obj (wheap s)" by (simp add: heap)
  ultimately show "cvs_ok ?s (Q(cv := remove1 w (Q cv)))"
    unfolding r1 using ws wo D(3) [of cv] D(4) [of _ cv] q
    by (intro cvs_ok_upd [OF ok]) auto
qed

lemma push_back_ring:
  assumes "ring h (a # xs)" and "ring h [n]" and "n \<notin> set (a # xs)"
  shows "ring (rlist_push_back h a n) (a # xs @ [n])"
proof -
  have "layout h {a} (\<lambda>_. xs) {n}" using assms by (auto simp: layout_def simp del: ring.simps)
  from layout_push_back [OF this] have "layout (rlist_push_back h a n) {a} ((\<lambda>_. xs)(a := xs @ [n])) ({n} - {n})"
    by simp
  then show ?thesis using layoutD(1) by fastforce
qed

lemma push_back_frame:
  assumes "ring h (a # xs)" and "ring h [n]" and "ring h zs" and "set (n # a # xs) \<inter> set zs = {}"
  shows "ring (rlist_push_back h a n) zs"
proof -
  have "rl_prev h a \<in> set (a # xs)" using ring_prev_mem [OF assms(1), of a] by simp
  moreover have "rl_next h (rl_prev h a) \<in> set (a # xs)"
    using ring_next_mem [OF assms(1)] calculation by blast
  moreover have "rl_next h n = n" using assms(2) by simp
  ultimately show ?thesis
    using assms(4) unfolding rlist_push_back_def by (intro splice_frame [OF assms(3)]) auto
qed

lemma cv_wait_enter_ok:
  assumes ok: "cvs_ok s Q" and new: "\<And>cv'. w \<notin> set (Q cv')"
  shows "cvs_ok (cv_wait_enter s cv w t) (Q(cv := Q cv @ [w]))"
proof -
  note D = cvs_okD [OF ok]
  let ?h = "rlnode_init (wheap s) w w" and ?s = "cv_wait_enter s cv w t"
  have old: "ring ?h (Q cv')" if "Q cv' \<noteq> []" for cv'
    using init_frame [OF D(2) [OF that]] new by simp
  have one: "ring ?h [w]" by simp
  show ?thesis
  proof (cases "Q cv")
    case Nil
    then have s': "waitset ?s = (waitset s)(cv := Some w)" "wheap ?s = ?h"
      using D(1) [of cv] by (auto simp: cv_wait_enter_def Let_def)
    show ?thesis
      using Nil old new by (intro cvs_ok_upd [OF ok]) (auto simp: s')
  next
    case (Cons a xs)
    then have s': "waitset ?s = waitset s" "wheap ?s = rlist_push_back ?h a w"
      using D(1) [of cv] by (auto simp: cv_wait_enter_def Let_def)
    have rg: "ring ?h (a # xs)" using old [of cv] Cons by simp
    have "ring (rlist_push_back ?h a w) (a # xs @ [w])"
      using new [of cv] Cons by (intro push_back_ring [OF rg one]) simp
    moreover have "ring (rlist_push_back ?h a w) (Q cv')" if "cv' \<noteq> cv" "Q cv' \<noteq> []" for cv'
      using push_back_frame [OF rg one old [OF that(2)]] new [of cv'] D(3) [OF that(1)] Cons by auto
    ultimately show ?thesis
      using Cons new D(1) [of cv] D(3) [of cv] D(4) [of _ cv]
      by (intro cvs_ok_upd [OF ok]) (auto simp: s')
  qed
qed

section \<open>Signalling\<close>

definition blocked :: "sched \<Rightarrow> tcb_ref \<Rightarrow> bool" where
  "blocked sc t \<longleftrightarrow> state (tcb sc t) \<in> {STOPPED, INIT}"

text \<open>What a signal does to the waiters: \<open>skip\<close> are dropped because their threads had already
  been woken, \<open>hit\<close> is the one that receives the signal.\<close>

definition signal_marks :: "nat list \<Rightarrow> nat option \<Rightarrow> (nat \<Rightarrow> cv_waiter) \<Rightarrow> nat \<Rightarrow> cv_waiter" where
  "signal_marks skip hit ws v =
     (if hit = Some v then (ws v)\<lparr>removed := True, signalled := True\<rparr>
      else if v \<in> set skip then (ws v)\<lparr>removed := True\<rparr> else ws v)"

lemma upd_waiter_simps [simp]:
  "waitset (upd_waiter s w f) = waitset s"
  "wheap (upd_waiter s w f) = wheap s"
  "waiter (upd_waiter s w f) = (waiter s)(w := f (waiter s w))"
  by (simp_all add: upd_waiter_def)

lemma cvs_ok_waiter [simp]: "cvs_ok (upd_waiter s w f) Q = cvs_ok s Q"
  by (simp add: cvs_ok_def)

lemma wakeup_effect_sched:
  assumes "sinv m" and "\<exists>k. t = Thread k" "live (sch m) t"
  shows "\<exists>sc'. wakeup (sch m) c t = Some (sc', blocked (sch m) t) \<and> sinv (m\<lparr>sch := sc'\<rparr>) \<and>
     live sc' = live (sch m) \<and>
     (\<forall>u. state (tcb sc' u) = (if u = t \<and> blocked (sch m) t then READY else state (tcb (sch m) u)))"
proof -
  obtain k where t: "t = Thread k" using assms(2) by blast
  obtain q w where inv: "sinv_qw m q w" using assms(1) by (auto simp: sinv_def)
  have lv: "live (sch m) (Thread k)" using assms(3) t by simp
  have frame: "(\<forall>u. u \<noteq> t \<longrightarrow> state (tcb sc' u) = state (tcb (sch m) u)) \<and>
      (\<not> blocked (sch m) t \<longrightarrow> state (tcb sc' t) = state (tcb (sch m) t))"
    if "wakeup (sch m) c t = Some (sc', r)" for sc' r
    using that unfolding wakeup_def sched_make_ready_def preempt_off_eq Let_def
    by (auto simp: blocked_def preempt_on_eq split: if_splits bind_splits)
  show ?thesis
  proof (rule wakeup_sinv [OF inv lv, of c])
    fix s' r q' w'
    assume s': "wakeup (sch m) c (Thread k) = Some (s', r)" "sinv_qw (m\<lparr>sch := s'\<rparr>) q' w'"
      "r = (state (tcb (sch m) (Thread k)) \<in> {STOPPED, INIT})"
      "r \<Longrightarrow> state (tcb s' (Thread k)) = READY" "live s' = live (sch m)"
    moreover have "state (tcb s' u) =
        (if u = t \<and> blocked (sch m) t then READY else state (tcb (sch m) u))" for u
      using frame [of s' r] s' t by (cases "u = t") (auto simp: blocked_def)
    ultimately show ?thesis using t by (auto simp: blocked_def sinv_def)
  qed
qed

lemma cv_signal_spec:
  assumes "sinv m" and "cvs_ok s Q"
    and "\<And>w. w \<in> set (Q cv) \<Longrightarrow> \<exists>k. thread (waiter s w) = Thread k \<and> live (sch m) (Thread k)"
    and "skip = takeWhile (\<lambda>w. \<not> blocked (sch m) (thread (waiter s w))) (Q cv)"
    and "rest = dropWhile (\<lambda>w. \<not> blocked (sch m) (thread (waiter s w))) (Q cv)"
    and "hit = (case rest of [] \<Rightarrow> None | w # _ \<Rightarrow> Some w)"
  shows "\<exists>sc' s'. cv_signal c cv (sch m) s = Some (sc', s') \<and> sinv (m\<lparr>sch := sc'\<rparr>) \<and>
     live sc' = live (sch m) \<and>
     (\<forall>t. state (tcb sc' t) = (if \<exists>w. hit = Some w \<and> t = thread (waiter s w) then READY
                               else state (tcb (sch m) t))) \<and>
     cvs_ok s' (Q(cv := tl rest)) \<and> waiter s' = signal_marks skip hit (waiter s)"
  using assms
proof (induction "Q cv" arbitrary: m s Q skip)
  case Nil
  then have "waitset s cv = None" using cvs_okD(1) [OF Nil(3), of cv] by simp
  moreover have "Q(cv := []) = Q" using Nil(1) by (simp add: fun_upd_idem)
  ultimately show ?case using Nil
    by (simp add: cv_signal.simps signal_marks_def fun_eq_iff)
next
  case (Cons w ws)
  have q: "Q cv = w # ws" using Cons(2) by simp
  have ws: "waitset s cv = Some w" using cvs_okD(1) [OF Cons(4), of cv] q by simp
  have dq: "distinct (w # ws)" using ring_distinct [OF cvs_okD(2) [OF Cons(4), of cv]] q by simp
  let ?s1 = "remove_from_ring s cv w"
  let ?s2 = "upd_waiter ?s1 w (\<lambda>k. k\<lparr>removed := True\<rparr>)"
  have ok2: "cvs_ok ?s2 (Q(cv := ws))" and w1: "waiter ?s1 = waiter s"
    using remove_from_ring_ok [OF Cons(4), of w cv] q by simp_all
  let ?t = "thread (waiter s w)"
  obtain sc' where sc': "wakeup (sch m) c ?t = Some (sc', blocked (sch m) ?t)"
    "sinv (m\<lparr>sch := sc'\<rparr>)" "live sc' = live (sch m)"
    "\<And>u. state (tcb sc' u) =
       (if u = ?t \<and> blocked (sch m) ?t then READY else state (tcb (sch m) u))"
    using wakeup_effect_sched [OF Cons(3), of ?t c] Cons(5) [of w] q by auto
  have unf: "cv_signal c cv (sch m) s =
      (if blocked (sch m) ?t then Some (sc', upd_waiter ?s2 w (\<lambda>k. k\<lparr>signalled := True\<rparr>))
       else cv_signal c cv sc' ?s2)"
    using ws sc'(1) w1 by (simp add: cv_signal.simps [of c cv "sch m"] Let_def)
  show ?case
  proof (cases "blocked (sch m) ?t")
    case True
    then have "rest = w # ws" "skip = []" "hit = Some w" using Cons(6-8) q by simp_all
    then show ?thesis using True unf sc' ok2 w1
      by (auto simp: signal_marks_def fun_eq_iff)
  next
    case False
    have st: "state (tcb sc' u) = state (tcb (sch m) u)" for u
      using sc'(4) False by simp
    have bl: "blocked sc' = blocked (sch m)" by (simp add: blocked_def st fun_eq_iff)
    have th: "thread (waiter ?s2 v) = thread (waiter s v)" for v by (simp add: w1)
    have sk: "takeWhile (\<lambda>v. \<not> blocked sc' (thread (waiter ?s2 v))) ws = tl skip"
      "skip = w # tl skip" "rest = dropWhile (\<lambda>v. \<not> blocked sc' (thread (waiter ?s2 v))) ws"
      using Cons(6,7) q False unfolding bl th by simp_all
    have "\<exists>sc'' s''. cv_signal c cv (sch (m\<lparr>sch := sc'\<rparr>)) ?s2 = Some (sc'', s'') \<and>
      sinv (m\<lparr>sch := sc'\<rparr>\<lparr>sch := sc''\<rparr>) \<and> live sc'' = live (sch (m\<lparr>sch := sc'\<rparr>)) \<and>
      (\<forall>t. state (tcb sc'' t) = (if \<exists>v. hit = Some v \<and> t = thread (waiter ?s2 v) then READY
                               else state (tcb (sch (m\<lparr>sch := sc'\<rparr>)) t))) \<and>
      cvs_ok s'' ((Q(cv := ws))(cv := tl rest)) \<and> waiter s'' = signal_marks (tl skip) hit (waiter ?s2)"
      using Cons(5) sc'(2,3) ok2 sk(1,3) Cons(8) q
      by (intro Cons(1)) (auto simp add: w1)
    then obtain sc'' s'' where r: "cv_signal c cv sc' ?s2 = Some (sc'', s'')"
      "sinv (m\<lparr>sch := sc''\<rparr>)" "live sc'' = live sc'"
      "\<And>t. state (tcb sc'' t) = (if \<exists>v. hit = Some v \<and> t = thread (waiter s v) then READY
                               else state (tcb (sch m) t))"
      "cvs_ok s'' (Q(cv := tl rest))" "waiter s'' = signal_marks (tl skip) hit (waiter ?s2)"
      unfolding th by (auto simp: st cong: if_cong)
    have "hit \<noteq> Some w"
    proof
      assume "hit = Some w"
      then obtain r where "rest = w # r" using Cons(8) by (auto split: list.splits)
      then have "w \<in> set ws" using sk(3) set_dropWhileD by (metis list.set_intros(1))
      then show False using dq by simp
    qed
    then have "signal_marks (tl skip) hit (waiter ?s2) = signal_marks skip hit (waiter s)"
      using sk(2) w1 by (auto simp: signal_marks_def fun_eq_iff) (metis list.set_intros set_ConsD)+
    then show ?thesis using r unf False sc'(3) by auto
  qed
qed

lemma split_waiters:
  fixes P :: "nat \<Rightarrow> bool"
  assumes "rest = dropWhile (\<lambda>w. \<not> P w) q" and "skip = takeWhile (\<lambda>w. \<not> P w) q"
    and "hit = (case rest of [] \<Rightarrow> None | w # _ \<Rightarrow> Some w)"
  shows "v \<in> set q \<longleftrightarrow> v \<in> set skip \<or> hit = Some v \<or> v \<in> set (tl rest)"
    and "v \<in> set skip \<Longrightarrow> \<not> P v" and "hit = Some v \<Longrightarrow> P v"
    and "q \<noteq> [] \<Longrightarrow> length (tl rest) < length q" and "set (tl rest) \<subseteq> set q"
    and "distinct q \<Longrightarrow> v \<in> set skip \<Longrightarrow> v \<notin> set (tl rest)"
    and "distinct q \<Longrightarrow> hit = Some v \<Longrightarrow> v \<notin> set (tl rest)"
proof -
  have q: "q = skip @ rest" using assms(1,2) by simp
  show "v \<in> set q \<longleftrightarrow> v \<in> set skip \<or> hit = Some v \<or> v \<in> set (tl rest)"
    unfolding q using assms(3) by (cases rest) auto
  show "v \<in> set skip \<Longrightarrow> \<not> P v" using assms(2) set_takeWhileD by metis
  show "hit = Some v \<Longrightarrow> P v"
    using assms(1,3) by (auto split: list.splits simp: dropWhile_eq_Cons_conv)
  show "q \<noteq> [] \<Longrightarrow> length (tl rest) < length q" unfolding q by (cases rest) auto
  show "set (tl rest) \<subseteq> set q" unfolding q by (cases rest) auto
  show "distinct q \<Longrightarrow> v \<in> set skip \<Longrightarrow> v \<notin> set (tl rest)"
    and "distinct q \<Longrightarrow> hit = Some v \<Longrightarrow> v \<notin> set (tl rest)"
    unfolding q using assms(3) by (cases rest; auto)+
qed

lemma Cond_Broadcast_spec:
  assumes "sinv m" and "cvs_ok s Q"
    and "\<And>w. w \<in> set (Q cv) \<Longrightarrow> \<exists>k. thread (waiter s w) = Thread k \<and> live (sch m) (Thread k)"
    and "inj_on (\<lambda>w. thread (waiter s w)) (set (Q cv))"
  shows "\<exists>sc' s'. Cond_Broadcast c cv (sch m) s = Some (sc', s') \<and> sinv (m\<lparr>sch := sc'\<rparr>) \<and>
     live sc' = live (sch m) \<and> cvs_ok s' (Q(cv := [])) \<and>
     (\<forall>t. state (tcb sc' t) =
        (if blocked (sch m) t \<and> (\<exists>w \<in> set (Q cv). t = thread (waiter s w)) then READY
         else state (tcb (sch m) t))) \<and>
     (\<forall>w. waiter s' w = (if w \<in> set (Q cv) then (waiter s w)\<lparr>removed := True,
        signalled := signalled (waiter s w) \<or> blocked (sch m) (thread (waiter s w))\<rparr> else waiter s w))"
  using assms
proof (induction "length (Q cv)" arbitrary: m s Q rule: less_induct)
  case less
  show ?case
  proof (cases "Q cv = []")
    case True
    then have "waitset s cv = None" using cvs_okD(1) [OF less(3), of cv] by simp
    moreover have "Q(cv := []) = Q" using True by (simp add: fun_upd_idem)
    ultimately show ?thesis using True less(2,3) by (simp add: Cond_Broadcast.simps)
  next
    case False
    define P where "P = (\<lambda>w. blocked (sch m) (thread (waiter s w)))"
    define skip where "skip = takeWhile (\<lambda>w. \<not> P w) (Q cv)"
    define rest where "rest = dropWhile (\<lambda>w. \<not> P w) (Q cv)"
    define hit where "hit = (case rest of [] \<Rightarrow> None | w # _ \<Rightarrow> Some w)"
    note sp = split_waiters [OF rest_def skip_def hit_def]
    have dq: "distinct (Q cv)" using ring_distinct [OF cvs_okD(2) [OF less(3) False]] .
    obtain sc1 s1 where s1: "cv_signal c cv (sch m) s = Some (sc1, s1)" "sinv (m\<lparr>sch := sc1\<rparr>)"
      "live sc1 = live (sch m)"
      "\<And>t. state (tcb sc1 t) = (if \<exists>w. hit = Some w \<and> t = thread (waiter s w) then READY
                               else state (tcb (sch m) t))"
      "cvs_ok s1 (Q(cv := tl rest))" "waiter s1 = signal_marks skip hit (waiter s)"
      using cv_signal_spec [OF less(2,3,4) skip_def [unfolded P_def] rest_def [unfolded P_def]
          hit_def, of c] by auto
    have th: "thread (waiter s1 v) = thread (waiter s v)" for v by (simp add: s1(6) signal_marks_def)
    have bl: "blocked sc1 t \<longleftrightarrow> blocked (sch m) t \<and> \<not> (\<exists>w. hit = Some w \<and> t = thread (waiter s w))" for t
      by (auto simp: blocked_def s1(4))
    have "\<exists>sc' s'. Cond_Broadcast c cv (sch (m\<lparr>sch := sc1\<rparr>)) s1 = Some (sc', s') \<and>
        sinv (m\<lparr>sch := sc1\<rparr>\<lparr>sch := sc'\<rparr>) \<and>
        live sc' = live (sch (m\<lparr>sch := sc1\<rparr>)) \<and> cvs_ok s' ((Q(cv := tl rest))(cv := [])) \<and>
        (\<forall>t. state (tcb sc' t) =
          (if blocked (sch (m\<lparr>sch := sc1\<rparr>)) t \<and>
             (\<exists>w \<in> set ((Q(cv := tl rest)) cv). t = thread (waiter s1 w)) then READY
           else state (tcb (sch (m\<lparr>sch := sc1\<rparr>)) t))) \<and>
        (\<forall>w. waiter s' w = (if w \<in> set ((Q(cv := tl rest)) cv) then (waiter s1 w)\<lparr>removed := True,
          signalled := signalled (waiter s1 w) \<or>
            blocked (sch (m\<lparr>sch := sc1\<rparr>)) (thread (waiter s1 w))\<rparr> else waiter s1 w))"
    proof (rule less(1))
      show "length ((Q(cv := tl rest)) cv) < length (Q cv)" using sp(4) False by simp
      show "sinv (m\<lparr>sch := sc1\<rparr>)" "cvs_ok s1 (Q(cv := tl rest))" by (fact s1)+
      show "\<exists>k. thread (waiter s1 w) = Thread k \<and> live (sch (m\<lparr>sch := sc1\<rparr>)) (Thread k)"
        if "w \<in> set ((Q(cv := tl rest)) cv)" for w
        using less(4) [of w] that sp(5) s1(3) by (auto simp: th)
      show "inj_on (\<lambda>w. thread (waiter s1 w)) (set ((Q(cv := tl rest)) cv))"
        using inj_on_subset [OF less(5) sp(5)] by (simp add: th)
    qed
    then obtain sc' s' where s': "Cond_Broadcast c cv sc1 s1 = Some (sc', s')"
      "sinv (m\<lparr>sch := sc'\<rparr>)" "live sc' = live (sch m)" "cvs_ok s' (Q(cv := []))"
      "\<And>t. state (tcb sc' t) = (if blocked sc1 t \<and> (\<exists>w \<in> set (tl rest). t = thread (waiter s w))
           then READY else state (tcb sc1 t))"
      "\<And>w. waiter s' w = (if w \<in> set (tl rest) then (waiter s1 w)\<lparr>removed := True,
          signalled := signalled (waiter s1 w) \<or> blocked sc1 (thread (waiter s w))\<rparr> else waiter s1 w)"
      using s1(3) by (auto simp: th cong: if_cong)
    have ne: "thread (waiter s v) \<noteq> thread (waiter s u)" if "hit = Some u" "v \<in> set (tl rest)" for u v
      using inj_onD [OF less(5), of v u] sp(1,5,7) that dq by blast
    have "state (tcb sc' t) =
        (if blocked (sch m) t \<and> (\<exists>w \<in> set (Q cv). t = thread (waiter s w)) then READY
         else state (tcb (sch m) t))" for t
    proof -
      have "blocked (sch m) t \<and> (\<exists>w \<in> set (Q cv). t = thread (waiter s w)) \<longleftrightarrow>
          (\<exists>w. hit = Some w \<and> t = thread (waiter s w)) \<or>
          blocked (sch m) t \<and> (\<exists>w \<in> set (tl rest). t = thread (waiter s w))"
        using sp(1,2,3) unfolding P_def by blast
      then show ?thesis using s'(5) s1(4) bl by auto
    qed
    moreover have "waiter s' w = (if w \<in> set (Q cv) then (waiter s w)\<lparr>removed := True,
        signalled := signalled (waiter s w) \<or> blocked (sch m) (thread (waiter s w))\<rparr> else waiter s w)" for w
    proof (cases "w \<in> set (tl rest)")
      case True
      then have "w \<notin> set skip" "hit \<noteq> Some w" "w \<in> set (Q cv)" using sp(1,6,7) dq by auto
      moreover have "blocked sc1 (thread (waiter s w)) = blocked (sch m) (thread (waiter s w))"
        using bl ne True by blast
      ultimately show ?thesis using True s'(6) s1(6) by (simp add: signal_marks_def)
    next
      case False
      then show ?thesis using s'(6) s1(6) sp(1,2,3) unfolding P_def
        by (auto simp: signal_marks_def)
    qed
    moreover have "Cond_Broadcast c cv (sch m) s = Some (sc', s')"
      using cvs_okD(1) [OF less(3), of cv] False s1(1) s'(1)
      by (cases "Q cv") (simp_all add: Cond_Broadcast.simps [of c cv "sch m"])
    ultimately show ?thesis using s'(2-4) by blast
  qed
qed

lemma cv_wait_leave_spec:
  assumes "cvs_ok s Q"
    and "removed (waiter s w) \<longleftrightarrow> w \<notin> set (Q cv)" and "signalled (waiter s w) \<longrightarrow> removed (waiter s w)"
  shows "\<exists>s'. cv_wait_leave s cv w = Some (s', signalled (waiter s w)) \<and>
     cvs_ok s' (Q(cv := remove1 w (Q cv))) \<and> waiter s' = waiter s"
proof (cases "removed (waiter s w)")
  case True
  then have "Q(cv := remove1 w (Q cv)) = Q" using assms(2) by (simp add: remove1_idem fun_upd_idem)
  then show ?thesis using True assms(1) by (simp add: cv_wait_leave_def)
next
  case False
  then show ?thesis
    using remove_from_ring_ok [OF assms(1), of w cv] assms(2,3) by (auto simp: cv_wait_leave_def)
qed

definition Cond_Wait ::
  "nat \<Rightarrow> nat \<Rightarrow> nat \<Rightarrow> uint64 \<Rightarrow> sched \<Rightarrow> cvs \<Rightarrow> (sched \<times> cvs \<times> bool) option" where
  "Cond_Wait c cv w curtime sc s = do {
     let s1 = cv_wait_enter s cv w (current_thread sc c);
     (sc', pre) \<leftarrow> sleep_releasing sc c STOPPED NO_TIMEOUT curtime;
     Some (sc', s1, pre)
   }"

text \<open>\<open>timeout_t\<close> is \<open>unsigned long\<close>; the multiplication by \<open>1000ul\<close> wraps.\<close>

definition Cond_TimedWait ::
  "nat \<Rightarrow> nat \<Rightarrow> nat \<Rightarrow> uint64 \<Rightarrow> uint64 \<Rightarrow> sched \<Rightarrow> cvs \<Rightarrow> (sched \<times> cvs \<times> bool) option" where
  "Cond_TimedWait c cv w timeout curtime sc s = do {
     let s1 = cv_wait_enter s cv w (current_thread sc c);
     (sc', pre) \<leftarrow> sleep_releasing sc c STOPPED (timeout * 1000) curtime;
     Some (sc', s1, pre)
   }"

section \<open>The mutex\<close>

text \<open>
  \<open>Mutex_Lock\<close> makes one atomic access to the lock per step: the test-and-set of the outer loop,
  or the load of the inner loop together with its bookkeeping of \<open>spin\<close>. The last component of
  the result says whether \<open>yield(SCHED_MUTEX)\<close> is called.
\<close>

datatype mutex_pc = Outside | Test_and_set | Spinning nat | Inside

definition MUTEX_SPINS :: nat where "MUTEX_SPINS = 1000"

fun Mutex_Lock :: "bool \<Rightarrow> bool \<Rightarrow> mutex_pc \<Rightarrow> bool \<times> mutex_pc \<times> bool" where
  "Mutex_Lock preempt lock Test_and_set = (True, if lock then Spinning MUTEX_SPINS else Inside, False)"
| "Mutex_Lock preempt lock (Spinning spin) =
     (if lock then
        if spin > 0 then (lock, Spinning (spin - 1), False)
        else (lock, Spinning MUTEX_SPINS, preempt)
      else (lock, Test_and_set, False))"
| "Mutex_Lock preempt lock p = (lock, p, False)"

definition Mutex_Unlock :: "bool \<Rightarrow> bool" where
  "Mutex_Unlock lock = False"

record mutex_mach =
  mlock :: bool
  mpc :: "nat \<Rightarrow> mutex_pc"

text \<open>Threads use the mutex properly: only the thread that has it releases it.\<close>

inductive mutex_step :: "mutex_mach \<Rightarrow> mutex_mach \<Rightarrow> bool" where
  "mpc m t = Outside \<Longrightarrow> mutex_step m (m\<lparr>mpc := (mpc m)(t := Test_and_set)\<rparr>)"
| "Mutex_Lock preempt (mlock m) (mpc m t) = (l, p, y) \<Longrightarrow>
     mutex_step m (m\<lparr>mlock := l, mpc := (mpc m)(t := p)\<rparr>)"
| "mpc m t = Inside \<Longrightarrow>
     mutex_step m (m\<lparr>mlock := Mutex_Unlock (mlock m), mpc := (mpc m)(t := Outside)\<rparr>)"

definition mutex_start :: "mutex_mach \<Rightarrow> bool" where
  "mutex_start m \<longleftrightarrow> \<not> mlock m \<and> (\<forall>t. mpc m t = Outside)"

definition mutex_inv :: "mutex_mach \<Rightarrow> bool" where
  "mutex_inv m \<longleftrightarrow> (mlock m \<longleftrightarrow> (\<exists>t. mpc m t = Inside)) \<and>
     (\<forall>t u. mpc m t = Inside \<longrightarrow> mpc m u = Inside \<longrightarrow> t = u)"

lemma mutex_start_inv: "mutex_start m \<Longrightarrow> mutex_inv m"
  by (simp add: mutex_start_def mutex_inv_def)

lemma mutex_step_inv: "mutex_step m m' \<Longrightarrow> mutex_inv m \<Longrightarrow> mutex_inv m'"
proof (induction rule: mutex_step.induct)
  case (2 preempt m t l p y)
  then show ?case
    by (cases "mpc m t") (auto simp: mutex_inv_def split: if_splits, (metis mutex_pc.distinct)+)
qed (auto simp: mutex_inv_def Mutex_Unlock_def, (metis mutex_pc.distinct)+)

interpretation mutex: transition_invariant mutex_start mutex_step mutex_inv
  by unfold_locales (blast intro: mutex_start_inv mutex_step_inv)+

section \<open>The kernel lock\<close>

record kmon =
  kernel_sem :: int
  ksched :: sched
  kcvs :: cvs

definition kernel_sem_cv :: nat where "kernel_sem_cv = 0"

datatype outcome = Proceeds | Sleeps

text \<open>One test of the loop \<open>while(kernel_sem<=0) Cond_Wait(...)\<close> and the decrement behind it. A
  thread that sleeps continues with \<open>kernel_lock_resume\<close>.\<close>

definition kernel_acquire :: "nat \<Rightarrow> nat \<Rightarrow> uint64 \<Rightarrow> kmon \<Rightarrow> (outcome \<times> kmon) option" where
  "kernel_acquire c w curtime k =
     (if kernel_sem k \<le> 0 then do {
        (sc, s, pre) \<leftarrow> Cond_Wait c kernel_sem_cv w curtime (ksched k) (kcvs k);
        Some (Sleeps, k\<lparr>ksched := sc, kcvs := s\<rparr>)
      }
      else Some (Proceeds, k\<lparr>kernel_sem := kernel_sem k - 1\<rparr>))"

definition kernel_lock :: "nat \<Rightarrow> nat \<Rightarrow> uint64 \<Rightarrow> kmon \<Rightarrow> (outcome \<times> kmon) option" where
  "kernel_lock c w curtime k = kernel_acquire c w curtime k"

definition kernel_lock_resume :: "nat \<Rightarrow> nat \<Rightarrow> uint64 \<Rightarrow> kmon \<Rightarrow> (outcome \<times> kmon) option" where
  "kernel_lock_resume c w curtime k = do {
     (s, r) \<leftarrow> cv_wait_leave (kcvs k) kernel_sem_cv w;
     kernel_acquire c w curtime (k\<lparr>kcvs := s\<rparr>)
   }"

definition kernel_release :: "nat \<Rightarrow> kmon \<Rightarrow> kmon option" where
  "kernel_release c k = do {
     let k1 = k\<lparr>kernel_sem := kernel_sem k + 1\<rparr>;
     (sc, s) \<leftarrow> Cond_Signal c kernel_sem_cv (ksched k1) (kcvs k1);
     Some (k1\<lparr>ksched := sc, kcvs := s\<rparr>)
   }"

definition kernel_unlock :: "nat \<Rightarrow> kmon \<Rightarrow> kmon option" where
  "kernel_unlock c k = kernel_release c k"

definition kernel_wait_wchan :: "nat \<Rightarrow> nat \<Rightarrow> nat \<Rightarrow> uint64 \<Rightarrow> uint64 \<Rightarrow> kmon \<Rightarrow> kmon option" where
  "kernel_wait_wchan c cv w timeout curtime k = do {
     k1 \<leftarrow> kernel_release c k;
     let s = cv_wait_enter (kcvs k1) cv w (current_thread (ksched k1) c);
     (sc, pre) \<leftarrow> sleep_releasing (ksched k1) c STOPPED timeout curtime;
     Some (k1\<lparr>ksched := sc, kcvs := s\<rparr>)
   }"

text \<open>The rest of \<open>kernel_wait_wchan\<close> once the thread runs again; \<open>w'\<close> is the waiter of the
  \<open>Cond_Wait\<close> call in its loop. The boolean is the result of \<open>kernel_wait_wchan\<close>.\<close>

definition kernel_wait_resume ::
  "nat \<Rightarrow> nat \<Rightarrow> nat \<Rightarrow> nat \<Rightarrow> uint64 \<Rightarrow> kmon \<Rightarrow> (bool \<times> outcome \<times> kmon) option" where
  "kernel_wait_resume c cv w w' curtime k = do {
     (s, ret) \<leftarrow> cv_wait_leave (kcvs k) cv w;
     (o1, k1) \<leftarrow> kernel_acquire c w' curtime (k\<lparr>kcvs := s\<rparr>);
     Some (ret, o1, k1)
   }"

definition kernel_signal :: "nat \<Rightarrow> nat \<Rightarrow> kmon \<Rightarrow> kmon option" where
  "kernel_signal c cv k = do {
     (sc, s) \<leftarrow> Cond_Signal c cv (ksched k) (kcvs k);
     Some (k\<lparr>ksched := sc, kcvs := s\<rparr>)
   }"

definition kernel_broadcast :: "nat \<Rightarrow> nat \<Rightarrow> kmon \<Rightarrow> kmon option" where
  "kernel_broadcast c cv k = do {
     (sc, s) \<leftarrow> Cond_Broadcast c cv (ksched k) (kcvs k);
     Some (k\<lparr>ksched := sc, kcvs := s\<rparr>)
   }"

definition kernel_sleep :: "nat \<Rightarrow> Thread_state \<Rightarrow> uint64 \<Rightarrow> kmon \<Rightarrow> kmon option" where
  "kernel_sleep c newstate curtime k = do {
     k1 \<leftarrow> kernel_release c k;
     (sc, pre) \<leftarrow> sleep_releasing (ksched k1) c newstate NO_TIMEOUT curtime;
     Some (k1\<lparr>ksched := sc\<rparr>)
   }"

lemma kernel_release_sem: "kernel_release c k = Some k' \<Longrightarrow> kernel_sem k' = kernel_sem k + 1"
  by (auto simp: kernel_release_def split: bind_splits prod.splits)

lemma kernel_acquire_sem:
  "kernel_acquire c w ct k = Some (r, k') \<Longrightarrow>
     (r = Proceeds \<longleftrightarrow> 0 < kernel_sem k) \<and>
     kernel_sem k' = kernel_sem k - (if r = Proceeds then 1 else 0)"
  by (auto simp: kernel_acquire_def split: bind_splits prod.splits if_splits)

text \<open>The threads that are inside the kernel, i.e. between taking and giving up the semaphore,
  are a ghost variable. A thread inside the kernel may change the scheduler and the condition
  variables, but no code outside these functions touches \<open>kernel_sem\<close>.\<close>

record klock =
  mon :: kmon
  inside :: "tcb_ref set"

abbreviation kthread :: "klock \<Rightarrow> nat \<Rightarrow> tcb_ref" where
  "kthread m c \<equiv> current_thread (ksched (mon m)) c"

definition kmove :: "klock \<Rightarrow> tcb_ref \<Rightarrow> outcome \<Rightarrow> kmon \<Rightarrow> klock" where
  "kmove m t r k = \<lparr>mon = k, inside = (if r = Proceeds then insert t (inside m) else inside m)\<rparr>"

inductive kstep :: "klock \<Rightarrow> klock \<Rightarrow> bool" where
  lock: "kthread m c \<notin> inside m \<Longrightarrow> kernel_lock c w ct (mon m) = Some (r, k) \<Longrightarrow>
    kstep m (kmove m (kthread m c) r k)"
| lock_resume: "kthread m c \<notin> inside m \<Longrightarrow> kernel_lock_resume c w ct (mon m) = Some (r, k) \<Longrightarrow>
    kstep m (kmove m (kthread m c) r k)"
| unlock: "kthread m c \<in> inside m \<Longrightarrow> kernel_unlock c (mon m) = Some k \<Longrightarrow>
    kstep m \<lparr>mon = k, inside = inside m - {kthread m c}\<rparr>"
| wait: "kthread m c \<in> inside m \<Longrightarrow> kernel_wait_wchan c cv w timeout ct (mon m) = Some k \<Longrightarrow>
    kstep m \<lparr>mon = k, inside = inside m - {kthread m c}\<rparr>"
| wait_resume: "kthread m c \<notin> inside m \<Longrightarrow>
    kernel_wait_resume c cv w w' ct (mon m) = Some (ret, r, k) \<Longrightarrow>
    kstep m (kmove m (kthread m c) r k)"
| sleep: "kthread m c \<in> inside m \<Longrightarrow> kernel_sleep c newstate ct (mon m) = Some k \<Longrightarrow>
    kstep m \<lparr>mon = k, inside = inside m - {kthread m c}\<rparr>"
| other: "kernel_sem k = kernel_sem (mon m) \<Longrightarrow> kstep m (m\<lparr>mon := k\<rparr>)"

definition kstart :: "klock \<Rightarrow> bool" where
  "kstart m \<longleftrightarrow> kernel_sem (mon m) = 1 \<and> inside m = {}"

definition kinv :: "klock \<Rightarrow> bool" where
  "kinv m \<longleftrightarrow> finite (inside m) \<and> 0 \<le> kernel_sem (mon m) \<and>
     kernel_sem (mon m) + int (card (inside m)) = 1"

lemma kmove_kinv:
  assumes "kinv m" and "t \<notin> inside m"
    and "r = Proceeds \<longleftrightarrow> 0 < kernel_sem (mon m)"
    and "kernel_sem k = kernel_sem (mon m) - (if r = Proceeds then 1 else 0)"
  shows "kinv (kmove m t r k)"
  using assms by (auto simp: kinv_def kmove_def)

lemma leave_kinv:
  assumes "kinv m" and "t \<in> inside m" and "kernel_sem k = kernel_sem (mon m) + 1"
  shows "kinv \<lparr>mon = k, inside = inside m - {t}\<rparr>"
proof -
  have "card (inside m) = Suc (card (inside m - {t}))"
    using assms by (intro card.remove) (auto simp: kinv_def)
  then show ?thesis using assms by (simp add: kinv_def)
qed

lemma kstep_kinv: "kstep m m' \<Longrightarrow> kinv m \<Longrightarrow> kinv m'"
proof (induction rule: kstep.induct)
  case (lock m c w ct r k)
  then show ?case using kmove_kinv kernel_acquire_sem unfolding kernel_lock_def by metis
next
  case (lock_resume m c w ct r k)
  then obtain s b where "kernel_acquire c w ct ((mon m)\<lparr>kcvs := s\<rparr>) = Some (r, k)"
    by (auto simp: kernel_lock_resume_def split: bind_splits)
  from kernel_acquire_sem [OF this] show ?case
    using lock_resume by (intro kmove_kinv) auto
next
  case (unlock m c k)
  then show ?case using leave_kinv kernel_release_sem unfolding kernel_unlock_def by metis
next
  case (wait m c cv w timeout ct k)
  then show ?case
    by (intro leave_kinv)
       (auto simp: kernel_wait_wchan_def dest: kernel_release_sem split: bind_splits prod.splits)
next
  case (wait_resume m c cv w w' ct ret r k)
  then obtain s where "kernel_acquire c w' ct ((mon m)\<lparr>kcvs := s\<rparr>) = Some (r, k)"
    by (auto simp: kernel_wait_resume_def split: bind_splits)
  from kernel_acquire_sem [OF this] show ?case
    using wait_resume by (intro kmove_kinv) auto
next
  case (sleep m c newstate ct k)
  then show ?case
    by (intro leave_kinv)
       (auto simp: kernel_sleep_def dest: kernel_release_sem split: bind_splits prod.splits)
next
  case (other k m)
  then show ?case by (simp add: kinv_def)
qed

lemma kstart_kinv: "kstart m \<Longrightarrow> kinv m"
  by (simp add: kstart_def kinv_def)

interpretation kernel_lock: transition_invariant kstart kstep kinv
  by unfold_locales (blast intro: kstart_kinv kstep_kinv)+

section \<open>Properties\<close>

definition ex_cvs :: cvs where
  "ex_cvs = cv_wait_enter \<lparr>waitset = (\<lambda>_. None),
     waiter = (\<lambda>_. \<lparr>thread = Idle_thread 0, signalled = False, removed = True\<rparr>),
     wheap = \<lparr>rl_obj = id, rl_prev = id, rl_next = id\<rparr>\<rparr> 0 5 (Thread 0)"

definition ex_queue :: "nat \<Rightarrow> nat list" where
  "ex_queue = (\<lambda>_. [])(0 := [5])"

lemma ex_cvs_ok: "cvs_ok ex_cvs ex_queue"
proof -
  have "cvs_ok ex_cvs ((\<lambda>_. [])(0 := (\<lambda>_. []) (0 :: nat) @ [5]))"
    unfolding ex_cvs_def by (rule cv_wait_enter_ok) (simp_all add: cvs_ok_def)
  then show ?thesis by (simp add: ex_queue_def)
qed

lemma ex_cvs_thread: "waiter ex_cvs 5 = \<lparr>thread = Thread 0, signalled = False, removed = False\<rparr>"
  by (simp add: ex_cvs_def cv_wait_enter_def)

lemma ex_blocked: "blocked (sch ex_spawned) (Thread 0)"
  by (simp add: blocked_def ex_spawned_def spawn_thread_def Let_def)

text \<open>C7: Mutual exclusion of \<open>Mutex_Lock\<close> and \<open>Mutex_Unlock\<close>: at most one thread is past
  \<open>Mutex_Lock\<close>, and the lock byte is set exactly while there is one.\<close>

theorem mutex_mutual_exclusion:
  assumes "reach mutex_start mutex_step m"
  shows "(mlock m \<longleftrightarrow> (\<exists>t. mpc m t = Inside)) \<and>
     (\<forall>t u. mpc m t = Inside \<longrightarrow> mpc m u = Inside \<longrightarrow> t = u)"
  using mutex.inv_reach [OF assms] by (simp add: mutex_inv_def)

theorem mutex_mutual_exclusion_witness:
  "mpc \<lparr>mlock = True, mpc = (\<lambda>_. Outside)(1 := Inside)\<rparr> 1 = Inside \<and>
   mpc \<lparr>mlock = True, mpc = (\<lambda>_. Outside)(1 := Inside)\<rparr> 2 \<noteq> Inside"
proof -
  have 1: "reach mutex_start mutex_step \<lparr>mlock = False, mpc = (\<lambda>_. Outside)\<rparr>"
    by (rule reach_start) (simp add: mutex_start_def)
  have 2: "reach mutex_start mutex_step \<lparr>mlock = False, mpc = (\<lambda>_. Outside)(1 := Test_and_set)\<rparr>"
    using reach_trans [OF 1 mutex_step.intros(1) [of _ 1]] by simp
  have 3: "reach mutex_start mutex_step \<lparr>mlock = True, mpc = (\<lambda>_. Outside)(1 := Inside)\<rparr>"
    using reach_trans [OF 2 mutex_step.intros(2) [of False _ 1 True Inside False]] by simp
  have "mpc \<lparr>mlock = True, mpc = (\<lambda>_. Outside)(1 := Inside)\<rparr> 1 = Inside" by simp
  moreover have "(2::nat) \<noteq> 1" by simp
  ultimately show ?thesis using mutex_mutual_exclusion [OF 3] by blast
qed

text \<open>C8: At most one thread is inside the kernel, between \<open>kernel_lock\<close> (or the return of
  \<open>kernel_wait_wchan\<close>) and \<open>kernel_unlock\<close>, \<open>kernel_wait_wchan\<close> or \<open>kernel_sleep\<close>; the semaphore
  is always 0 or 1, and it is 0 exactly when there is such a thread.\<close>

theorem kernel_mutual_exclusion:
  assumes "reach kstart kstep m"
  shows "kernel_sem (mon m) \<in> {0, 1} \<and> (kernel_sem (mon m) = 0 \<longleftrightarrow> (\<exists>t. inside m = {t})) \<and>
     (kernel_sem (mon m) = 1 \<longleftrightarrow> inside m = {})"
proof -
  have i: "finite (inside m)" "0 \<le> kernel_sem (mon m)"
    "kernel_sem (mon m) + int (card (inside m)) = 1"
    using kernel_lock.inv_reach [OF assms] by (simp_all add: kinv_def)
  have one: "(\<exists>t. inside m = {t}) \<longleftrightarrow> card (inside m) = 1" by (auto simp: card_1_singleton_iff)
  have none: "inside m = {} \<longleftrightarrow> card (inside m) = 0" using i(1) by simp
  show ?thesis unfolding one none using i(2,3) by simp linarith
qed

theorem kernel_mutual_exclusion_witness:
  "(\<lambda>m. kernel_sem (mon m) = 0 \<and> (\<exists>t. inside m = {t}))
     (kmove \<lparr>mon = \<lparr>kernel_sem = 1, ksched = sch ex_ready, kcvs = ex_cvs\<rparr>, inside = {}\<rparr>
        (current_thread (sch ex_ready) 0) Proceeds
        \<lparr>kernel_sem = 0, ksched = sch ex_ready, kcvs = ex_cvs\<rparr>)"
proof -
  let ?m = "\<lparr>mon = \<lparr>kernel_sem = 1, ksched = sch ex_ready, kcvs = ex_cvs\<rparr>, inside = {}\<rparr>"
  have "reach kstart kstep ?m" by (rule reach_start) (simp add: kstart_def)
  then have "reach kstart kstep (kmove ?m (kthread ?m 0) Proceeds
      \<lparr>kernel_sem = 0, ksched = sch ex_ready, kcvs = ex_cvs\<rparr>)"
    by (rule reach_trans, intro kstep.lock [where w = 9 and ct = 0])
       (simp_all add: kernel_lock_def kernel_acquire_def)
  from kernel_mutual_exclusion [OF this] show ?thesis by (simp add: kmove_def)
qed

text \<open>C16: \<open>Cond_Signal\<close> serves the waiters of a condition variable in FIFO order and never loses
  a signal to a waiter that is already awake: it takes waiters off the ring from the oldest on
  until one is really blocked, marks that one signalled and makes its thread READY; the waiters
  it skipped are removed but not signalled, later ones stay in the ring.\<close>

theorem cond_signal_fifo:
  assumes "reach sstart sstep m" and "cvs_ok s Q" and "Q cv = skip @ w # ws"
    and "\<And>v. v \<in> set (Q cv) \<Longrightarrow> \<exists>k. thread (waiter s v) = Thread k \<and> live (sch m) (Thread k)"
    and "\<And>v. v \<in> set skip \<Longrightarrow> \<not> blocked (sch m) (thread (waiter s v))"
    and "blocked (sch m) (thread (waiter s w))"
  shows "\<exists>sc' s'. Cond_Signal c cv (sch m) s = Some (sc', s') \<and> cvs_ok s' (Q(cv := ws)) \<and>
     state (tcb sc' (thread (waiter s w))) = READY \<and>
     waiter s' = signal_marks skip (Some w) (waiter s)"
proof -
  let ?P = "\<lambda>v. \<not> blocked (sch m) (thread (waiter s v))"
  have tk: "skip = takeWhile ?P (Q cv)" using assms(3,5,6) by simp
  have dr: "w # ws = dropWhile ?P (Q cv)" using assms(3,5,6) by simp
  show ?thesis
    using cv_signal_spec [OF scheduler.inv_reach [OF assms(1)] assms(2,4) tk dr, of "Some w" c]
    by (auto simp: Cond_Signal_def)
qed

theorem cond_signal_fifo_witness:
  "\<exists>sc' s'. Cond_Signal 1 0 (sch ex_spawned) ex_cvs = Some (sc', s') \<and>
     state (tcb sc' (Thread 0)) = READY \<and> signalled (waiter s' 5)"
proof -
  have "\<exists>sc' s'. Cond_Signal 1 0 (sch ex_spawned) ex_cvs = Some (sc', s') \<and>
      cvs_ok s' (ex_queue(0 := [])) \<and> state (tcb sc' (thread (waiter ex_cvs 5))) = READY \<and>
      waiter s' = signal_marks [] (Some 5) (waiter ex_cvs)"
    by (rule cond_signal_fifo [OF ex_spawned_reach ex_cvs_ok])
       (simp_all add: ex_queue_def ex_cvs_thread ex_blocked ex_live)
  then show ?thesis by (auto simp: ex_cvs_thread signal_marks_def)
qed

text \<open>C17: \<open>Cond_Broadcast\<close> ends, empties the ring, and signals exactly the waiters whose threads
  were blocked; each of those threads becomes READY and no other thread changes its state.\<close>

theorem cond_broadcast_all:
  assumes "reach sstart sstep m" and "cvs_ok s Q"
    and "\<And>v. v \<in> set (Q cv) \<Longrightarrow> \<exists>k. thread (waiter s v) = Thread k \<and> live (sch m) (Thread k)"
    and "inj_on (\<lambda>v. thread (waiter s v)) (set (Q cv))"
  shows "\<exists>sc' s'. Cond_Broadcast c cv (sch m) s = Some (sc', s') \<and> cvs_ok s' (Q(cv := [])) \<and>
     (\<forall>v \<in> set (Q cv). removed (waiter s' v) \<and>
        (signalled (waiter s' v) \<longleftrightarrow> signalled (waiter s v) \<or> blocked (sch m) (thread (waiter s v)))) \<and>
     (\<forall>t. state (tcb sc' t) =
        (if blocked (sch m) t \<and> (\<exists>v \<in> set (Q cv). t = thread (waiter s v)) then READY
         else state (tcb (sch m) t)))"
  using Cond_Broadcast_spec [OF scheduler.inv_reach [OF assms(1)] assms(2-4), of c] by auto

theorem cond_broadcast_all_witness:
  "\<exists>sc' s'. Cond_Broadcast 1 0 (sch ex_spawned) ex_cvs = Some (sc', s') \<and>
     signalled (waiter s' 5) \<and> state (tcb sc' (Thread 0)) = READY"
proof -
  have "inj_on (\<lambda>v. thread (waiter ex_cvs v)) (set (ex_queue 0))" by (simp add: ex_queue_def)
  from cond_broadcast_all [OF ex_spawned_reach ex_cvs_ok _ this, of 1] show ?thesis
    using ex_blocked ex_live by (fastforce simp: ex_queue_def ex_cvs_thread)
qed

text \<open>The end of \<open>cv_wait\<close>: under the invariant that a waiter is marked removed exactly when
  it is not in the ring, and signalled only when removed, the assertion holds, the waiter is not
  in any ring afterwards, and the result says whether it was signalled.\<close>

lemma cv_wait_leave_safe:
  assumes "cvs_ok s Q" and "removed (waiter s w) \<longleftrightarrow> w \<notin> set (Q cv)"
    and "signalled (waiter s w) \<longrightarrow> removed (waiter s w)"
  shows "\<exists>s'. cv_wait_leave s cv w = Some (s', signalled (waiter s w)) \<and>
     cvs_ok s' (Q(cv := remove1 w (Q cv))) \<and> w \<notin> set (remove1 w (Q cv))"
proof -
  have "distinct (Q cv)"
    using ring_distinct cvs_okD(2) [OF assms(1)] by (cases "Q cv = []") auto
  then show ?thesis using cv_wait_leave_spec [OF assms] by auto
qed

text \<open>C18: \<open>kernel_unlock\<close> gives the semaphore back and wakes the oldest thread that sleeps on it,
  so the kernel lock is not left free with all its waiters asleep.\<close>

theorem kernel_unlock_wakes:
  assumes "reach sstart sstep m" and "ksched k = sch m" and "cvs_ok (kcvs k) Q"
    and "Q kernel_sem_cv = w # ws" and "blocked (sch m) (thread (waiter (kcvs k) w))"
    and "\<And>v. v \<in> set (w # ws) \<Longrightarrow>
       \<exists>j. thread (waiter (kcvs k) v) = Thread j \<and> live (sch m) (Thread j)"
  shows "\<exists>k'. kernel_unlock c k = Some k' \<and> kernel_sem k' = kernel_sem k + 1 \<and>
     state (tcb (ksched k') (thread (waiter (kcvs k) w))) = READY \<and>
     signalled (waiter (kcvs k') w) \<and> cvs_ok (kcvs k') (Q(kernel_sem_cv := ws))"
proof -
  have "\<exists>sc' s'. cv_signal c kernel_sem_cv (sch m) (kcvs k) = Some (sc', s') \<and>
     sinv (m\<lparr>sch := sc'\<rparr>) \<and> live sc' = live (sch m) \<and>
     (\<forall>t. state (tcb sc' t) = (if \<exists>v. Some w = Some v \<and> t = thread (waiter (kcvs k) v) then READY
                               else state (tcb (sch m) t))) \<and>
     cvs_ok s' (Q(kernel_sem_cv := tl (w # ws))) \<and> waiter s' = signal_marks [] (Some w) (waiter (kcvs k))"
    by (rule cv_signal_spec [OF scheduler.inv_reach [OF assms(1)] assms(3)])
       (use assms(4-6) in auto)
  then show ?thesis
    by (auto simp: kernel_unlock_def kernel_release_def Cond_Signal_def assms(2) signal_marks_def)
qed

theorem kernel_unlock_wakes_witness:
  "\<exists>k'. kernel_unlock 1 \<lparr>kernel_sem = 0, ksched = sch ex_spawned, kcvs = ex_cvs\<rparr> = Some k' \<and>
     kernel_sem k' = 1 \<and> state (tcb (ksched k') (Thread 0)) = READY"
  using kernel_unlock_wakes [OF ex_spawned_reach, of "\<lparr>kernel_sem = 0, ksched = sch ex_spawned, kcvs = ex_cvs\<rparr>"
      ex_queue 5 "[]" 1] ex_cvs_ok ex_blocked ex_live
  by (auto simp: ex_queue_def kernel_sem_cv_def ex_cvs_thread)

end
