(* ===== verification/Dev.thy ===== *)
theory Dev
  imports CC
begin

text \<open>
  Devices and device drivers, \<^verbatim>\<open>kernel_dev.c\<close>: the null device, the serial driver and the device
  table.

  A driver reads or writes a byte at a time through the BIOS. What the polls of
  \<open>bios_read_serial\<close> and \<open>bios_write_serial\<close> return is an argument: a list of results, where an
  exhausted list means that the device has no data (or no room). A call that has to wait returns
  \<open>Block\<close>: this is where \<open>serial_read\<close> calls \<open>kernel_wait\<close> and \<open>serial_write\<close> calls \<open>yield\<close>. Both
  only do so before the first byte, so the call continues by starting its loop again.
\<close>

section \<open>The driver interface\<close>

datatype stream_obj = NULL_obj | Serial_dcb nat

datatype 'a io = Done 'a | Block

type_synonym read_op =
  "nat \<Rightarrow> sched \<Rightarrow> stream_obj \<Rightarrow> uint32 \<Rightarrow> byte option list \<Rightarrow> (uint32 \<times> byte list) io \<times> sched"
type_synonym write_op =
  "nat \<Rightarrow> sched \<Rightarrow> stream_obj \<Rightarrow> byte list \<Rightarrow> uint32 \<Rightarrow> bool list \<Rightarrow> (uint32 \<times> byte list) io \<times> sched"

text \<open>A method of \<open>file_ops\<close> is a pointer, hence the options. \<open>Read_again\<close> is the read method after a
  wait; the write method starts again from its loop, which is all of it. The argument of \<open>Open\<close> is the number of serial ports and the
  minor number.\<close>

record file_ops =
  Open :: "nat \<Rightarrow> uint32 \<Rightarrow> stream_obj option"
  Read :: "read_op option"
  Read_again :: read_op
  Write :: "write_op option"
  Close :: "stream_obj \<Rightarrow> int"

section \<open>The null device\<close>

definition nulldev_read :: read_op where
  "nulldev_read c sc dev sz rx = (Done (sz, replicate (unat sz) 0), sc)"

definition nulldev_write :: write_op where
  "nulldev_write c sc dev buf sz tx = (Done (sz, []), sc)"

definition nulldev_close :: "stream_obj \<Rightarrow> int" where
  "nulldev_close dev = 0"

definition nulldev_open :: "nat \<Rightarrow> uint32 \<Rightarrow> stream_obj option" where
  "nulldev_open ports minor = Some NULL_obj"

definition nulldev_fops :: file_ops where
  "nulldev_fops = \<lparr>Open = nulldev_open, Read = Some nulldev_read, Read_again = nulldev_read,
     Write = Some nulldev_write, Close = nulldev_close\<rparr>"

section \<open>The serial driver\<close>

text \<open>The result of a completed read is the count and the bytes stored in the buffer; of a
  completed write, the count and the bytes given to the device.\<close>

fun serial_read_loop ::
  "uint32 \<Rightarrow> byte option list \<Rightarrow> uint32 \<Rightarrow> byte list \<Rightarrow> (uint32 \<times> byte list) io" where
  "serial_read_loop sz [] cnt buf =
     (if cnt < sz \<and> cnt = 0 then Block else Done (cnt, buf))"
| "serial_read_loop sz (v # rx) cnt buf =
     (if cnt < sz then
        (case v of
           Some b \<Rightarrow> serial_read_loop sz rx (cnt + 1) (buf @ [b])
         | None \<Rightarrow> if cnt = 0 then Block else Done (cnt, buf))
      else Done (cnt, buf))"

definition serial_read_again :: read_op where
  "serial_read_again c sc dev sz rx =
     (case serial_read_loop sz rx 0 [] of
        Done r \<Rightarrow> (Done r, preempt_on sc c)
      | Block \<Rightarrow> (Block, sc))"

definition serial_read :: read_op where
  "serial_read c sc dev sz rx = serial_read_again c (fst (preempt_off sc c)) dev sz rx"

fun serial_write_loop ::
  "byte list \<Rightarrow> uint32 \<Rightarrow> bool list \<Rightarrow> uint32 \<Rightarrow> byte list \<Rightarrow> (uint32 \<times> byte list) io" where
  "serial_write_loop buf sz [] cnt out =
     (if cnt < sz \<and> cnt = 0 then Block else Done (cnt, out))"
| "serial_write_loop buf sz (success # tx) cnt out =
     (if cnt < sz then
        (if success then serial_write_loop buf sz tx (cnt + 1) (out @ [buf ! unat cnt])
         else if cnt = 0 then Block else Done (cnt, out))
      else Done (cnt, out))"

definition serial_write :: write_op where
  "serial_write c sc dev buf sz tx = (serial_write_loop buf sz tx 0 [], sc)"

definition serial_close :: "stream_obj \<Rightarrow> int" where
  "serial_close dev = 0"

definition serial_open :: "nat \<Rightarrow> uint32 \<Rightarrow> stream_obj option" where
  "serial_open ports term = (if unat term < ports then Some (Serial_dcb (unat term)) else None)"

definition serial_fops :: file_ops where
  "serial_fops = \<lparr>Open = serial_open, Read = Some serial_read, Read_again = serial_read_again,
     Write = Some serial_write, Close = serial_close\<rparr>"

text \<open>The condition variable \<open>rx_ready\<close> of serial port \<open>i\<close>; the processes have the numbers in
  between for \<open>child_exit\<close>.\<close>

definition rx_ready :: "nat \<Rightarrow> nat" where
  "rx_ready i = 65537 + i"

fun broadcast_ports :: "nat \<Rightarrow> nat list \<Rightarrow> sched \<Rightarrow> cvs \<Rightarrow> (sched \<times> cvs) option" where
  "broadcast_ports c [] sc s = Some (sc, s)"
| "broadcast_ports c (i # ports) sc s = do {
     (sc1, s1) \<leftarrow> Cond_Broadcast c (rx_ready i) sc s;
     broadcast_ports c ports sc1 s1
   }"

definition serial_rx_handler :: "nat \<Rightarrow> nat \<Rightarrow> sched \<Rightarrow> cvs \<Rightarrow> (sched \<times> cvs) option" where
  "serial_rx_handler ports c sc s = do {
     let (sc1, pre) = preempt_off sc c;
     (sc2, s2) \<leftarrow> broadcast_ports c [0..<ports] sc1 s;
     Some (if pre then preempt_on sc2 c else sc2, s2)
   }"

definition serial_tx_handler :: "sched \<Rightarrow> sched" where
  "serial_tx_handler sc = sc"

section \<open>The device table\<close>

datatype Device_type = DEV_NULL | DEV_SERIAL | DEV_MAX

record DCB =
  dtype :: Device_type
  devnum :: uint32
  dev_fops :: file_ops

record serial_dcb =
  devno :: nat
  spinlock :: bool

record devices =
  devtable :: "Device_type \<Rightarrow> DCB"
  serial_ports :: nat
  serial_table :: "nat \<Rightarrow> serial_dcb"

fun init_serial :: "nat list \<Rightarrow> devices \<Rightarrow> cvs \<Rightarrow> devices \<times> cvs" where
  "init_serial [] d s = (d, s)"
| "init_serial (i # is) d s =
     init_serial is (d\<lparr>serial_table := (serial_table d)(i := \<lparr>devno = i, spinlock = False\<rparr>)\<rparr>)
       (s\<lparr>waitset := (waitset s)(rx_ready i := None)\<rparr>)"

definition initialize_devices :: "nat \<Rightarrow> devices \<Rightarrow> cvs \<Rightarrow> sched \<Rightarrow> devices \<times> cvs \<times> sched" where
  "initialize_devices c d s sc =
     (let d1 = d\<lparr>devtable := (devtable d)
             (DEV_NULL := \<lparr>dtype = DEV_NULL, devnum = 1, dev_fops = nulldev_fops\<rparr>,
              DEV_SERIAL := \<lparr>dtype = DEV_SERIAL, devnum = of_nat (serial_ports d),
                             dev_fops = serial_fops\<rparr>)\<rparr>;
          (d2, s2) = init_serial [0..<serial_ports d] d1 s;
          v = cpu_interrupt_handler
                (cpu_interrupt_handler (vm sc) c SERIAL_RX_READY (Some Serial_rx_handler))
                c SERIAL_TX_READY (Some Serial_tx_handler)
      in (d2, s2, sc\<lparr>vm := v\<rparr>))"

text \<open>\<open>None\<close>: an assertion fails. Otherwise the return value, and on success the stream object
  and the methods.\<close>

definition device_open ::
  "devices \<Rightarrow> Device_type \<Rightarrow> uint32 \<Rightarrow> (int \<times> (stream_obj \<times> file_ops) option) option" where
  "device_open d major minor =
     (if major = DEV_MAX then None
      else if minor \<ge> devnum (devtable d major) then Some (-1, None)
      else do {
        obj \<leftarrow> Open (dev_fops (devtable d major)) (serial_ports d) minor;
        Some (0, Some (obj, dev_fops (devtable d major)))
      })"

definition device_no :: "devices \<Rightarrow> Device_type \<Rightarrow> uint32" where
  "device_no d major = devnum (devtable d major)"

section \<open>Reading and writing\<close>

fun avail :: "byte option list \<Rightarrow> byte list" where
  "avail (Some b # rx) = b # avail rx"
| "avail _ = []"

lemma serial_read_loop_spec:
  "cnt \<le> sz \<Longrightarrow>
   serial_read_loop sz rx cnt buf =
     (let n = min (unat sz - unat cnt) (length (avail rx)) in
      if cnt = 0 \<and> sz \<noteq> 0 \<and> n = 0 then Block
      else Done (cnt + of_nat n, buf @ take n (avail rx)))"
proof (induction rx arbitrary: cnt buf)
  case Nil
  then show ?case by (auto simp: word_less_nat_alt word_le_nat_alt unat_eq_0 Let_def)
next
  case (Cons v rx)
  show ?case
  proof (cases "cnt < sz \<and> v \<noteq> None")
    case True
    then obtain b where v: "v = Some b" and lt: "cnt < sz" by auto
    have c1: "unat (cnt + 1) = Suc (unat cnt)" by (rule unat_Suc_less [OF lt])
    have "cnt + 1 \<le> sz" using lt c1 by (simp add: word_le_nat_alt word_less_nat_alt)
    moreover have "cnt + 1 \<noteq> 0" using c1 by auto
    moreover have "min (unat sz - unat cnt) (Suc (length (avail rx))) =
        Suc (min (unat sz - unat (cnt + 1)) (length (avail rx)))"
      using lt c1 by (simp add: word_less_nat_alt)
    ultimately show ?thesis using Cons.IH [of "cnt + 1" "buf @ [b]"] v lt c1
      by (simp add: Let_def)
  next
    case False
    then show ?thesis
      using Cons.prems
      by (cases v) (auto simp: Let_def word_less_nat_alt word_le_nat_alt unat_eq_0)
  qed
qed

fun room :: "bool list \<Rightarrow> nat" where
  "room (True # tx) = Suc (room tx)"
| "room _ = 0"

lemma serial_write_loop_spec:
  "cnt \<le> sz \<Longrightarrow> unat sz \<le> length buf \<Longrightarrow>
   serial_write_loop buf sz tx cnt out =
     (let n = min (unat sz - unat cnt) (room tx) in
      if cnt = 0 \<and> sz \<noteq> 0 \<and> n = 0 then Block
      else Done (cnt + of_nat n, out @ take n (drop (unat cnt) buf)))"
proof (induction tx arbitrary: cnt out)
  case Nil
  then show ?case by (auto simp: word_less_nat_alt word_le_nat_alt unat_eq_0 Let_def)
next
  case (Cons v tx)
  show ?case
  proof (cases "cnt < sz \<and> v")
    case True
    then have lt: "cnt < sz" and v: "v = True" by auto
    have c1: "unat (cnt + 1) = Suc (unat cnt)" by (rule unat_Suc_less [OF lt])
    have "cnt + 1 \<le> sz" using lt c1 by (simp add: word_le_nat_alt word_less_nat_alt)
    moreover have "cnt + 1 \<noteq> 0" using c1 by auto
    moreover have "min (unat sz - unat cnt) (Suc (room tx)) =
        Suc (min (unat sz - unat (cnt + 1)) (room tx))"
      using lt c1 by (simp add: word_less_nat_alt)
    moreover have "take (Suc n) (drop (unat cnt) buf) =
        buf ! unat cnt # take n (drop (unat (cnt + 1)) buf)" for n
    proof -
      have "unat cnt < length buf" using lt Cons.prems(2) by (simp add: word_less_nat_alt)
      then show ?thesis by (simp add: c1 flip: Cons_nth_drop_Suc)
    qed
    ultimately show ?thesis
      using Cons.IH [of "cnt + 1" "out @ [buf ! unat cnt]"] Cons.prems(2) v lt
      by (simp add: Let_def)
  next
    case False
    then show ?thesis
      using Cons.prems(1)
      by (cases v) (auto simp: Let_def word_less_nat_alt word_le_nat_alt unat_eq_0)
  qed
qed

text \<open>What \<open>file_ops\<close> promises of \<open>Read\<close>: a completed call reports how many bytes it stored, at
  most as many as asked for and at least one unless none was asked for.\<close>

locale stream_reader =
  fixes read :: read_op
  assumes read_count: "read c sc dev sz rx = (Done (n, buf), sc') \<Longrightarrow> n \<le> sz \<and> length buf = unat n"
    and read_some: "read c sc dev sz rx = (Done (n, buf), sc') \<Longrightarrow> sz \<noteq> 0 \<Longrightarrow> n \<noteq> 0"
begin

lemma read_fits:
  assumes "read c sc dev sz rx = (Done (n, buf), sc')" and "unat sz \<le> size_of_buffer"
  shows "length buf \<le> size_of_buffer"
  using read_count [OF assms(1)] assms(2) by (simp add: word_le_nat_alt)

lemma read_progress:
  assumes "read c sc dev sz rx = (Done (n, buf), sc')" and "sz \<noteq> 0"
  shows "buf \<noteq> []"
  using read_count [OF assms(1)] read_some [OF assms] by (auto simp: unat_eq_0)

end

lemma serial_read_again_done:
  assumes "serial_read_again c sc dev sz rx = (Done (n, buf), sc')"
  shows "n \<le> sz" and "length buf = unat n" and "sz \<noteq> 0 \<Longrightarrow> n \<noteq> 0"
    and "buf = take (unat sz) (avail rx)"
proof -
  let ?n = "min (unat sz) (length (avail rx))"
  have d: "serial_read_loop sz rx 0 [] = Done (n, buf)"
    using assms by (auto simp: serial_read_again_def split: io.splits)
  then have e: "n = of_nat ?n" "buf = take ?n (avail rx)" "sz \<noteq> 0 \<Longrightarrow> ?n \<noteq> 0"
    using serial_read_loop_spec [of 0 sz rx "[]"] by (auto simp: Let_def split: if_splits)
  have "unat sz < 2 ^ LENGTH(32)" by (rule unsigned_less)
  then have "?n < 2 ^ LENGTH(32)" by linarith
  then have u: "unat n = ?n" using e(1) by (simp add: unat_of_nat_small)
  show "n \<le> sz" using u by (simp add: word_le_nat_alt)
  show "length buf = unat n" using u e(2) by simp
  show "sz \<noteq> 0 \<Longrightarrow> n \<noteq> 0" using u e(3) by (metis unsigned_0)
  show "buf = take (unat sz) (avail rx)" using e(2) by (simp add: min_def)
qed

interpretation nulldev: stream_reader nulldev_read
  by unfold_locales (auto simp: nulldev_read_def)

interpretation serial_continue: stream_reader serial_read_again
  by unfold_locales (auto dest: serial_read_again_done)

interpretation serial: stream_reader serial_read
  by unfold_locales (auto simp: serial_read_def dest: serial_read_again_done)

section \<open>Properties\<close>

definition ex_devices :: devices where
  "ex_devices = \<lparr>devtable = (\<lambda>_. \<lparr>dtype = DEV_MAX, devnum = 0, dev_fops = nulldev_fops\<rparr>),
     serial_ports = 2, serial_table = (\<lambda>_. \<lparr>devno = 0, spinlock = False\<rparr>)\<rparr>"

text \<open>\<open>serial_read\<close> waits exactly when bytes were asked for and none is available; otherwise
  it delivers the available bytes in order, as many as asked for at most, reports their number,
  and leaves preemption on.\<close>

lemma serial_read_delivers:
  "serial_read c sc dev sz rx =
     (let got = take (unat sz) (avail rx); sc1 = fst (preempt_off sc c) in
      if sz \<noteq> 0 \<and> got = [] then (Block, sc1)
      else (Done (of_nat (length got), got), preempt_on sc1 c))"
  using serial_read_loop_spec [of 0 sz rx "[]"]
  by (auto simp: serial_read_def serial_read_again_def Let_def unat_eq_0 min_def take_all_iff
      split: io.splits if_splits)

text \<open>\<open>serial_write\<close> hands the device a prefix of the buffer, as long as the device accepts
  and at most the requested size, reports its length, and never completes with 0 bytes unless 0
  bytes were asked for.\<close>

lemma serial_write_prefix:
  assumes "unat sz \<le> length buf"
  shows "serial_write c sc dev buf sz tx =
     (let out = take (min (unat sz) (room tx)) buf in
      if sz \<noteq> 0 \<and> room tx = 0 then (Block, sc) else (Done (of_nat (length out), out), sc))"
  using serial_write_loop_spec [of 0 sz buf tx "[]"] assms
  by (auto simp: serial_write_def Let_def unat_eq_0 min_def split: if_splits)

text \<open>After \<open>initialize_devices\<close>, \<open>device_open\<close> on the null device or a serial device returns
  success exactly for the minor numbers below the number of devices of that type, with the stream object
  of that minor number and the methods of the right driver, and no assertion fails.\<close>

lemma device_open_correct:
  assumes "initialize_devices c d s sc = (d', s', sc')" and "serial_ports d < 2 ^ 32"
  shows "device_open d' DEV_NULL minor =
      (if minor = 0 then Some (0, Some (NULL_obj, nulldev_fops)) else Some (-1, None)) \<and>
    device_open d' DEV_SERIAL minor =
      (if unat minor < serial_ports d then Some (0, Some (Serial_dcb (unat minor), serial_fops))
       else Some (-1, None))"
proof -
  have frame: "devtable (fst (init_serial is e s0)) = devtable e \<and>
      serial_ports (fst (init_serial is e s0)) = serial_ports e" for "is" e s0
    by (induction "is" arbitrary: e s0) auto
  have d': "d' = fst (init_serial [0..<serial_ports d] (d\<lparr>devtable := (devtable d)
             (DEV_NULL := \<lparr>dtype = DEV_NULL, devnum = 1, dev_fops = nulldev_fops\<rparr>,
              DEV_SERIAL := \<lparr>dtype = DEV_SERIAL, devnum = of_nat (serial_ports d),
                             dev_fops = serial_fops\<rparr>)\<rparr>) s)"
    using assms(1) by (auto simp: initialize_devices_def Let_def split: prod.splits)
  have "devtable d' DEV_NULL = \<lparr>dtype = DEV_NULL, devnum = 1, dev_fops = nulldev_fops\<rparr>"
    "devtable d' DEV_SERIAL = \<lparr>dtype = DEV_SERIAL, devnum = of_nat (serial_ports d), dev_fops = serial_fops\<rparr>"
    "serial_ports d' = serial_ports d"
    unfolding d' using frame by simp_all
  then show ?thesis
    using assms(2)
    by (auto simp: device_open_def nulldev_fops_def nulldev_open_def serial_fops_def serial_open_def
        word_le_nat_alt unat_of_nat_small unat_eq_0 not_le)
qed

end
