(* ===== verification/Kernel_State.thy ===== *)
theory Kernel_State
  imports Dev
begin

text \<open>
  The data of the kernel: the process table of \<^verbatim>\<open>kernel_proc.h\<close> and the file table of
  \<^verbatim>\<open>kernel_streams.h\<close>, with the lists that run through them.

  A PCB and an FCB are named by their index in \<open>PT\<close> and \<open>FT\<close>. The four list nodes of a PCB and the
  node of an FCB live in heaps of their own, where \<open>rl_obj\<close> is the payload. \<open>CURPROC\<close> is the PCB of
  the thread that runs on a core; the system calls below take it as their argument \<open>cur\<close>.
\<close>

definition MAX_PROC :: nat where "MAX_PROC = 65536"
definition MAX_FILEID :: nat where "MAX_FILEID = 16"
definition MAX_FILES :: nat where "MAX_FILES = MAX_PROC"
definition NOPROC :: int where "NOPROC = -1"
definition NOFILE :: int where "NOFILE = -1"

datatype pid_state = FREE | ALIVE | ZOMBIE

record PCB =
  pstate :: pid_state
  parent :: "nat option"
  exitval :: int
  main_thread :: "tcb_ref option"
  main_task :: "funptr option"
  argl :: int
  args :: "byte list option"
  FIDT :: "nat option list"

datatype pnode = Children_list nat | Exited_list nat | Children_node nat | Exited_node nat

text \<open>The condition variable \<open>child_exit\<close> of a process.\<close>

definition child_exit :: "nat \<Rightarrow> nat" where
  "child_exit p = p + 1"

record FCB =
  refcount :: uint32
  streamobj :: "stream_obj option"
  streamfunc :: "file_ops option"

datatype fnode = FCB_freelist | Freelist_node nat

record kernel =
  PT :: "nat \<Rightarrow> PCB"
  pcb_freelist :: "nat option"
  process_count :: uint32
  pheap :: "(pnode, nat option) rlheap"
  FT :: "nat \<Rightarrow> FCB"
  fheap :: "(fnode, nat option) rlheap"
  devs :: devices
  monitor :: kmon

definition CURPROC :: "kernel \<Rightarrow> nat \<Rightarrow> nat option" where
  "CURPROC k c = (let sc = ksched (monitor k) in owner_pcb (tcb sc (current_thread sc c)))"

definition upd_pcb :: "kernel \<Rightarrow> nat \<Rightarrow> (PCB \<Rightarrow> PCB) \<Rightarrow> kernel" where
  "upd_pcb k p f = k\<lparr>PT := (PT k)(p := f (PT k p))\<rparr>"

definition upd_fcb :: "kernel \<Rightarrow> nat \<Rightarrow> (FCB \<Rightarrow> FCB) \<Rightarrow> kernel" where
  "upd_fcb k f g = k\<lparr>FT := (FT k)(f := g (FT k f))\<rparr>"

definition set_fid :: "kernel \<Rightarrow> nat \<Rightarrow> nat \<Rightarrow> nat option \<Rightarrow> kernel" where
  "set_fid k p i v = upd_pcb k p (\<lambda>b. b\<lparr>FIDT := (FIDT b)[i := v]\<rparr>)"

definition set_sched :: "kernel \<Rightarrow> sched \<Rightarrow> kernel" where
  "set_sched k sc = k\<lparr>monitor := (monitor k)\<lparr>ksched := sc\<rparr>\<rparr>"

lemma upd_pcb_simps [simp]:
  "PT (upd_pcb k p f) = (PT k)(p := f (PT k p))"
  "pcb_freelist (upd_pcb k p f) = pcb_freelist k"
  "process_count (upd_pcb k p f) = process_count k"
  "pheap (upd_pcb k p f) = pheap k"
  "FT (upd_pcb k p f) = FT k" "fheap (upd_pcb k p f) = fheap k"
  "devs (upd_pcb k p f) = devs k" "monitor (upd_pcb k p f) = monitor k"
  by (simp_all add: upd_pcb_def)

lemma upd_fcb_simps [simp]:
  "FT (upd_fcb k f g) = (FT k)(f := g (FT k f))"
  "PT (upd_fcb k f g) = PT k" "pcb_freelist (upd_fcb k f g) = pcb_freelist k"
  "process_count (upd_fcb k f g) = process_count k"
  "pheap (upd_fcb k f g) = pheap k" "fheap (upd_fcb k f g) = fheap k"
  "devs (upd_fcb k f g) = devs k" "monitor (upd_fcb k f g) = monitor k"
  by (simp_all add: upd_fcb_def)

lemma set_sched_simps [simp]:
  "PT (set_sched k sc) = PT k" "pcb_freelist (set_sched k sc) = pcb_freelist k"
  "process_count (set_sched k sc) = process_count k" "pheap (set_sched k sc) = pheap k"
  "FT (set_sched k sc) = FT k" "fheap (set_sched k sc) = fheap k" "devs (set_sched k sc) = devs k"
  by (simp_all add: set_sched_def)

end
