(* ===== verification/Streams.thy ===== *)
theory Streams
  imports Kernel_State
begin

text \<open>
  Streams, \<^verbatim>\<open>kernel_streams.c\<close>: the pool of file control blocks, their reference counts, the
  descriptor tables of the processes and the system calls on streams.

  The invariant \<open>finv k use fs\<close> says that \<open>fs\<close> is the free list and that the reference count of
  every other FCB is the number of descriptors that refer to it plus \<open>use\<close>, the references held
  by calls in progress. Each primitive moves one of the three terms; a system call that has
  returned leaves \<open>use\<close> as it found it.
\<close>

section \<open>The pool of FCBs\<close>

fun init_fcbs :: "nat list \<Rightarrow> kernel \<Rightarrow> kernel" where
  "init_fcbs [] k = k"
| "init_fcbs (i # is) k =
     (let k1 = upd_fcb k i (\<lambda>f. f\<lparr>refcount := 0\<rparr>);
          k2 = k1\<lparr>fheap := rlnode_init (fheap k1) (Freelist_node i) (Some i)\<rparr>
      in init_fcbs is (k2\<lparr>fheap := rlist_push_back (fheap k2) FCB_freelist (Freelist_node i)\<rparr>))"

definition initialize_files :: "kernel \<Rightarrow> kernel" where
  "initialize_files k =
     init_fcbs [0..<MAX_FILES] (k\<lparr>fheap := rlnode_init (fheap k) FCB_freelist None\<rparr>)"

definition acquire_FCB :: "kernel \<Rightarrow> nat option \<times> kernel" where
  "acquire_FCB k =
     (if \<not> is_rlist_empty (fheap k) FCB_freelist then
        (let (h, n) = rlist_pop_front (fheap k) FCB_freelist;
             k1 = k\<lparr>fheap := h\<rparr>
         in case rl_obj h n of
              Some fcb \<Rightarrow> (Some fcb, upd_fcb k1 fcb (\<lambda>f. f\<lparr>refcount := 0\<rparr>))
            | None \<Rightarrow> (None, k1))
      else (None, k))"

definition release_FCB :: "kernel \<Rightarrow> nat \<Rightarrow> kernel" where
  "release_FCB k fcb = k\<lparr>fheap := rlist_push_back (fheap k) FCB_freelist (Freelist_node fcb)\<rparr>"

definition FCB_incref :: "kernel \<Rightarrow> nat \<Rightarrow> kernel" where
  "FCB_incref k fcb = upd_fcb k fcb (\<lambda>f. f\<lparr>refcount := refcount f + 1\<rparr>)"

text \<open>\<open>None\<close>: a stream without methods is closed.\<close>

definition FCB_decref :: "kernel \<Rightarrow> nat \<Rightarrow> (int \<times> kernel) option" where
  "FCB_decref k fcb =
     (let k1 = upd_fcb k fcb (\<lambda>f. f\<lparr>refcount := refcount f - 1\<rparr>)
      in if refcount (FT k1 fcb) = 0 then do {
           ops \<leftarrow> streamfunc (FT k1 fcb);
           obj \<leftarrow> streamobj (FT k1 fcb);
           Some (Close ops obj, release_FCB k1 fcb)
         }
         else Some (0, k1))"

section \<open>Reserving descriptors\<close>

function next_free :: "nat option list \<Rightarrow> nat \<Rightarrow> nat" where
  "next_free t f = (if f < MAX_FILEID \<and> t ! f \<noteq> None then next_free t (f + 1) else f)"
  by auto
termination by (relation "measure (\<lambda>(t, f). MAX_FILEID - f)") auto

declare next_free.simps [simp del]

fun find_fids :: "nat option list \<Rightarrow> nat \<Rightarrow> nat \<Rightarrow> nat list option" where
  "find_fids t 0 f = Some []"
| "find_fids t (Suc num) f =
     (let g = next_free t f
      in if g = MAX_FILEID then None
         else do { fids \<leftarrow> find_fids t num (g + 1); Some (g # fids) })"

fun acquire_FCBs :: "nat \<Rightarrow> nat list \<Rightarrow> kernel \<Rightarrow> bool \<times> nat list \<times> kernel" where
  "acquire_FCBs 0 got k = (True, got, k)"
| "acquire_FCBs (Suc num) got k =
     (case acquire_FCB k of
        (Some fcb, k1) \<Rightarrow> acquire_FCBs num (got @ [fcb]) k1
      | (None, k1) \<Rightarrow> (False, got, k1))"

fun roll_back :: "nat list \<Rightarrow> kernel \<Rightarrow> kernel" where
  "roll_back [] k = k"
| "roll_back (fcb # fcbs) k = roll_back fcbs (release_FCB k fcb)"

fun link_fids :: "nat \<Rightarrow> (nat \<times> nat) list \<Rightarrow> kernel \<Rightarrow> kernel" where
  "link_fids cur [] k = k"
| "link_fids cur ((fid, fcb) # ps) k =
     link_fids cur ps (FCB_incref (set_fid k cur fid (Some fcb)) fcb)"

text \<open>On success the two arrays; the roll-back releases the last FCB first.\<close>

definition FCB_reserve :: "nat \<Rightarrow> kernel \<Rightarrow> nat \<Rightarrow> (nat list \<times> nat list) option \<times> kernel" where
  "FCB_reserve num k cur =
     (case find_fids (FIDT (PT k cur)) num 0 of
        None \<Rightarrow> (None, k)
      | Some fid \<Rightarrow>
          (case acquire_FCBs num [] k of
             (False, fcb, k1) \<Rightarrow> (None, roll_back (rev fcb) k1)
           | (True, fcb, k1) \<Rightarrow> (Some (fid, fcb), link_fids cur (zip fid fcb) k1)))"

fun FCB_unreserve :: "(nat \<times> nat) list \<Rightarrow> kernel \<Rightarrow> nat \<Rightarrow> kernel option" where
  "FCB_unreserve [] k cur = Some k"
| "FCB_unreserve ((fid, fcb) # ps) k cur =
     (if FIDT (PT k cur) ! fid = Some fcb
      then FCB_unreserve ps (release_FCB (set_fid k cur fid None) fcb) cur
      else None)"

section \<open>System calls\<close>

definition get_fcb :: "kernel \<Rightarrow> nat \<Rightarrow> int \<Rightarrow> nat option" where
  "get_fcb k cur fid =
     (if fid < 0 \<or> fid \<ge> int MAX_FILEID then None else FIDT (PT k cur) ! nat fid)"

text \<open>The end of \<open>sys_Read\<close> and \<open>sys_Write\<close>: the reference is dropped when the device method has
  returned. A call that waits keeps it. The result of a method is an \<open>unsigned int\<close> that is
  returned as an \<open>int\<close>.\<close>

definition io_finish ::
  "kernel \<Rightarrow> nat \<Rightarrow> (uint32 \<times> byte list) io \<times> sched \<Rightarrow> ((int \<times> byte list) io \<times> kernel) option" where
  "io_finish k fcb r =
     (case r of
        (Block, sc) \<Rightarrow> Some (Block, set_sched k sc)
      | (Done (n, buf), sc) \<Rightarrow> do {
          (ret, k1) \<leftarrow> FCB_decref (set_sched k sc) fcb;
          Some (Done (sint n, buf), k1)
        })"

definition sys_Read ::
  "kernel \<Rightarrow> nat \<Rightarrow> nat \<Rightarrow> int \<Rightarrow> uint32 \<Rightarrow> byte option list \<Rightarrow>
     ((int \<times> byte list) io \<times> kernel) option" where
  "sys_Read k c cur fd sz rx =
     (case get_fcb k cur fd of
        None \<Rightarrow> Some (Done (-1, []), k)
      | Some fcb \<Rightarrow> do {
          sobj \<leftarrow> streamobj (FT k fcb);
          ops \<leftarrow> streamfunc (FT k fcb);
          let k1 = FCB_incref k fcb;
          (case Read ops of
             Some devread \<Rightarrow> io_finish k1 fcb (devread c (ksched (monitor k1)) sobj sz rx)
           | None \<Rightarrow> do { (r, k2) \<leftarrow> FCB_decref k1 fcb; Some (Done (-1, []), k2) })
        })"

definition sys_Read_again ::
  "kernel \<Rightarrow> nat \<Rightarrow> nat \<Rightarrow> uint32 \<Rightarrow> byte option list \<Rightarrow> ((int \<times> byte list) io \<times> kernel) option" where
  "sys_Read_again k c fcb sz rx = do {
     sobj \<leftarrow> streamobj (FT k fcb);
     ops \<leftarrow> streamfunc (FT k fcb);
     io_finish k fcb (Read_again ops c (ksched (monitor k)) sobj sz rx)
   }"

definition sys_Write ::
  "kernel \<Rightarrow> nat \<Rightarrow> nat \<Rightarrow> int \<Rightarrow> byte list \<Rightarrow> uint32 \<Rightarrow> bool list \<Rightarrow>
     ((int \<times> byte list) io \<times> kernel) option" where
  "sys_Write k c cur fd buf sz tx =
     (case get_fcb k cur fd of
        None \<Rightarrow> Some (Done (-1, []), k)
      | Some fcb \<Rightarrow> do {
          sobj \<leftarrow> streamobj (FT k fcb);
          ops \<leftarrow> streamfunc (FT k fcb);
          let k1 = FCB_incref k fcb;
          (case Write ops of
             Some devwrite \<Rightarrow> io_finish k1 fcb (devwrite c (ksched (monitor k1)) sobj buf sz tx)
           | None \<Rightarrow> do { (r, k2) \<leftarrow> FCB_decref k1 fcb; Some (Done (-1, []), k2) })
        })"

definition sys_Close :: "kernel \<Rightarrow> nat \<Rightarrow> int \<Rightarrow> (int \<times> kernel) option" where
  "sys_Close k cur fd =
     (let retcode = (if fd \<ge> 0 \<and> fd < int MAX_FILEID then 0 else -1)
      in case get_fcb k cur fd of
           Some fcb \<Rightarrow> FCB_decref (set_fid k cur (nat fd) None) fcb
         | None \<Rightarrow> Some (retcode, k))"

definition sys_Dup2 :: "kernel \<Rightarrow> nat \<Rightarrow> int \<Rightarrow> int \<Rightarrow> (int \<times> kernel) option" where
  "sys_Dup2 k cur oldfd newfd =
     (if oldfd < 0 \<or> newfd < 0 \<or> oldfd \<ge> int MAX_FILEID \<or> newfd \<ge> int MAX_FILEID then Some (-1, k)
      else
        (let old = get_fcb k cur oldfd; new = get_fcb k cur newfd
         in case old of
              None \<Rightarrow> Some (-1, k)
            | Some fo \<Rightarrow>
                if old \<noteq> new then do {
                  k1 \<leftarrow> (case new of
                          Some fn \<Rightarrow> do { (r, k') \<leftarrow> FCB_decref k fn; Some k' }
                        | None \<Rightarrow> Some k);
                  let k2 = FCB_incref k1 fo;
                  Some (0, set_fid k2 cur (nat newfd) old)
                }
                else Some (0, k)))"

definition sys_GetTerminalDevices :: "kernel \<Rightarrow> uint32" where
  "sys_GetTerminalDevices k = device_no (devs k) DEV_SERIAL"

definition open_stream :: "kernel \<Rightarrow> nat \<Rightarrow> Device_type \<Rightarrow> uint32 \<Rightarrow> (int \<times> kernel) option" where
  "open_stream k cur major minor =
     (case FCB_reserve 1 k cur of
        (Some (fid, fcb), k1) \<Rightarrow> do {
          (err, res) \<leftarrow> device_open (devs k1) major minor;
          (case res of
             Some (obj, ops) \<Rightarrow>
               Some (int (hd fid),
                     upd_fcb k1 (hd fcb) (\<lambda>f. f\<lparr>streamobj := Some obj, streamfunc := Some ops\<rparr>))
           | None \<Rightarrow> do { k2 \<leftarrow> FCB_unreserve (zip fid fcb) k1 cur; Some (NOFILE, k2) })
        }
      | (None, k1) \<Rightarrow> Some (NOFILE, k1))"

definition sys_OpenNull :: "kernel \<Rightarrow> nat \<Rightarrow> (int \<times> kernel) option" where
  "sys_OpenNull k cur = open_stream k cur DEV_NULL 0"

definition sys_OpenTerminal :: "kernel \<Rightarrow> nat \<Rightarrow> uint32 \<Rightarrow> (int \<times> kernel) option" where
  "sys_OpenTerminal k cur termno = open_stream k cur DEV_SERIAL termno"

section \<open>The free list\<close>

definition frep :: "kernel \<Rightarrow> nat list \<Rightarrow> bool" where
  "frep k fs \<longleftrightarrow>
     layout (fheap k) {FCB_freelist} (\<lambda>_. map Freelist_node fs)
       (Freelist_node ` ({..<MAX_FILES} - set fs)) \<and>
     rl_obj (fheap k) FCB_freelist = None \<and>
     (\<forall>f < MAX_FILES. rl_obj (fheap k) (Freelist_node f) = Some f) \<and> set fs \<subseteq> {..<MAX_FILES}"

lemma frep_distinct: "frep k fs \<Longrightarrow> distinct fs"
  using layout_distinct [of "fheap k" "{FCB_freelist}" "\<lambda>_. map Freelist_node fs" _ FCB_freelist]
  by (auto simp: frep_def distinct_map)

lemma frep_cong: "fheap k' = fheap k \<Longrightarrow> frep k' fs = frep k fs"
  by (simp add: frep_def)

lemma acquire_FCB_nil: "frep k [] \<Longrightarrow> acquire_FCB k = (None, k)"
  using rl.is_empty [of "fheap k" "{FCB_freelist}" "\<lambda>_. []" _ FCB_freelist]
  by (auto simp: acquire_FCB_def frep_def)

lemma acquire_FCB_cons:
  assumes "frep k (f # fs)"
  shows "\<exists>h. acquire_FCB k = (Some f, upd_fcb (k\<lparr>fheap := h\<rparr>) f (\<lambda>c. c\<lparr>refcount := 0\<rparr>)) \<and>
     frep (k\<lparr>fheap := h\<rparr>) fs"
proof -
  let ?m = "\<lambda>_ :: fnode. map Freelist_node (f # fs)"
  have lay: "layout (fheap k) {FCB_freelist} ?m (Freelist_node ` ({..<MAX_FILES} - set (f # fs)))"
    using assms unfolding frep_def by blast
  obtain h n where hn: "rlist_pop_front (fheap k) FCB_freelist = (h, n)" by force
  have n: "n = Freelist_node f" using rl.pop_front_node [OF lay, of FCB_freelist] hn by simp
  have obj: "rl_obj h = rl_obj (fheap k)" using obj_rlist(4) [of "fheap k" FCB_freelist] hn by simp
  have "layout h {FCB_freelist} (\<lambda>_. map Freelist_node fs)
      (insert (Freelist_node f) (Freelist_node ` ({..<MAX_FILES} - set (f # fs))))"
    using layout_single [OF rl.pop_front [OF lay, of FCB_freelist "Freelist_node f" "map Freelist_node fs"]]
      hn by simp
  moreover have "insert (Freelist_node f) (Freelist_node ` ({..<MAX_FILES} - set (f # fs))) =
      Freelist_node ` ({..<MAX_FILES} - set fs)"
    using assms frep_distinct [OF assms] by (auto simp: frep_def)
  ultimately have "frep (k\<lparr>fheap := h\<rparr>) fs"
    using assms obj by (simp add: frep_def)
  moreover have "\<not> is_rlist_empty (fheap k) FCB_freelist"
    using rl.is_empty [OF lay, of FCB_freelist] by simp
  moreover have "rl_obj h n = Some f" using assms obj n by (simp add: frep_def)
  ultimately show ?thesis using hn by (auto simp: acquire_FCB_def)
qed

lemma release_FCB_frep:
  assumes "frep k fs" and "f < MAX_FILES" and "f \<notin> set fs"
  shows "frep (release_FCB k f) (fs @ [f])"
proof -
  let ?m = "\<lambda>_ :: fnode. map Freelist_node fs"
  have lay: "layout (fheap k) {FCB_freelist} ?m (Freelist_node ` ({..<MAX_FILES} - set fs))"
    using assms(1) by (simp add: frep_def)
  have "layout (fheap (release_FCB k f)) {FCB_freelist} (\<lambda>_. map Freelist_node (fs @ [f]))
      (Freelist_node ` ({..<MAX_FILES} - set fs) - {Freelist_node f})"
    unfolding release_FCB_def
    using layout_single [OF rl.push_back [OF lay, of FCB_freelist "Freelist_node f"]] assms(2,3)
    by simp
  moreover have "Freelist_node ` ({..<MAX_FILES} - set fs) - {Freelist_node f} =
      Freelist_node ` ({..<MAX_FILES} - set (fs @ [f]))" by auto
  ultimately show ?thesis using assms by (simp add: frep_def release_FCB_def)
qed

interpretation fcbs: resource_pool acquire_FCB release_FCB frep "\<lambda>f. f < MAX_FILES"
proof
  show "frep s [] \<Longrightarrow> acquire_FCB s = (None, s)" for s by (rule acquire_FCB_nil)
  show "frep s (r # fs) \<Longrightarrow> fst (acquire_FCB s) = Some r" for s r fs
    by (drule acquire_FCB_cons) auto
  show "frep s (r # fs) \<Longrightarrow> frep (snd (acquire_FCB s)) fs" for s r fs
    by (drule acquire_FCB_cons) (auto simp: frep_def)
  show "frep s fs \<Longrightarrow> r < MAX_FILES \<Longrightarrow> r \<notin> set fs \<Longrightarrow>
      frep (release_FCB s r) (r # fs) \<or> frep (release_FCB s r) (fs @ [r])" for s fs r
    by (simp add: release_FCB_frep)
  show "frep s fs \<Longrightarrow> distinct fs" for s fs by (rule frep_distinct)
  show "frep s fs \<Longrightarrow> r \<in> set fs \<Longrightarrow> r < MAX_FILES" for s fs r by (auto simp: frep_def)
qed

section \<open>Reference counts\<close>

definition refs :: "kernel \<Rightarrow> nat \<Rightarrow> nat" where
  "refs k f = (\<Sum>p<MAX_PROC. count_list (FIDT (PT k p)) (Some f))"

definition tables_ok :: "kernel \<Rightarrow> bool" where
  "tables_ok k \<longleftrightarrow> (\<forall>p < MAX_PROC. length (FIDT (PT k p)) = MAX_FILEID \<and>
     (\<forall>f. Some f \<in> set (FIDT (PT k p)) \<longrightarrow> f < MAX_FILES))"

definition finv :: "kernel \<Rightarrow> (nat \<Rightarrow> int) \<Rightarrow> nat list \<Rightarrow> bool" where
  "finv k use fs \<longleftrightarrow> frep k fs \<and> tables_ok k \<and>
     (\<forall>f < MAX_FILES. if f \<in> set fs then refs k f = 0 \<and> use f = 0
        else uint (refcount (FT k f)) = int (refs k f) + use f)"

lemma finvD:
  assumes "finv k use fs"
  shows "frep k fs" and "tables_ok k" and "f \<in> set fs \<Longrightarrow> refs k f = 0 \<and> use f = 0"
    and "f < MAX_FILES \<Longrightarrow> f \<notin> set fs \<Longrightarrow> uint (refcount (FT k f)) = int (refs k f) + use f"
proof -
  show "frep k fs" "tables_ok k" using assms by (simp_all add: finv_def)
  then have "set fs \<subseteq> {..<MAX_FILES}" by (simp add: frep_def)
  then show "f \<in> set fs \<Longrightarrow> refs k f = 0 \<and> use f = 0" using assms by (auto simp: finv_def)
  show "f < MAX_FILES \<Longrightarrow> f \<notin> set fs \<Longrightarrow> uint (refcount (FT k f)) = int (refs k f) + use f"
    using assms by (auto simp: finv_def)
qed

lemma count_list_update:
  "i < length xs \<Longrightarrow> count_list (xs[i := y]) a + (if xs ! i = a then 1 else 0) =
     count_list xs a + (if y = a then 1 else 0)"
proof (induction xs arbitrary: i)
  case (Cons x xs)
  show ?case
  proof (cases i)
    case (Suc j)
    then show ?thesis using Cons.IH [of j] Cons.prems by (auto split: if_splits)
  qed simp
qed simp

lemma refs_set_fid:
  assumes "tables_ok k" and "p < MAX_PROC" and "i < MAX_FILEID"
  shows "refs (set_fid k p i v) f + (if FIDT (PT k p) ! i = Some f then 1 else 0) =
     refs k f + (if v = Some f then 1 else 0)"
proof -
  let ?k = "set_fid k p i v"
  let ?c = "\<lambda>k p. count_list (FIDT (PT k p)) (Some f)"
  have len: "i < length (FIDT (PT k p))" using assms by (simp add: tables_ok_def)
  have other: "(\<Sum>q\<in>{..<MAX_PROC} - {p}. ?c ?k q) = (\<Sum>q\<in>{..<MAX_PROC} - {p}. ?c k q)"
    by (rule sum.cong) (simp_all add: set_fid_def)
  have "refs k f = ?c k p + (\<Sum>q\<in>{..<MAX_PROC} - {p}. ?c k q)"
    and "refs ?k f = ?c ?k p + (\<Sum>q\<in>{..<MAX_PROC} - {p}. ?c ?k q)"
    unfolding refs_def using assms(2) by (auto intro: sum.remove)
  moreover have "?c ?k p + (if FIDT (PT k p) ! i = Some f then 1 else 0) =
      ?c k p + (if v = Some f then 1 else 0)"
    using count_list_update [OF len, of v "Some f"] by (simp add: set_fid_def)
  ultimately show ?thesis using other by simp
qed

lemma refs_cong: "(\<And>p. FIDT (PT k' p) = FIDT (PT k p)) \<Longrightarrow> refs k' f = refs k f"
  by (simp add: refs_def)

lemma tables_cong: "(\<And>p. FIDT (PT k' p) = FIDT (PT k p)) \<Longrightarrow> tables_ok k' = tables_ok k"
  by (simp add: tables_ok_def)

text \<open>An update of anything but descriptors, counts and the free list.\<close>

lemma finv_cong:
  assumes "finv k use fs" and "fheap k' = fheap k" and "\<And>p. FIDT (PT k' p) = FIDT (PT k p)"
    and "\<And>f. refcount (FT k' f) = refcount (FT k f)"
  shows "finv k' use fs"
  using assms frep_cong [OF assms(2)] refs_cong [of k' k, OF assms(3)] tables_cong [of k' k, OF assms(3)]
  by (simp add: finv_def)

definition moved :: "nat option \<Rightarrow> int \<Rightarrow> (nat \<Rightarrow> int) \<Rightarrow> nat \<Rightarrow> int" where
  "moved v d use f = (if v = Some f then use f + d else use f)"

lemma moved_simps [simp]:
  "moved None d use = use" "moved v d use f = (if v = Some f then use f + d else use f)"
  "moved v (- d) (moved v d use) = use" "moved v d (moved v (- d) use) = use"
  by (auto simp: moved_def fun_eq_iff)

lemma set_fid_finv:
  assumes inv: "finv k use fs" and p: "p < MAX_PROC" "i < MAX_FILEID"
    and old: "FIDT (PT k p) ! i = old" and new: "\<And>f. v = Some f \<Longrightarrow> f < MAX_FILES \<and> f \<notin> set fs"
  shows "finv (set_fid k p i v) (moved v (-1) (moved old 1 use)) fs"
proof -
  note D = finvD [OF inv]
  have len: "i < length (FIDT (PT k p))" using D(2) p by (simp add: tables_ok_def)
  have r: "int (refs (set_fid k p i v) f) = int (refs k f) + (if v = Some f then 1 else 0) -
      (if old = Some f then 1 else 0)" for f
    using refs_set_fid [OF D(2) p, of v f] old by auto
  have o: "old \<noteq> Some f" if "f \<in> set fs" for f
  proof
    assume "old = Some f"
    then have "Some f \<in> set (FIDT (PT k p))" using old len nth_mem by fastforce
    then have "count_list (FIDT (PT k p)) (Some f) \<noteq> 0" by (simp add: count_list_0_iff)
    then have "0 < refs k f" unfolding refs_def using p(1)
      by (metis finite_lessThan lessThan_iff sum_pos2 zero_le not_gr_zero)
    then show False using D(3) [OF that] by simp
  qed
  have "tables_ok (set_fid k p i v)"
    using D(2) new set_update_subset_insert [of "FIDT (PT k p)" i v]
    by (auto simp: tables_ok_def set_fid_def)
  moreover have "frep (set_fid k p i v) fs" using D(1) by (simp add: frep_def set_fid_def)
  moreover have "refs (set_fid k p i v) f = 0 \<and> moved v (-1) (moved old 1 use) f = 0" if "f \<in> set fs" for f
    using D(3) [OF that] o [OF that] new that r [of f] by auto
  moreover have "uint (refcount (FT (set_fid k p i v) f)) =
      int (refs (set_fid k p i v) f) + moved v (-1) (moved old 1 use) f"
    if "f < MAX_FILES" "f \<notin> set fs" for f
    using D(4) [OF that] r [of f] by (auto simp: set_fid_def)
  ultimately show ?thesis by (simp add: finv_def)
qed

lemma refs_bound: "tables_ok k \<Longrightarrow> refs k f \<le> MAX_PROC * MAX_FILEID"
proof -
  assume "tables_ok k"
  then have "count_list (FIDT (PT k p)) (Some f) \<le> MAX_FILEID" if "p < MAX_PROC" for p
    using that count_le_length [of "FIDT (PT k p)" "Some f"] by (simp add: tables_ok_def)
  then have "refs k f \<le> (\<Sum>p<MAX_PROC. MAX_FILEID)" unfolding refs_def by (intro sum_mono) auto
  then show ?thesis by simp
qed

lemma refs_pos:
  assumes "p < MAX_PROC" and "Some f \<in> set (FIDT (PT k p))"
  shows "0 < refs k f"
proof -
  have "count_list (FIDT (PT k p)) (Some f) \<noteq> 0" using assms(2) by (simp add: count_list_0_iff)
  then show ?thesis unfolding refs_def using assms(1)
    by (metis finite_lessThan lessThan_iff sum_pos2 zero_le not_gr_zero)
qed

lemma incref_finv:
  assumes inv: "finv k use fs" and f: "f < MAX_FILES" "f \<notin> set fs" "use f < 2 ^ 31"
  shows "finv (FCB_incref k f) (moved (Some f) 1 use) fs"
proof -
  note D = finvD [OF inv]
  have "uint (refcount (FT k f)) + 1 < 2 ^ LENGTH(32)"
    using D(4) [OF f(1,2)] refs_bound [OF D(2), of f] f(3) by (simp add: MAX_PROC_def MAX_FILEID_def)
  then have "uint (refcount (FT k f) + 1) = uint (refcount (FT k f)) + 1" by (rule uint_Suc)
  moreover have "refs (FCB_incref k f) g = refs k g" for g
    by (rule refs_cong) (simp add: FCB_incref_def)
  moreover have "tables_ok (FCB_incref k f)" "frep (FCB_incref k f) fs"
    using D(1,2) by (simp_all add: FCB_incref_def tables_ok_def frep_def)
  ultimately show ?thesis using inv f by (auto simp: finv_def FCB_incref_def)
qed

definition opened :: "kernel \<Rightarrow> nat \<Rightarrow> bool" where
  "opened k f \<longleftrightarrow> streamobj (FT k f) \<noteq> None \<and> streamfunc (FT k f) \<noteq> None"

lemma release_simps [simp]:
  "PT (release_FCB k f) = PT k" "FT (release_FCB k f) = FT k" "devs (release_FCB k f) = devs k"
  "monitor (release_FCB k f) = monitor k" "pheap (release_FCB k f) = pheap k"
  "pcb_freelist (release_FCB k f) = pcb_freelist k" "process_count (release_FCB k f) = process_count k"
  by (simp_all add: release_FCB_def)

lemma release_finv:
  assumes "finv k use fs" and "f < MAX_FILES" "f \<notin> set fs" and "refs k f = 0" "use f = 0"
  shows "finv (release_FCB k f) use (fs @ [f])"
proof -
  have "refs (release_FCB k f) g = refs k g" for g by (rule refs_cong) simp
  moreover have "tables_ok (release_FCB k f)" using finvD(2) [OF assms(1)] by (simp add: tables_ok_def)
  ultimately show ?thesis
    using assms release_FCB_frep [OF finvD(1) [OF assms(1)] assms(2,3)] by (auto simp: finv_def)
qed

text \<open>Everything but the counts and the free list.\<close>

definition same_but_files :: "kernel \<Rightarrow> kernel \<Rightarrow> bool" where
  "same_but_files k k' \<longleftrightarrow> PT k' = PT k \<and> pheap k' = pheap k \<and> pcb_freelist k' = pcb_freelist k \<and>
     process_count k' = process_count k \<and> devs k' = devs k \<and> monitor k' = monitor k \<and>
     (\<forall>g. streamobj (FT k' g) = streamobj (FT k g) \<and> streamfunc (FT k' g) = streamfunc (FT k g))"

lemma decref_same: "FCB_decref k f = Some (r, k') \<Longrightarrow> same_but_files k k'"
  by (auto simp: FCB_decref_def same_but_files_def Let_def split: if_splits bind_splits)

lemma decref_finv:
  assumes inv: "finv k use fs" and f: "f < MAX_FILES" "f \<notin> set fs" "1 \<le> use f" and op: "opened k f"
  shows "\<exists>r k' fs'. FCB_decref k f = Some (r, k') \<and> finv k' (moved (Some f) (-1) use) fs' \<and>
     same_but_files k k' \<and>
     (if refs k f = 0 \<and> use f = 1
      then fs' = fs @ [f] \<and> r = Close (the (streamfunc (FT k f))) (the (streamobj (FT k f)))
      else fs' = fs \<and> r = 0)"
proof -
  note D = finvD [OF inv]
  let ?use = "moved (Some f) (-1) use"
  let ?k1 = "upd_fcb k f (\<lambda>c. c\<lparr>refcount := refcount c - 1\<rparr>)"
  have cnt: "uint (refcount (FT k f)) = int (refs k f) + use f" using D(4) [OF f(1,2)] .
  then have nz: "refcount (FT k f) \<noteq> 0" using f(3) by auto
  have u1: "uint (refcount (FT ?k1 f)) = int (refs k f) + use f - 1"
    using uint_pred [OF nz] cnt by simp
  have r1: "refs ?k1 g = refs k g" for g by (rule refs_cong) simp
  have inv1: "finv ?k1 ?use fs"
    using inv f r1 uint_pred [OF nz] by (auto simp: finv_def frep_def tables_ok_def)
  have z: "refcount (FT ?k1 f) = 0 \<longleftrightarrow> refs k f = 0 \<and> use f = 1"
  proof -
    have "refcount (FT ?k1 f) = 0 \<longleftrightarrow> uint (refcount (FT ?k1 f)) = 0" by (simp add: word_uint_eq_iff)
    then show ?thesis using u1 f(3) by auto
  qed
  show ?thesis
  proof (cases "refs k f = 0 \<and> use f = 1")
    case True
    then have "finv (release_FCB ?k1 f) ?use (fs @ [f])"
      using f r1 by (intro release_finv [OF inv1]) auto
    moreover have "FCB_decref k f = Some (Close (the (streamfunc (FT k f))) (the (streamobj (FT k f))),
        release_FCB ?k1 f)"
      using True z op by (auto simp: FCB_decref_def Let_def opened_def)
    ultimately show ?thesis using decref_same unfolding if_P [OF True] by blast
  next
    case False
    then have "FCB_decref k f = Some (0, ?k1)" using z by (auto simp: FCB_decref_def Let_def)
    then show ?thesis using inv1 decref_same unfolding if_not_P [OF False] by blast
  qed
qed

lemma acquire_finv:
  assumes inv: "finv k use (f # fs)"
  obtains k' where "acquire_FCB k = (Some f, k')" and "finv k' use fs" and "same_but_files k k'"
    and "refs k f = 0" and "f < MAX_FILES" and "f \<notin> set fs"
proof -
  note D = finvD [OF inv]
  obtain h where h: "acquire_FCB k = (Some f, upd_fcb (k\<lparr>fheap := h\<rparr>) f (\<lambda>c. c\<lparr>refcount := 0\<rparr>))"
    "frep (k\<lparr>fheap := h\<rparr>) fs" using acquire_FCB_cons [OF D(1)] by blast
  let ?k = "upd_fcb (k\<lparr>fheap := h\<rparr>) f (\<lambda>c. c\<lparr>refcount := 0\<rparr>)"
  have r: "refs ?k g = refs k g" for g by (rule refs_cong) simp
  have "f \<notin> set fs" using frep_distinct [OF D(1)] by simp
  moreover have "f < MAX_FILES" using D(1) by (simp add: frep_def)
  moreover have "refs k f = 0" "use f = 0" using D(3) [of f] by auto
  moreover have "finv ?k use fs"
    using inv h(2) calculation by (auto simp: finv_def r tables_ok_def frep_def)
  ultimately show ?thesis using that h(1) by (auto simp: same_but_files_def)
qed

section \<open>System calls keep the counts\<close>

text \<open>Between system calls: no FCB is lost, and every FCB in use is connected to a device.\<close>

definition stream_inv :: "kernel \<Rightarrow> (nat \<Rightarrow> int) \<Rightarrow> nat list \<Rightarrow> bool" where
  "stream_inv k use fs \<longleftrightarrow> finv k use fs \<and> (\<forall>f. 0 \<le> use f \<and> use f < 2 ^ 31) \<and>
     (\<forall>f < MAX_FILES. f \<notin> set fs \<longrightarrow> 0 < int (refs k f) + use f \<and> opened k f)"

lemma stream_invD:
  assumes "stream_inv k use fs"
  shows "finv k use fs" and "0 \<le> use f" and "use f < 2 ^ 31"
    and "f < MAX_FILES \<Longrightarrow> f \<notin> set fs \<Longrightarrow> 0 < int (refs k f) + use f"
    and "f < MAX_FILES \<Longrightarrow> f \<notin> set fs \<Longrightarrow> opened k f"
  using assms by (auto simp: stream_inv_def)

lemma same_but_files_refs [simp]: "same_but_files k k' \<Longrightarrow> refs k' f = refs k f"
  by (auto simp: same_but_files_def refs_def)

lemma same_but_files_opened [simp]: "same_but_files k k' \<Longrightarrow> opened k' f = opened k f"
  by (auto simp: same_but_files_def opened_def)

lemma descriptor_ok:
  assumes inv: "stream_inv k use fs" and p: "p < MAX_PROC" "i < MAX_FILEID"
    and f: "FIDT (PT k p) ! i = Some f"
  shows "f < MAX_FILES" and "f \<notin> set fs" and "0 < refs k f" and "opened k f"
proof -
  have t: "tables_ok k" using finvD(2) [OF stream_invD(1) [OF inv]] .
  then have m: "Some f \<in> set (FIDT (PT k p))"
    using p f nth_mem [of i "FIDT (PT k p)"] by (simp add: tables_ok_def)
  show lt: "f < MAX_FILES" using t m p by (auto simp: tables_ok_def)
  show r: "0 < refs k f" by (rule refs_pos [OF p(1) m])
  show nf: "f \<notin> set fs" using finvD(3) [OF stream_invD(1) [OF inv], of f] r by auto
  show "opened k f" by (rule stream_invD(5) [OF inv lt nf])
qed

lemma get_fcb_Some:
  "get_fcb k cur fd = Some f \<Longrightarrow> nat fd < MAX_FILEID \<and> 0 \<le> fd \<and> FIDT (PT k cur) ! nat fd = Some f"
  by (auto simp: get_fcb_def split: if_splits)

text \<open>Dropping a reference that the descriptors no longer account for.\<close>

lemma decref_stream_inv:
  assumes inv: "finv k (moved (Some f) 1 use) fs" and u: "\<And>g. 0 \<le> use g \<and> use g < 2 ^ 31"
    and others: "\<And>g. g < MAX_FILES \<Longrightarrow> g \<notin> set fs \<Longrightarrow> g \<noteq> f \<Longrightarrow> 0 < int (refs k g) + use g \<and> opened k g"
    and f: "f < MAX_FILES" "f \<notin> set fs" and op: "opened k f"
  shows "\<exists>r k' fs'. FCB_decref k f = Some (r, k') \<and> stream_inv k' use fs' \<and> same_but_files k k' \<and>
     (refs k f = 0 \<and> use f = 0 \<longrightarrow> fs' = fs @ [f]) \<and>
     (refs k f \<noteq> 0 \<or> use f \<noteq> 0 \<longrightarrow> fs' = fs \<and> r = 0)"
proof -
  have u1: "1 \<le> moved (Some f) 1 use f" using u [of f] by simp
  obtain r k' fs' where r: "FCB_decref k f = Some (r, k')" "finv k' use fs'" "same_but_files k k'"
    "if refs k f = 0 \<and> use f = 0 then fs' = fs @ [f] \<and> r = Close (the (streamfunc (FT k f))) (the (streamobj (FT k f)))
      else fs' = fs \<and> r = 0"
    using decref_finv [OF inv f u1 op] unfolding moved_simps(3) by (auto simp: moved_def)
  have "0 < int (refs k' g) + use g \<and> opened k' g" if g: "g < MAX_FILES" "g \<notin> set fs'" for g
  proof (cases "g = f")
    case True
    then have "\<not> (refs k f = 0 \<and> use f = 0)" using r(4) g(2) by auto
    then show ?thesis using True r(3) op u [of f] by auto
  next
    case False
    moreover have "g \<notin> set fs" using r(4) g(2) by (auto split: if_splits)
    ultimately show ?thesis using others [of g] g(1) r(3) by simp
  qed
  then have "stream_inv k' use fs'" using r(2) u by (simp add: stream_inv_def)
  then show ?thesis using r by (auto split: if_splits)
qed

lemma incref_simps [simp]:
  "PT (FCB_incref k f) = PT k" "fheap (FCB_incref k f) = fheap k" "devs (FCB_incref k f) = devs k"
  "monitor (FCB_incref k f) = monitor k" "pheap (FCB_incref k f) = pheap k"
  "pcb_freelist (FCB_incref k f) = pcb_freelist k" "process_count (FCB_incref k f) = process_count k"
  "streamobj (FT (FCB_incref k f) g) = streamobj (FT k g)"
  "streamfunc (FT (FCB_incref k f) g) = streamfunc (FT k g)"
  by (simp_all add: FCB_incref_def)

lemma incref_refs [simp]: "refs (FCB_incref k f) g = refs k g"
  by (rule refs_cong) simp

lemma incref_opened [simp]: "opened (FCB_incref k f) g = opened k g"
  by (simp add: opened_def)

lemma set_fid_simps [simp]:
  "FT (set_fid k p i v) = FT k" "fheap (set_fid k p i v) = fheap k" "devs (set_fid k p i v) = devs k"
  "monitor (set_fid k p i v) = monitor k" "pheap (set_fid k p i v) = pheap k"
  "pcb_freelist (set_fid k p i v) = pcb_freelist k" "process_count (set_fid k p i v) = process_count k"
  "PT (set_fid k p i v) = (PT k)(p := (PT k p)\<lparr>FIDT := (FIDT (PT k p))[i := v]\<rparr>)"
  by (simp_all add: set_fid_def)

lemma set_fid_opened [simp]: "opened (set_fid k p i v) g = opened k g"
  by (simp add: opened_def)

lemma close_stream_inv:
  assumes inv: "stream_inv k use fs" and p: "p < MAX_PROC" "i < MAX_FILEID"
    and f: "FIDT (PT k p) ! i = Some f"
  shows "\<exists>r k' fs'. FCB_decref (set_fid k p i None) f = Some (r, k') \<and> stream_inv k' use fs' \<and>
     same_but_files (set_fid k p i None) k'"
proof -
  note d = descriptor_ok [OF inv p f] and I = stream_invD [OF inv]
  let ?k = "set_fid k p i None"
  have "finv ?k (moved (Some f) 1 use) fs" using set_fid_finv [OF I(1) p f, of None] by simp
  moreover have "refs ?k g = refs k g" if "g \<noteq> f" for g
    using refs_set_fid [OF finvD(2) [OF I(1)] p, of None g] f that by simp
  ultimately show ?thesis
    using decref_stream_inv [of ?k f use fs] I d by (simp add: stream_inv_def) blast
qed

lemma sys_Close_spec:
  assumes inv: "stream_inv k use fs" and p: "cur < MAX_PROC"
  shows "\<exists>r k' fs'. sys_Close k cur fd = Some (r, k') \<and> stream_inv k' use fs' \<and>
     get_fcb k' cur fd = None \<and> (\<forall>fd'. fd' \<noteq> fd \<longrightarrow> get_fcb k' cur fd' = get_fcb k cur fd') \<and>
     (\<forall>q. q \<noteq> cur \<longrightarrow> FIDT (PT k' q) = FIDT (PT k q)) \<and>
     (get_fcb k cur fd = None \<longrightarrow> k' = k \<and> r = (if 0 \<le> fd \<and> fd < int MAX_FILEID then 0 else -1))"
proof (cases "get_fcb k cur fd")
  case None
  then show ?thesis using inv by (auto simp: sys_Close_def Let_def)
next
  case (Some f)
  note g = get_fcb_Some [OF Some]
  obtain r k' fs' where r: "FCB_decref (set_fid k cur (nat fd) None) f = Some (r, k')"
    "stream_inv k' use fs'" "same_but_files (set_fid k cur (nat fd) None) k'"
    using close_stream_inv [OF inv p, of "nat fd" f] g by blast
  have len: "length (FIDT (PT k cur)) = MAX_FILEID"
    using finvD(2) [OF stream_invD(1) [OF inv]] p by (simp add: tables_ok_def)
  have PT: "PT k' = PT (set_fid k cur (nat fd) None)" using r(3) by (simp add: same_but_files_def)
  have "get_fcb k' cur fd = None" using g len by (simp add: get_fcb_def PT)
  moreover have "get_fcb k' cur fd' = get_fcb k cur fd'" if "fd' \<noteq> fd" for fd'
    using g that by (auto simp: get_fcb_def PT nth_list_update)
  ultimately show ?thesis using r(1,2) Some PT by (auto simp: sys_Close_def Let_def)
qed

lemma opened_decref: "opened k f \<Longrightarrow> \<exists>r k'. FCB_decref k f = Some (r, k')"
  by (cases "refcount (FT k f) = 1") (auto simp: FCB_decref_def opened_def Let_def)

lemma decref_set_fid:
  "FCB_decref k f = Some (r, k') \<Longrightarrow> FCB_decref (set_fid k p i v) f = Some (r, set_fid k' p i v)"
  by (auto simp: FCB_decref_def Let_def release_FCB_def set_fid_def upd_pcb_def upd_fcb_def
      split: if_splits bind_splits)

lemma decref_incref:
  "FCB_decref k f = Some (r, k') \<Longrightarrow> f \<noteq> g \<Longrightarrow> FCB_decref (FCB_incref k g) f = Some (r, FCB_incref k' g)"
  by (auto simp: FCB_decref_def FCB_incref_def Let_def release_FCB_def upd_fcb_def fun_upd_twist
      split: if_splits bind_splits)

lemma incref_set_fid: "FCB_incref (set_fid k p i v) f = set_fid (FCB_incref k f) p i v"
  by (simp add: FCB_incref_def set_fid_def upd_fcb_def upd_pcb_def)

lemma dup_finv:
  assumes inv: "stream_inv k use fs" and p: "p < MAX_PROC" "i < MAX_FILEID" "j < MAX_FILEID"
    and old: "FIDT (PT k p) ! i = Some fo" and new: "FIDT (PT k p) ! j \<noteq> Some fo"
  shows "finv (FCB_incref (set_fid k p j (Some fo)) fo) (moved (FIDT (PT k p) ! j) 1 use) fs"
    and "refs k g \<le> refs (set_fid k p j (Some fo)) g \<or> FIDT (PT k p) ! j = Some g"
proof -
  note d = descriptor_ok [OF inv p(1,2) old] and I = stream_invD [OF inv]
  let ?u = "moved (FIDT (PT k p) ! j) 1 use"
  have "finv (set_fid k p j (Some fo)) (moved (Some fo) (-1) ?u) fs"
    using set_fid_finv [OF I(1) p(1,3) refl, of "Some fo"] d by simp
  moreover have "moved (Some fo) (-1) ?u fo < 2 ^ 31" using new I(3) [of fo] by (simp add: moved_def)
  ultimately have "finv (FCB_incref (set_fid k p j (Some fo)) fo) (moved (Some fo) 1 (moved (Some fo) (-1) ?u)) fs"
    using d by (intro incref_finv) auto
  then show "finv (FCB_incref (set_fid k p j (Some fo)) fo) ?u fs" unfolding moved_simps(4) .
  show "refs k g \<le> refs (set_fid k p j (Some fo)) g \<or> FIDT (PT k p) ! j = Some g"
    using refs_set_fid [OF finvD(2) [OF I(1)] p(1,3), of "Some fo" g] by (auto split: if_splits)
qed

lemma sys_Dup2_spec:
  assumes inv: "stream_inv k use fs" and p: "cur < MAX_PROC"
  shows "\<exists>r k' fs'. sys_Dup2 k cur oldfd newfd = Some (r, k') \<and> stream_inv k' use fs' \<and>
     (if get_fcb k cur oldfd \<noteq> None \<and> 0 \<le> newfd \<and> newfd < int MAX_FILEID
      then r = 0 \<and> get_fcb k' cur newfd = get_fcb k cur oldfd \<and>
           (\<forall>fd. fd \<noteq> newfd \<longrightarrow> get_fcb k' cur fd = get_fcb k cur fd)
      else r = -1 \<and> k' = k)"
proof (cases "get_fcb k cur oldfd \<noteq> None \<and> 0 \<le> newfd \<and> newfd < int MAX_FILEID")
  case False
  then have "sys_Dup2 k cur oldfd newfd = Some (-1, k)"
    by (auto simp: sys_Dup2_def get_fcb_def Let_def split: if_splits)
  then show ?thesis using inv unfolding if_not_P [OF False] by blast
next
  case True
  then obtain fo where fo: "get_fcb k cur oldfd = Some fo" and n: "0 \<le> newfd" "newfd < int MAX_FILEID"
    by auto
  note o = get_fcb_Some [OF fo] and I = stream_invD [OF inv]
  have n': "nat newfd < MAX_FILEID" using n by simp
  have gn: "get_fcb k cur newfd = FIDT (PT k cur) ! nat newfd" using n by (simp add: get_fcb_def)
  have rng: "\<not> (oldfd < 0 \<or> newfd < 0 \<or> oldfd \<ge> int MAX_FILEID \<or> newfd \<ge> int MAX_FILEID)"
    using o n by auto
  let ?k = "FCB_incref (set_fid k cur (nat newfd) (Some fo)) fo"
  have len: "length (FIDT (PT k cur)) = MAX_FILEID"
    using finvD(2) [OF I(1)] p by (simp add: tables_ok_def)
  have tab: "get_fcb k' cur newfd = get_fcb k cur oldfd \<and>
      (\<forall>fd. fd \<noteq> newfd \<longrightarrow> get_fcb k' cur fd = get_fcb k cur fd)"
    if "PT k' = PT (set_fid k cur (nat newfd) (Some fo))" for k'
    using n n' len fo that by (auto simp: get_fcb_def nth_list_update)
  show ?thesis
  proof (cases "get_fcb k cur newfd = Some fo")
    case same: True
    then have "sys_Dup2 k cur oldfd newfd = Some (0, k)" using rng fo by (simp add: sys_Dup2_def Let_def)
    then show ?thesis using inv same fo unfolding if_P [OF True] by auto
  next
    case diff: False
    then have ne: "FIDT (PT k cur) ! nat newfd \<noteq> Some fo" using gn by simp
    note dup = dup_finv [OF inv p _ n' _ ne, of "nat oldfd"]
    have fin: "finv ?k (moved (get_fcb k cur newfd) 1 use) fs" using dup(1) o gn by simp
    have le: "refs k g \<le> refs ?k g \<or> get_fcb k cur newfd = Some g" for g using dup(2) [of g] o gn by simp
    have "\<exists>k' fs'. sys_Dup2 k cur oldfd newfd = Some (0, k') \<and> stream_inv k' use fs' \<and>
        PT k' = PT (set_fid k cur (nat newfd) (Some fo))"
    proof (cases "get_fcb k cur newfd")
      case None
      have "0 < int (refs ?k g) + use g" if "g < MAX_FILES" "g \<notin> set fs" for g
        using I(4) [OF that] le [of g] None by simp
      then have "stream_inv ?k use fs"
        using fin I(2,3,5) unfolding stream_inv_def None moved_simps(1) by simp
      moreover have "sys_Dup2 k cur oldfd newfd = Some (0, ?k)"
        using rng fo None by (simp add: sys_Dup2_def Let_def incref_set_fid)
      ultimately show ?thesis by (metis incref_simps(1))
    next
      case (Some fn)
      then have fn: "fn \<noteq> fo" "FIDT (PT k cur) ! nat newfd = Some fn" using diff gn by auto
      note d = descriptor_ok [OF inv p n' fn(2)]
      have oth: "0 < int (refs ?k g) + use g \<and> opened ?k g"
        if "g < MAX_FILES" "g \<notin> set fs" "g \<noteq> fn" for g
        using I(4,5) [OF that(1,2)] le [of g] Some that(3) by auto
      obtain r k' fs' where r: "FCB_decref ?k fn = Some (r, k')" "stream_inv k' use fs'" "same_but_files ?k k'"
        using decref_stream_inv [OF fin [unfolded Some] _ oth d(1,2)] I(2,3) d(4) by auto
      obtain r0 k0 where k0: "FCB_decref k fn = Some (r0, k0)"
        using opened_decref [OF d(4)] by blast
      then have "FCB_decref ?k fn = Some (r0, FCB_incref (set_fid k0 cur (nat newfd) (Some fo)) fo)"
        by (intro decref_incref decref_set_fid fn(1))
      then have "sys_Dup2 k cur oldfd newfd = Some (0, k')"
        using rng fo Some fn(1) k0 r(1) by (simp add: sys_Dup2_def Let_def incref_set_fid)
      moreover have "PT k' = PT (set_fid k cur (nat newfd) (Some fo))"
        using r(3) by (simp add: same_but_files_def)
      ultimately show ?thesis using r(2) by blast
    qed
    then show ?thesis using tab unfolding if_P [OF True] by blast
  qed
qed

section \<open>Reserving and opening\<close>

lemma next_free_unfold:
  "f < MAX_FILEID \<and> t ! f \<noteq> None \<Longrightarrow> next_free t f = next_free t (f + 1)"
  "\<not> (f < MAX_FILEID \<and> t ! f \<noteq> None) \<Longrightarrow> next_free t f = f"
  by (subst next_free.simps, simp)+

lemma next_free_ge: "f \<le> next_free t f"
proof (induction t f rule: next_free.induct)
  case (1 t f)
  show ?case
    using "1.IH" next_free_unfold [of f t] by (cases "f < MAX_FILEID \<and> t ! f \<noteq> None") auto
qed

lemma next_free_spec:
  "f \<le> MAX_FILEID \<Longrightarrow> next_free t f \<le> MAX_FILEID \<and>
     (next_free t f < MAX_FILEID \<longrightarrow> t ! next_free t f = None) \<and>
     (\<forall>g. f \<le> g \<and> g < next_free t f \<longrightarrow> t ! g \<noteq> None)"
proof (induction t f rule: next_free.induct)
  case (1 t f)
  show ?case
  proof (cases "f < MAX_FILEID \<and> t ! f \<noteq> None")
    case True
    note e = next_free_unfold(1) [OF True]
    have "t ! g \<noteq> None" if "f \<le> g \<and> g < next_free t (f + 1)" for g
      using 1 True that by (cases "g = f") auto
    then show ?thesis unfolding e using 1 True by auto
  next
    case False
    then show ?thesis unfolding next_free_unfold(2) [OF False] using 1(2) by auto
  qed
qed

lemma find_fids_spec:
  "find_fids t num f = Some fids \<Longrightarrow> f \<le> MAX_FILEID \<Longrightarrow>
     length fids = num \<and> sorted_wrt (<) fids \<and>
     (\<forall>x \<in> set fids. f \<le> x \<and> x < MAX_FILEID \<and> t ! x = None)"
proof (induction num arbitrary: f fids)
  case 0
  then show ?case by simp
next
  case (Suc num)
  let ?g = "next_free t f"
  from Suc.prems obtain fids' where f: "?g \<noteq> MAX_FILEID" "find_fids t num (?g + 1) = Some fids'" "fids = ?g # fids'"
    by (auto simp: Let_def split: if_splits bind_splits)
  note g = next_free_spec [OF Suc.prems(2), of t] next_free_ge [of f t]
  have "?g + 1 \<le> MAX_FILEID" using g(1) f(1) by simp
  from Suc.IH [OF f(2) this] show ?case using f g by fastforce
qed

lemma find_fids_one:
  "find_fids t (Suc 0) 0 = (if \<forall>g < MAX_FILEID. t ! g \<noteq> None then None else Some [next_free t 0])"
proof -
  have n: "next_free t 0 \<le> MAX_FILEID" "next_free t 0 < MAX_FILEID \<Longrightarrow> t ! next_free t 0 = None"
    "\<And>g. g < next_free t 0 \<Longrightarrow> t ! g \<noteq> None"
    using next_free_spec [of 0 t] by auto
  then have "next_free t 0 = MAX_FILEID \<longleftrightarrow> (\<forall>g < MAX_FILEID. t ! g \<noteq> None)"
    by (metis le_neq_implies_less)
  then show ?thesis by (simp add: Let_def)
qed

lemma same_but_files_trans:
  "same_but_files k k1 \<Longrightarrow> same_but_files k1 k2 \<Longrightarrow> same_but_files k k2"
  by (simp add: same_but_files_def)

lemma same_but_files_refl [simp]: "same_but_files k k"
  by (simp add: same_but_files_def)

lemma acquire_FCBs_finv:
  "finv k use fs \<Longrightarrow>
   \<exists>k'. acquire_FCBs num got k = (num \<le> length fs, got @ take num fs, k') \<and>
     finv k' use (drop num fs) \<and> same_but_files k k'"
proof (induction num arbitrary: fs k got)
  case 0
  then show ?case by simp
next
  case (Suc num)
  show ?case
  proof (cases fs)
    case Nil
    then show ?thesis using Suc.prems acquire_FCB_nil [of k] finvD(1) [OF Suc.prems] by simp
  next
    case (Cons f fs')
    obtain k1 where k1: "acquire_FCB k = (Some f, k1)" "finv k1 use fs'" "same_but_files k k1"
      using acquire_finv [of k use f fs'] Suc.prems Cons by blast
    then show ?thesis using Suc.IH [OF k1(2), of "got @ [f]"] Cons same_but_files_trans by fastforce
  qed
qed

lemma release_finv_moved:
  assumes "finv k (moved (Some f) d use) fs" and "f < MAX_FILES" "f \<notin> set fs" and "refs k f = 0" "use f = 0"
  shows "finv (release_FCB k f) use (fs @ [f])"
proof -
  have "refs (release_FCB k f) g = refs k g" for g by (rule refs_cong) simp
  moreover have "tables_ok (release_FCB k f)" using finvD(2) [OF assms(1)] by (simp add: tables_ok_def)
  ultimately show ?thesis
    using assms release_FCB_frep [OF finvD(1) [OF assms(1)] assms(2,3)]
    by (auto simp: finv_def moved_def split: if_splits)
qed

lemma roll_back_finv:
  "finv k use fs \<Longrightarrow> distinct gs \<Longrightarrow> (\<And>g. g \<in> set gs \<Longrightarrow> g < MAX_FILES \<and> g \<notin> set fs \<and> refs k g = 0 \<and> use g = 0) \<Longrightarrow>
   finv (roll_back gs k) use (fs @ gs) \<and> same_but_files k (roll_back gs k)"
proof (induction gs arbitrary: k fs)
  case Nil
  then show ?case by simp
next
  case (Cons g gs)
  have f: "finv (release_FCB k g) use (fs @ [g])" using Cons.prems by (intro release_finv) auto
  have s: "same_but_files k (release_FCB k g)" by (simp add: same_but_files_def)
  have "finv (roll_back gs (release_FCB k g)) use ((fs @ [g]) @ gs) \<and>
      same_but_files (release_FCB k g) (roll_back gs (release_FCB k g))"
    using Cons.prems(2,3) s by (intro Cons.IH [OF f]) auto
  then show ?case using same_but_files_trans [OF s] by simp
qed

text \<open>A failed reservation releases what it had acquired; when it fails for want of FCBs, it
  leaves the free list reversed.\<close>

lemma FCB_reserve_fail:
  assumes inv: "finv k use fs" and fail: "find_fids (FIDT (PT k cur)) num 0 = None \<or> length fs < num"
  shows "\<exists>k' fs'. FCB_reserve num k cur = (None, k') \<and> finv k' use fs' \<and> same_but_files k k' \<and>
     (fs' = fs \<or> fs' = rev fs)"
proof (cases "find_fids (FIDT (PT k cur)) num 0")
  case None
  then show ?thesis using inv by (auto simp: FCB_reserve_def)
next
  case (Some fids)
  then have len: "length fs < num" using fail by simp
  obtain k1 where k1: "acquire_FCBs num [] k = (False, fs, k1)" "finv k1 use []" "same_but_files k k1"
    using acquire_FCBs_finv [OF inv, of num "[]"] len by auto
  have "finv (roll_back (rev fs) k1) use ([] @ rev fs) \<and> same_but_files k1 (roll_back (rev fs) k1)"
    using finvD(1,3) [OF inv] frep_distinct k1(3) by (intro roll_back_finv [OF k1(2)]) (auto simp: frep_def)
  then show ?thesis using Some k1 same_but_files_trans [OF k1(3)] by (auto simp: FCB_reserve_def)
qed

lemma link_fids_finv:
  "finv k use fs \<Longrightarrow> cur < MAX_PROC \<Longrightarrow> distinct (map fst ps) \<Longrightarrow>
   (\<And>i f. (i, f) \<in> set ps \<Longrightarrow> i < MAX_FILEID \<and> FIDT (PT k cur) ! i = None \<and>
      f < MAX_FILES \<and> f \<notin> set fs \<and> use f < 2 ^ 31) \<Longrightarrow>
   finv (link_fids cur ps k) use fs \<and>
   (\<forall>i. FIDT (PT (link_fids cur ps k) cur) ! i =
      (case map_of ps i of Some f \<Rightarrow> Some f | None \<Rightarrow> FIDT (PT k cur) ! i)) \<and>
   (\<forall>q. q \<noteq> cur \<longrightarrow> PT (link_fids cur ps k) q = PT k q) \<and>
   devs (link_fids cur ps k) = devs k \<and> (\<forall>g. opened (link_fids cur ps k) g = opened k g)"
proof (induction ps arbitrary: k)
  case Nil
  then show ?case by simp
next
  case (Cons p ps)
  obtain i f where p: "p = (i, f)" by force
  have i: "i < MAX_FILEID" "FIDT (PT k cur) ! i = None" "f < MAX_FILES" "f \<notin> set fs" "use f < 2 ^ 31"
    using Cons.prems(4) [of i f] p by auto
  let ?k = "FCB_incref (set_fid k cur i (Some f)) f"
  have "finv (set_fid k cur i (Some f)) (moved (Some f) (-1) use) fs"
    using set_fid_finv [OF Cons.prems(1,2) i(1,2), of "Some f"] i by simp
  then have "finv ?k (moved (Some f) 1 (moved (Some f) (-1) use)) fs"
    using i by (intro incref_finv) (auto simp: moved_def)
  then have fin: "finv ?k use fs" unfolding moved_simps(4) .
  have len: "i < length (FIDT (PT k cur))"
    using finvD(2) [OF Cons.prems(1)] Cons.prems(2) i(1) by (simp add: tables_ok_def)
  have ni: "i \<notin> fst ` set ps" using Cons.prems(3) p by simp
  have old: "FIDT (PT ?k cur) ! j = (if j = i then Some f else FIDT (PT k cur) ! j)" for j
    using len by (simp add: nth_list_update)
  have ih: "finv (link_fids cur ps ?k) use fs \<and>
   (\<forall>j. FIDT (PT (link_fids cur ps ?k) cur) ! j =
      (case map_of ps j of Some f \<Rightarrow> Some f | None \<Rightarrow> FIDT (PT ?k cur) ! j)) \<and>
   (\<forall>q. q \<noteq> cur \<longrightarrow> PT (link_fids cur ps ?k) q = PT ?k q) \<and>
   devs (link_fids cur ps ?k) = devs ?k \<and> (\<forall>g. opened (link_fids cur ps ?k) g = opened ?k g)"
  proof (rule Cons.IH [OF fin Cons.prems(2)])
    show "distinct (map fst ps)" using Cons.prems(3) by simp
    fix j g assume jg: "(j, g) \<in> set ps"
    then have "j \<noteq> i" using ni by force
    then show "j < MAX_FILEID \<and> FIDT (PT ?k cur) ! j = None \<and> g < MAX_FILES \<and> g \<notin> set fs \<and> use g < 2 ^ 31"
      using Cons.prems(4) [of j g] jg by (simp only: old) simp
  qed
  have "map_of ps i = None" using ni by (simp add: map_of_eq_None_iff)
  then show ?case using ih unfolding old by (auto simp: p split: option.splits)
qed

lemma FCB_reserve_success:
  assumes inv: "stream_inv k use fs" and p: "cur < MAX_PROC"
    and ok: "find_fids (FIDT (PT k cur)) num 0 = Some fids" "num \<le> length fs"
  shows "\<exists>k'. FCB_reserve num k cur = (Some (fids, take num fs), k') \<and> finv k' use (drop num fs) \<and>
     (\<forall>i. FIDT (PT k' cur) ! i = (case map_of (zip fids (take num fs)) i of
         Some f \<Rightarrow> Some f | None \<Rightarrow> FIDT (PT k cur) ! i)) \<and>
     (\<forall>q. q \<noteq> cur \<longrightarrow> PT k' q = PT k q) \<and> devs k' = devs k \<and> (\<forall>g. opened k' g = opened k g)"
proof -
  note I = stream_invD [OF inv]
  obtain k1 where k1: "acquire_FCBs num [] k = (True, take num fs, k1)" "finv k1 use (drop num fs)"
      "same_but_files k k1"
    using acquire_FCBs_finv [OF I(1), of num "[]"] ok(2) by auto
  note f = find_fids_spec [OF ok(1), simplified]
  have dfs: "distinct fs" using frep_distinct finvD(1) [OF I(1)] by blast
  have PT: "PT k1 = PT k" "devs k1 = devs k" using k1(3) by (simp_all add: same_but_files_def)
  let ?ps = "zip fids (take num fs)"
  have "map fst ?ps = fids" using f ok(2) by (simp add: map_fst_zip)
  then have di: "distinct (map fst ?ps)" using f strict_sorted_iff by metis
  have "i < MAX_FILEID \<and> FIDT (PT k1 cur) ! i = None \<and> g < MAX_FILES \<and> g \<notin> set (drop num fs) \<and> use g < 2 ^ 31"
    if "(i, g) \<in> set ?ps" for i g
  proof -
    have "i \<in> set fids" "g \<in> set (take num fs)" using that by (auto dest: set_zip_leftD set_zip_rightD)
    moreover have "g \<in> set fs" using calculation(2) in_set_takeD by fast
    moreover have "set (take num fs) \<inter> set (drop num fs) = {}" using dfs set_take_disj_set_drop_if_distinct [OF dfs, of num num] by simp
    ultimately show ?thesis using f I(3) [of g] finvD(1) [OF I(1)] by (auto simp: PT frep_def)
  qed
  from link_fids_finv [OF k1(2) p di this]
  show ?thesis using k1 ok unfolding PT by (auto simp: FCB_reserve_def)
qed

definition devices_ready :: "devices \<Rightarrow> bool" where
  "devices_ready d \<longleftrightarrow>
     (\<forall>minor. device_open d DEV_NULL minor =
        (if minor = 0 then Some (0, Some (NULL_obj, nulldev_fops)) else Some (-1, None))) \<and>
     (\<forall>minor. device_open d DEV_SERIAL minor =
        (if unat minor < serial_ports d then Some (0, Some (Serial_dcb (unat minor), serial_fops))
         else Some (-1, None)))"

lemma open_stream_spec:
  assumes inv: "stream_inv k use fs" and p: "cur < MAX_PROC"
    and dev: "device_open (devs k) major minor = Some (err, res)"
  shows "\<exists>r k' fs'. open_stream k cur major minor = Some (r, k') \<and> stream_inv k' use fs' \<and>
     (\<forall>q. q \<noteq> cur \<longrightarrow> PT k' q = PT k q) \<and>
     (if res \<noteq> None \<and> fs \<noteq> [] \<and> (\<exists>i < MAX_FILEID. FIDT (PT k cur) ! i = None)
      then r = int (next_free (FIDT (PT k cur)) 0) \<and> get_fcb k' cur r = Some (hd fs) \<and> fs' = tl fs \<and>
           streamobj (FT k' (hd fs)) = map_option fst res \<and> streamfunc (FT k' (hd fs)) = map_option snd res
      else r = NOFILE \<and> (\<forall>i. FIDT (PT k' cur) ! i = FIDT (PT k cur) ! i))"
proof (cases "fs \<noteq> [] \<and> (\<exists>i < MAX_FILEID. FIDT (PT k cur) ! i = None)")
  case False
  then have fl: "find_fids (FIDT (PT k cur)) 1 0 = None \<or> length fs < 1"
    by (auto simp: find_fids_one simp del: find_fids.simps)
  note I = stream_invD [OF inv]
  obtain k' fs' where k': "FCB_reserve 1 k cur = (None, k')" "finv k' use fs'" "same_but_files k k'"
    "fs' = fs \<or> fs' = rev fs" using FCB_reserve_fail [OF I(1) fl] by blast
  have "stream_inv k' use fs'" using k' I by (auto simp: stream_inv_def)
  moreover have "open_stream k cur major minor = Some (NOFILE, k')" using k'(1) by (simp add: open_stream_def)
  moreover have "PT k' = PT k" using k'(3) by (simp add: same_but_files_def)
  ultimately show ?thesis
    using False by (intro exI [of _ NOFILE] exI [of _ k'] exI [of _ fs']) auto
next
  case True
  note I = stream_invD [OF inv]
  obtain f fs1 where fs: "fs = f # fs1" using True by (cases fs) auto
  let ?t = "FIDT (PT k cur)" and ?i = "next_free (FIDT (PT k cur)) 0"
  have ff: "find_fids ?t 1 0 = Some [?i]"
    using True by (auto simp: find_fids_one simp del: find_fids.simps)
  have i: "?i < MAX_FILEID" "?t ! ?i = None" using find_fids_spec [OF ff] by auto
  obtain k1 where k1: "FCB_reserve 1 k cur = (Some ([?i], [f]), k1)" "finv k1 use fs1"
    "\<And>j. FIDT (PT k1 cur) ! j = (if j = ?i then Some f else ?t ! j)"
    "\<And>q. q \<noteq> cur \<Longrightarrow> PT k1 q = PT k q" "devs k1 = devs k" "\<And>g. opened k1 g = opened k g"
  proof -
    obtain k1 where k1: "FCB_reserve 1 k cur = (Some ([?i], [f]), k1)" "finv k1 use fs1"
      "\<forall>j. FIDT (PT k1 cur) ! j =
        (case map_of (zip [?i] [f]) j of Some g \<Rightarrow> Some g | None \<Rightarrow> ?t ! j)"
      "\<forall>q. q \<noteq> cur \<longrightarrow> PT k1 q = PT k q" "devs k1 = devs k" "\<forall>g. opened k1 g = opened k g"
      using FCB_reserve_success [OF inv p ff] fs by auto
    moreover have "FIDT (PT k1 cur) ! j = (if j = ?i then Some f else ?t ! j)" for j
      using k1(3) by simp
    ultimately show ?thesis using that by blast
  qed
  have nf: "f \<notin> set fs1" "f < MAX_FILES"
    using frep_distinct [of k fs] finvD(1) [OF I(1)] fs by (auto simp: frep_def)
  have ref: "refs k f = 0" "use f = 0" using finvD(3) [OF I(1), of f] fs by auto
  have t: "tables_ok k" "tables_ok k1" using finvD(2) I(1) k1(2) by blast+
  have len: "length ?t = MAX_FILEID" "length (FIDT (PT k1 cur)) = MAX_FILEID"
    using t p by (simp_all add: tables_ok_def)
  have "(FIDT (PT k1 cur))[?i := None] = ?t"
    using len k1(3) i by (intro nth_equalityI) (auto simp: nth_list_update)
  then have "FIDT (PT (set_fid k1 cur ?i None) q) = FIDT (PT k q)" for q
    using k1(4) by simp
  then have r0: "refs (set_fid k1 cur ?i None) g = refs k g" for g by (rule refs_cong)
  then have r1: "refs k1 g = refs k g + (if g = f then 1 else 0)" for g
    using refs_set_fid [OF t(2) p i(1), of None g] k1(3) [of ?i] by (simp split: if_splits)
  show ?thesis
  proof (cases res)
    case (Some oo)
    let ?k = "upd_fcb k1 f (\<lambda>c. c\<lparr>streamobj := Some (fst oo), streamfunc := Some (snd oo)\<rparr>)"
    have "finv ?k use fs1" by (rule finv_cong [OF k1(2)]) simp_all
    moreover have "refs ?k g = refs k1 g" for g by (rule refs_cong) simp
    moreover have "opened ?k g \<longleftrightarrow> g = f \<or> opened k g" for g
      using k1(6) [of g] by (auto simp: opened_def)
    ultimately have "stream_inv ?k use fs1" using I(2-5) r1 fs ref by (auto simp: stream_inv_def)
    moreover have "open_stream k cur major minor = Some (int ?i, ?k)"
      using k1(1,5) dev Some by (auto simp: open_stream_def split: prod.splits)
    ultimately show ?thesis using True Some fs i k1(3,4) by (auto simp: get_fcb_def)
  next
    case None
    let ?k = "release_FCB (set_fid k1 cur ?i None) f"
    have "finv (set_fid k1 cur ?i None) (moved (Some f) 1 use) fs1"
      using set_fid_finv [OF k1(2) p i(1), of "Some f" None] k1(3) [of ?i] by simp
    then have "finv ?k use (fs1 @ [f])" by (rule release_finv_moved) (use nf r0 ref in auto)
    moreover have "refs ?k g = refs k g" for g using r0 by (simp add: refs_def)
    moreover have "opened ?k g = opened k g" for g using k1(6) [of g] by (simp add: opened_def)
    ultimately have "stream_inv ?k use (fs1 @ [f])" using I(2-5) fs by (auto simp: stream_inv_def)
    moreover have "open_stream k cur major minor = Some (NOFILE, ?k)"
      using k1(1,5) dev None k1(3) [of ?i] by (simp add: open_stream_def)
    moreover have "FIDT (PT ?k cur) ! j = ?t ! j" for j
      using k1(3) [of j] i len by (cases "j = ?i") (auto simp: nth_list_update)
    ultimately show ?thesis using None k1(4) by auto
  qed
qed

section \<open>Reading and writing\<close>

declare moved_simps(2) [simp del]

lemma set_sched_inv [simp]: "stream_inv (set_sched k sc) use fs = stream_inv k use fs"
proof -
  have "refs (set_sched k sc) f = refs k f" for f by (rule refs_cong) simp
  moreover have "tables_ok (set_sched k sc) = tables_ok k" by (rule tables_cong) simp
  moreover have "frep (set_sched k sc) fs = frep k fs" by (rule frep_cong) simp
  ultimately show ?thesis by (simp add: stream_inv_def finv_def opened_def)
qed

lemma drop_reference:
  assumes inv: "stream_inv k use fs" and f: "f < MAX_FILES" "1 \<le> use f"
  shows "\<exists>r k' fs'. FCB_decref k f = Some (r, k') \<and> stream_inv k' (moved (Some f) (-1) use) fs' \<and>
     same_but_files k k' \<and> (0 < refs k f \<longrightarrow> fs' = fs)"
proof -
  note I = stream_invD [OF inv]
  have nf: "f \<notin> set fs" using finvD(3) [OF I(1), of f] f(2) by auto
  let ?u = "moved (Some f) (-1) use"
  have fin: "finv k (moved (Some f) 1 ?u) fs" using I(1) unfolding moved_simps(4) .
  have u: "0 \<le> ?u g \<and> ?u g < 2 ^ 31" for g using I(2,3) [of g] f(2) by (auto simp: moved_def)
  have "0 < int (refs k g) + ?u g \<and> opened k g" if "g < MAX_FILES" "g \<notin> set fs" "g \<noteq> f" for g
    using I(4,5) [OF that(1,2)] that(3) by (simp add: moved_def)
  from decref_stream_inv [OF fin u this f(1) nf I(5) [OF f(1) nf]] show ?thesis by blast
qed

lemma take_reference:
  assumes inv: "stream_inv k use fs" and f: "f < MAX_FILES" "f \<notin> set fs" "use f < 2 ^ 31 - 1"
  shows "stream_inv (FCB_incref k f) (moved (Some f) 1 use) fs"
proof -
  note I = stream_invD [OF inv]
  have "finv (FCB_incref k f) (moved (Some f) 1 use) fs" using f I(1) by (intro incref_finv) auto
  then show ?thesis using I(2-5) f(3) unfolding stream_inv_def
    by (auto simp: moved_def intro: add_nonneg_pos dest: add_pos_nonneg)
qed

lemma io_finish_spec:
  assumes inv: "stream_inv k use fs" and f: "f < MAX_FILES" "1 \<le> use f"
  shows "\<exists>r k' fs'. io_finish k f (res, sc) = Some (r, k') \<and>
     (case res of
        Block \<Rightarrow> r = Block \<and> stream_inv k' use fs
      | Done (n, buf) \<Rightarrow> r = Done (sint n, buf) \<and> stream_inv k' (moved (Some f) (-1) use) fs' \<and>
          (0 < refs k f \<longrightarrow> fs' = fs)) \<and> PT k' = PT k"
proof (cases res)
  case (Done nb)
  obtain n buf where nb: "nb = (n, buf)" by force
  have "stream_inv (set_sched k sc) use fs" using inv by simp
  from drop_reference [OF this f] obtain r k' fs' where
    d: "FCB_decref (set_sched k sc) f = Some (r, k')" "stream_inv k' (moved (Some f) (-1) use) fs'"
      "same_but_files (set_sched k sc) k'" "0 < refs (set_sched k sc) f \<longrightarrow> fs' = fs" by auto
  moreover have "refs (set_sched k sc) f = refs k f" by (rule refs_cong) simp
  ultimately show ?thesis using Done nb by (auto simp: io_finish_def same_but_files_def)
next
  case Block
  then show ?thesis using inv by (auto simp: io_finish_def)
qed

lemma sys_Read_spec:
  assumes inv: "stream_inv k use fs" and p: "cur < MAX_PROC" and f: "get_fcb k cur fd = Some f"
    and u: "use f < 2 ^ 31 - 1" and rd: "streamfunc (FT k f) = Some ops" "Read ops = Some rdf"
      "streamobj (FT k f) = Some obj" "rdf c (ksched (monitor k)) obj sz rx = (res, sc)"
  shows "\<exists>r k'. sys_Read k c cur fd sz rx = Some (r, k') \<and>
     (case res of
        Block \<Rightarrow> r = Block \<and> stream_inv k' (moved (Some f) 1 use) fs
      | Done (n, buf) \<Rightarrow> r = Done (sint n, buf) \<and> stream_inv k' use fs) \<and> PT k' = PT k"
proof -
  note g = get_fcb_Some [OF f]
  have d: "f < MAX_FILES" "f \<notin> set fs" "0 < refs k f"
    using descriptor_ok [OF inv p, of "nat fd" f] g by auto
  have inv1: "stream_inv (FCB_incref k f) (moved (Some f) 1 use) fs" by (rule take_reference [OF inv d(1,2) u])
  have u1: "1 \<le> moved (Some f) 1 use f" using stream_invD(2) [OF inv, of f] by (simp add: moved_def)
  obtain r k' fs' where r: "io_finish (FCB_incref k f) f (res, sc) = Some (r, k')"
     "case res of
        Block \<Rightarrow> r = Block \<and> stream_inv k' (moved (Some f) 1 use) fs
      | Done (n, buf) \<Rightarrow> r = Done (sint n, buf) \<and>
          stream_inv k' (moved (Some f) (-1) (moved (Some f) 1 use)) fs' \<and>
          (0 < refs (FCB_incref k f) f \<longrightarrow> fs' = fs)" "PT k' = PT (FCB_incref k f)"
    using io_finish_spec [OF inv1 d(1) u1, of res sc] by blast
  have "sys_Read k c cur fd sz rx = Some (r, k')" using f rd r(1) by (simp add: sys_Read_def)
  moreover have "case res of
        Block \<Rightarrow> r = Block \<and> stream_inv k' (moved (Some f) 1 use) fs
      | Done (n, buf) \<Rightarrow> r = Done (sint n, buf) \<and> stream_inv k' use fs"
    using r(2) d(3) unfolding moved_simps(3) by (auto split: io.splits)
  ultimately show ?thesis using r(3) by auto
qed

lemma sys_Write_spec:
  assumes inv: "stream_inv k use fs" and p: "cur < MAX_PROC" and f: "get_fcb k cur fd = Some f"
    and u: "use f < 2 ^ 31 - 1" and wr: "streamfunc (FT k f) = Some ops" "Write ops = Some wrf"
      "streamobj (FT k f) = Some obj" "wrf c (ksched (monitor k)) obj buf sz tx = (res, sc)"
  shows "\<exists>r k'. sys_Write k c cur fd buf sz tx = Some (r, k') \<and>
     (case res of
        Block \<Rightarrow> r = Block \<and> stream_inv k' (moved (Some f) 1 use) fs
      | Done (n, out) \<Rightarrow> r = Done (sint n, out) \<and> stream_inv k' use fs) \<and> PT k' = PT k"
proof -
  note g = get_fcb_Some [OF f]
  have d: "f < MAX_FILES" "f \<notin> set fs" "0 < refs k f"
    using descriptor_ok [OF inv p, of "nat fd" f] g by auto
  have inv1: "stream_inv (FCB_incref k f) (moved (Some f) 1 use) fs" by (rule take_reference [OF inv d(1,2) u])
  have u1: "1 \<le> moved (Some f) 1 use f" using stream_invD(2) [OF inv, of f] by (simp add: moved_def)
  obtain r k' fs' where r: "io_finish (FCB_incref k f) f (res, sc) = Some (r, k')"
     "case res of
        Block \<Rightarrow> r = Block \<and> stream_inv k' (moved (Some f) 1 use) fs
      | Done (n, buf) \<Rightarrow> r = Done (sint n, buf) \<and>
          stream_inv k' (moved (Some f) (-1) (moved (Some f) 1 use)) fs' \<and>
          (0 < refs (FCB_incref k f) f \<longrightarrow> fs' = fs)" "PT k' = PT (FCB_incref k f)"
    using io_finish_spec [OF inv1 d(1) u1, of res sc] by blast
  have "sys_Write k c cur fd buf sz tx = Some (r, k')" using f wr r(1) by (simp add: sys_Write_def)
  moreover have "case res of
        Block \<Rightarrow> r = Block \<and> stream_inv k' (moved (Some f) 1 use) fs
      | Done (n, out) \<Rightarrow> r = Done (sint n, out) \<and> stream_inv k' use fs"
    using r(2) d(3) unfolding moved_simps(3) by (auto split: io.splits)
  ultimately show ?thesis using r(3) by auto
qed

section \<open>Initialisation\<close>

definition frep_upto :: "kernel \<Rightarrow> nat \<Rightarrow> bool" where
  "frep_upto k n \<longleftrightarrow> layout (fheap k) {FCB_freelist} (\<lambda>_. map Freelist_node [0..<n]) {} \<and>
     rl_obj (fheap k) FCB_freelist = None \<and> (\<forall>f < n. rl_obj (fheap k) (Freelist_node f) = Some f)"

lemma init_fcbs_step:
  assumes "frep_upto k n"
  shows "frep_upto (init_fcbs [n] k) (Suc n)"
proof -
  let ?h = "rlnode_init (fheap k) (Freelist_node n) (Some n)"
  have "layout ?h {FCB_freelist} (\<lambda>_. map Freelist_node [0..<n]) {Freelist_node n}"
    using assms by (intro layout_init_node) (auto simp: frep_upto_def)
  from layout_single [OF rl.push_back [OF this, of FCB_freelist "Freelist_node n"]]
  have "layout (rlist_push_back ?h FCB_freelist (Freelist_node n)) {FCB_freelist}
      (\<lambda>_. map Freelist_node [0..<Suc n]) {}" by simp
  then show ?thesis using assms by (auto simp: frep_upto_def Let_def less_Suc_eq)
qed

lemma init_fcbs_append: "init_fcbs (is @ js) k = init_fcbs js (init_fcbs is k)"
  by (induction "is" arbitrary: k) (simp_all add: Let_def)

lemma init_fcbs_frep: "frep_upto k 0 \<Longrightarrow> frep_upto (init_fcbs [0..<n] k) n"
  by (induction n) (simp_all add: init_fcbs_append init_fcbs_step del: init_fcbs.simps(2))

lemma init_fcbs_PT: "PT (init_fcbs is k) = PT k"
  by (induction "is" arbitrary: k) (simp_all add: Let_def)

lemma initialize_files_inv:
  assumes "\<And>p. p < MAX_PROC \<Longrightarrow> FIDT (PT k p) = replicate MAX_FILEID None"
  shows "stream_inv (initialize_files k) (\<lambda>_. 0) [0..<MAX_FILES]"
proof -
  let ?k = "initialize_files k"
  have "layout (fheap k) {} (\<lambda>_. []) {}" by (simp add: layout_def)
  from layout_single [OF layout_init_sentinel [OF this, of FCB_freelist None]]
  have "frep_upto (k\<lparr>fheap := rlnode_init (fheap k) FCB_freelist None\<rparr>) 0"
    by (simp add: frep_upto_def)
  then have "frep_upto ?k MAX_FILES" unfolding initialize_files_def by (rule init_fcbs_frep)
  moreover have e: "Freelist_node ` ({..<MAX_FILES} - set [0..<MAX_FILES]) = {}" by auto
  ultimately have "frep ?k [0..<MAX_FILES]" unfolding frep_def e by (auto simp: frep_upto_def)
  moreover have PT: "PT ?k = PT k" by (simp add: initialize_files_def init_fcbs_PT)
  moreover have "tables_ok ?k" using assms by (simp add: tables_ok_def PT)
  moreover have "refs ?k f = 0" for f using assms by (simp add: refs_def PT count_list_0_iff)
  ultimately show ?thesis by (simp add: stream_inv_def finv_def)
qed

section \<open>Properties\<close>

definition ex_pcb :: PCB where
  "ex_pcb = \<lparr>pstate = FREE, parent = None, exitval = 0, main_thread = None, main_task = None,
     argl = 0, args = None, FIDT = replicate MAX_FILEID None\<rparr>"

definition ex_ready_devices :: devices where
  "ex_ready_devices = fst (initialize_devices 0 ex_devices ex_cvs (sch ex_ready))"

definition ex_kernel :: kernel where
  "ex_kernel = initialize_files \<lparr>PT = (\<lambda>_. ex_pcb), pcb_freelist = None, process_count = 0,
     pheap = \<lparr>rl_obj = (\<lambda>_. None), rl_prev = id, rl_next = id\<rparr>,
     FT = (\<lambda>_. \<lparr>refcount = 0, streamobj = None, streamfunc = None\<rparr>),
     fheap = \<lparr>rl_obj = (\<lambda>_. None), rl_prev = id, rl_next = id\<rparr>, devs = ex_ready_devices,
     monitor = \<lparr>kernel_sem = 1, ksched = sch ex_ready, kcvs = ex_cvs\<rparr>\<rparr>"

lemma ex_kernel_inv: "stream_inv ex_kernel (\<lambda>_. 0) [0..<MAX_FILES]"
  unfolding ex_kernel_def by (rule initialize_files_inv) (simp add: ex_pcb_def)

lemma init_fcbs_devs: "devs (init_fcbs is k) = devs k"
  by (induction "is" arbitrary: k) (simp_all add: Let_def)

lemma ex_kernel_simps: "devs ex_kernel = ex_ready_devices" "PT ex_kernel = (\<lambda>_. ex_pcb)"
  by (simp_all add: ex_kernel_def initialize_files_def init_fcbs_devs init_fcbs_PT)

lemma ex_device: "device_open (devs ex_kernel) DEV_NULL 0 = Some (0, Some (NULL_obj, nulldev_fops))"
proof -
  obtain d s sc where d: "initialize_devices 0 ex_devices ex_cvs (sch ex_ready) = (d, s, sc)"
    by (rule prod_cases3)
  have frame: "devtable (fst (init_serial is e s0)) = devtable e" for "is" e s0
    by (induction "is" arbitrary: e s0) auto
  have "devtable ex_ready_devices DEV_NULL = \<lparr>dtype = DEV_NULL, devnum = 1, dev_fops = nulldev_fops\<rparr>"
    by (simp add: ex_ready_devices_def initialize_devices_def Let_def frame split: prod.splits)
       (metis Device_type.distinct(1) frame fst_conv fun_upd_apply devices.select_convs(1)
          devices.surjective devices.update_convs(1))
  then show ?thesis by (simp add: device_open_def ex_kernel_simps nulldev_fops_def nulldev_open_def)
qed

text \<open>Process 1 has opened the null device, and a read is in progress.\<close>

definition ex_reading :: kernel where
  "ex_reading = FCB_incref (snd (the (open_stream ex_kernel 1 DEV_NULL 0))) 0"

lemma ex_open:
  "\<exists>r k' fs'. open_stream ex_kernel 1 DEV_NULL 0 = Some (r, k') \<and> stream_inv k' (\<lambda>_. 0) fs' \<and>
     get_fcb k' 1 r = Some 0"
proof -
  have "FIDT (PT ex_kernel 1) ! 0 = None" by (simp add: ex_kernel_simps ex_pcb_def MAX_FILEID_def)
  then have "[0..<MAX_FILES] \<noteq> [] \<and> (\<exists>i < MAX_FILEID. FIDT (PT ex_kernel 1) ! i = None)"
    by (auto simp: MAX_FILES_def MAX_PROC_def MAX_FILEID_def intro!: exI [of _ 0])
  moreover have "hd [0..<MAX_FILES] = 0" by (simp add: MAX_FILES_def MAX_PROC_def)
  ultimately show ?thesis
    using open_stream_spec [OF ex_kernel_inv _ ex_device, of 1] by (auto simp: MAX_PROC_def)
qed

lemma ex_reading_inv: "\<exists>fs. stream_inv ex_reading (moved (Some 0) 1 (\<lambda>_. 0)) fs"
proof -
  obtain r k' fs' where k': "open_stream ex_kernel 1 DEV_NULL 0 = Some (r, k')"
    "stream_inv k' (\<lambda>_. 0) fs'" "get_fcb k' 1 r = Some 0" using ex_open by blast
  have "0 < MAX_FILES \<and> 0 \<notin> set fs'"
    using descriptor_ok [OF k'(2), of 1 "nat r" 0] get_fcb_Some [OF k'(3)] by (auto simp: MAX_PROC_def)
  then have "stream_inv (FCB_incref k' 0) (moved (Some 0) 1 (\<lambda>_. 0)) fs'"
    by (intro take_reference [OF k'(2)]) auto
  then show ?thesis using k'(1) by (auto simp: ex_reading_def)
qed





text \<open>C21: \<open>sys_Dup2\<close> makes the new descriptor an alias of the old one and changes no other
  descriptor; it fails with -1 and changes nothing exactly when one of the two is illegal or the old one
  is closed. The stream that the new descriptor had is closed when that was its last reference.\<close>

theorem sys_Dup2_correct:
  assumes "stream_inv k use fs" and "cur < MAX_PROC"
  shows "\<exists>r k' fs'. sys_Dup2 k cur oldfd newfd = Some (r, k') \<and> stream_inv k' use fs' \<and>
     (if get_fcb k cur oldfd \<noteq> None \<and> 0 \<le> newfd \<and> newfd < int MAX_FILEID
      then r = 0 \<and> get_fcb k' cur newfd = get_fcb k cur oldfd \<and>
           (\<forall>fd. fd \<noteq> newfd \<longrightarrow> get_fcb k' cur fd = get_fcb k cur fd)
      else r = -1 \<and> k' = k)"
  by (rule sys_Dup2_spec [OF assms])

theorem sys_Dup2_correct_witness: "sys_Dup2 ex_kernel 1 2 20 = Some (-1, ex_kernel)"
  using sys_Dup2_correct [OF ex_kernel_inv, of 1 2 20] by (auto simp: MAX_PROC_def MAX_FILEID_def)

text \<open>While a read is blocked it holds a reference: whatever other calls do to the
  descriptors meanwhile, when the read continues and completes, the count is exact again, and
  the stream is released only if no descriptor and no other call refers to it.\<close>

lemma blocked_read_keeps_stream:
  assumes "stream_inv k use fs" and "f < MAX_FILES" and "1 \<le> use f"
  shows "f \<notin> set fs \<and> opened k f \<and>
     (\<exists>r k' fs'. sys_Read_again k c f sz rx = Some (r, k') \<and>
        (case r of
           Block \<Rightarrow> stream_inv k' use fs
         | Done (n, buf) \<Rightarrow> stream_inv k' (moved (Some f) (-1) use) fs' \<and> (0 < refs k f \<longrightarrow> fs' = fs)))"
proof -
  note I = stream_invD [OF assms(1)]
  have nf: "f \<notin> set fs" using finvD(3) [OF I(1), of f] assms(3) by auto
  have op: "opened k f" by (rule I(5) [OF assms(2) nf])
  then obtain obj ops where o: "streamobj (FT k f) = Some obj" "streamfunc (FT k f) = Some ops"
    by (auto simp: opened_def)
  obtain res sc where res: "Read_again ops c (ksched (monitor k)) obj sz rx = (res, sc)" by force
  have "sys_Read_again k c f sz rx = io_finish k f (res, sc)"
    using o res by (simp add: sys_Read_again_def)
  then show ?thesis
    using nf op io_finish_spec [OF assms, of res sc] by (fastforce split: io.splits)
qed

lemma blocked_read_keeps_stream_witness:
  "opened ex_reading 0 \<and> (\<exists>r k'. sys_Read_again ex_reading 0 0 5 [] = Some (r, k'))"
proof -
  obtain fs where "stream_inv ex_reading (moved (Some 0) 1 (\<lambda>_. 0)) fs" using ex_reading_inv by blast
  then show ?thesis
    using blocked_read_keeps_stream [of ex_reading "moved (Some 0) 1 (\<lambda>_. 0)" fs 0 0 5 "[]"]
    by (auto simp: moved_def MAX_FILES_def MAX_PROC_def)
qed

end
