(* ===== verification/Proc.thy ===== *)
theory Proc
  imports Streams
begin

text \<open>
  Processes, \<^verbatim>\<open>kernel_proc.c\<close>: the process table and its free list, \<open>Exec\<close>, \<open>Exit\<close> and
  \<open>WaitChild\<close>, and the lists of children and of exited children.

  A system call that waits for a child returns \<open>Block\<close>: the thread then sleeps in
  \<open>kernel_wait(child_exit)\<close> and continues with the loop, \<open>wait_specific_loop\<close> or \<open>wait_any_loop\<close>,
  when it runs again. A pid is an \<open>int\<close>.
\<close>

section \<open>The process table\<close>

definition get_pcb :: "kernel \<Rightarrow> nat \<Rightarrow> nat option" where
  "get_pcb k pid = (if pstate (PT k pid) = FREE then None else Some pid)"

definition get_pid :: "nat option \<Rightarrow> int" where
  "get_pid pcb = (case pcb of None \<Rightarrow> NOPROC | Some p \<Rightarrow> int p)"

definition initialize_PCB :: "kernel \<Rightarrow> nat \<Rightarrow> kernel" where
  "initialize_PCB k p =
     (let k1 = upd_pcb k p (\<lambda>b. b\<lparr>pstate := FREE, argl := 0, args := None,
                 FIDT := replicate MAX_FILEID None\<rparr>);
          h1 = rlnode_init (pheap k1) (Children_list p) None;
          h2 = rlnode_init h1 (Exited_list p) None;
          h3 = rlnode_init h2 (Children_node p) (Some p);
          h4 = rlnode_init h3 (Exited_node p) (Some p);
          mon = monitor k1;
          s = kcvs mon
      in k1\<lparr>pheap := h4,
            monitor := mon\<lparr>kcvs := s\<lparr>waitset := (waitset s)(child_exit p := None)\<rparr>\<rparr>\<rparr>)"

fun initialize_PCBs :: "nat list \<Rightarrow> kernel \<Rightarrow> kernel" where
  "initialize_PCBs [] k = k"
| "initialize_PCBs (p # ps) k = initialize_PCBs ps (initialize_PCB k p)"

text \<open>The loop from \<open>PT+MAX_PROC\<close> down to \<open>PT\<close>.\<close>

fun build_freelist :: "nat \<Rightarrow> kernel \<Rightarrow> kernel" where
  "build_freelist 0 k = k"
| "build_freelist (Suc p) k =
     (let k1 = upd_pcb k p (\<lambda>b. b\<lparr>parent := pcb_freelist k\<rparr>)
      in build_freelist p (k1\<lparr>pcb_freelist := Some p\<rparr>))"

definition acquire_PCB :: "kernel \<Rightarrow> nat option \<times> kernel" where
  "acquire_PCB k =
     (case pcb_freelist k of
        None \<Rightarrow> (None, k)
      | Some pcb \<Rightarrow>
          (let k1 = upd_pcb k pcb (\<lambda>b. b\<lparr>pstate := ALIVE\<rparr>);
               k2 = k1\<lparr>pcb_freelist := parent (PT k1 pcb)\<rparr>
           in (Some pcb, k2\<lparr>process_count := process_count k2 + 1\<rparr>)))"

definition release_PCB :: "kernel \<Rightarrow> nat \<Rightarrow> kernel" where
  "release_PCB k pcb =
     (let k1 = upd_pcb k pcb (\<lambda>b. b\<lparr>pstate := FREE, parent := pcb_freelist k\<rparr>)
      in k1\<lparr>pcb_freelist := Some pcb, process_count := process_count k1 - 1\<rparr>)"

section \<open>Creation\<close>

fun inherit_fids :: "nat list \<Rightarrow> nat \<Rightarrow> nat \<Rightarrow> kernel \<Rightarrow> kernel" where
  "inherit_fids [] cur newp k = k"
| "inherit_fids (i # is) cur newp k =
     (let v = FIDT (PT k cur) ! i;
          k1 = set_fid k newp i v
      in inherit_fids is cur newp (case v of Some f \<Rightarrow> FCB_incref k1 f | None \<Rightarrow> k1))"

text \<open>The address of \<open>start_main_thread\<close>. \<open>t\<close> is the block that \<open>allocate_thread\<close> returns.\<close>

definition start_main_thread_addr :: funptr where "start_main_thread_addr = 1"

definition exec_link :: "kernel \<Rightarrow> nat \<Rightarrow> nat \<Rightarrow> kernel" where
  "exec_link k cur newp =
     (if get_pid (Some newp) \<le> 1 then upd_pcb k newp (\<lambda>b. b\<lparr>parent := None\<rparr>)
      else
        (let k1 = upd_pcb k newp (\<lambda>b. b\<lparr>parent := Some cur\<rparr>);
             k2 = k1\<lparr>pheap := rlist_push_front (pheap k1) (Children_list cur) (Children_node newp)\<rparr>
         in inherit_fids [0..<MAX_FILEID] cur newp k2))"

definition exec_args :: "kernel \<Rightarrow> nat \<Rightarrow> funptr option \<Rightarrow> int \<Rightarrow> byte list option \<Rightarrow> kernel" where
  "exec_args k newp call al arg =
     upd_pcb k newp (\<lambda>b. b\<lparr>main_task := call, argl := al,
        args := (case arg of Some bs \<Rightarrow> Some (take (nat al) bs) | None \<Rightarrow> None)\<rparr>)"

definition sys_Exec ::
  "kernel \<Rightarrow> nat \<Rightarrow> nat \<Rightarrow> funptr option \<Rightarrow> int \<Rightarrow> byte list option \<Rightarrow> tcb_ref \<Rightarrow> (int \<times> kernel) option" where
  "sys_Exec k c cur call al arg t =
     (case acquire_PCB k of
        (None, k1) \<Rightarrow> Some (get_pid None, k1)
      | (Some newp, k1) \<Rightarrow>
          (let k2 = exec_args (exec_link k1 cur newp) newp call al arg
           in if call \<noteq> None then do {
                let sc = spawn_thread (ksched (monitor k2)) t (Some newp) start_main_thread_addr;
                let k3 = upd_pcb (set_sched k2 sc) newp (\<lambda>b. b\<lparr>main_thread := Some t\<rparr>);
                (sc', r) \<leftarrow> wakeup (ksched (monitor k3)) c t;
                Some (get_pid (Some newp), set_sched k3 sc')
              }
              else Some (get_pid (Some newp), k2)))"

definition initialize_processes :: "kernel \<Rightarrow> kernel option" where
  "initialize_processes k = do {
     let k1 = initialize_PCBs [0..<MAX_PROC] k;
     let k2 = build_freelist MAX_PROC (k1\<lparr>pcb_freelist := None\<rparr>);
     (pid, k3) \<leftarrow> sys_Exec (k2\<lparr>process_count := 0\<rparr>) 0 0 None 0 None (Thread 0);
     (if pid = 0 then Some k3 else None)
   }"

text \<open>\<open>start_main_thread\<close>: the task is user code; \<open>run\<close> is what it computes.\<close>

definition start_main_thread ::
  "(funptr \<Rightarrow> int \<Rightarrow> byte list option \<Rightarrow> 'r) \<Rightarrow> kernel \<Rightarrow> nat \<Rightarrow> 'r option" where
  "start_main_thread run k cur =
     map_option (\<lambda>call. run call (argl (PT k cur)) (args (PT k cur))) (main_task (PT k cur))"

definition sys_GetPid :: "nat option \<Rightarrow> int" where
  "sys_GetPid cur = get_pid cur"

definition sys_GetPPid :: "kernel \<Rightarrow> nat \<Rightarrow> int" where
  "sys_GetPPid k cur = get_pid (parent (PT k cur))"

section \<open>Waiting\<close>

text \<open>The second component is the value stored through \<open>status\<close>.\<close>

definition cleanup_zombie :: "kernel \<Rightarrow> nat \<Rightarrow> int \<times> kernel" where
  "cleanup_zombie k pcb =
     (let status = exitval (PT k pcb);
          h1 = fst (rlist_remove (pheap k) (Children_node pcb));
          h2 = fst (rlist_remove h1 (Exited_node pcb))
      in (status, release_PCB (k\<lparr>pheap := h2\<rparr>) pcb))"

definition wait_specific_loop :: "kernel \<Rightarrow> nat \<Rightarrow> int \<Rightarrow> (int \<times> int option) io \<times> kernel" where
  "wait_specific_loop k child cpid =
     (if pstate (PT k child) = ALIVE then (Block, k)
      else let (status, k1) = cleanup_zombie k child in (Done (cpid, Some status), k1))"

definition wait_for_specific_child :: "kernel \<Rightarrow> nat \<Rightarrow> int \<Rightarrow> (int \<times> int option) io \<times> kernel" where
  "wait_for_specific_child k cur cpid =
     (if cpid < 0 \<or> cpid \<ge> int MAX_PROC then (Done (NOPROC, None), k)
      else
        (case get_pcb k (nat cpid) of
           None \<Rightarrow> (Done (NOPROC, None), k)
         | Some child \<Rightarrow>
             if parent (PT k child) \<noteq> Some cur then (Done (NOPROC, None), k)
             else wait_specific_loop k child cpid))"

text \<open>\<open>None\<close>: the assertion that the child is a zombie fails, or the list holds no PCB.\<close>

definition wait_any_loop :: "kernel \<Rightarrow> nat \<Rightarrow> ((int \<times> int option) io \<times> kernel) option" where
  "wait_any_loop k cur =
     (if is_rlist_empty (pheap k) (Exited_list cur) then Some (Block, k)
      else do {
        child \<leftarrow> rl_obj (pheap k) (rl_next (pheap k) (Exited_list cur));
        (if pstate (PT k child) = ZOMBIE
         then let (status, k1) = cleanup_zombie k child
              in Some (Done (get_pid (Some child), Some status), k1)
         else None)
      })"

definition wait_for_any_child :: "kernel \<Rightarrow> nat \<Rightarrow> ((int \<times> int option) io \<times> kernel) option" where
  "wait_for_any_child k cur =
     (if is_rlist_empty (pheap k) (Children_list cur) then Some (Done (NOPROC, None), k)
      else wait_any_loop k cur)"

definition sys_WaitChild :: "kernel \<Rightarrow> nat \<Rightarrow> int \<Rightarrow> ((int \<times> int option) io \<times> kernel) option" where
  "sys_WaitChild k cur cpid =
     (if cpid \<noteq> NOPROC then Some (wait_for_specific_child k cur cpid) else wait_for_any_child k cur)"

section \<open>Exit\<close>

text \<open>The loop of the boot task: \<open>Done\<close> when it has no more children.\<close>

partial_function (option) init_reap :: "kernel \<Rightarrow> nat \<Rightarrow> (unit io \<times> kernel) option" where
  "init_reap k cur = do {
     (r, k1) \<leftarrow> sys_WaitChild k cur NOPROC;
     (case r of
        Block \<Rightarrow> Some (Block, k1)
      | Done (cpid, st) \<Rightarrow> if cpid \<noteq> NOPROC then init_reap k1 cur else Some (Done (), k1))
   }"

fun close_fids :: "nat list \<Rightarrow> nat \<Rightarrow> kernel \<Rightarrow> kernel option" where
  "close_fids [] cur k = Some k"
| "close_fids (i # is) cur k =
     (case FIDT (PT k cur) ! i of
        Some f \<Rightarrow> do {
          (r, k1) \<leftarrow> FCB_decref k f;
          close_fids is cur (set_fid k1 cur i None)
        }
      | None \<Rightarrow> close_fids is cur k)"

partial_function (option) reparent :: "kernel \<Rightarrow> nat \<Rightarrow> nat \<Rightarrow> kernel option" where
  "reparent k cur initpcb =
     (if \<not> is_rlist_empty (pheap k) (Children_list cur) then do {
        let (h, child) = rlist_pop_front (pheap k) (Children_list cur);
        p \<leftarrow> rl_obj h child;
        let k1 = upd_pcb (k\<lparr>pheap := h\<rparr>) p (\<lambda>b. b\<lparr>parent := Some initpcb\<rparr>);
        reparent (k1\<lparr>pheap := rlist_push_front (pheap k1) (Children_list initpcb) child\<rparr>) cur initpcb
      }
      else Some k)"

definition broadcast_exit :: "nat \<Rightarrow> nat \<Rightarrow> kernel \<Rightarrow> kernel option" where
  "broadcast_exit c p k = do {
     mon \<leftarrow> kernel_broadcast c (child_exit p) (monitor k);
     Some (k\<lparr>monitor := mon\<rparr>)
   }"

text \<open>\<open>sys_Exit\<close> behind the loop of the boot task, up to the switch to another thread. \<open>None\<close>:
  the process table has no process 1, or a step fails.\<close>

definition exit_lists :: "kernel \<Rightarrow> nat \<Rightarrow> nat \<Rightarrow> kernel option" where
  "exit_lists k c cur = do {
     initpcb \<leftarrow> get_pcb k 1;
     k1 \<leftarrow> reparent k cur initpcb;
     k2 \<leftarrow> (if \<not> is_rlist_empty (pheap k1) (Exited_list cur)
            then broadcast_exit c initpcb
                   (k1\<lparr>pheap := rlist_append (pheap k1) (Exited_list initpcb) (Exited_list cur)\<rparr>)
            else Some k1);
     (case parent (PT k2 cur) of
        Some par \<Rightarrow> broadcast_exit c par
          (k2\<lparr>pheap := rlist_push_front (pheap k2) (Exited_list par) (Exited_node cur)\<rparr>)
      | None \<Rightarrow> Some k2)
   }"

definition exit_rest :: "kernel \<Rightarrow> nat \<Rightarrow> nat \<Rightarrow> int \<Rightarrow> uint64 \<Rightarrow> kernel option" where
  "exit_rest k c cur ev curtime = do {
     let k1 = (if args (PT k cur) \<noteq> None then upd_pcb k cur (\<lambda>b. b\<lparr>args := None\<rparr>) else k);
     k2 \<leftarrow> close_fids [0..<MAX_FILEID] cur k1;
     k3 \<leftarrow> exit_lists k2 c cur;
     let k4 = upd_pcb k3 cur (\<lambda>b. b\<lparr>main_thread := None, pstate := ZOMBIE, exitval := ev\<rparr>);
     mon \<leftarrow> kernel_sleep c EXITED curtime (monitor k4);
     Some (k4\<lparr>monitor := mon\<rparr>)
   }"

definition sys_Exit :: "kernel \<Rightarrow> nat \<Rightarrow> nat \<Rightarrow> int \<Rightarrow> uint64 \<Rightarrow> (unit io \<times> kernel) option" where
  "sys_Exit k c cur ev curtime =
     (if sys_GetPid (Some cur) = 1 then do {
        (r, k1) \<leftarrow> init_reap k cur;
        (case r of
           Block \<Rightarrow> Some (Block, k1)
         | Done _ \<Rightarrow> do { k2 \<leftarrow> exit_rest k1 c cur ev curtime; Some (Done (), k2) })
      }
      else do { k2 \<leftarrow> exit_rest k c cur ev curtime; Some (Done (), k2) })"

definition sys_OpenInfo :: int where "sys_OpenInfo = NOFILE"

section \<open>The lists of children\<close>

fun plists :: "(nat \<Rightarrow> nat list) \<Rightarrow> (nat \<Rightarrow> nat list) \<Rightarrow> pnode \<Rightarrow> pnode list" where
  "plists cs es (Children_list p) = map Children_node (cs p)"
| "plists cs es (Exited_list p) = map Exited_node (es p)"
| "plists cs es _ = []"

definition psentinels :: "pnode set" where
  "psentinels = Children_list ` {..<MAX_PROC} \<union> Exited_list ` {..<MAX_PROC}"

definition listed :: "(nat \<Rightarrow> nat list) \<Rightarrow> nat set" where
  "listed cs = (\<Union>p<MAX_PROC. set (cs p))"

definition punlinked :: "(nat \<Rightarrow> nat list) \<Rightarrow> (nat \<Rightarrow> nat list) \<Rightarrow> pnode set" where
  "punlinked cs es = Children_node ` ({..<MAX_PROC} - listed cs) \<union> Exited_node ` ({..<MAX_PROC} - listed es)"

definition prep :: "(pnode, nat option) rlheap \<Rightarrow> (nat \<Rightarrow> nat list) \<Rightarrow> (nat \<Rightarrow> nat list) \<Rightarrow> bool" where
  "prep h cs es \<longleftrightarrow> layout h psentinels (plists cs es) (punlinked cs es) \<and>
     (\<forall>q < MAX_PROC. rl_obj h (Children_node q) = Some q \<and> rl_obj h (Exited_node q) = Some q) \<and>
     listed cs \<subseteq> {..<MAX_PROC} \<and> listed es \<subseteq> {..<MAX_PROC}"

lemma plists_upd [simp]:
  "(plists cs es)(Children_list p := map Children_node xs) = plists (cs(p := xs)) es"
  "(plists cs es)(Exited_list p := map Exited_node xs) = plists cs (es(p := xs))"
  by (rule ext; case_tac x; simp)+

lemma psentinels_mem [simp]:
  "p < MAX_PROC \<Longrightarrow> Children_list p \<in> psentinels" "p < MAX_PROC \<Longrightarrow> Exited_list p \<in> psentinels"
  by (auto simp: psentinels_def)

lemma prepD:
  assumes "prep h cs es"
  shows "layout h psentinels (plists cs es) (punlinked cs es)"
    and "q < MAX_PROC \<Longrightarrow> rl_obj h (Children_node q) = Some q"
    and "q < MAX_PROC \<Longrightarrow> rl_obj h (Exited_node q) = Some q"
    and "p < MAX_PROC \<Longrightarrow> q \<in> set (cs p) \<Longrightarrow> q < MAX_PROC"
    and "p < MAX_PROC \<Longrightarrow> q \<in> set (es p) \<Longrightarrow> q < MAX_PROC"
  using assms by (auto simp: prep_def listed_def)

lemma prep_unique:
  assumes "prep h cs es" and "p < MAX_PROC" "r < MAX_PROC"
  shows "q \<in> set (cs p) \<Longrightarrow> q \<in> set (cs r) \<Longrightarrow> p = r" and "q \<in> set (es p) \<Longrightarrow> q \<in> set (es r) \<Longrightarrow> p = r"
    and "distinct (cs p)" and "distinct (es p)"
proof -
  note l = prepD(1) [OF assms(1)]
  show "q \<in> set (cs p) \<Longrightarrow> q \<in> set (cs r) \<Longrightarrow> p = r"
    using layoutD(3) [OF l, of "Children_list p" "Children_list r"] assms(2,3) by auto
  show "q \<in> set (es p) \<Longrightarrow> q \<in> set (es r) \<Longrightarrow> p = r"
    using layoutD(3) [OF l, of "Exited_list p" "Exited_list r"] assms(2,3) by auto
  show "distinct (cs p)" using layout_distinct [OF l, of "Children_list p"] assms(2) by (auto simp: distinct_map)
  show "distinct (es p)" using layout_distinct [OF l, of "Exited_list p"] assms(2) by (auto simp: distinct_map)
qed

definition others :: "(nat \<Rightarrow> nat list) \<Rightarrow> nat \<Rightarrow> nat set" where
  "others cs p = (\<Union>r\<in>{..<MAX_PROC} - {p}. set (cs r))"

lemma others_upd [simp]: "others (cs(p := xs)) p = others cs p"
  by (simp add: others_def)

lemma listed_split: "p < MAX_PROC \<Longrightarrow> listed cs = set (cs p) \<union> others cs p"
  unfolding listed_def others_def by blast

lemma listed_upd: "p < MAX_PROC \<Longrightarrow> listed (cs(p := xs)) = set xs \<union> others cs p"
  using listed_split [of p "cs(p := xs)"] by simp

lemma listed_push: "p < MAX_PROC \<Longrightarrow> listed (cs(p := q # cs p)) = insert q (listed cs)"
  by (simp only: listed_upd listed_split [of p cs]) simp

lemma obj_more [simp]:
  "rl_obj (rlist_append h a b) = rl_obj h"
  by (simp add: rlist_append_def)

lemma prep_push_child:
  assumes "prep h cs es" and "p < MAX_PROC" and "q < MAX_PROC" and "q \<notin> listed cs"
  shows "prep (rlist_push_front h (Children_list p) (Children_node q)) (cs(p := q # cs p)) es"
proof -
  have "layout (rlist_push_front h (Children_list p) (Children_node q)) psentinels
      ((plists cs es)(Children_list p := Children_node q # plists cs es (Children_list p)))
      (punlinked cs es - {Children_node q})"
    using assms by (intro rl.push_front [OF prepD(1)]) (auto simp: punlinked_def)
  moreover have "Children_node q # plists cs es (Children_list p) = map Children_node (q # cs p)" by simp
  moreover have "punlinked cs es - {Children_node q} = punlinked (cs(p := q # cs p)) es"
    using assms(2) by (auto simp: punlinked_def listed_push)
  ultimately show ?thesis
    using assms by (simp only: prep_def plists_upd) (simp add: prep_def listed_push)
qed

lemma prep_push_exited:
  assumes "prep h cs es" and "p < MAX_PROC" and "q < MAX_PROC" and "q \<notin> listed es"
  shows "prep (rlist_push_front h (Exited_list p) (Exited_node q)) cs (es(p := q # es p))"
proof -
  have "layout (rlist_push_front h (Exited_list p) (Exited_node q)) psentinels
      ((plists cs es)(Exited_list p := Exited_node q # plists cs es (Exited_list p)))
      (punlinked cs es - {Exited_node q})"
    using assms by (intro rl.push_front [OF prepD(1)]) (auto simp: punlinked_def)
  moreover have "Exited_node q # plists cs es (Exited_list p) = map Exited_node (q # es p)" by simp
  moreover have "punlinked cs es - {Exited_node q} = punlinked cs (es(p := q # es p))"
    using assms(2) by (auto simp: punlinked_def listed_push)
  ultimately show ?thesis
    using assms by (simp only: prep_def plists_upd) (simp add: prep_def listed_push)
qed

lemma listed_remove:
  assumes "prep h cs es" and "p < MAX_PROC"
  shows "q \<in> set (cs p) \<Longrightarrow> listed (cs(p := remove1 q (cs p))) = listed cs - {q}"
    and "q \<in> set (es p) \<Longrightarrow> listed (es(p := remove1 q (es p))) = listed es - {q}"
proof -
  have "q \<notin> others cs p" if "q \<in> set (cs p)"
    using prep_unique(1) [OF assms _ that] by (auto simp: others_def)
  then show "q \<in> set (cs p) \<Longrightarrow> listed (cs(p := remove1 q (cs p))) = listed cs - {q}"
    using prep_unique(3) [OF assms assms(2)] assms(2)
    by (simp only: listed_upd listed_split [of p cs]) auto
  have "q \<notin> others es p" if "q \<in> set (es p)"
    using prep_unique(2) [OF assms _ that] by (auto simp: others_def)
  then show "q \<in> set (es p) \<Longrightarrow> listed (es(p := remove1 q (es p))) = listed es - {q}"
    using prep_unique(4) [OF assms assms(2)] assms(2)
    by (simp only: listed_upd listed_split [of p es]) auto
qed

lemma prep_remove_child:
  assumes "prep h cs es" and p: "p < MAX_PROC" and q: "q \<in> set (cs p)"
  shows "prep (fst (rlist_remove h (Children_node q))) (cs(p := remove1 q (cs p))) es"
proof -
  have qm: "q < MAX_PROC" using prepD(4) [OF assms(1) p q] .
  note l = listed_remove(1) [OF assms(1) p q]
  have "layout (fst (rlist_remove h (Children_node q))) psentinels
      ((plists cs es)(Children_list p := remove1 (Children_node q) (plists cs es (Children_list p))))
      (insert (Children_node q) (punlinked cs es))"
    using assms by (intro rl.remove [OF prepD(1)]) auto
  moreover have "remove1 (Children_node q) (plists cs es (Children_list p)) =
      map Children_node (remove1 q (cs p))" by (simp add: remove1_map_inj inj_def)
  moreover have "insert (Children_node q) (punlinked cs es) = punlinked (cs(p := remove1 q (cs p))) es"
    using qm by (auto simp: punlinked_def l)
  ultimately show ?thesis
    using assms(1) by (simp only: prep_def plists_upd) (auto simp: prep_def l)
qed

lemma prep_remove_exited:
  assumes "prep h cs es" and p: "p < MAX_PROC" and q: "q \<in> set (es p)"
  shows "prep (fst (rlist_remove h (Exited_node q))) cs (es(p := remove1 q (es p)))"
proof -
  have qm: "q < MAX_PROC" using prepD(5) [OF assms(1) p q] .
  note l = listed_remove(2) [OF assms(1) p q]
  have "layout (fst (rlist_remove h (Exited_node q))) psentinels
      ((plists cs es)(Exited_list p := remove1 (Exited_node q) (plists cs es (Exited_list p))))
      (insert (Exited_node q) (punlinked cs es))"
    using assms by (intro rl.remove [OF prepD(1)]) auto
  moreover have "remove1 (Exited_node q) (plists cs es (Exited_list p)) =
      map Exited_node (remove1 q (es p))" by (simp add: remove1_map_inj inj_def)
  moreover have "insert (Exited_node q) (punlinked cs es) = punlinked cs (es(p := remove1 q (es p)))"
    using qm by (auto simp: punlinked_def l)
  ultimately show ?thesis
    using assms(1) by (simp only: prep_def plists_upd) (auto simp: prep_def l)
qed

lemma prep_pop_child:
  assumes "prep h cs es" and p: "p < MAX_PROC" and q: "cs p = q # qs"
  shows "snd (rlist_pop_front h (Children_list p)) = Children_node q"
    and "prep (fst (rlist_pop_front h (Children_list p))) (cs(p := qs)) es"
proof -
  note lay = prepD(1) [OF assms(1)]
  show "snd (rlist_pop_front h (Children_list p)) = Children_node q"
    using rl.pop_front_node [OF lay, of "Children_list p"] p q by simp
  have qm: "q < MAX_PROC" using prepD(4) [OF assms(1) p] q by simp
  have l: "listed (cs(p := qs)) = listed cs - {q}"
    using listed_remove(1) [OF assms(1) p, of q] q by simp
  have "layout (fst (rlist_pop_front h (Children_list p))) psentinels
      ((plists cs es)(Children_list p := map Children_node qs)) (insert (Children_node q) (punlinked cs es))"
    using p q by (intro rl.pop_front [OF lay]) auto
  moreover have "insert (Children_node q) (punlinked cs es) = punlinked (cs(p := qs)) es"
    using qm by (auto simp: punlinked_def l)
  ultimately show "prep (fst (rlist_pop_front h (Children_list p))) (cs(p := qs)) es"
    using assms(1) by (simp only: prep_def plists_upd) (auto simp: prep_def l)
qed

lemma prep_append_exited:
  assumes "prep h cs es" and p: "p < MAX_PROC" "r < MAX_PROC" "p \<noteq> r"
  shows "prep (rlist_append h (Exited_list p) (Exited_list r)) cs (es(p := es p @ es r, r := []))"
proof -
  have "set (es p) \<subseteq> others es r"
    using p by (auto simp: others_def)
  moreover have "others (es(p := es p @ es r)) r = set (es p) \<union> set (es r) \<union> others es r"
    using p by (auto simp: others_def split: if_splits)
  ultimately have l: "listed (es(p := es p @ es r, r := [])) = listed es"
    using p(2) by (simp only: listed_upd listed_split [of r es]) auto
  have "layout (rlist_append h (Exited_list p) (Exited_list r)) psentinels
      ((plists cs es)(Exited_list p := map Exited_node (es p @ es r), Exited_list r := map Exited_node []))
      (punlinked cs es)"
    using layout_append [OF prepD(1) [OF assms(1)], of "Exited_list p" "Exited_list r"] p by simp
  moreover have "punlinked cs es = punlinked cs (es(p := es p @ es r, r := []))"
    by (simp only: punlinked_def l)
  ultimately show ?thesis
    using assms(1) by (simp only: prep_def plists_upd) (simp add: prep_def l del: fun_upd_apply)
qed

end
