(* ===== verification/Proc_Tree.thy ===== *)
theory Proc_Tree
  imports Proc
begin

text \<open>
  The process tree of \<^verbatim>\<open>kernel_proc.c\<close> and its invariant.

  The free list threads the unused PCBs through their \<open>parent\<close> fields. Every other PCB is in the
  list of children of its parent, and the zombies among them are in the list of exited children
  as well. \<open>pinv k cs es ps\<close> says so, with the children \<open>cs p\<close> and exited children \<open>es p\<close> of each
  process and the free PCBs \<open>ps\<close>. Exec, WaitChild and Exit keep it, together with the accounting
  of stream references \<open>stream_inv\<close>.
\<close>

section \<open>The free list\<close>

fun chain :: "kernel \<Rightarrow> nat option \<Rightarrow> nat list \<Rightarrow> bool" where
  "chain k a [] \<longleftrightarrow> a = None"
| "chain k a (p # ps) \<longleftrightarrow> a = Some p \<and> chain k (parent (PT k p)) ps"

definition ppool :: "kernel \<Rightarrow> nat list \<Rightarrow> bool" where
  "ppool k ps \<longleftrightarrow> chain k (pcb_freelist k) ps \<and> distinct ps \<and> set ps \<subseteq> {..<MAX_PROC}"

lemma chain_cong:
  "(\<And>p. p \<in> set ps \<Longrightarrow> parent (PT k' p) = parent (PT k p)) \<Longrightarrow> chain k' a ps = chain k a ps"
  by (induction ps arbitrary: a) auto

lemma acquire_PCB_Some:
  "pcb_freelist k = Some p \<Longrightarrow> acquire_PCB k =
     (Some p, k\<lparr>PT := (PT k)(p := (PT k p)\<lparr>pstate := ALIVE\<rparr>),
        pcb_freelist := parent (PT k p), process_count := process_count k + 1\<rparr>)"
  by (simp add: acquire_PCB_def upd_pcb_def)

lemma release_PCB_ppool:
  assumes "ppool k ps" and "r < MAX_PROC" and "r \<notin> set ps"
  shows "ppool (release_PCB k r) (r # ps)"
proof -
  have "chain (release_PCB k r) a ps = chain k a ps" for a
    using assms(3) by (intro chain_cong) (auto simp: release_PCB_def)
  then show ?thesis using assms by (simp add: ppool_def release_PCB_def)
qed

interpretation pcbs: resource_pool acquire_PCB release_PCB ppool "\<lambda>p. p < MAX_PROC"
proof
  show "ppool s [] \<Longrightarrow> acquire_PCB s = (None, s)" for s
    by (simp add: ppool_def acquire_PCB_def)
  show "ppool s (r # fs) \<Longrightarrow> fst (acquire_PCB s) = Some r" for s r fs
    by (simp add: ppool_def acquire_PCB_Some)
  show "ppool (snd (acquire_PCB s)) fs" if "ppool s (r # fs)" for s r fs
  proof -
    have "chain (snd (acquire_PCB s)) a fs = chain s a fs" for a
      using that by (intro chain_cong) (auto simp: ppool_def acquire_PCB_Some)
    then show ?thesis using that by (simp add: ppool_def acquire_PCB_Some)
  qed
  show "ppool s fs \<Longrightarrow> r < MAX_PROC \<Longrightarrow> r \<notin> set fs \<Longrightarrow>
      ppool (release_PCB s r) (r # fs) \<or> ppool (release_PCB s r) (fs @ [r])" for s fs r
    by (simp add: release_PCB_ppool)
  show "ppool s fs \<Longrightarrow> distinct fs" for s fs by (simp add: ppool_def)
  show "ppool s fs \<Longrightarrow> r \<in> set fs \<Longrightarrow> r < MAX_PROC" for s fs r by (auto simp: ppool_def)
qed

section \<open>The invariant\<close>

definition family :: "kernel \<Rightarrow> (nat \<Rightarrow> nat list) \<Rightarrow> (nat \<Rightarrow> nat list) \<Rightarrow> bool" where
  "family k cs es \<longleftrightarrow> (\<forall>p < MAX_PROC. \<forall>q < MAX_PROC.
     (q \<in> set (cs p) \<longleftrightarrow> pstate (PT k q) \<noteq> FREE \<and> parent (PT k q) = Some p) \<and>
     (q \<in> set (es p) \<longleftrightarrow> pstate (PT k q) = ZOMBIE \<and> parent (PT k q) = Some p))"

definition pcb_ok :: "kernel \<Rightarrow> nat \<Rightarrow> bool" where
  "pcb_ok k p \<longleftrightarrow>
     (pstate (PT k p) \<noteq> ALIVE \<longrightarrow> FIDT (PT k p) = replicate MAX_FILEID None) \<and>
     (pstate (PT k p) \<noteq> FREE \<longrightarrow> (parent (PT k p) = None \<longleftrightarrow> p \<le> 1) \<and>
        parent (PT k p) \<noteq> Some p \<and>
        (\<forall>r. parent (PT k p) = Some r \<longrightarrow> r < MAX_PROC \<and> pstate (PT k r) = ALIVE))"

lemma pcb_ok_mono:
  assumes "pcb_ok k p" and "PT k' p = PT k p"
    and "\<And>r. parent (PT k p) = Some r \<Longrightarrow> pstate (PT k p) \<noteq> FREE \<Longrightarrow> pstate (PT k r) = ALIVE \<Longrightarrow>
       pstate (PT k' r) = ALIVE"
  shows "pcb_ok k' p"
  using assms(1,3) unfolding pcb_ok_def assms(2) by blast

definition pinv :: "kernel \<Rightarrow> (nat \<Rightarrow> nat list) \<Rightarrow> (nat \<Rightarrow> nat list) \<Rightarrow> nat list \<Rightarrow> bool" where
  "pinv k cs es ps \<longleftrightarrow> prep (pheap k) cs es \<and> ppool k ps \<and>
     (\<forall>p < MAX_PROC. pstate (PT k p) = FREE \<longleftrightarrow> p \<in> set ps) \<and> family k cs es \<and>
     (\<forall>p < MAX_PROC. pcb_ok k p) \<and> process_count k = of_nat (MAX_PROC - length ps)"

lemma pinvD:
  assumes "pinv k cs es ps"
  shows "prep (pheap k) cs es" and "ppool k ps"
    and "p < MAX_PROC \<Longrightarrow> pstate (PT k p) = FREE \<longleftrightarrow> p \<in> set ps"
    and "p < MAX_PROC \<Longrightarrow> q < MAX_PROC \<Longrightarrow>
      q \<in> set (cs p) \<longleftrightarrow> pstate (PT k q) \<noteq> FREE \<and> parent (PT k q) = Some p"
    and "p < MAX_PROC \<Longrightarrow> q < MAX_PROC \<Longrightarrow>
      q \<in> set (es p) \<longleftrightarrow> pstate (PT k q) = ZOMBIE \<and> parent (PT k q) = Some p"
    and "p < MAX_PROC \<Longrightarrow> pcb_ok k p"
    and "process_count k = of_nat (MAX_PROC - length ps)"
  using assms by (auto simp: pinv_def family_def)

lemma pinv_length: "pinv k cs es ps \<Longrightarrow> length ps \<le> MAX_PROC"
proof -
  assume "pinv k cs es ps"
  then have "distinct ps" "set ps \<subseteq> {..<MAX_PROC}" by (auto simp: pinv_def ppool_def)
  then have "length ps = card (set ps)" "card (set ps) \<le> card {..<MAX_PROC}"
    by (simp add: distinct_card, intro card_mono) auto
  then show ?thesis by simp
qed

text \<open>A process that is not ALIVE has no children.\<close>

lemma pinv_childless:
  assumes "pinv k cs es ps" and "p < MAX_PROC" and "pstate (PT k p) \<noteq> ALIVE"
  shows "cs p = []" and "es p = []"
proof -
  have no: "\<not> (pstate (PT k q) \<noteq> FREE \<and> parent (PT k q) = Some p)" if "q < MAX_PROC" for q
    using pinvD(6) [OF assms(1) that] assms(3) by (auto simp: pcb_ok_def)
  have "q \<notin> set (cs p)" for q
  proof
    assume q: "q \<in> set (cs p)"
    then have "q < MAX_PROC" using prepD(4) [OF pinvD(1) [OF assms(1)] assms(2)] by blast
    then show False using q pinvD(4) [OF assms(1,2)] no by blast
  qed
  then show "cs p = []" by (metis last_in_set)
  have "q \<notin> set (es p)" for q
  proof
    assume q: "q \<in> set (es p)"
    then have m: "q < MAX_PROC" using prepD(5) [OF pinvD(1) [OF assms(1)] assms(2)] by blast
    then show False using iffD1 [OF pinvD(5) [OF assms(1,2) m] q] no [OF m] by simp
  qed
  then show "es p = []" by (metis last_in_set)
qed

lemma es_subset_cs:
  assumes "pinv k cs es ps" and "p < MAX_PROC"
  shows "set (es p) \<subseteq> set (cs p)"
proof
  fix q assume q: "q \<in> set (es p)"
  then have m: "q < MAX_PROC" using prepD(5) [OF pinvD(1) [OF assms(1)] assms(2)] by blast
  show "q \<in> set (cs p)"
    using iffD1 [OF pinvD(5) [OF assms m] q] pinvD(4) [OF assms m] by simp
qed

text \<open>Nothing that the accounting of streams depends on.\<close>

lemma stream_inv_cong:
  assumes "stream_inv k use fs" and "fheap k' = fheap k" and "\<And>p. FIDT (PT k' p) = FIDT (PT k p)"
    and "FT k' = FT k"
  shows "stream_inv k' use fs"
proof -
  have "finv k' use fs" using finv_cong [OF stream_invD(1) [OF assms(1)] assms(2,3)] assms(4) by simp
  moreover have "refs k' f = refs k f" for f by (rule refs_cong) (rule assms(3))
  moreover have "opened k' f = opened k f" for f using assms(4) by (simp add: opened_def)
  ultimately show ?thesis using assms(1) by (simp add: stream_inv_def)
qed

section \<open>Exec\<close>

text \<open>The loop that copies the file id table of the parent.\<close>

lemma inherit_one:
  assumes inv: "stream_inv k use fs" and p: "cur < MAX_PROC" "newp < MAX_PROC" "i < MAX_FILEID"
    and old: "FIDT (PT k newp) ! i = None" and v: "v = FIDT (PT k cur) ! i"
  shows "stream_inv (case v of Some f \<Rightarrow> FCB_incref (set_fid k newp i v) f | None \<Rightarrow> set_fid k newp i v) use fs"
proof -
  note I = stream_invD [OF inv]
  have t: "tables_ok k" using finvD(2) [OF I(1)] .
  show ?thesis
  proof (cases v)
    case None
    then have "(FIDT (PT k newp))[i := None] = FIDT (PT k newp)" by (metis list_update_id old)
    then have "stream_inv (set_fid k newp i v) use fs"
      using None by (intro stream_inv_cong [OF inv]) (auto simp: set_fid_def)
    then show ?thesis using None by simp
  next
    case (Some f)
    note d = descriptor_ok [OF inv p(1,3), of f]
    have vf: "FIDT (PT k cur) ! i = Some f" using v Some by simp
    let ?k = "set_fid k newp i (Some f)"
    have "finv ?k (moved (Some f) (-1) use) fs"
      using set_fid_finv [OF I(1) p(2,3) old, of "Some f"] d [OF vf] by simp
    then have "finv (FCB_incref ?k f) (moved (Some f) 1 (moved (Some f) (-1) use)) fs"
      using d(1,2) [OF vf] I(3) [of f] by (intro incref_finv) (auto simp: moved_def)
    moreover have "moved (Some f) 1 (moved (Some f) (-1) use) = use" by (auto simp: moved_def)
    moreover have "refs k g \<le> refs ?k g" for g using refs_set_fid [OF t p(2,3), of "Some f" g] old by simp
    ultimately show ?thesis using Some inv
      by (auto simp: stream_inv_def) (metis add_strict_increasing2 linorder_not_le of_nat_0_le_iff of_nat_le_iff order_less_le_trans add_right_mono)
  qed
qed

lemma inherit_fids_frame:
  "pheap (inherit_fids is cur newp k) = pheap k \<and> pcb_freelist (inherit_fids is cur newp k) = pcb_freelist k \<and>
   process_count (inherit_fids is cur newp k) = process_count k \<and>
   monitor (inherit_fids is cur newp k) = monitor k \<and> devs (inherit_fids is cur newp k) = devs k"
  by (induction "is" cur newp k rule: inherit_fids.induct) (auto split: option.splits simp: Let_def)

lemma inherit_fids_spec:
  assumes "stream_inv k use fs" and "cur < MAX_PROC" "newp < MAX_PROC" "cur \<noteq> newp"
    and "j \<le> MAX_FILEID" and "drop j (FIDT (PT k newp)) = replicate (MAX_FILEID - j) None"
  shows "stream_inv (inherit_fids [j..<MAX_FILEID] cur newp k) use fs \<and>
     PT (inherit_fids [j..<MAX_FILEID] cur newp k) =
       (PT k)(newp := (PT k newp)\<lparr>FIDT := take j (FIDT (PT k newp)) @ drop j (FIDT (PT k cur))\<rparr>)"
  using assms(5,1,6)
proof (induction j arbitrary: k rule: inc_induct)
  case base
  have "length (FIDT (PT k newp)) = MAX_FILEID" "length (FIDT (PT k cur)) = MAX_FILEID"
    using finvD(2) [OF stream_invD(1) [OF base(1)]] assms(2,3) by (auto simp: tables_ok_def)
  then show ?case using base by simp
next
  case (step j)
  define v where "v = FIDT (PT k cur) ! j"
  let ?k = "case v of Some f \<Rightarrow> FCB_incref (set_fid k newp j v) f | None \<Rightarrow> set_fid k newp j v"
  have len: "length (FIDT (PT k newp)) = MAX_FILEID" "length (FIDT (PT k cur)) = MAX_FILEID"
    using finvD(2) [OF stream_invD(1) [OF step(4)]] assms(2,3) by (auto simp: tables_ok_def)
  have old: "FIDT (PT k newp) ! j = None"
    using step(5) step(2) len by (metis Cons_nth_drop_Suc Suc_diff_Suc list.inject replicate_Suc)
  have "drop (Suc j) (FIDT (PT k newp)) = replicate (MAX_FILEID - Suc j) None"
    using step(5) step(2) by (metis drop_Suc drop_replicate tl_drop diff_Suc_eq_diff_pred drop_drop plus_1_eq_Suc diff_diff_left add.commute)
  then have d: "drop (Suc j) (FIDT (PT ?k newp)) = replicate (MAX_FILEID - Suc j) None"
    by (simp split: option.splits)
  have pt: "PT ?k = (PT k)(newp := (PT k newp)\<lparr>FIDT := (FIDT (PT k newp))[j := v]\<rparr>)"
    by (simp split: option.splits)
  have inv: "stream_inv ?k use fs"
    by (rule inherit_one [OF step(4) assms(2,3) step(2) old v_def])
  have tk: "take (Suc j) ((FIDT (PT k newp))[j := v]) @ drop (Suc j) (FIDT (PT k cur)) =
      take j (FIDT (PT k newp)) @ drop j (FIDT (PT k cur))"
    using len step(2) by (simp add: take_Suc_conv_app_nth Cons_nth_drop_Suc v_def)
  have "inherit_fids [j..<MAX_FILEID] cur newp k = inherit_fids [Suc j..<MAX_FILEID] cur newp ?k"
    using step(2) by (simp add: upt_conv_Cons Let_def flip: v_def)
  then show ?case using step(3) [OF inv d] tk assms(4) by (simp add: pt fun_eq_iff)
qed

lemma exec_link_spec:
  assumes inv: "stream_inv k use fs" and p: "cur < MAX_PROC" "newp < MAX_PROC" "cur \<noteq> newp"
    and none: "FIDT (PT k newp) = replicate MAX_FILEID None"
    and rep: "prep (pheap k) cs es" and fresh: "newp \<notin> listed cs"
  shows "stream_inv (exec_link k cur newp) use fs \<and>
     prep (pheap (exec_link k cur newp)) (if newp \<le> 1 then cs else cs(cur := newp # cs cur)) es \<and>
     PT (exec_link k cur newp) = (PT k)(newp := (PT k newp)\<lparr>
        parent := (if newp \<le> 1 then None else Some cur),
        FIDT := (if newp \<le> 1 then FIDT (PT k newp) else FIDT (PT k cur))\<rparr>) \<and>
     pcb_freelist (exec_link k cur newp) = pcb_freelist k \<and>
     process_count (exec_link k cur newp) = process_count k \<and>
     monitor (exec_link k cur newp) = monitor k"
proof (cases "newp \<le> 1")
  case True
  then have "exec_link k cur newp = upd_pcb k newp (\<lambda>b. b\<lparr>parent := None\<rparr>)"
    by (simp add: exec_link_def get_pid_def)
  moreover have "stream_inv (upd_pcb k newp (\<lambda>b. b\<lparr>parent := None\<rparr>)) use fs"
    by (rule stream_inv_cong [OF inv]) auto
  ultimately show ?thesis using True rep by simp
next
  case False
  let ?k1 = "upd_pcb k newp (\<lambda>b. b\<lparr>parent := Some cur\<rparr>)"
  let ?k2 = "?k1\<lparr>pheap := rlist_push_front (pheap ?k1) (Children_list cur) (Children_node newp)\<rparr>"
  have e: "exec_link k cur newp = inherit_fids [0..<MAX_FILEID] cur newp ?k2"
    using False by (simp add: exec_link_def get_pid_def)
  have "stream_inv ?k2 use fs" by (rule stream_inv_cong [OF inv]) auto
  then have "stream_inv (exec_link k cur newp) use fs \<and> PT (exec_link k cur newp) =
      (PT ?k2)(newp := (PT ?k2 newp)\<lparr>FIDT := FIDT (PT ?k2 cur)\<rparr>)"
    using inherit_fids_spec [of ?k2 use fs cur newp 0] p none unfolding e by simp
  moreover have "prep (pheap ?k2) (cs(cur := newp # cs cur)) es"
    using prep_push_child [OF rep p(1,2) fresh] by simp
  ultimately show ?thesis
    using False p(3) inherit_fids_frame [of "[0..<MAX_FILEID]" cur newp ?k2] unfolding e by simp
qed

lemma not_listed:
  assumes "pinv k cs es ps" and "q < MAX_PROC" and "pstate (PT k q) = FREE"
  shows "q \<notin> listed cs"
  using pinvD(4) [OF assms(1) _ assms(2)] assms(3) by (auto simp: listed_def)

lemma link_pinv:
  assumes inv: "pinv k cs es (newp # ps)" and cur: "cur < MAX_PROC" "pstate (PT k cur) = ALIVE"
    and pt: "PT k' = (PT k)(newp := b)" "pstate b = ALIVE"
      "parent b = (if newp \<le> 1 then None else Some cur)"
    and rep: "prep (pheap k') (if newp \<le> 1 then cs else cs(cur := newp # cs cur)) es"
    and pool: "pcb_freelist k' = parent (PT k newp)" "process_count k' = process_count k + 1"
  shows "pinv k' (if newp \<le> 1 then cs else cs(cur := newp # cs cur)) es ps"
proof -
  note I = pinvD [OF inv]
  have new: "newp < MAX_PROC" "newp \<notin> set ps" and ps: "set ps \<subseteq> {..<MAX_PROC}"
    using I(2) by (auto simp: ppool_def)
  have free: "pstate (PT k newp) = FREE" using I(3) [OF new(1)] by simp
  then have ne: "newp \<noteq> cur" using cur(2) by auto
  have "chain k' a ps = chain k a ps" for a using new(2) pt(1) by (intro chain_cong) auto
  then have "ppool k' ps" using I(2) pool(1) by (simp add: ppool_def)
  moreover have "\<forall>p < MAX_PROC. pstate (PT k' p) = FREE \<longleftrightarrow> p \<in> set ps"
    using I(3) new pt by auto
  moreover have "family k' (if newp \<le> 1 then cs else cs(cur := newp # cs cur)) es"
    using I(4,5) new free ne pt cur unfolding family_def by auto
  moreover have "\<forall>p < MAX_PROC. pcb_ok k' p"
  proof (intro allI impI)
    fix p assume p: "p < MAX_PROC"
    show "pcb_ok k' p"
    proof (cases "p = newp")
      case True
      then show ?thesis using cur pt ne by (auto simp: pcb_ok_def)
    next
      case False
      then have "pstate (PT k' r) = ALIVE" if "pstate (PT k r) = ALIVE" for r
        using that pt by auto
      then show ?thesis using False pt(1) by (intro pcb_ok_mono [OF I(6) [OF p]]) auto
    qed
  qed
  moreover have "process_count k' = of_nat (MAX_PROC - length ps)"
    using I(7) pool(2) pinv_length [OF inv]
    by (simp add: Suc_diff_Suc [symmetric] flip: of_nat_Suc) (simp add: Suc_diff_Suc)
  ultimately show ?thesis using rep by (simp add: pinv_def)
qed

lemma acquire_stream_inv:
  assumes "stream_inv k use fs" and "acquire_PCB k = (r, k')"
  shows "stream_inv k' use fs"
proof (cases "pcb_freelist k")
  case None
  then show ?thesis using assms by (simp add: acquire_PCB_def)
next
  case (Some p)
  then show ?thesis using assms(2) acquire_PCB_Some [OF Some]
    by (intro stream_inv_cong [OF assms(1)]) auto
qed

text \<open>The PCB of a new process.\<close>

definition new_pcb ::
  "kernel \<Rightarrow> nat \<Rightarrow> nat \<Rightarrow> funptr option \<Rightarrow> int \<Rightarrow> byte list option \<Rightarrow> tcb_ref \<Rightarrow> PCB" where
  "new_pcb k cur newp call al arg t = (PT k newp)\<lparr>pstate := ALIVE,
     parent := (if newp \<le> 1 then None else Some cur),
     main_thread := (if call = None then main_thread (PT k newp) else Some t), main_task := call,
     argl := al, args := map_option (take (nat al)) arg,
     FIDT := (if newp \<le> 1 then FIDT (PT k newp) else FIDT (PT k cur))\<rparr>"

lemma exec_prepare:
  assumes inv: "pinv k cs es (newp # ps)" and str: "stream_inv k use fs"
    and cur: "cur < MAX_PROC" "pstate (PT k cur) = ALIVE"
  shows "\<exists>k1. acquire_PCB k = (Some newp, k1) \<and>
     (\<forall>b. b = (new_pcb k cur newp call al arg t)\<lparr>main_thread := main_thread (PT k newp)\<rparr> \<longrightarrow>
     (let k2 = exec_args (exec_link k1 cur newp) newp call al arg;
          cs' = (if newp \<le> 1 then cs else cs(cur := newp # cs cur))
      in PT k2 = (PT k)(newp := b) \<and> stream_inv k2 use fs \<and> pinv k2 cs' es ps \<and> monitor k2 = monitor k))"
proof -
  note I = pinvD [OF inv]
  have new: "newp < MAX_PROC" using I(2) by (auto simp: ppool_def)
  have free: "pstate (PT k newp) = FREE" using I(3) [OF new] by simp
  have fl: "pcb_freelist k = Some newp" using I(2) by (auto simp: ppool_def)
  have none: "FIDT (PT k newp) = replicate MAX_FILEID None" using I(6) [OF new] free by (simp add: pcb_ok_def)
  have ne: "cur \<noteq> newp" using free cur(2) by auto
  obtain k1 where k1: "acquire_PCB k = (Some newp, k1)"
    "PT k1 = (PT k)(newp := (PT k newp)\<lparr>pstate := ALIVE\<rparr>)" "pcb_freelist k1 = parent (PT k newp)"
    "process_count k1 = process_count k + 1" "pheap k1 = pheap k" "monitor k1 = monitor k"
    using acquire_PCB_Some [OF fl] by simp
  have s1: "stream_inv k1 use fs" by (rule acquire_stream_inv [OF str k1(1)])
  define cs' where "cs' = (if newp \<le> 1 then cs else cs(cur := newp # cs cur))"
  define k2 where "k2 = exec_args (exec_link k1 cur newp) newp call al arg"
  define b where "b = (new_pcb k cur newp call al arg t)\<lparr>main_thread := main_thread (PT k newp)\<rparr>"
  note L = exec_link_spec [OF s1 cur(1) new ne, of cs es, folded cs'_def]
  have L: "stream_inv (exec_link k1 cur newp) use fs" "prep (pheap (exec_link k1 cur newp)) cs' es"
    "PT (exec_link k1 cur newp) = (PT k1)(newp := (PT k1 newp)\<lparr>
        parent := (if newp \<le> 1 then None else Some cur),
        FIDT := (if newp \<le> 1 then FIDT (PT k1 newp) else FIDT (PT k1 cur))\<rparr>)"
    "pcb_freelist (exec_link k1 cur newp) = pcb_freelist k1"
    "process_count (exec_link k1 cur newp) = process_count k1"
    "monitor (exec_link k1 cur newp) = monitor k1"
    using L none k1 I(1) not_listed [OF inv new free] by (simp_all del: One_nat_def)
  have pt: "PT k2 = (PT k)(newp := b)"
    using ne by (auto simp: k2_def exec_args_def L(3) k1(2) b_def new_pcb_def fun_eq_iff split: option.splits)
  have "stream_inv k2 use fs" unfolding k2_def exec_args_def
    by (rule stream_inv_cong [OF L(1)]) auto
  moreover have "pinv k2 cs' es ps" unfolding cs'_def
    by (rule link_pinv [OF inv cur pt])
       (use L k1 in \<open>auto simp: b_def new_pcb_def k2_def exec_args_def cs'_def\<close>)
  moreover have "monitor k2 = monitor k" using L(6) k1(6) by (simp add: k2_def exec_args_def)
  ultimately show ?thesis
    using k1(1) pt by (auto simp: b_def k2_def cs'_def Let_def simp del: One_nat_def fun_upd_apply)
qed

lemma pinv_cong:
  assumes "pinv k cs es ps" and "pheap k' = pheap k" and "pcb_freelist k' = pcb_freelist k"
    and "process_count k' = process_count k"
    and "\<And>p. pstate (PT k' p) = pstate (PT k p) \<and> parent (PT k' p) = parent (PT k p) \<and>
       FIDT (PT k' p) = FIDT (PT k p)"
  shows "pinv k' cs es ps"
proof -
  have "chain k' a ps = chain k a ps" for a by (rule chain_cong) (simp add: assms(5))
  then have "ppool k' ps = ppool k ps" by (simp add: ppool_def assms(3))
  moreover have "family k' cs es = family k cs es" by (simp add: family_def assms(5))
  moreover have "pcb_ok k' p = pcb_ok k p" for p by (simp add: pcb_ok_def assms(5))
  ultimately show ?thesis using assms(1) by (simp add: pinv_def assms(2,4,5))
qed

lemma spawn_wakeup:
  assumes "sinv m" and "\<not> live (sch m) (Thread j)"
  shows "\<exists>sc'. wakeup (spawn_thread (sch m) (Thread j) pcb f) c (Thread j) = Some (sc', True) \<and>
     live sc' = (live (sch m))(Thread j := True) \<and> state (tcb sc' (Thread j)) = READY"
proof -
  obtain q w where "sinv_qw m q w" using assms(1) by (auto simp: sinv_def)
  from spawn_sinv [OF this assms(2), where pcb = pcb and f = f and yp = "ypre m" and sp = "spre m"]
  have "sinv (m\<lparr>sch := spawn_thread (sch m) (Thread j) pcb f\<rparr>)" by (auto simp: sinv_def)
  moreover have "live (spawn_thread (sch m) (Thread j) pcb f) = (live (sch m))(Thread j := True)"
    "state (tcb (spawn_thread (sch m) (Thread j) pcb f) (Thread j)) = INIT"
    by (simp_all add: spawn_thread_def Let_def fun_eq_iff)
  ultimately show ?thesis
    using wakeup_effect_sched [of "m\<lparr>sch := spawn_thread (sch m) (Thread j) pcb f\<rparr>" "Thread j" c]
    by (auto simp: blocked_def)
qed

lemma sys_Exec_Some:
  assumes inv: "pinv k cs es (newp # ps)" and str: "stream_inv k use fs"
    and cur: "cur < MAX_PROC" "pstate (PT k cur) = ALIVE"
    and m: "sinv m" "sch m = ksched (monitor k)" "call \<noteq> None \<Longrightarrow> \<not> live (sch m) (Thread j)"
  shows "\<exists>k'. sys_Exec k c cur call al arg (Thread j) = Some (int newp, k') \<and>
     pinv k' (if newp \<le> 1 then cs else cs(cur := newp # cs cur)) es ps \<and> stream_inv k' use fs \<and>
     PT k' = (PT k)(newp := new_pcb k cur newp call al arg (Thread j)) \<and>
     (if call = None then monitor k' = monitor k
      else state (tcb (ksched (monitor k')) (Thread j)) = READY)"
proof -
  define b where "b = (new_pcb k cur newp call al arg (Thread j))\<lparr>main_thread := main_thread (PT k newp)\<rparr>"
  obtain k1 k2 where k: "acquire_PCB k = (Some newp, k1)"
    "k2 = exec_args (exec_link k1 cur newp) newp call al arg" "PT k2 = (PT k)(newp := b)"
    "stream_inv k2 use fs" "pinv k2 (if newp \<le> 1 then cs else cs(cur := newp # cs cur)) es ps"
    "monitor k2 = monitor k"
    using exec_prepare [OF inv str cur, of call al arg "Thread j"]
    by (auto simp: Let_def b_def simp del: fun_upd_apply One_nat_def)
  show ?thesis
  proof (cases call)
    case None
    then have "b = new_pcb k cur newp call al arg (Thread j)" by (simp add: b_def new_pcb_def)
    then show ?thesis using k None by (simp add: sys_Exec_def get_pid_def Let_def del: fun_upd_apply)
  next
    case (Some f)
    let ?sc = "spawn_thread (sch m) (Thread j) (Some newp) start_main_thread_addr"
    let ?k3 = "upd_pcb (set_sched k2 ?sc) newp (\<lambda>b. b\<lparr>main_thread := Some (Thread j)\<rparr>)"
    obtain sc' where sc': "wakeup ?sc c (Thread j) = Some (sc', True)" "state (tcb sc' (Thread j)) = READY"
      using spawn_wakeup [OF m(1) m(3)] Some by blast
    have "sys_Exec k c cur call al arg (Thread j) = Some (int newp, set_sched ?k3 sc')"
      using k(1,2) Some sc'(1) k(6) m(2) by (simp add: sys_Exec_def get_pid_def Let_def set_sched_def)
    moreover have "pinv (set_sched ?k3 sc') (if newp \<le> 1 then cs else cs(cur := newp # cs cur)) es ps"
      by (rule pinv_cong [OF k(5)]) auto
    moreover have "stream_inv (set_sched ?k3 sc') use fs"
      by (rule stream_inv_cong [OF k(4)]) auto
    moreover have "b\<lparr>main_thread := Some (Thread j)\<rparr> = new_pcb k cur newp call al arg (Thread j)"
      using Some by (cases "PT k newp") (simp add: b_def new_pcb_def)
    then have "PT (set_sched ?k3 sc') = (PT k)(newp := new_pcb k cur newp call al arg (Thread j))"
      by (simp add: k(3))
    moreover have "ksched (monitor (set_sched ?k3 sc')) = sc'" by (simp add: set_sched_def)
    ultimately show ?thesis using sc'(2) Some by (auto simp del: fun_upd_apply)
  qed
qed

section \<open>Reaping a zombie\<close>

lemma cleanup_zombie_pinv:
  assumes inv: "pinv k cs es ps" and p: "p < MAX_PROC" and q: "q \<in> set (es p)"
  shows "fst (cleanup_zombie k q) = exitval (PT k q) \<and>
     pinv (snd (cleanup_zombie k q)) (cs(p := remove1 q (cs p))) (es(p := remove1 q (es p))) (q # ps) \<and>
     PT (snd (cleanup_zombie k q)) =
       (PT k)(q := (PT k q)\<lparr>pstate := FREE, parent := pcb_freelist k\<rparr>) \<and>
     FT (snd (cleanup_zombie k q)) = FT k \<and> fheap (snd (cleanup_zombie k q)) = fheap k \<and>
     monitor (snd (cleanup_zombie k q)) = monitor k"
proof -
  note I = pinvD [OF inv]
  define h1 where "h1 = fst (rlist_remove (pheap k) (Children_node q))"
  define h2 where "h2 = fst (rlist_remove h1 (Exited_node q))"
  define k1 where "k1 = k\<lparr>pheap := h2\<rparr>"
  define k' where "k' = release_PCB k1 q"
  have e: "cleanup_zombie k q = (exitval (PT k q), k')"
    by (simp add: cleanup_zombie_def k'_def k1_def h2_def h1_def)
  have qc: "q \<in> set (cs p)" using es_subset_cs [OF inv p] q by blast
  have qm: "q < MAX_PROC" using prepD(5) [OF I(1) p q] .
  have z: "pstate (PT k q) = ZOMBIE" "parent (PT k q) = Some p" using iffD1 [OF I(5) [OF p qm] q] by auto
  have "prep h1 (cs(p := remove1 q (cs p))) es" unfolding h1_def by (rule prep_remove_child [OF I(1) p qc])
  then have rep: "prep h2 (cs(p := remove1 q (cs p))) (es(p := remove1 q (es p)))"
    unfolding h2_def by (rule prep_remove_exited) (simp_all add: p q)
  have pt: "PT k' = (PT k)(q := (PT k q)\<lparr>pstate := FREE, parent := pcb_freelist k\<rparr>)"
    by (simp add: k'_def release_PCB_def k1_def)
  have nq: "q \<notin> set ps" using I(3) [OF qm] z by simp
  have "chain k1 a ps = chain k a ps" for a by (rule chain_cong) (simp add: k1_def)
  then have "ppool k1 ps" using I(2) by (simp add: ppool_def k1_def)
  then have "ppool k' (q # ps)" unfolding k'_def by (rule release_PCB_ppool [OF _ qm nq])
  moreover have "\<forall>r < MAX_PROC. pstate (PT k' r) = FREE \<longleftrightarrow> r \<in> set (q # ps)"
    using I(3) by (auto simp: pt)
  moreover have "family k' (cs(p := remove1 q (cs p))) (es(p := remove1 q (es p)))"
    using I(4,5) prep_unique(3,4) [OF I(1) p p] z p unfolding family_def pt by auto
  moreover have "pcb_ok k' r" if "r < MAX_PROC" for r
  proof -
    have "parent (PT k s) \<noteq> Some q" if "s < MAX_PROC" "pstate (PT k s) \<noteq> FREE" for s
      using I(6) [OF that(1)] that(2) z by (auto simp: pcb_ok_def)
    then have "r \<noteq> q \<Longrightarrow> pcb_ok k' r"
      using that by (intro pcb_ok_mono [OF I(6) [OF that]]) (auto simp: pt)
    moreover have "pcb_ok k' q" using I(6) [OF qm] z by (simp add: pcb_ok_def pt)
    ultimately show ?thesis by blast
  qed
  moreover have "process_count k' = of_nat (MAX_PROC - length (q # ps))"
  proof -
    have "length (q # ps) \<le> MAX_PROC"
      using calculation(1) by (metis card_lessThan card_mono distinct_card finite_lessThan ppool_def)
    then have "MAX_PROC - length ps = Suc (MAX_PROC - length (q # ps))" by simp
    then show ?thesis using I(7) by (simp add: k'_def release_PCB_def k1_def)
  qed
  ultimately have "pinv k' (cs(p := remove1 q (cs p))) (es(p := remove1 q (es p))) (q # ps)"
    using rep by (simp add: pinv_def k'_def release_PCB_def k1_def)
  then show ?thesis using pt
    by (simp add: e k'_def release_PCB_def k1_def)
qed

lemma cleanup_stream_inv:
  "stream_inv k use fs \<Longrightarrow> stream_inv (snd (cleanup_zombie k q)) use fs"
  by (erule stream_inv_cong) (auto simp: cleanup_zombie_def release_PCB_def Let_def)

text \<open>The state after process \<open>cur\<close> has reaped its zombie \<open>q\<close>.\<close>

definition reaped ::
  "kernel \<Rightarrow> (nat \<Rightarrow> nat list) \<Rightarrow> (nat \<Rightarrow> nat list) \<Rightarrow> nat list \<Rightarrow> nat \<Rightarrow> nat \<Rightarrow> kernel \<Rightarrow> bool" where
  "reaped k cs es ps cur q k' \<longleftrightarrow>
     pinv k' (cs(cur := remove1 q (cs cur))) (es(cur := remove1 q (es cur))) (q # ps) \<and>
     PT k' = (PT k)(q := (PT k q)\<lparr>pstate := FREE, parent := pcb_freelist k\<rparr>) \<and>
     FT k' = FT k \<and> fheap k' = fheap k \<and> monitor k' = monitor k"

lemma wait_specific_spec:
  assumes inv: "pinv k cs es ps" and cur: "cur < MAX_PROC"
  shows "(\<forall>q. cpid = int q \<and> q \<in> set (es cur) \<longrightarrow>
       (\<exists>k'. wait_for_specific_child k cur cpid = (Done (cpid, Some (exitval (PT k q))), k') \<and>
          reaped k cs es ps cur q k')) \<and>
     (\<forall>q. cpid = int q \<and> q \<in> set (cs cur) - set (es cur) \<longrightarrow>
       wait_for_specific_child k cur cpid = (Block, k)) \<and>
     ((\<forall>q. cpid = int q \<longrightarrow> q \<notin> set (cs cur)) \<longrightarrow>
       wait_for_specific_child k cur cpid = (Done (NOPROC, None), k))"
proof (intro conjI allI impI)
  note I = pinvD [OF inv]
  have small: "q < MAX_PROC" if "q \<in> set (cs cur)" for q using prepD(4) [OF I(1) cur that] .
  { fix q assume q: "cpid = int q \<and> q \<in> set (es cur)"
    then have qm: "q < MAX_PROC" using prepD(5) [OF I(1) cur] by blast
    have z: "pstate (PT k q) = ZOMBIE" "parent (PT k q) = Some cur"
      using q iffD1 [OF I(5) [OF cur qm]] by auto
    then have "wait_for_specific_child k cur cpid =
        (Done (cpid, Some (exitval (PT k q))), snd (cleanup_zombie k q))"
      using q qm cleanup_zombie_pinv [OF inv cur, of q]
      by (simp add: wait_for_specific_child_def wait_specific_loop_def get_pcb_def split_beta)
    then show "\<exists>k'. wait_for_specific_child k cur cpid = (Done (cpid, Some (exitval (PT k q))), k') \<and>
        reaped k cs es ps cur q k'"
      using cleanup_zombie_pinv [OF inv cur, of q] q by (auto simp: reaped_def) }
  { fix q assume q: "cpid = int q \<and> q \<in> set (cs cur) - set (es cur)"
    then have qm: "q < MAX_PROC" using small by blast
    have "pstate (PT k q) \<noteq> FREE" "parent (PT k q) = Some cur" "pstate (PT k q) \<noteq> ZOMBIE"
      using q I(4) [OF cur qm] I(5) [OF cur qm] by auto
    then have "pstate (PT k q) = ALIVE" by (cases "pstate (PT k q)") auto
    then show "wait_for_specific_child k cur cpid = (Block, k)"
      using q qm \<open>parent (PT k q) = Some cur\<close>
      by (simp add: wait_for_specific_child_def wait_specific_loop_def get_pcb_def) }
  assume no: "\<forall>q. cpid = int q \<longrightarrow> q \<notin> set (cs cur)"
  show "wait_for_specific_child k cur cpid = (Done (NOPROC, None), k)"
  proof (cases "cpid < 0 \<or> cpid \<ge> int MAX_PROC")
    case False
    then have "nat cpid < MAX_PROC" "nat cpid \<notin> set (cs cur)" using no by auto
    then show ?thesis using I(4) [OF cur, of "nat cpid"]
      by (auto simp: wait_for_specific_child_def get_pcb_def)
  qed (simp add: wait_for_specific_child_def)
qed

lemma wait_any_spec:
  assumes inv: "pinv k cs es ps" and cur: "cur < MAX_PROC"
  shows "(case es cur of
       q # qs \<Rightarrow> \<exists>k'. wait_for_any_child k cur = Some (Done (int q, Some (exitval (PT k q))), k') \<and>
          reaped k cs es ps cur q k'
     | [] \<Rightarrow> wait_for_any_child k cur =
          Some (if cs cur = [] then Done (NOPROC, None) else Block, k))"
proof -
  note I = pinvD [OF inv]
  note L = prepD(1) [OF I(1)]
  have ce: "is_rlist_empty (pheap k) (Children_list cur) \<longleftrightarrow> cs cur = []"
    and ee: "is_rlist_empty (pheap k) (Exited_list cur) \<longleftrightarrow> es cur = []"
    using rl.is_empty [OF L, of "Children_list cur"] rl.is_empty [OF L, of "Exited_list cur"] cur by auto
  show ?thesis
  proof (cases "es cur")
    case Nil
    then show ?thesis using ce ee by (simp add: wait_for_any_child_def wait_any_loop_def)
  next
    case (Cons q qs)
    then have q: "q \<in> set (es cur)" by simp
    then have qm: "q < MAX_PROC" using prepD(5) [OF I(1) cur] by blast
    have z: "pstate (PT k q) = ZOMBIE" using iffD1 [OF I(5) [OF cur qm] q] by simp
    have "cs cur \<noteq> []" using es_subset_cs [OF inv cur] q by force
    moreover have "rl_next (pheap k) (Exited_list cur) = Exited_node q"
      using rl.pop_front_node [OF L, of "Exited_list cur"] cur Cons
      by (simp add: rlist_pop_front_def rl_splice_def Let_def)
    ultimately have "wait_for_any_child k cur =
        Some (Done (int q, Some (exitval (PT k q))), snd (cleanup_zombie k q))"
      using ce ee Cons z prepD(3) [OF I(1) qm] cleanup_zombie_pinv [OF inv cur q]
      by (simp add: wait_for_any_child_def wait_any_loop_def get_pid_def split_beta)
    then show ?thesis using Cons cleanup_zombie_pinv [OF inv cur q] by (auto simp: reaped_def)
  qed
qed

section \<open>Exit\<close>

text \<open>The boot task reaps its zombies until a child is still alive or it has no child left.\<close>

lemma init_reap_spec:
  assumes "pinv k cs es ps" and "cur < MAX_PROC"
  shows "\<exists>k'. init_reap k cur =
       Some (if set (cs cur) \<subseteq> set (es cur) then Done () else Block, k') \<and>
     pinv k' (cs(cur := filter (\<lambda>q. q \<notin> set (es cur)) (cs cur))) (es(cur := [])) (rev (es cur) @ ps) \<and>
     (\<forall>p. p \<notin> set (es cur) \<longrightarrow> PT k' p = PT k p) \<and> (\<forall>p. FIDT (PT k' p) = FIDT (PT k p)) \<and>
     FT k' = FT k \<and> fheap k' = fheap k \<and> monitor k' = monitor k"
  using assms
proof (induction "es cur" arbitrary: k cs es ps)
  case Nil
  have "filter (\<lambda>q. q \<notin> set (es cur)) (cs cur) = cs cur" using Nil(1) by simp
  moreover have "es(cur := []) = es" using Nil(1) by (simp add: fun_upd_idem)
  moreover have "init_reap k cur = Some (if cs cur = [] then Done () else Block, k)"
    using wait_any_spec [OF Nil(2,3)] Nil(1) by (simp add: init_reap.simps [of k] sys_WaitChild_def)
  ultimately show ?case using Nil by auto
next
  case (Cons q qs)
  note es = Cons(2) [symmetric]
  obtain k1 where k1: "wait_for_any_child k cur = Some (Done (int q, Some (exitval (PT k q))), k1)"
    "reaped k cs es ps cur q k1"
    using wait_any_spec [OF Cons(3,4)] es by auto
  let ?cs = "cs(cur := remove1 q (cs cur))" and ?es = "es(cur := remove1 q (es cur))"
  have inv1: "pinv k1 ?cs ?es (q # ps)" using k1(2) by (simp add: reaped_def)
  have qs: "qs = ?es cur" using es by simp
  note IH = Cons(1) [OF qs inv1 Cons(4)]
  have d: "distinct (cs cur)" "q \<notin> set qs"
    using prep_unique(3,4) [OF pinvD(1) [OF Cons(3)] Cons(4,4)] es by auto
  have qc: "q \<in> set (cs cur)" using es_subset_cs [OF Cons(3,4)] es by auto
  have f: "filter (\<lambda>p. p \<notin> set qs) (remove1 q (cs cur)) = filter (\<lambda>p. p \<notin> set (q # qs)) (cs cur)"
    by (auto simp: distinct_remove1_removeAll [OF d(1)] removeAll_filter_not_eq intro!: filter_cong)
  have s: "set (remove1 q (cs cur)) \<subseteq> set qs \<longleftrightarrow> set (cs cur) \<subseteq> set (q # qs)"
    using d qc by auto
  have "init_reap k cur = init_reap k1 cur"
    using k1(1) by (simp add: init_reap.simps [of k] sys_WaitChild_def NOPROC_def)
  with IH obtain k' where k': "init_reap k cur = Some (if set (?cs cur) \<subseteq> set (?es cur) then Done () else Block, k')"
    "pinv k' (?cs(cur := filter (\<lambda>p. p \<notin> set (?es cur)) (?cs cur))) (?es(cur := [])) (rev (?es cur) @ q # ps)"
    "\<And>p. p \<notin> set (?es cur) \<Longrightarrow> PT k' p = PT k1 p" "\<And>p. FIDT (PT k' p) = FIDT (PT k1 p)"
    "FT k' = FT k1" "fheap k' = fheap k1" "monitor k' = monitor k1" by metis
  have "pinv k' (cs(cur := filter (\<lambda>q. q \<notin> set (es cur)) (cs cur))) (es(cur := [])) (rev (es cur) @ ps)"
    using k'(2) f es by simp
  moreover have "\<forall>p. p \<notin> set (es cur) \<longrightarrow> PT k' p = PT k p"
    using k'(3) k1(2) es by (simp add: reaped_def)
  moreover have "\<forall>p. FIDT (PT k' p) = FIDT (PT k p)" using k'(4) k1(2) by (simp add: reaped_def)
  ultimately show ?case using k'(1,5-7) k1(2) s es by (auto simp: reaped_def)
qed

text \<open>The loop that closes the file ids.\<close>

lemma decref_detached:
  "FCB_decref (set_fid k p i v) f = map_option (\<lambda>(r, k'). (r, set_fid k' p i v)) (FCB_decref k f)"
  by (auto simp: FCB_decref_def release_FCB_def set_fid_def upd_fcb_def upd_pcb_def Let_def
      split: option.splits bind_splits)

lemma close_fids_spec:
  assumes "j \<le> MAX_FILEID" and "stream_inv k use fs" and "cur < MAX_PROC"
  shows "\<exists>k' fs'. close_fids [j..<MAX_FILEID] cur k = Some k' \<and> stream_inv k' use fs' \<and>
     PT k' = (PT k)(cur := (PT k cur)\<lparr>FIDT := take j (FIDT (PT k cur)) @ replicate (MAX_FILEID - j) None\<rparr>) \<and>
     pheap k' = pheap k \<and> pcb_freelist k' = pcb_freelist k \<and> process_count k' = process_count k \<and>
     monitor k' = monitor k"
  using assms(1,2)
proof (induction j arbitrary: k fs rule: inc_induct)
  case base
  have "length (FIDT (PT k cur)) = MAX_FILEID"
    using finvD(2) [OF stream_invD(1) [OF base]] assms(3) by (simp add: tables_ok_def)
  then have "PT k = (PT k)(cur := (PT k cur)\<lparr>FIDT := take MAX_FILEID (FIDT (PT k cur)) @ replicate 0 None\<rparr>)"
    by simp
  then show ?case using base by auto
next
  case (step j)
  have len: "length (FIDT (PT k cur)) = MAX_FILEID"
    using finvD(2) [OF stream_invD(1) [OF step(4)]] assms(3) by (simp add: tables_ok_def)
  have one: "take (Suc j) ((FIDT (PT k cur))[j := None]) @ replicate (MAX_FILEID - Suc j) None =
      take j (FIDT (PT k cur)) @ replicate (MAX_FILEID - j) None"
    using len step(2) by (simp add: take_Suc_conv_app_nth Suc_diff_Suc flip: replicate_Suc)
  have upt: "[j..<MAX_FILEID] = j # [Suc j..<MAX_FILEID]" using step(2) by (simp add: upt_conv_Cons)
  have "\<exists>k1 fs1. close_fids [j..<MAX_FILEID] cur k = close_fids [Suc j..<MAX_FILEID] cur k1 \<and>
      stream_inv k1 use fs1 \<and> PT k1 = (PT k)(cur := (PT k cur)\<lparr>FIDT := (FIDT (PT k cur))[j := None]\<rparr>) \<and>
      pheap k1 = pheap k \<and> pcb_freelist k1 = pcb_freelist k \<and> process_count k1 = process_count k \<and>
      monitor k1 = monitor k"
  proof (cases "FIDT (PT k cur) ! j")
    case None
    then have "(FIDT (PT k cur))[j := None] = FIDT (PT k cur)" by (metis list_update_id)
    then show ?thesis using None step(4) upt by auto
  next
    case (Some f)
    obtain r k1 fs1 where k1: "FCB_decref (set_fid k cur j None) f = Some (r, k1)"
      "stream_inv k1 use fs1" "same_but_files (set_fid k cur j None) k1"
      using close_stream_inv [OF step(4) assms(3) step(2) Some] by blast
    obtain k2 where k2: "FCB_decref k f = Some (r, k2)" "k1 = set_fid k2 cur j None"
      using k1(1) by (auto simp: decref_detached)
    show ?thesis using k1 k2 Some upt by (auto simp: same_but_files_def)
  qed
  then obtain k1 fs1 where k1: "close_fids [j..<MAX_FILEID] cur k = close_fids [Suc j..<MAX_FILEID] cur k1"
    "stream_inv k1 use fs1" "PT k1 = (PT k)(cur := (PT k cur)\<lparr>FIDT := (FIDT (PT k cur))[j := None]\<rparr>)"
    "pheap k1 = pheap k" "pcb_freelist k1 = pcb_freelist k" "process_count k1 = process_count k"
    "monitor k1 = monitor k" by blast
  from step(3) [OF k1(2)] show ?case using one by (auto simp: k1 fun_eq_iff)
qed

text \<open>The loop that hands the children to the initial task.\<close>

lemma reparent_spec:
  assumes "prep (pheap k) cs es" and "cur < MAX_PROC" "i < MAX_PROC" and "cs cur = [] \<or> cur \<noteq> i"
  shows "\<exists>k'. reparent k cur i = Some k' \<and>
     prep (pheap k') (if cs cur = [] then cs else cs(cur := [], i := rev (cs cur) @ cs i)) es \<and>
     (\<forall>q. PT k' q = (if q \<in> set (cs cur) then (PT k q)\<lparr>parent := Some i\<rparr> else PT k q)) \<and>
     FT k' = FT k \<and> fheap k' = fheap k \<and> pcb_freelist k' = pcb_freelist k \<and>
     process_count k' = process_count k \<and> monitor k' = monitor k"
  using assms(1,4)
proof (induction "cs cur" arbitrary: k cs)
  case Nil
  have "is_rlist_empty (pheap k) (Children_list cur)"
    using rl.is_empty [OF prepD(1) [OF Nil(2)], of "Children_list cur"] assms(2) Nil(1) by simp
  then show ?case using Nil by (simp add: reparent.simps [of k])
next
  case (Cons q qs)
  note cs = Cons(2) [symmetric]
  have ne: "cur \<noteq> i" using Cons(4) cs by simp
  let ?h = "fst (rlist_pop_front (pheap k) (Children_list cur))"
  have pop: "snd (rlist_pop_front (pheap k) (Children_list cur)) = Children_node q"
    "prep ?h (cs(cur := qs)) es"
    using prep_pop_child [OF Cons(3) assms(2) cs] by auto
  have qm: "q < MAX_PROC" using prepD(4) [OF Cons(3) assms(2), of q] cs by simp
  have dq: "q \<notin> set qs" using prep_unique(3) [OF Cons(3) assms(2,2)] cs by simp
  have "q \<notin> listed (cs(cur := qs))"
    using listed_remove(1) [OF Cons(3) assms(2), of q] cs by simp
  then have push: "prep (rlist_push_front ?h (Children_list i) (Children_node q))
      ((cs(cur := qs))(i := q # (cs(cur := qs)) i)) es"
    by (rule prep_push_child [OF pop(2) assms(3) qm])
  define cs1 where "cs1 = (cs(cur := qs))(i := q # (cs(cur := qs)) i)"
  define k1 where "k1 = (upd_pcb (k\<lparr>pheap := ?h\<rparr>) q (\<lambda>b. b\<lparr>parent := Some i\<rparr>))
      \<lparr>pheap := rlist_push_front ?h (Children_list i) (Children_node q)\<rparr>"
  have c1: "cs1 cur = qs" "cs1 i = q # cs i" using ne by (auto simp: cs1_def)
  have "\<not> is_rlist_empty (pheap k) (Children_list cur)"
    using rl.is_empty [OF prepD(1) [OF Cons(3)], of "Children_list cur"] assms(2) cs by simp
  then have r: "reparent k cur i = reparent k1 cur i"
    using pop(1) prepD(2) [OF pop(2) qm]
    by (simp add: reparent.simps [of k] k1_def Let_def split_beta upd_pcb_def)
  have "prep (pheap k1) cs1 es" using push by (simp add: k1_def cs1_def)
  from Cons(1) [OF _ this] ne c1(1)
  obtain k' where k': "reparent k1 cur i = Some k'"
     "prep (pheap k') (if cs1 cur = [] then cs1 else cs1(cur := [], i := rev (cs1 cur) @ cs1 i)) es"
     "\<forall>p. PT k' p = (if p \<in> set (cs1 cur) then (PT k1 p)\<lparr>parent := Some i\<rparr> else PT k1 p)"
     "FT k' = FT k1" "fheap k' = fheap k1" "pcb_freelist k' = pcb_freelist k1"
     "process_count k' = process_count k1" "monitor k' = monitor k1" by auto
  have e: "(if cs1 cur = [] then cs1 else cs1(cur := [], i := rev (cs1 cur) @ cs1 i)) =
      cs(cur := [], i := rev (cs cur) @ cs i)"
    using ne cs by (auto simp: c1 cs1_def fun_eq_iff)
  show ?case using k' e cs dq r by (auto simp: c1 k1_def)
qed

section \<open>Signals and sleeping on the way out\<close>

text \<open>The monitor of the kernel: the scheduler is in a legal state and every waiter stands for
  one existing thread.\<close>

definition mon_ok :: "smach \<Rightarrow> (nat \<Rightarrow> nat list) \<Rightarrow> kmon \<Rightarrow> bool" where
  "mon_ok m Q mn \<longleftrightarrow> sinv m \<and> sch m = ksched mn \<and> cvs_ok (kcvs mn) Q \<and>
     (\<forall>cv. \<forall>w \<in> set (Q cv). \<exists>j. thread (waiter (kcvs mn) w) = Thread j \<and> live (sch m) (Thread j)) \<and>
     (\<forall>cv. inj_on (\<lambda>w. thread (waiter (kcvs mn) w)) (set (Q cv)))"

lemma make_ready_current: "sched_make_ready s t = Some s' \<Longrightarrow> current_thread s' = current_thread s"
  by (auto simp: sched_make_ready_def Let_def split: if_splits bind_splits)

lemma wakeup_current: "wakeup s c t = Some (s', r) \<Longrightarrow> current_thread s' = current_thread s"
  by (auto simp: wakeup_def Let_def preempt_off_eq preempt_on_eq dest!: make_ready_current
      split: if_splits bind_splits prod.splits)

lemma cv_signal_current:
  assumes "cv_signal c cv sc s = Some y"
  shows "current_thread (fst y) = current_thread sc"
proof (rule cv_signal.raw_induct [where P = "\<lambda>c cv sc s y. current_thread (fst y) = current_thread sc", OF _ assms])
  fix f :: "nat \<Rightarrow> nat \<Rightarrow> sched \<Rightarrow> cvs \<Rightarrow> (sched \<times> cvs) option" and c cv sc s y
  assume IH: "\<And>c cv sc s y. f c cv sc s = Some y \<Longrightarrow> current_thread (fst y) = current_thread sc"
  assume "(case waitset s cv of None \<Rightarrow> Some (sc, s)
    | Some w \<Rightarrow> let s1 = remove_from_ring s cv w; s2 = upd_waiter s1 w (\<lambda>k. k\<lparr>removed := True\<rparr>)
        in do { (sc', r) \<leftarrow> wakeup sc c (thread (waiter s2 w));
             if r then Some (sc', upd_waiter s2 w (\<lambda>k. k\<lparr>signalled := True\<rparr>)) else f c cv sc' s2 }) = Some y"
  then show "current_thread (fst y) = current_thread sc"
    by (auto simp: Let_def dest!: wakeup_current IH split: option.splits bind_splits if_splits)
qed

lemma broadcast_current:
  assumes "Cond_Broadcast c cv sc s = Some y"
  shows "current_thread (fst y) = current_thread sc"
proof (rule Cond_Broadcast.raw_induct [where P = "\<lambda>c cv sc s y. current_thread (fst y) = current_thread sc", OF _ assms])
  fix f :: "nat \<Rightarrow> nat \<Rightarrow> sched \<Rightarrow> cvs \<Rightarrow> (sched \<times> cvs) option" and c cv sc s y
  assume IH: "\<And>c cv sc s y. f c cv sc s = Some y \<Longrightarrow> current_thread (fst y) = current_thread sc"
  assume "(case waitset s cv of None \<Rightarrow> Some (sc, s)
    | Some _ \<Rightarrow> do { (sc', s') \<leftarrow> cv_signal c cv sc s; f c cv sc' s' }) = Some y"
  then show "current_thread (fst y) = current_thread sc"
    by (auto dest!: cv_signal_current IH split: option.splits bind_splits)
qed

lemma kernel_broadcast_mon:
  assumes "mon_ok m Q mn"
  shows "\<exists>mn'. kernel_broadcast c cv mn = Some mn' \<and>
     mon_ok (m\<lparr>sch := ksched mn'\<rparr>) (Q(cv := [])) mn' \<and>
     kernel_sem mn' = kernel_sem mn \<and> current_thread (ksched mn') = current_thread (ksched mn) \<and>
     (\<forall>w. thread (waiter (kcvs mn') w) = thread (waiter (kcvs mn) w)) \<and>
     (\<forall>t. state (tcb (ksched mn') t) =
        (if blocked (ksched mn) t \<and> (\<exists>w \<in> set (Q cv). t = thread (waiter (kcvs mn) w)) then READY
         else state (tcb (ksched mn) t)))"
proof -
  have a: "sinv m" "sch m = ksched mn" "cvs_ok (kcvs mn) Q"
    "\<And>w cv. w \<in> set (Q cv) \<Longrightarrow> \<exists>j. thread (waiter (kcvs mn) w) = Thread j \<and> live (sch m) (Thread j)"
    "inj_on (\<lambda>w. thread (waiter (kcvs mn) w)) (set (Q cv))" for cv
    using assms by (auto simp: mon_ok_def)
  have a4: "\<And>w. w \<in> set (Q cv) \<Longrightarrow> \<exists>j. thread (waiter (kcvs mn) w) = Thread j \<and> live (sch m) (Thread j)"
    using a(4) .
  obtain sc' s' where B: "Cond_Broadcast c cv (sch m) (kcvs mn) = Some (sc', s')"
    "sinv (m\<lparr>sch := sc'\<rparr>)" "live sc' = live (sch m)" "cvs_ok s' (Q(cv := []))"
    "\<forall>t. state (tcb sc' t) =
        (if blocked (sch m) t \<and> (\<exists>w \<in> set (Q cv). t = thread (waiter (kcvs mn) w)) then READY
         else state (tcb (sch m) t))"
    "\<forall>w. waiter s' w = (if w \<in> set (Q cv) then (waiter (kcvs mn) w)\<lparr>removed := True,
        signalled := signalled (waiter (kcvs mn) w) \<or> blocked (sch m) (thread (waiter (kcvs mn) w))\<rparr>
        else waiter (kcvs mn) w)"
    using Cond_Broadcast_spec [where cv = cv and c = c, OF a(1,3) _ a(5)] a4 by blast
  have th: "thread (waiter s' w) = thread (waiter (kcvs mn) w)" for w by (simp add: B(6))
  have "mon_ok (m\<lparr>sch := sc'\<rparr>) (Q(cv := [])) (mn\<lparr>ksched := sc', kcvs := s'\<rparr>)"
    using B(2,3,4) a(4,5) by (auto simp: mon_ok_def th)
  then show ?thesis
    using B(1,5) broadcast_current [OF B(1)] a(2) th by (auto simp: kernel_broadcast_def)
qed

lemma kernel_sleep_mon:
  assumes "mon_ok m Q mn" and "c \<in> up m" "pc m c = Run" "thread_at m c = Thread j"
  shows "\<exists>mn'. kernel_sleep c EXITED ct mn = Some mn' \<and> kernel_sem mn' = kernel_sem mn + 1 \<and>
     sinv (m\<lparr>sch := ksched mn', pc := (pc m)(c := Slept)\<rparr>) \<and>
     state (tcb (ksched mn') (Thread j)) = EXITED \<and>
     (\<forall>t. t \<noteq> Thread j \<longrightarrow> state (tcb (ksched mn) t) = READY \<longrightarrow> state (tcb (ksched mn') t) = READY)"
proof -
  have a: "sinv m" "sch m = ksched mn" "cvs_ok (kcvs mn) Q"
    "\<And>w. w \<in> set (Q kernel_sem_cv) \<Longrightarrow> \<exists>j. thread (waiter (kcvs mn) w) = Thread j \<and> live (sch m) (Thread j)"
    using assms(1) by (auto simp: mon_ok_def)
  obtain sc' s' where S: "cv_signal c kernel_sem_cv (sch m) (kcvs mn) = Some (sc', s')"
    "sinv (m\<lparr>sch := sc'\<rparr>)"
    "\<forall>t. state (tcb (sch m) t) = READY \<longrightarrow> state (tcb sc' t) = READY"
    using cv_signal_spec [OF a(1,3) _ refl refl refl, where cv = kernel_sem_cv and c = c] a(4)
    by (metis (no_types, lifting))
  have cur: "current_thread sc' = current_thread (sch m)" using cv_signal_current [OF S(1)] by simp
  obtain q w where qw: "sinv_qw (m\<lparr>sch := sc'\<rparr>) q w" using S(2) by (auto simp: sinv_def)
  obtain s2 pre q' w' where sl: "sleep_releasing sc' c EXITED NO_TIMEOUT ct = Some (s2, pre)"
    "sinv_qw (m\<lparr>sch := s2, pc := (pc m)(c := Slept)\<rparr>) q' w'"
    by (rule sleep_sinv [OF qw, of c j EXITED NO_TIMEOUT ct]) (use assms(2-4) cur in auto)
  have "tcb s2 = (tcb sc')(Thread j := (tcb sc' (Thread j))\<lparr>state := EXITED\<rparr>)"
    using sl(1) cur assms(4) by (auto simp: sleep_releasing_def Let_def preempt_off_eq split: prod.splits)
  then have "state (tcb s2 (Thread j)) = EXITED \<and>
      (\<forall>t. t \<noteq> Thread j \<longrightarrow> state (tcb (ksched mn) t) = READY \<longrightarrow> state (tcb s2 t) = READY)"
    using S(3) a(2) by simp
  then show ?thesis
    using S(1) sl a(2) by (auto simp: kernel_sleep_def kernel_release_def Cond_Signal_def sinv_def)
qed

section \<open>The lists after an exit\<close>

definition adopted :: "(nat \<Rightarrow> nat list) \<Rightarrow> nat \<Rightarrow> nat \<Rightarrow> nat list" where
  "adopted cs cur = (if cs cur = [] then cs else cs(cur := [], 1 := rev (cs cur) @ cs 1))"

definition handed :: "(nat \<Rightarrow> nat list) \<Rightarrow> nat \<Rightarrow> nat \<Rightarrow> nat list" where
  "handed es cur = (if es cur = [] then es else es(1 := es 1 @ es cur, cur := []))"

definition exited_to :: "nat option \<Rightarrow> nat \<Rightarrow> (nat \<Rightarrow> nat list) \<Rightarrow> nat \<Rightarrow> nat list" where
  "exited_to par cur es = (case par of None \<Rightarrow> es | Some p \<Rightarrow> es(p := cur # es p))"

lemma prep_handed:
  assumes "prep h cs es" and "cur < MAX_PROC" and "es cur = [] \<or> cur \<noteq> 1"
  shows "prep (if es cur = [] then h else rlist_append h (Exited_list 1) (Exited_list cur)) cs (handed es cur)"
  using prep_append_exited [OF assms(1), of 1 cur] assms by (auto simp: handed_def MAX_PROC_def)

text \<open>A broadcast on the way out: \<open>k'\<close> differs from \<open>k\<close> in the monitor only, no READY thread is
  disturbed, and the blocked waiters of \<open>cv\<close> become READY.\<close>

definition waiting :: "nat set \<Rightarrow> (nat \<Rightarrow> nat list) \<Rightarrow> kmon \<Rightarrow> tcb_ref \<Rightarrow> bool" where
  "waiting CV Q mn t \<longleftrightarrow> (\<exists>cv \<in> CV. \<exists>w \<in> set (Q cv). t = thread (waiter (kcvs mn) w))"

definition notified :: "nat set \<Rightarrow> (nat \<Rightarrow> nat list) \<Rightarrow> kmon \<Rightarrow> kmon \<Rightarrow> bool" where
  "notified CV Q mn mn' \<longleftrightarrow> kernel_sem mn' = kernel_sem mn \<and> current_thread (ksched mn') = current_thread (ksched mn) \<and>
     (\<forall>w. thread (waiter (kcvs mn') w) = thread (waiter (kcvs mn) w)) \<and>
     (\<forall>t. state (tcb (ksched mn') t) =
        (if blocked (ksched mn) t \<and> waiting CV Q mn t then READY else state (tcb (ksched mn) t)))"

lemma broadcast_exit_mon:
  assumes "mon_ok m Q (monitor k)"
  shows "\<exists>mn. broadcast_exit c p k = Some (k\<lparr>monitor := mn\<rparr>) \<and>
     mon_ok (m\<lparr>sch := ksched mn\<rparr>) (Q(child_exit p := [])) mn \<and> notified {child_exit p} Q (monitor k) mn"
proof -
  obtain mn where mn: "kernel_broadcast c (child_exit p) (monitor k) = Some mn"
     "mon_ok (m\<lparr>sch := ksched mn\<rparr>) (Q(child_exit p := [])) mn \<and> notified {child_exit p} Q (monitor k) mn"
    using kernel_broadcast_mon [OF assms, of c "child_exit p"] by (auto simp: notified_def waiting_def)
  then show ?thesis by (intro exI [of _ mn]) (simp add: broadcast_exit_def)
qed

lemma notified_refl: "notified {} Q mn mn"
  by (simp add: notified_def waiting_def)

lemma mon_ok_sch: "mon_ok m Q mn \<Longrightarrow> m\<lparr>sch := ksched mn\<rparr> = m"
  by (cases m) (simp add: mon_ok_def)

lemma notified_trans:
  assumes "notified A Q mn mn1" and "notified B Q1 mn1 mn2"
    and "\<And>cv. cv \<in> B \<Longrightarrow> Q1 cv = Q cv \<or> cv \<in> A \<and> Q1 cv = []"
  shows "notified (A \<union> B) Q mn mn2"
proof -
  have b: "blocked (ksched mn1) t \<longleftrightarrow> blocked (ksched mn) t \<and> \<not> waiting A Q mn t" for t
    using assms(1) by (auto simp: notified_def blocked_def)
  have "waiting B Q1 mn1 t \<longleftrightarrow> waiting B Q1 mn t" for t
    using assms(1) by (simp add: waiting_def notified_def)
  moreover have "waiting A Q mn t \<or> waiting B Q1 mn t \<longleftrightarrow> waiting (A \<union> B) Q mn t" for t
    unfolding waiting_def using assms(3) by force
  ultimately show ?thesis
    using assms(1,2) b unfolding notified_def by metis
qed

lemma exit_lists_spec:
  assumes inv: "pinv k cs es ps" and cur: "cur < MAX_PROC" "pstate (PT k cur) = ALIVE"
    and init: "pstate (PT k 1) = ALIVE" and boot: "cur = 1 \<Longrightarrow> cs 1 = []"
    and m: "mon_ok m Q (monitor k)"
  shows "\<exists>k' Q' CV. exit_lists k c cur = Some k' \<and>
     prep (pheap k') (adopted cs cur) (exited_to (parent (PT k cur)) cur (handed es cur)) \<and>
     (\<forall>q. PT k' q = (if q \<in> set (cs cur) then (PT k q)\<lparr>parent := Some 1\<rparr> else PT k q)) \<and>
     FT k' = FT k \<and> fheap k' = fheap k \<and> pcb_freelist k' = pcb_freelist k \<and>
     process_count k' = process_count k \<and> mon_ok (m\<lparr>sch := ksched (monitor k')\<rparr>) Q' (monitor k') \<and>
     notified CV Q (monitor k) (monitor k') \<and> (\<forall>p. parent (PT k cur) = Some p \<longrightarrow> child_exit p \<in> CV) \<and>
     (es cur \<noteq> [] \<longrightarrow> child_exit 1 \<in> CV)"
proof -
  note I = pinvD [OF inv]
  have one: "1 < MAX_PROC" by (simp add: MAX_PROC_def)
  have c0: "cs cur = [] \<or> cur \<noteq> 1" using boot by blast
  have e0: "es cur = [] \<or> cur \<noteq> 1" using boot es_subset_cs [OF inv cur(1)] by auto
  have selfless: "cur \<notin> set (cs cur)"
    using I(4) [OF cur(1,1)] I(6) [OF cur(1)] by (auto simp: pcb_ok_def)
  obtain k1 where k1: "reparent k cur 1 = Some k1" "prep (pheap k1) (adopted cs cur) es"
    "\<forall>q. PT k1 q = (if q \<in> set (cs cur) then (PT k q)\<lparr>parent := Some 1\<rparr> else PT k q)"
    "FT k1 = FT k" "fheap k1 = fheap k" "pcb_freelist k1 = pcb_freelist k"
    "process_count k1 = process_count k" "monitor k1 = monitor k"
    using reparent_spec [OF I(1) cur(1) one c0] by (auto simp: adopted_def)
  have emp: "is_rlist_empty (pheap k1) (Exited_list cur) \<longleftrightarrow> es cur = []"
    using rl.is_empty [OF prepD(1) [OF k1(2)], of "Exited_list cur"] cur(1) by simp
  define h2 where "h2 = (if es cur = [] then pheap k1 else rlist_append (pheap k1) (Exited_list 1) (Exited_list cur))"
  have h2: "prep h2 (adopted cs cur) (handed es cur)"
    unfolding h2_def by (rule prep_handed [OF k1(2) cur(1) e0])
  define CV1 where "CV1 = (if es cur = [] then {} else {child_exit 1})"
  have "\<exists>mn. (if \<not> is_rlist_empty (pheap k1) (Exited_list cur)
       then broadcast_exit c 1 (k1\<lparr>pheap := rlist_append (pheap k1) (Exited_list 1) (Exited_list cur)\<rparr>)
       else Some k1) = Some (k1\<lparr>pheap := h2, monitor := mn\<rparr>) \<and>
     mon_ok (m\<lparr>sch := ksched mn\<rparr>) (if es cur = [] then Q else Q(child_exit 1 := [])) mn \<and>
     notified CV1 Q (monitor k) mn"
  proof (cases "es cur = []")
    case True
    moreover have "mon_ok (m\<lparr>sch := ksched (monitor k)\<rparr>) Q (monitor k)" using m mon_ok_sch [OF m] by simp
    ultimately show ?thesis using emp k1(8)
      by (intro exI [of _ "monitor k"]) (simp add: h2_def CV1_def notified_refl)
  next
    case False
    then show ?thesis
      using emp k1(8) m broadcast_exit_mon [of m Q
          "k1\<lparr>pheap := rlist_append (pheap k1) (Exited_list 1) (Exited_list cur)\<rparr>" c 1]
      by (simp add: h2_def CV1_def)
  qed
  then obtain mn where mn: "(if \<not> is_rlist_empty (pheap k1) (Exited_list cur)
       then broadcast_exit c 1 (k1\<lparr>pheap := rlist_append (pheap k1) (Exited_list 1) (Exited_list cur)\<rparr>)
       else Some k1) = Some (k1\<lparr>pheap := h2, monitor := mn\<rparr>)"
     "mon_ok (m\<lparr>sch := ksched mn\<rparr>) (if es cur = [] then Q else Q(child_exit 1 := [])) mn"
     "notified CV1 Q (monitor k) mn" by blast
  have par: "parent (PT k1 cur) = parent (PT k cur)" using k1(3) selfless by simp
  have g: "get_pcb k 1 = Some 1" using init by (simp add: get_pcb_def)
  have E: "exit_lists k c cur = (case parent (PT k cur) of
        Some par \<Rightarrow> broadcast_exit c par
          (k1\<lparr>pheap := rlist_push_front h2 (Exited_list par) (Exited_node cur), monitor := mn\<rparr>)
      | None \<Rightarrow> Some (k1\<lparr>pheap := h2, monitor := mn\<rparr>))"
    unfolding exit_lists_def g Option.bind_lunit k1(1) mn(1) by (simp add: par split: option.split) (cases k1, simp)
  show ?thesis
  proof (cases "parent (PT k cur)")
    case None
    then have "exit_lists k c cur = Some (k1\<lparr>pheap := h2, monitor := mn\<rparr>)"
      by (simp add: E)
    then show ?thesis using k1 h2 mn(2,3) None
      by (auto simp: exited_to_def CV1_def intro!: exI [of _ CV1])
  next
    case (Some p)
    have pm: "p < MAX_PROC" using I(6) [OF cur(1)] cur(2) Some by (simp add: pcb_ok_def)
    have "cur \<notin> set (es p)" if "p < MAX_PROC" for p using I(5) [OF that cur(1)] cur(2) by simp
    then have nl: "cur \<notin> listed (handed es cur)"
      using cur(1) one by (auto simp: listed_def handed_def split: if_splits)
    let ?k2 = "k1\<lparr>pheap := rlist_push_front h2 (Exited_list p) (Exited_node cur), monitor := mn\<rparr>"
    obtain mn' where mn': "broadcast_exit c p ?k2 = Some (?k2\<lparr>monitor := mn'\<rparr>)"
      "mon_ok (m\<lparr>sch := ksched mn'\<rparr>) ((if es cur = [] then Q else Q(child_exit 1 := []))(child_exit p := [])) mn'"
      "notified {child_exit p} (if es cur = [] then Q else Q(child_exit 1 := [])) mn mn'"
      using broadcast_exit_mon [of "m\<lparr>sch := ksched mn\<rparr>" _ ?k2 c p] mn(2) by auto
    have "notified (CV1 \<union> {child_exit p}) Q (monitor k) mn'"
      by (rule notified_trans [OF mn(3) mn'(3)]) (auto simp: CV1_def)
    moreover have "exit_lists k c cur = Some (?k2\<lparr>monitor := mn'\<rparr>)"
      using Some mn'(1) by (simp add: E)
    moreover have "prep (rlist_push_front h2 (Exited_list p) (Exited_node cur)) (adopted cs cur)
        (exited_to (Some p) cur (handed es cur))"
      unfolding exited_to_def using prep_push_exited [OF h2 pm cur(1) nl] by simp
    ultimately show ?thesis using k1 mn'(2) Some
      by (auto simp: CV1_def intro!: exI [of _ "CV1 \<union> {child_exit p}"])
  qed
qed

text \<open>The process table after process \<open>cur\<close> has exited with value \<open>ev\<close>.\<close>

definition exited_table :: "kernel \<Rightarrow> nat \<Rightarrow> nat list \<Rightarrow> int \<Rightarrow> nat \<Rightarrow> PCB" where
  "exited_table k cur children ev q =
     (if q = cur then (PT k q)\<lparr>pstate := ZOMBIE, exitval := ev, main_thread := None, args := None,
                          FIDT := replicate MAX_FILEID None\<rparr>
      else if q \<in> set children then (PT k q)\<lparr>parent := Some 1\<rparr> else PT k q)"

lemma adopted_set:
  assumes "cs cur = [] \<or> cur \<noteq> 1"
  shows "q \<in> set (adopted cs cur p) \<longleftrightarrow>
     p \<noteq> cur \<and> (if p = 1 then q \<in> set (cs 1) \<or> q \<in> set (cs cur) else q \<in> set (cs p))"
  using assms by (auto simp: adopted_def)

lemma handed_set:
  assumes "es cur = [] \<or> cur \<noteq> 1"
  shows "q \<in> set (handed es cur p) \<longleftrightarrow>
     p \<noteq> cur \<and> (if p = 1 then q \<in> set (es 1) \<or> q \<in> set (es cur) else q \<in> set (es p))"
  using assms by (auto simp: handed_def)

lemma exit_pinv:
  assumes inv: "pinv k cs es ps" and cur: "cur < MAX_PROC" "pstate (PT k cur) = ALIVE"
    and init: "pstate (PT k 1) = ALIVE" and boot: "cur = 1 \<Longrightarrow> cs 1 = []"
    and rep: "prep (pheap k') (adopted cs cur) (exited_to (parent (PT k cur)) cur (handed es cur))"
    and pt: "PT k' = exited_table k cur (cs cur) ev"
    and fr: "pcb_freelist k' = pcb_freelist k" "process_count k' = process_count k"
  shows "pinv k' (adopted cs cur) (exited_to (parent (PT k cur)) cur (handed es cur)) ps"
proof -
  note I = pinvD [OF inv]
  have one: "1 < MAX_PROC" by (simp add: MAX_PROC_def)
  have c0: "cs cur = [] \<or> cur \<noteq> 1" using boot by blast
  have e0: "es cur = [] \<or> cur \<noteq> 1" using boot es_subset_cs [OF inv cur(1)] by auto
  have kids: "q < MAX_PROC \<and> pstate (PT k q) \<noteq> FREE \<and> parent (PT k q) = Some cur" if "q \<in> set (cs cur)" for q
    using prepD(4) [OF I(1) cur(1) that] I(4) [OF cur(1)] that by blast
  have ok: "pcb_ok k cur" using I(6) [OF cur(1)] .
  have par: "\<And>p. parent (PT k cur) = Some p \<Longrightarrow> p \<noteq> cur \<and> p < MAX_PROC \<and> pstate (PT k p) = ALIVE"
    using ok cur(2) by (auto simp: pcb_ok_def)
  have self: "cur \<notin> set (cs cur)" using kids par by blast
  have st: "pstate (PT k' q) = (if q = cur then ZOMBIE else pstate (PT k q))" for q
    by (simp add: pt exited_table_def)
  have pr: "parent (PT k' q) = (if q \<in> set (cs cur) then Some 1 else parent (PT k q))" for q
    using self by (simp add: pt exited_table_def)
  have free: "p \<in> set ps \<Longrightarrow> p \<noteq> cur \<and> p \<notin> set (cs cur)" for p
  proof -
    assume p: "p \<in> set ps"
    then have "p < MAX_PROC" using I(2) by (auto simp: ppool_def)
    then have "pstate (PT k p) = FREE" using I(3) p by simp
    then show ?thesis using cur(2) kids by auto
  qed
  have "chain k' a ps = chain k a ps" for a using free by (intro chain_cong) (simp add: pr)
  then have pool: "ppool k' ps" using I(2) fr(1) by (simp add: ppool_def)
  have fam1: "q \<in> set (adopted cs cur p) \<longleftrightarrow> pstate (PT k' q) \<noteq> FREE \<and> parent (PT k' q) = Some p"
    if "p < MAX_PROC" "q < MAX_PROC" for p q
  proof -
    have "pstate (PT k q) \<noteq> FREE \<and> parent (PT k q) = Some cur \<Longrightarrow> cur \<noteq> 1 \<and> q \<noteq> cur"
      using c0 I(4) [OF cur(1) that(2)] par by force
    then show ?thesis
      unfolding adopted_set [where cs = cs and cur = cur, OF c0] st pr
        I(4) [OF that] I(4) [OF one that(2)] I(4) [OF cur(1) that(2)]
      using cur(2) by (cases "parent (PT k q) = Some cur") auto
  qed
  have fam2: "q \<in> set (exited_to (parent (PT k cur)) cur (handed es cur) p) \<longleftrightarrow>
      pstate (PT k' q) = ZOMBIE \<and> parent (PT k' q) = Some p" if "p < MAX_PROC" "q < MAX_PROC" for p q
  proof -
    have "q \<in> set (handed es cur p) \<longleftrightarrow> pstate (PT k q) = ZOMBIE \<and> parent (PT k' q) = Some p"
      unfolding handed_set [where es = es and cur = cur, OF e0] pr
        I(5) [OF that] I(5) [OF one that(2)] I(5) [OF cur(1) that(2)] I(4) [OF cur(1) that(2)]
      using e0 I(5) [OF cur(1) that(2)] by (cases "parent (PT k q) = Some cur") auto
    moreover have "q \<in> set (exited_to (parent (PT k cur)) cur (handed es cur) p) \<longleftrightarrow>
        q \<in> set (handed es cur p) \<or> (q = cur \<and> parent (PT k cur) = Some p)"
      by (auto simp: exited_to_def split: option.splits)
    ultimately show ?thesis using self cur(2) by (auto simp: st pr)
  qed
  have pcb: "pcb_ok k' p" if "p < MAX_PROC" for p
  proof -
    have kp: "pcb_ok k p" using I(6) [OF that] .
    consider "p = cur" | "p \<in> set (cs cur)" | "p \<noteq> cur" "p \<notin> set (cs cur)" by blast
    then show ?thesis
    proof cases
      case 1
      have "pstate (PT k' r) = ALIVE" if "parent (PT k cur) = Some r" for r
        using par [OF that] st [of r] by simp
      then show ?thesis using 1 self ok cur(2) par st [of cur] pr [of cur]
        by (simp add: pcb_ok_def) (simp add: pt exited_table_def)
    next
      case 2
      then have "p \<noteq> cur" "1 < p" "cur \<noteq> 1" using self kids [of p] kp c0 by (auto simp: pcb_ok_def)
      moreover have "FIDT (PT k' p) = FIDT (PT k p)" using 2 calculation by (simp add: pt exited_table_def)
      ultimately show ?thesis using 2 kp kids [of p] init one st [of p] pr [of p] st [of 1]
        by (simp add: pcb_ok_def)
    next
      case 3
      moreover have "parent (PT k p) = Some r \<Longrightarrow> pstate (PT k p) \<noteq> FREE \<Longrightarrow> r \<noteq> cur" for r
        using I(4) [OF cur(1) that] 3(2) by auto
      ultimately show ?thesis
        using st by (intro pcb_ok_mono [OF kp]) (auto simp: pt exited_table_def)
    qed
  qed
  show ?thesis
    unfolding pinv_def family_def using rep pool fam1 fam2 pcb fr(2) I(3,7) cur free [of cur]
    by (auto simp: st)
qed

lemma exit_rest_spec:
  assumes inv: "pinv k cs es ps" and str: "stream_inv k use fs"
    and cur: "cur < MAX_PROC" "pstate (PT k cur) = ALIVE"
    and init: "pstate (PT k 1) = ALIVE" and boot: "cur = 1 \<Longrightarrow> cs 1 = []"
    and m: "mon_ok m Q (monitor k)" "c \<in> up m" "pc m c = Run" "thread_at m c = Thread j"
  shows "\<exists>k' fs'. exit_rest k c cur ev ct = Some k' \<and>
     pinv k' (adopted cs cur) (exited_to (parent (PT k cur)) cur (handed es cur)) ps \<and>
     stream_inv k' use fs' \<and> PT k' = exited_table k cur (cs cur) ev \<and>
     kernel_sem (monitor k') = kernel_sem (monitor k) + 1 \<and>
     state (tcb (ksched (monitor k')) (Thread j)) = EXITED \<and>
     (\<forall>p t. parent (PT k cur) = Some p \<longrightarrow> t \<noteq> Thread j \<longrightarrow> blocked (ksched (monitor k)) t \<longrightarrow>
        waiting {child_exit p} Q (monitor k) t \<longrightarrow> state (tcb (ksched (monitor k')) t) = READY)"
proof -
  define k1 where "k1 = (if args (PT k cur) \<noteq> None then upd_pcb k cur (\<lambda>b. b\<lparr>args := None\<rparr>) else k)"
  have pt1: "PT k1 = (PT k)(cur := (PT k cur)\<lparr>args := None\<rparr>)" by (auto simp: k1_def)
  have fr1: "pheap k1 = pheap k" "pcb_freelist k1 = pcb_freelist k" "process_count k1 = process_count k"
    "monitor k1 = monitor k" "FT k1 = FT k" "fheap k1 = fheap k" by (simp_all add: k1_def)
  have s1: "stream_inv k1 use fs" by (rule stream_inv_cong [OF str]) (auto simp: pt1 fr1)
  obtain k2 fs2 where k2: "close_fids [0..<MAX_FILEID] cur k1 = Some k2" "stream_inv k2 use fs2"
    "PT k2 = (PT k1)(cur := (PT k1 cur)\<lparr>FIDT := replicate MAX_FILEID None\<rparr>)"
    "pheap k2 = pheap k1" "pcb_freelist k2 = pcb_freelist k1" "process_count k2 = process_count k1"
    "monitor k2 = monitor k1"
    using close_fids_spec [OF _ s1 cur(1), of 0] by auto
  have inv2: "pinv k2 cs es ps"
  proof -
    have "pcb_ok k2 p = pcb_ok k p" for p using cur(2) by (auto simp: pcb_ok_def k2(3) pt1)
    moreover have "chain k2 a ps = chain k a ps" for a by (rule chain_cong) (simp add: k2(3) pt1)
    ultimately show ?thesis using inv
      by (simp add: pinv_def ppool_def family_def k2 fr1 pt1)
  qed
  have par: "parent (PT k2 cur) = parent (PT k cur)" by (simp add: k2(3) pt1)
  have a2: "pstate (PT k2 cur) = ALIVE" "pstate (PT k2 1) = ALIVE" using cur(2) init by (simp_all add: k2(3) pt1)
  have m2: "mon_ok m Q (monitor k2)" using m(1) k2(7) fr1(4) by simp
  obtain k3 Q' CV where k3: "exit_lists k2 c cur = Some k3"
    "prep (pheap k3) (adopted cs cur) (exited_to (parent (PT k cur)) cur (handed es cur))"
    "\<forall>q. PT k3 q = (if q \<in> set (cs cur) then (PT k2 q)\<lparr>parent := Some 1\<rparr> else PT k2 q)"
    "FT k3 = FT k2" "fheap k3 = fheap k2" "pcb_freelist k3 = pcb_freelist k2"
    "process_count k3 = process_count k2" "mon_ok (m\<lparr>sch := ksched (monitor k3)\<rparr>) Q' (monitor k3)"
    "notified CV Q (monitor k2) (monitor k3)" "\<forall>p. parent (PT k cur) = Some p \<longrightarrow> child_exit p \<in> CV"
    using exit_lists_spec [OF inv2 cur(1) a2 boot m2, of c] unfolding par by blast
  define k4 where "k4 = upd_pcb k3 cur (\<lambda>b. b\<lparr>main_thread := None, pstate := ZOMBIE, exitval := ev\<rparr>)"
  have cur3: "current_thread (ksched (monitor k3)) = current_thread (sch m)"
    using k3(9) k2(7) fr1(4) m(1) by (simp add: notified_def mon_ok_def)
  obtain mn where mn: "kernel_sleep c EXITED ct (monitor k3) = Some mn"
    "kernel_sem mn = kernel_sem (monitor k3) + 1" "state (tcb (ksched mn) (Thread j)) = EXITED"
    "\<forall>t. t \<noteq> Thread j \<longrightarrow> state (tcb (ksched (monitor k3)) t) = READY \<longrightarrow> state (tcb (ksched mn) t) = READY"
    using kernel_sleep_mon [OF k3(8), of c j ct] m(2-4) cur3 by auto
  have ret: "exit_rest k c cur ev ct = Some (k4\<lparr>monitor := mn\<rparr>)"
    using k2(1) k3(1) mn(1) unfolding exit_rest_def Let_def k1_def [symmetric]
    by (simp add: k4_def)
  have self: "cur \<notin> set (cs cur)"
    using pinvD(4) [OF inv cur(1,1)] pinvD(6) [OF inv cur(1)] by (auto simp: pcb_ok_def)
  have pt: "PT k4 = exited_table k cur (cs cur) ev"
    using self by (cases "PT k cur") (auto simp: k4_def k3(3) k2(3) pt1 exited_table_def fun_eq_iff)
  have f4: "pheap k4 = pheap k3" "pcb_freelist k4 = pcb_freelist k3" "process_count k4 = process_count k3"
    by (simp_all add: k4_def)
  have "pinv (k4\<lparr>monitor := mn\<rparr>) (adopted cs cur) (exited_to (parent (PT k cur)) cur (handed es cur)) ps"
    by (rule exit_pinv [OF inv cur init boot]) (simp_all add: pt f4 k3(2,6,7) k2(5,6) fr1)
  moreover have "stream_inv (k4\<lparr>monitor := mn\<rparr>) use fs2"
    using k3 by (intro stream_inv_cong [OF k2(2)]) (auto simp: k4_def)
  moreover have "state (tcb (ksched mn) t) = READY"
    if "parent (PT k cur) = Some p" "t \<noteq> Thread j" "blocked (ksched (monitor k)) t"
      "waiting {child_exit p} Q (monitor k) t" for p t
  proof -
    have "waiting CV Q (monitor k) t" using that(1,4) k3(10) by (auto simp: waiting_def)
    then have "state (tcb (ksched (monitor k3)) t) = READY"
      using k3(9) that(3) k2(7) fr1(4) by (simp add: notified_def)
    then show ?thesis using mn(4) that(2) by blast
  qed
  moreover have "kernel_sem (monitor k3) = kernel_sem (monitor k)"
    using k3(9) k2(7) fr1(4) by (simp add: notified_def)
  ultimately show ?thesis using ret pt mn(2,3) by auto
qed

end
