(* ===== verification/Proc_Props.thy ===== *)
theory Proc_Props
  imports Proc_Tree
begin

text \<open>
  Initialisation of the process table and the properties of the process system calls. The
  lemmas of \<open>Proc_Tree\<close> carry the proofs; a concrete kernel with one process serves the
  witnesses.
\<close>

section \<open>Initialisation\<close>

definition nodes_upto :: "(pnode, nat option) rlheap \<Rightarrow> nat \<Rightarrow> bool" where
  "nodes_upto h n \<longleftrightarrow>
     layout h (Children_list ` {..<n} \<union> Exited_list ` {..<n}) (\<lambda>_. [])
       (Children_node ` {..<n} \<union> Exited_node ` {..<n}) \<and>
     (\<forall>q < n. rl_obj h (Children_node q) = Some q \<and> rl_obj h (Exited_node q) = Some q)"

lemma init_PCB_heap:
  "pheap (initialize_PCB k p) = rlnode_init (rlnode_init (rlnode_init (rlnode_init (pheap k)
      (Children_list p) None) (Exited_list p) None) (Children_node p) (Some p)) (Exited_node p) (Some p)"
  by (simp add: initialize_PCB_def Let_def)

lemma init_PCB_nodes:
  assumes "nodes_upto (pheap k) n"
  shows "nodes_upto (pheap (initialize_PCB k n)) (Suc n)"
proof -
  let ?S = "Children_list ` {..<n} \<union> Exited_list ` {..<n}"
  let ?F = "Children_node ` {..<n} \<union> Exited_node ` {..<n}"
  let ?h1 = "rlnode_init (pheap k) (Children_list n) None"
  let ?h2 = "rlnode_init ?h1 (Exited_list n) None"
  let ?h3 = "rlnode_init ?h2 (Children_node n) (Some n)"
  have "layout (pheap k) ?S (\<lambda>_. []) ?F" using assms by (simp add: nodes_upto_def)
  then have "layout ?h1 (insert (Children_list n) ?S) ((\<lambda>_. [])(Children_list n := [])) ?F"
    by (rule layout_init_sentinel) auto
  then have "layout ?h1 (insert (Children_list n) ?S) (\<lambda>_. []) ?F" by (simp add: fun_upd_idem)
  then have "layout ?h2 (insert (Exited_list n) (insert (Children_list n) ?S))
      ((\<lambda>_. [])(Exited_list n := [])) ?F" by (rule layout_init_sentinel) auto
  then have "layout ?h2 (insert (Exited_list n) (insert (Children_list n) ?S)) (\<lambda>_. []) ?F"
    by (simp add: fun_upd_idem)
  then have "layout ?h3 (insert (Exited_list n) (insert (Children_list n) ?S)) (\<lambda>_. [])
      (insert (Children_node n) ?F)" by (rule layout_init_node) auto
  then have "layout (pheap (initialize_PCB k n)) (insert (Exited_list n) (insert (Children_list n) ?S)) (\<lambda>_. [])
      (insert (Exited_node n) (insert (Children_node n) ?F))"
    unfolding init_PCB_heap by (rule layout_init_node) auto
  moreover have "insert (Exited_list n) (insert (Children_list n) ?S) =
      Children_list ` {..<Suc n} \<union> Exited_list ` {..<Suc n}"
    "insert (Exited_node n) (insert (Children_node n) ?F) =
      Children_node ` {..<Suc n} \<union> Exited_node ` {..<Suc n}" by (auto simp: less_Suc_eq)
  ultimately show ?thesis
    using assms by (auto simp: nodes_upto_def init_PCB_heap less_Suc_eq rlnode_init_def rlnode_new_def)
qed

lemma init_PCBs_append: "initialize_PCBs (is @ js) k = initialize_PCBs js (initialize_PCBs is k)"
  by (induction "is" arbitrary: k) simp_all

lemma init_PCBs_nodes: "nodes_upto (pheap (initialize_PCBs [0..<n] k)) n"
proof (induction n)
  case 0
  show ?case by (simp add: nodes_upto_def layout_def)
next
  case (Suc n)
  then show ?case using init_PCB_nodes by (simp add: init_PCBs_append)
qed

lemma init_PCBs_table:
  "PT (initialize_PCBs is k) p =
     (if p \<in> set is then (PT k p)\<lparr>pstate := FREE, argl := 0, args := None, FIDT := replicate MAX_FILEID None\<rparr>
      else PT k p)"
  by (induction "is" arbitrary: k) (auto simp: initialize_PCB_def Let_def)

lemma build_freelist_frame:
  "pheap (build_freelist n k) = pheap k \<and> FT (build_freelist n k) = FT k \<and>
   fheap (build_freelist n k) = fheap k \<and> monitor (build_freelist n k) = monitor k \<and>
   devs (build_freelist n k) = devs k \<and>
   (\<forall>p. pstate (PT (build_freelist n k) p) = pstate (PT k p) \<and>
      FIDT (PT (build_freelist n k) p) = FIDT (PT k p))"
  by (induction n arbitrary: k) (simp_all add: Let_def)

lemma build_freelist_chain:
  assumes "chain k (pcb_freelist k) [n..<N]" and "n \<le> N"
  shows "chain (build_freelist n k) (pcb_freelist (build_freelist n k)) [0..<N]"
  using assms
proof (induction n arbitrary: k)
  case (Suc n)
  let ?k = "(upd_pcb k n (\<lambda>b. b\<lparr>parent := pcb_freelist k\<rparr>))\<lparr>pcb_freelist := Some n\<rparr>"
  have "chain ?k a [Suc n..<N] = chain k a [Suc n..<N]" for a by (rule chain_cong) auto
  then have "chain ?k (pcb_freelist ?k) [n..<N]"
    using Suc(2,3) by (simp add: upt_conv_Cons)
  then show ?case using Suc(1) [of ?k] Suc(3) by (simp add: Let_def)
qed simp

lemma initialize_processes_pinv:
  "\<exists>k'. initialize_processes k = Some k' \<and> pinv k' (\<lambda>_. []) (\<lambda>_. []) [1..<MAX_PROC] \<and>
     (\<forall>p < MAX_PROC. FIDT (PT k' p) = replicate MAX_FILEID None) \<and> pstate (PT k' 0) = ALIVE"
proof -
  define k1 where "k1 = initialize_PCBs [0..<MAX_PROC] k"
  define k2 where "k2 = (build_freelist MAX_PROC (k1\<lparr>pcb_freelist := None\<rparr>))\<lparr>process_count := 0\<rparr>"
  note fr = build_freelist_frame [of MAX_PROC "k1\<lparr>pcb_freelist := None\<rparr>"]
  have upt: "[0..<MAX_PROC] = 0 # [1..<MAX_PROC]" using upt_conv_Cons [of 0 MAX_PROC] by (simp add: MAX_PROC_def)
  have "chain (build_freelist MAX_PROC (k1\<lparr>pcb_freelist := None\<rparr>))
      (pcb_freelist (build_freelist MAX_PROC (k1\<lparr>pcb_freelist := None\<rparr>))) [0..<MAX_PROC]"
    by (rule build_freelist_chain) simp_all
  moreover have "chain k2 a xs = chain (build_freelist MAX_PROC (k1\<lparr>pcb_freelist := None\<rparr>)) a xs" for a xs
    by (rule chain_cong) (simp add: k2_def)
  ultimately have ch: "pcb_freelist k2 = Some 0" "chain k2 (parent (PT k2 0)) [1..<MAX_PROC]"
    unfolding upt by (simp_all add: k2_def)
  have t2: "pstate (PT k2 p) = FREE" "FIDT (PT k2 p) = replicate MAX_FILEID None" if "p < MAX_PROC" for p
    using fr that by (simp_all add: k2_def k1_def init_PCBs_table)
  have "nodes_upto (pheap k2) MAX_PROC" using fr init_PCBs_nodes by (simp add: k2_def k1_def)
  moreover have "plists (\<lambda>_. []) (\<lambda>_. []) = (\<lambda>_. [])"
  proof
    show "plists (\<lambda>_. []) (\<lambda>_. []) n = []" for n by (cases n) simp_all
  qed
  ultimately have rep: "prep (pheap k2) (\<lambda>_. []) (\<lambda>_. [])"
    by (simp add: prep_def nodes_upto_def psentinels_def punlinked_def listed_def)
  define k3 where "k3 = exec_args (exec_link (snd (acquire_PCB k2)) 0 0) 0 None 0 None"
  have pt3: "pstate (PT k3 p) = (if p = 0 then ALIVE else pstate (PT k2 p))"
    "parent (PT k3 p) = (if p = 0 then None else parent (PT k2 p))" "FIDT (PT k3 p) = FIDT (PT k2 p)" for p
    by (simp_all add: k3_def acquire_PCB_Some [OF ch(1)] exec_link_def exec_args_def get_pid_def)
  have f3: "pheap k3 = pheap k2" "pcb_freelist k3 = parent (PT k2 0)" "process_count k3 = 1"
    by (simp_all add: k3_def acquire_PCB_Some [OF ch(1)] exec_link_def exec_args_def get_pid_def)
       (simp add: k2_def)
  have "initialize_processes k = Some k3"
    by (simp add: initialize_processes_def sys_Exec_def acquire_PCB_Some [OF ch(1)] get_pid_def
        flip: k1_def) (simp add: k3_def k2_def [symmetric] acquire_PCB_Some [OF ch(1)] Let_def get_pid_def)
  moreover have "pinv k3 (\<lambda>_. []) (\<lambda>_. []) [1..<MAX_PROC]"
  proof -
    have "chain k3 a [1..<MAX_PROC] = chain k2 a [1..<MAX_PROC]" for a
      by (rule chain_cong) (simp add: pt3)
    then have "ppool k3 [1..<MAX_PROC]" using ch(2) f3(2) by (auto simp: ppool_def)
    moreover have "family k3 (\<lambda>_. []) (\<lambda>_. [])" using t2 by (auto simp: family_def pt3)
    moreover have "pcb_ok k3 p" if "p < MAX_PROC" for p using t2 [OF that] by (simp add: pcb_ok_def pt3)
    ultimately show ?thesis using rep t2 f3 by (auto simp: pinv_def pt3 MAX_PROC_def)
  qed
  ultimately show ?thesis using t2 by (auto simp: pt3)
qed

section \<open>A concrete kernel\<close>

lemma init_fcbs_frame:
  "pheap (init_fcbs is k) = pheap k \<and> pcb_freelist (init_fcbs is k) = pcb_freelist k \<and>
   process_count (init_fcbs is k) = process_count k \<and> monitor (init_fcbs is k) = monitor k"
  by (induction "is" arbitrary: k) (simp_all add: Let_def)

lemma initialize_files_frame:
  "pheap (initialize_files k) = pheap k" "pcb_freelist (initialize_files k) = pcb_freelist k"
  "process_count (initialize_files k) = process_count k" "monitor (initialize_files k) = monitor k"
  "PT (initialize_files k) = PT k"
  using init_fcbs_frame [of "[0..<MAX_FILES]"] by (simp_all add: initialize_files_def init_fcbs_PT)

definition ex_mon :: "smach \<Rightarrow> kmon" where
  "ex_mon m = \<lparr>kernel_sem = 0, ksched = sch m,
     kcvs = \<lparr>waitset = (\<lambda>_. None), waiter = (\<lambda>_. \<lparr>thread = Thread 0, signalled = False, removed = False\<rparr>),
       wheap = \<lparr>rl_obj = id, rl_prev = id, rl_next = id\<rparr>\<rparr>\<rparr>"

lemma ex_mon_ok: "sinv m \<Longrightarrow> mon_ok m (\<lambda>_. []) (ex_mon m)"
  by (simp add: mon_ok_def ex_mon_def cvs_ok_def)

definition no_time :: itimer where "no_time = \<lparr>tv_sec = 0, tv_nsec = 0\<rparr>"

definition ex_switch :: smach where
  "ex_switch = ex_ready\<lparr>sch := fst (the (yield (sch ex_ready) 0 SCHED_IDLE 0 no_time)),
     pc := (pc ex_ready)(0 := Switch)\<rparr>"

definition ex_run :: smach where
  "ex_run = ex_switch\<lparr>sch := the (gain (sch ex_switch) 0 True no_time), pc := (pc ex_switch)(0 := Run)\<rparr>"

lemma gain_current: "gain s c pre r = Some s' \<Longrightarrow> current_thread s' = current_thread s"
  by (auto simp: gain_def Let_def preempt_on_eq release_TCB_def split: if_splits bind_splits Thread_state.splits)

lemma ex_run_facts: "sinv ex_run \<and> thread_at ex_run 0 = Thread 0 \<and> 0 \<in> up ex_run \<and> pc ex_run 0 = Run"
proof -
  obtain q w where inv: "sinv_qw ex_ready q w" by (rule reach_sinv [OF ex_ready_reach])
  have q: "q = [Thread 0]" by (rule rep_queue_unique [OF sinv_qwD(1) [OF inv] ex_ready_rep])
  show ?thesis
  proof (rule yield_sinv [OF inv, of 0 SCHED_IDLE 0 no_time])
    show "0 \<in> up ex_ready" "pc ex_ready 0 \<in> {Run, Slept}" using ex_cores by simp_all
    fix s' q' w'
    assume s': "yield (sch ex_ready) 0 SCHED_IDLE 0 no_time = Some (s', preemption (sch ex_ready) 0)"
      "sinv_qw (ex_ready\<lparr>sch := s', pc := (pc ex_ready)(0 := Switch)\<rparr>) q' w'"
      "q \<noteq> [] \<Longrightarrow> current_thread s' 0 = hd q \<and> (\<exists>zs. q' = tl q @ zs)"
    then have sw: "sinv_qw ex_switch q' w'" "sch ex_switch = s'" "current_thread s' 0 = Thread 0"
      using q by (simp_all add: ex_switch_def)
    show ?thesis
    proof (rule gain_sinv [OF sw(1), of 0 True no_time])
      show "0 \<in> up ex_switch" "pc ex_switch 0 = Switch" using ex_cores by (simp_all add: ex_switch_def)
      fix s2 q2
      assume g: "gain (sch ex_switch) 0 True no_time = Some s2"
        "sinv_qw (ex_switch\<lparr>sch := s2, pc := (pc ex_switch)(0 := Run)\<rparr>) q2 w'"
      then show ?thesis using gain_current [OF g(1)] sw(2,3) ex_cores
        by (auto simp: ex_run_def sinv_def ex_switch_def)
    qed
  qed
qed

lemma ex_ready_live1: "\<not> live (sch ex_ready) (Thread 1)"
proof (rule wakeup_sinv [OF ex_spawned_sinv ex_live, of 0])
  fix s' r assume "wakeup (sch ex_spawned) 0 (Thread 0) = Some (s', r)" "live s' = live (sch ex_spawned)"
  moreover have "\<not> live (sch ex_spawned) (Thread 1)"
    by (simp add: ex_spawned_def spawn_thread_def ex_idle_def ex_enter_def ex_start_def
        run_scheduler_init_def preempt_on_eq initialize_scheduler_def Let_def)
  ultimately show ?thesis by (simp add: ex_ready_def)
qed

text \<open>The kernel after \<open>initialize_processes\<close> and \<open>initialize_files\<close>, then with process 1, then
  with its child 2, and then after the child has exited with value 7.\<close>

definition ex_booted :: kernel where
  "ex_booted = (initialize_files (the (initialize_processes ex_kernel)))\<lparr>monitor := ex_mon ex_run\<rparr>"

definition ex_init :: kernel where
  "ex_init = snd (the (sys_Exec ex_booted 0 0 None 0 None (Thread 1)))"

definition ex_two :: kernel where
  "ex_two = snd (the (sys_Exec ex_init 0 1 None 0 None (Thread 1)))"

definition ex_zombie :: kernel where
  "ex_zombie = the (exit_rest ex_two 0 2 7 0)"

lemma ex_booted_inv:
  "pinv ex_booted (\<lambda>_. []) (\<lambda>_. []) [1..<MAX_PROC] \<and> stream_inv ex_booted (\<lambda>_. 0) [0..<MAX_FILES] \<and>
   pstate (PT ex_booted 0) = ALIVE \<and> monitor ex_booted = ex_mon ex_run"
proof -
  obtain k' where k': "initialize_processes ex_kernel = Some k'"
    "pinv k' (\<lambda>_. []) (\<lambda>_. []) [1..<MAX_PROC]" "pstate (PT k' 0) = ALIVE"
    "\<forall>p < MAX_PROC. FIDT (PT k' p) = replicate MAX_FILEID None"
    using initialize_processes_pinv by blast
  have "pinv ex_booted (\<lambda>_. []) (\<lambda>_. []) [1..<MAX_PROC]"
    by (rule pinv_cong [OF k'(2)]) (simp_all add: ex_booted_def k'(1) initialize_files_frame)
  moreover have "stream_inv (initialize_files k') (\<lambda>_. 0) [0..<MAX_FILES]"
    using k'(4) by (intro initialize_files_inv) auto
  then have "stream_inv ex_booted (\<lambda>_. 0) [0..<MAX_FILES]"
    by (rule stream_inv_cong) (simp_all add: ex_booted_def k'(1))
  ultimately show ?thesis using k'(1,3) by (simp add: ex_booted_def initialize_files_frame)
qed

lemma ex_init_facts:
  "sys_Exec ex_booted 0 0 None 0 None (Thread 1) = Some (1, ex_init) \<and>
   pinv ex_init (\<lambda>_. []) (\<lambda>_. []) [2..<MAX_PROC] \<and> stream_inv ex_init (\<lambda>_. 0) [0..<MAX_FILES] \<and>
   pstate (PT ex_init 1) = ALIVE \<and> monitor ex_init = ex_mon ex_run"
proof -
  have upt: "[1..<MAX_PROC] = 1 # [2..<MAX_PROC]"
    using upt_conv_Cons [of 1 MAX_PROC] by (simp add: MAX_PROC_def numeral_2_eq_2 del: upt_Suc)
  have inv: "pinv ex_booted (\<lambda>_. []) (\<lambda>_. []) (1 # [2..<MAX_PROC])" "pstate (PT ex_booted 0) = ALIVE"
    "stream_inv ex_booted (\<lambda>_. 0) [0..<MAX_FILES]" "monitor ex_booted = ex_mon ex_run"
    using ex_booted_inv unfolding upt by auto
  have z: "0 < MAX_PROC" by (simp add: MAX_PROC_def)
  have "sinv ex_run" "sch ex_run = ksched (monitor ex_booted)"
    using ex_run_facts inv(4) by (simp_all add: ex_mon_def)
  then obtain k' where k': "sys_Exec ex_booted 0 0 None 0 None (Thread 1) = Some (1, k')"
     "pinv k' (\<lambda>_. []) (\<lambda>_. []) [2..<MAX_PROC]" "stream_inv k' (\<lambda>_. 0) [0..<MAX_FILES]"
     "PT k' = (PT ex_booted)(1 := new_pcb ex_booted 0 1 None 0 None (Thread 1))"
     "monitor k' = monitor ex_booted"
    using sys_Exec_Some [OF inv(1,3) z inv(2), of ex_run None 1 0 0 None] by auto
  then show ?thesis using inv(4) by (simp add: ex_init_def new_pcb_def)
qed

lemma ex_two_facts:
  "pinv ex_two ((\<lambda>_. [])(1 := [2])) (\<lambda>_. []) [3..<MAX_PROC] \<and> stream_inv ex_two (\<lambda>_. 0) [0..<MAX_FILES] \<and>
   pstate (PT ex_two 1) = ALIVE \<and> pstate (PT ex_two 2) = ALIVE \<and> parent (PT ex_two 2) = Some 1 \<and>
   monitor ex_two = ex_mon ex_run"
proof -
  have upt: "[2..<MAX_PROC] = 2 # [3..<MAX_PROC]"
    using upt_conv_Cons [of 2 MAX_PROC] by (simp add: MAX_PROC_def numeral_3_eq_3 numeral_2_eq_2 del: upt_Suc)
  have inv: "pinv ex_init (\<lambda>_. []) (\<lambda>_. []) (2 # [3..<MAX_PROC])" "pstate (PT ex_init 1) = ALIVE"
    "stream_inv ex_init (\<lambda>_. 0) [0..<MAX_FILES]" "monitor ex_init = ex_mon ex_run"
    using ex_init_facts unfolding upt by auto
  have z: "1 < MAX_PROC" by (simp add: MAX_PROC_def)
  have "sinv ex_run" "sch ex_run = ksched (monitor ex_init)"
    using ex_run_facts inv(4) by (simp_all add: ex_mon_def)
  then obtain k' where k': "sys_Exec ex_init 0 1 None 0 None (Thread 1) = Some (2, k')"
     "pinv k' ((\<lambda>_. [])(1 := [2])) (\<lambda>_. []) [3..<MAX_PROC]" "stream_inv k' (\<lambda>_. 0) [0..<MAX_FILES]"
     "PT k' = (PT ex_init)(2 := new_pcb ex_init 1 2 None 0 None (Thread 1))"
     "monitor k' = monitor ex_init"
    using sys_Exec_Some [OF inv(1,3) z inv(2), of ex_run None 1 0 0 None] by auto
  then show ?thesis using inv(2,4) by (simp add: ex_two_def new_pcb_def)
qed

lemma ex_zombie_facts:
  "\<exists>fs. exit_rest ex_two 0 2 7 0 = Some ex_zombie \<and>
   pinv ex_zombie ((\<lambda>_. [])(1 := [2])) ((\<lambda>_. [])(1 := [2])) [3..<MAX_PROC] \<and>
   stream_inv ex_zombie (\<lambda>_. 0) fs \<and> exitval (PT ex_zombie 2) = 7"
proof -
  have z: "2 < MAX_PROC" by (simp add: MAX_PROC_def)
  have f: "pinv ex_two ((\<lambda>_. [])(1 := [2])) (\<lambda>_. []) [3..<MAX_PROC]" "stream_inv ex_two (\<lambda>_. 0) [0..<MAX_FILES]"
    "pstate (PT ex_two 2) = ALIVE" "pstate (PT ex_two 1) = ALIVE" "parent (PT ex_two 2) = Some 1"
    "monitor ex_two = ex_mon ex_run" using ex_two_facts by auto
  have "mon_ok ex_run (\<lambda>_. []) (monitor ex_two)" using ex_mon_ok ex_run_facts f(6) by simp
  from exit_rest_spec [OF f(1,2) z f(3,4) _ this, of 0 0 7 0] ex_run_facts
  have "\<exists>k' fs'. exit_rest ex_two 0 2 7 0 = Some k' \<and>
     pinv k' (adopted ((\<lambda>_. [])(1 := [2])) 2) (exited_to (Some 1) 2 (handed (\<lambda>_. []) 2)) [3..<MAX_PROC] \<and>
     stream_inv k' (\<lambda>_. 0) fs' \<and> PT k' = exited_table ex_two 2 [] 7" using f(5) by auto
  then show ?thesis
    by (auto simp: ex_zombie_def adopted_def exited_to_def handed_def exited_table_def)
qed

section \<open>Properties\<close>

lemma ex_exec_facts:
  "pinv (ex_init\<lparr>monitor := ex_mon ex_ready\<rparr>) (\<lambda>_. []) (\<lambda>_. []) (2 # [3..<MAX_PROC])"
  "stream_inv (ex_init\<lparr>monitor := ex_mon ex_ready\<rparr>) (\<lambda>_. 0) [0..<MAX_FILES]"
  "1 < MAX_PROC" "pstate (PT (ex_init\<lparr>monitor := ex_mon ex_ready\<rparr>) 1) = ALIVE"
  "sinv ex_ready" "sch ex_ready = ksched (monitor (ex_init\<lparr>monitor := ex_mon ex_ready\<rparr>))"
  "\<not> live (sch ex_ready) (Thread 1)"
proof -
  let ?k = "ex_init\<lparr>monitor := ex_mon ex_ready\<rparr>"
  have upt: "[2..<MAX_PROC] = 2 # [3..<MAX_PROC]"
    using upt_conv_Cons [of 2 MAX_PROC] by (simp add: MAX_PROC_def numeral_3_eq_3 numeral_2_eq_2 del: upt_Suc)
  have "pinv ex_init (\<lambda>_. []) (\<lambda>_. []) (2 # [3..<MAX_PROC])" using ex_init_facts unfolding upt by simp
  then show "pinv ?k (\<lambda>_. []) (\<lambda>_. []) (2 # [3..<MAX_PROC])" by (rule pinv_cong) simp_all
  have "stream_inv ex_init (\<lambda>_. 0) [0..<MAX_FILES]" using ex_init_facts by simp
  then show "stream_inv ?k (\<lambda>_. 0) [0..<MAX_FILES]" by (rule stream_inv_cong) simp_all
  show "pstate (PT ?k 1) = ALIVE" using ex_init_facts by simp
  show "1 < MAX_PROC" by (simp add: MAX_PROC_def)
  show "sinv ex_ready" "sch ex_ready = ksched (monitor ?k)"
    using scheduler.inv_reach [OF ex_ready_reach] by (simp_all add: ex_mon_def)
  show "\<not> live (sch ex_ready) (Thread 1)" by (rule ex_ready_live1)
qed

text \<open>C11: \<open>Exec\<close>. Without a free PCB it returns NOPROC and changes nothing. Otherwise it returns the
  pid of the first free PCB, which becomes an ALIVE process with the given task, a copy of the
  first \<open>argl\<close> bytes of the argument and, unless it is one of the parentless processes 0 and 1, the
  caller as parent and the caller's file id table; the new process is the first child of the
  caller, its main thread is READY, and the process tree and the stream counts stay consistent.\<close>

theorem sys_Exec_correct:
  assumes "pinv k cs es ps" and "stream_inv k use fs" and "cur < MAX_PROC" and "pstate (PT k cur) = ALIVE"
    and "sinv m" and "sch m = ksched (monitor k)" and "call \<noteq> None \<Longrightarrow> \<not> live (sch m) (Thread j)"
  shows "case ps of
       [] \<Rightarrow> sys_Exec k c cur call al arg (Thread j) = Some (NOPROC, k)
     | newp # ps' \<Rightarrow> (\<exists>k'. sys_Exec k c cur call al arg (Thread j) = Some (int newp, k') \<and>
         pinv k' (if newp \<le> 1 then cs else cs(cur := newp # cs cur)) es ps' \<and> stream_inv k' use fs \<and>
         PT k' = (PT k)(newp := new_pcb k cur newp call al arg (Thread j)) \<and>
         (if call = None then monitor k' = monitor k
          else state (tcb (ksched (monitor k')) (Thread j)) = READY))"
proof (cases ps)
  case Nil
  then have "acquire_PCB k = (None, k)" using pinvD(2) [OF assms(1)] pcbs.acquire_empty by blast
  then show ?thesis using Nil by (simp add: sys_Exec_def get_pid_def)
next
  case (Cons newp ps')
  then have "pinv k cs es (newp # ps')" using assms(1) by simp
  from sys_Exec_Some [OF this assms(2-7)] show ?thesis unfolding Cons list.case .
qed

theorem sys_Exec_correct_witness:
  "\<exists>k'. sys_Exec (ex_init\<lparr>monitor := ex_mon ex_ready\<rparr>) 0 1 (Some 5) 2 (Some [7, 8, 9]) (Thread 1) =
      Some (2, k') \<and> parent (PT k' 2) = Some 1 \<and> args (PT k' 2) = Some [7, 8] \<and>
      state (tcb (ksched (monitor k')) (Thread 1)) = READY"
proof -
  let ?k = "ex_init\<lparr>monitor := ex_mon ex_ready\<rparr>"
  obtain k' where k': "sys_Exec ?k 0 1 (Some 5) 2 (Some [7, 8, 9]) (Thread 1) = Some (2, k')"
    "PT k' = (PT ?k)(2 := new_pcb ?k 1 2 (Some 5) 2 (Some [7, 8, 9]) (Thread 1))"
    "state (tcb (ksched (monitor k')) (Thread 1)) = READY"
    using sys_Exec_correct [OF ex_exec_facts(1-6), of "Some 5" 1 0 2 "Some [7, 8, 9]"] ex_exec_facts(7)
    unfolding list.case of_nat_numeral by (metis option.distinct(1))
  then show ?thesis by (simp add: new_pcb_def)
qed

text \<open>C12: \<open>WaitChild\<close>. For a pid: the exit value of that child if it is a zombie of the caller, which
  is then released; the caller sleeps if the child is alive; NOPROC for everything else, out of
  range pids included. For NOPROC: the most recently exited child is reaped, the caller sleeps if
  it has only living children, and gets NOPROC if it has none. The assertion never fails.\<close>

theorem sys_WaitChild_correct:
  assumes "pinv k cs es ps" and "cur < MAX_PROC"
  shows "\<exists>r k'. sys_WaitChild k cur cpid = Some (r, k') \<and>
     (if cpid = NOPROC then
        (case es cur of
           q # qs \<Rightarrow> r = Done (int q, Some (exitval (PT k q))) \<and> reaped k cs es ps cur q k'
         | [] \<Rightarrow> r = (if cs cur = [] then Done (NOPROC, None) else Block) \<and> k' = k)
      else
        (if 0 \<le> cpid \<and> nat cpid \<in> set (es cur)
         then r = Done (cpid, Some (exitval (PT k (nat cpid)))) \<and> reaped k cs es ps cur (nat cpid) k'
         else r = (if 0 \<le> cpid \<and> nat cpid \<in> set (cs cur) then Block else Done (NOPROC, None)) \<and> k' = k))"
proof (cases "cpid = NOPROC")
  case True
  then show ?thesis using wait_any_spec [OF assms] by (cases "es cur") (auto simp: sys_WaitChild_def)
next
  case False
  note W = wait_specific_spec [OF assms, of cpid]
  consider q where "cpid = int q" "q \<in> set (es cur)" | q where "cpid = int q" "q \<in> set (cs cur) - set (es cur)"
    | "\<forall>q. cpid = int q \<longrightarrow> q \<notin> set (cs cur)" by blast
  then show ?thesis
  proof cases
    case 3
    then have "\<not> (0 \<le> cpid \<and> nat cpid \<in> set (cs cur))" by (metis int_nat_eq)
    moreover have "\<not> (0 \<le> cpid \<and> nat cpid \<in> set (es cur))"
      using calculation es_subset_cs [OF assms] by blast
    ultimately show ?thesis using W 3 False by (simp add: sys_WaitChild_def)
  qed (use W False in \<open>auto simp: sys_WaitChild_def\<close>)
qed

theorem sys_WaitChild_correct_witness:
  "\<exists>k'. sys_WaitChild ex_zombie 1 2 = Some (Done (2, Some 7), k') \<and> pstate (PT k' 2) = FREE"
proof -
  have z: "pinv ex_zombie ((\<lambda>_. [])(1 := [2])) ((\<lambda>_. [])(1 := [2])) [3..<MAX_PROC]"
    "exitval (PT ex_zombie 2) = 7" using ex_zombie_facts by auto
  have "1 < MAX_PROC" by (simp add: MAX_PROC_def)
  from sys_WaitChild_correct [OF z(1) this, of 2] z(2) show ?thesis
    by (auto simp: NOPROC_def reaped_def)
qed

lemma boot_task_reaps:
  assumes "pinv k cs es ps" and "stream_inv k use fs" and "1 < MAX_PROC" and "pstate (PT k 1) = ALIVE"
  obtains k1 where "pinv k1 (cs(1 := filter (\<lambda>q. q \<notin> set (es 1)) (cs 1))) (es(1 := [])) (rev (es 1) @ ps)"
    "stream_inv k1 use fs" "PT k1 1 = PT k 1" "monitor k1 = monitor k"
    "sys_Exit k c 1 ev ct = (if set (cs 1) \<subseteq> set (es 1)
       then map_option (\<lambda>k2. (Done (), k2)) (exit_rest k1 c 1 ev ct) else Some (Block, k1))"
proof -
  obtain k1 where k1: "init_reap k 1 = Some (if set (cs 1) \<subseteq> set (es 1) then Done () else Block, k1)"
     "pinv k1 (cs(1 := filter (\<lambda>q. q \<notin> set (es 1)) (cs 1))) (es(1 := [])) (rev (es 1) @ ps)"
     "\<forall>p. p \<notin> set (es 1) \<longrightarrow> PT k1 p = PT k p"
     "\<forall>p. FIDT (PT k1 p) = FIDT (PT k p)" "FT k1 = FT k" "fheap k1 = fheap k" "monitor k1 = monitor k"
    using init_reap_spec [OF assms(1,3)] by blast
  have s1: "stream_inv k1 use fs" by (rule stream_inv_cong [OF assms(2)]) (use k1 in auto)
  have "1 \<notin> set (es 1)" using pinvD(5) [OF assms(1), of 1 1] assms(3,4) by simp
  then have p1: "PT k1 1 = PT k 1" using k1(3) by blast
  have e: "sys_Exit k c 1 ev ct = (if set (cs 1) \<subseteq> set (es 1)
      then map_option (\<lambda>k2. (Done (), k2)) (exit_rest k1 c 1 ev ct) else Some (Block, k1))"
    using k1(1) by (auto simp: sys_Exit_def sys_GetPid_def get_pid_def map_conv_bind_option comp_def)
  show ?thesis by (rule that [OF k1(2) s1 p1 k1(7) e])
qed

text \<open>C9: \<open>Exit\<close>. The boot task (process 1) reaps its zombies and sleeps while it has a living child.
  Otherwise the call goes through without a failed assertion: the process becomes a zombie with
  the exit value, all its file ids are closed, its children become children of process 1 and its
  zombies are handed over, it stands first in its parent's list of exited children, the
  threads that sleep in the parent's \<open>WaitChild\<close> are READY, its thread is EXITED, and the process
  tree and the stream counts stay consistent.\<close>

theorem sys_Exit_correct:
  assumes "pinv k cs es ps" and "stream_inv k use fs" and "cur < MAX_PROC" and "pstate (PT k cur) = ALIVE"
    and "pstate (PT k 1) = ALIVE" and "mon_ok m Q (monitor k)" and "c \<in> up m" and "pc m c = Run"
    and "thread_at m c = Thread j"
  shows "if cur = 1 \<and> \<not> set (cs 1) \<subseteq> set (es 1) then
       (\<exists>k'. sys_Exit k c cur ev ct = Some (Block, k') \<and> stream_inv k' use fs \<and>
          pinv k' (cs(1 := filter (\<lambda>q. q \<notin> set (es 1)) (cs 1))) (es(1 := [])) (rev (es 1) @ ps))
     else
       (\<exists>k' fs' cs' es' ps'. sys_Exit k c cur ev ct = Some (Done (), k') \<and>
          pinv k' cs' es' ps' \<and> stream_inv k' use fs' \<and>
          PT k' cur = (PT k cur)\<lparr>pstate := ZOMBIE, exitval := ev, main_thread := None, args := None,
             FIDT := replicate MAX_FILEID None\<rparr> \<and>
          (\<forall>q. q \<noteq> cur \<longrightarrow> cur \<noteq> 1 \<longrightarrow>
             PT k' q = (if q \<in> set (cs cur) then (PT k q)\<lparr>parent := Some 1\<rparr> else PT k q)) \<and>
          (\<forall>p. parent (PT k cur) = Some p \<longrightarrow> hd (es' p) = cur) \<and> cs' cur = [] \<and>
          state (tcb (ksched (monitor k')) (Thread j)) = EXITED \<and>
          (\<forall>p t. parent (PT k cur) = Some p \<longrightarrow> t \<noteq> Thread j \<longrightarrow> blocked (ksched (monitor k)) t \<longrightarrow>
             waiting {child_exit p} Q (monitor k) t \<longrightarrow> state (tcb (ksched (monitor k')) t) = READY))"
proof (cases "cur = 1")
  case False
  then obtain k' fs' where k': "exit_rest k c cur ev ct = Some k'"
     "pinv k' (adopted cs cur) (exited_to (parent (PT k cur)) cur (handed es cur)) ps"
     "stream_inv k' use fs'" "PT k' = exited_table k cur (cs cur) ev"
     "state (tcb (ksched (monitor k')) (Thread j)) = EXITED"
     "\<forall>p t. parent (PT k cur) = Some p \<longrightarrow> t \<noteq> Thread j \<longrightarrow> blocked (ksched (monitor k)) t \<longrightarrow>
        waiting {child_exit p} Q (monitor k) t \<longrightarrow> state (tcb (ksched (monitor k')) t) = READY"
    using exit_rest_spec [OF assms(1-5) _ assms(6-9), of ev ct] by blast
  have "sys_Exit k c cur ev ct = Some (Done (), k')"
    using False k'(1) by (simp add: sys_Exit_def sys_GetPid_def get_pid_def)
  moreover have "PT k' cur = (PT k cur)\<lparr>pstate := ZOMBIE, exitval := ev, main_thread := None, args := None,
      FIDT := replicate MAX_FILEID None\<rparr>"
    "\<forall>q. q \<noteq> cur \<longrightarrow> cur \<noteq> 1 \<longrightarrow>
       PT k' q = (if q \<in> set (cs cur) then (PT k q)\<lparr>parent := Some 1\<rparr> else PT k q)"
    by (simp_all add: k'(4) exited_table_def)
  moreover have "\<forall>p. parent (PT k cur) = Some p \<longrightarrow>
      hd (exited_to (parent (PT k cur)) cur (handed es cur) p) = cur" "adopted cs cur cur = []"
    using False by (simp_all add: exited_to_def adopted_def)
  ultimately show ?thesis using False k'(2,3,5,6) by (simp only: False simp_thms if_False) blast
next
  case True
  define cs1 where "cs1 = cs(1 := filter (\<lambda>q. q \<notin> set (es 1)) (cs 1))"
  obtain k1 where k1: "pinv k1 cs1 (es(1 := [])) (rev (es 1) @ ps)" "stream_inv k1 use fs"
     "PT k1 1 = PT k 1" "monitor k1 = monitor k"
     and e: "sys_Exit k c 1 ev ct = (if set (cs 1) \<subseteq> set (es 1)
      then map_option (\<lambda>k2. (Done (), k2)) (exit_rest k1 c 1 ev ct) else Some (Block, k1))"
    using boot_task_reaps [OF assms(1,2) _ assms(5)] assms(3) True unfolding cs1_def by blast
  show ?thesis
  proof (cases "set (cs 1) \<subseteq> set (es 1)")
    case False
    then show ?thesis using True e k1(1,2) by (simp add: cs1_def)
  next
    case all: True
    then have nil: "cs1 1 = []" by (auto simp: cs1_def filter_empty_conv)
    have par: "parent (PT k 1) = None" using pinvD(6) [OF assms(1,3)] assms(4) True by (simp add: pcb_ok_def)
    have a: "pstate (PT k1 1) = ALIVE" "1 < MAX_PROC" "mon_ok m Q (monitor k1)"
      using k1(3,4) assms(3,5,6) True by auto
    obtain k' fs' where k': "exit_rest k1 c 1 ev ct = Some k'"
       "pinv k' (adopted cs1 1) (exited_to (parent (PT k1 1)) 1 (handed (es(1 := [])) 1)) (rev (es 1) @ ps)"
       "stream_inv k' use fs'" "PT k' = exited_table k1 1 (cs1 1) ev"
       "state (tcb (ksched (monitor k')) (Thread j)) = EXITED"
      using exit_rest_spec [OF k1(1,2) a(2,1,1) nil a(3) assms(7-9), of ev ct] by blast
    have "PT k' 1 = (PT k 1)\<lparr>pstate := ZOMBIE, exitval := ev, main_thread := None, args := None,
      FIDT := replicate MAX_FILEID None\<rparr>" "adopted cs1 1 1 = []"
      using k1(3) nil by (simp_all add: k'(4) exited_table_def adopted_def)
    then show ?thesis using True all e k' par by (simp add: k1(3)) blast
  qed
qed

theorem sys_Exit_correct_witness:
  "\<exists>k'. sys_Exit ex_two 0 2 7 0 = Some (Done (), k') \<and> pstate (PT k' 2) = ZOMBIE \<and> exitval (PT k' 2) = 7"
proof -
  have z: "2 < MAX_PROC" by (simp add: MAX_PROC_def)
  have f: "pinv ex_two ((\<lambda>_. [])(1 := [2])) (\<lambda>_. []) [3..<MAX_PROC]" "stream_inv ex_two (\<lambda>_. 0) [0..<MAX_FILES]"
    "pstate (PT ex_two 2) = ALIVE" "pstate (PT ex_two 1) = ALIVE" "monitor ex_two = ex_mon ex_run"
    using ex_two_facts by auto
  have "mon_ok ex_run (\<lambda>_. []) (monitor ex_two)" using ex_mon_ok ex_run_facts f(5) by simp
  from sys_Exit_correct [OF f(1,2) z f(3,4) this, of 0 0 7 0] ex_run_facts show ?thesis by auto
qed

text \<open>C10: The exit value of a process reaches its parent: right after a child has exited, the
  parent's \<open>WaitChild\<close> on it returns its pid and the value the child passed to \<open>Exit\<close>, and the
  PCB is free again.\<close>

theorem exit_value_delivered:
  assumes "pinv k cs es ps" and "stream_inv k use fs" and "cur < MAX_PROC" and "pstate (PT k cur) = ALIVE"
    and "pstate (PT k 1) = ALIVE" and "mon_ok m Q (monitor k)" and "c \<in> up m" and "pc m c = Run"
    and "thread_at m c = Thread j" and "parent (PT k cur) = Some p"
  shows "\<exists>k1 k2. sys_Exit k c cur ev ct = Some (Done (), k1) \<and>
     sys_WaitChild k1 p (int cur) = Some (Done (int cur, Some ev), k2) \<and> pstate (PT k2 cur) = FREE"
proof -
  have pc: "p < MAX_PROC" "p \<noteq> cur" "cur \<noteq> 1"
    using pinvD(6) [OF assms(1,3)] assms(4,10) by (auto simp: pcb_ok_def)
  obtain k1 where k1: "exit_rest k c cur ev ct = Some k1"
     "pinv k1 (adopted cs cur) (exited_to (Some p) cur (handed es cur)) ps"
     "PT k1 = exited_table k cur (cs cur) ev"
    using exit_rest_spec [OF assms(1-5) _ assms(6-9), of ev ct] pc(3) assms(10) by auto
  have ex: "sys_Exit k c cur ev ct = Some (Done (), k1)"
    using pc(3) k1(1) by (simp add: sys_Exit_def sys_GetPid_def get_pid_def)
  have "cur \<in> set (exited_to (Some p) cur (handed es cur) p)" by (simp add: exited_to_def)
  then obtain k2 where "wait_for_specific_child k1 p (int cur) = (Done (int cur, Some (exitval (PT k1 cur))), k2)"
    "reaped k1 (adopted cs cur) (exited_to (Some p) cur (handed es cur)) ps p cur k2"
    using wait_specific_spec [OF k1(2) pc(1), of "int cur"] by blast
  then have "sys_WaitChild k1 p (int cur) = Some (Done (int cur, Some ev), k2)" "pstate (PT k2 cur) = FREE"
    by (simp_all add: sys_WaitChild_def NOPROC_def k1(3) exited_table_def reaped_def)
  then show ?thesis using ex by blast
qed

theorem exit_value_delivered_witness:
  "\<exists>k1 k2. sys_Exit ex_two 0 2 7 0 = Some (Done (), k1) \<and>
     sys_WaitChild k1 1 2 = Some (Done (2, Some 7), k2) \<and> pstate (PT k2 2) = FREE"
proof -
  have z: "2 < MAX_PROC" by (simp add: MAX_PROC_def)
  have f: "pinv ex_two ((\<lambda>_. [])(1 := [2])) (\<lambda>_. []) [3..<MAX_PROC]" "stream_inv ex_two (\<lambda>_. 0) [0..<MAX_FILES]"
    "pstate (PT ex_two 2) = ALIVE" "pstate (PT ex_two 1) = ALIVE" "monitor ex_two = ex_mon ex_run"
    "parent (PT ex_two 2) = Some 1"
    using ex_two_facts by auto
  have "mon_ok ex_run (\<lambda>_. []) (monitor ex_two)" using ex_mon_ok ex_run_facts f(5) by simp
  from exit_value_delivered [OF f(1,2) z f(3,4) this _ _ _ f(6), of 0 0 7 0] ex_run_facts
  show ?thesis by auto
qed

end
