(* ===== verification/Kernel.thy ===== *)
theory Kernel
  imports Proc_Props
begin

text \<open>
  The system call interface and the start of the kernel: \<^verbatim>\<open>kernel_sys.c\<close> and \<^verbatim>\<open>kernel_sys.h\<close>, the
  system calls that are not implemented (\<^verbatim>\<open>kernel_threads.c\<close>, \<^verbatim>\<open>kernel_socket.c\<close>,
  \<^verbatim>\<open>kernel_pipe.c\<close>), the idle thread and the end of \<open>run_scheduler\<close>, and \<^verbatim>\<open>kernel_init.c\<close>.

  What comes from below the kernel during a call is a record \<open>sys_env\<close>: the block that
  \<open>allocate_thread\<close> returns, the bytes the serial ports deliver, their readiness to take a byte, and
  the clock. The two waiters are the stack variables of the \<open>cv_wait\<close> calls of the thread.
\<close>

section \<open>Calls without an implementation\<close>

definition NOTHREAD :: "tcb_ref option" where "NOTHREAD = None"

definition sys_CreateThread :: "funptr \<Rightarrow> int \<Rightarrow> tcb_ref option" where
  "sys_CreateThread task al = NOTHREAD"

definition sys_ThreadSelf :: "kernel \<Rightarrow> nat \<Rightarrow> tcb_ref option" where
  "sys_ThreadSelf k c = Some (current_thread (ksched (monitor k)) c)"

definition sys_ThreadJoin :: "tcb_ref option \<Rightarrow> int" where "sys_ThreadJoin tid = -1"

definition sys_ThreadDetach :: "tcb_ref option \<Rightarrow> int" where "sys_ThreadDetach tid = -1"

definition sys_ThreadExit :: "int \<Rightarrow> unit" where "sys_ThreadExit ev = ()"

definition sys_Socket :: "int \<Rightarrow> int" where "sys_Socket port = NOFILE"

definition sys_Listen :: "int \<Rightarrow> int" where "sys_Listen sock = -1"

definition sys_Accept :: "int \<Rightarrow> int" where "sys_Accept lsock = NOFILE"

definition sys_Connect :: "int \<Rightarrow> int \<Rightarrow> uint64 \<Rightarrow> int" where "sys_Connect sock port timeout = -1"

definition sys_ShutDown :: "int \<Rightarrow> int \<Rightarrow> int" where "sys_ShutDown sock how = -1"

definition sys_Pipe :: int where "sys_Pipe = -1"

section \<open>The system call table\<close>

record sys_env =
  new_block :: tcb_ref
  rx_bytes :: "byte option list"
  tx_room :: "bool list"
  now :: uint64

datatype sysreq =
    Exec "funptr option" int "byte list option" | Exit int | GetPid | GetPPid | WaitChild int
  | CreateThread funptr int | ThreadSelf | ThreadJoin "tcb_ref option" | ThreadDetach "tcb_ref option"
  | ThreadExit int
  | GetTerminalDevices | OpenTerminal uint32 | OpenNull | ReadFid int uint32 | WriteFid int "byte list" uint32
  | CloseFid int | Dup2 int int | Pipe
  | Socket int | Listen int | Accept int | Connect int int uint64 | ShutDown int int
  | OpenInfo

text \<open>Results: a value, a value with what is stored through a pointer argument, nothing, or no
  return at all (\<open>Exit\<close>).\<close>

datatype result =
    Val int | Status int "int option" | Data int "byte list" | Uint uint32 | Tid "tcb_ref option" | Void unit
  | No_return

fun map_io :: "('a \<Rightarrow> 'b) \<Rightarrow> 'a io \<Rightarrow> 'b io" where
  "map_io f (Done a) = Done (f a)"
| "map_io f Block = Block"

definition returns :: "('a \<Rightarrow> result) \<Rightarrow> ('a \<times> kernel) option \<Rightarrow> (result io \<times> kernel) option" where
  "returns f = map_option (\<lambda>(v, k). (Done (f v), k))"

definition may_block :: "('a \<Rightarrow> result) \<Rightarrow> ('a io \<times> kernel) option \<Rightarrow> (result io \<times> kernel) option" where
  "may_block f = map_option (\<lambda>(v, k). (map_io f v, k))"

fun SYSCALLS :: "sysreq \<Rightarrow> sys_env \<Rightarrow> nat \<Rightarrow> nat \<Rightarrow> kernel \<Rightarrow> (result io \<times> kernel) option" where
  "SYSCALLS (Exec task al arg) e c cur k = returns Val (sys_Exec k c cur task al arg (new_block e))"
| "SYSCALLS (Exit ev) e c cur k = may_block (\<lambda>_. No_return) (sys_Exit k c cur ev (now e))"
| "SYSCALLS GetPid e c cur k = Some (Done (Val (sys_GetPid (Some cur))), k)"
| "SYSCALLS GetPPid e c cur k = Some (Done (Val (sys_GetPPid k cur)), k)"
| "SYSCALLS (WaitChild pid) e c cur k = may_block (\<lambda>(p, st). Status p st) (sys_WaitChild k cur pid)"
| "SYSCALLS (CreateThread task al) e c cur k = Some (Done (Tid (sys_CreateThread task al)), k)"
| "SYSCALLS ThreadSelf e c cur k = Some (Done (Tid (sys_ThreadSelf k c)), k)"
| "SYSCALLS (ThreadJoin tid) e c cur k = Some (Done (Val (sys_ThreadJoin tid)), k)"
| "SYSCALLS (ThreadDetach tid) e c cur k = Some (Done (Val (sys_ThreadDetach tid)), k)"
| "SYSCALLS (ThreadExit ev) e c cur k = Some (Done (Void (sys_ThreadExit ev)), k)"
| "SYSCALLS GetTerminalDevices e c cur k = Some (Done (Uint (sys_GetTerminalDevices k)), k)"
| "SYSCALLS (OpenTerminal n) e c cur k = returns Val (sys_OpenTerminal k cur n)"
| "SYSCALLS OpenNull e c cur k = returns Val (sys_OpenNull k cur)"
| "SYSCALLS (ReadFid fd sz) e c cur k = may_block (\<lambda>(n, b). Data n b) (sys_Read k c cur fd sz (rx_bytes e))"
| "SYSCALLS (WriteFid fd buf sz) e c cur k =
     may_block (\<lambda>(n, b). Data n b) (sys_Write k c cur fd buf sz (tx_room e))"
| "SYSCALLS (CloseFid fd) e c cur k = returns Val (sys_Close k cur fd)"
| "SYSCALLS (Dup2 old new) e c cur k = returns Val (sys_Dup2 k cur old new)"
| "SYSCALLS Pipe e c cur k = Some (Done (Val sys_Pipe), k)"
| "SYSCALLS (Socket port) e c cur k = Some (Done (Val (sys_Socket port)), k)"
| "SYSCALLS (Listen sock) e c cur k = Some (Done (Val (sys_Listen sock)), k)"
| "SYSCALLS (Accept sock) e c cur k = Some (Done (Val (sys_Accept sock)), k)"
| "SYSCALLS (Connect sock port t) e c cur k = Some (Done (Val (sys_Connect sock port t)), k)"
| "SYSCALLS (ShutDown sock how) e c cur k = Some (Done (Val (sys_ShutDown sock how)), k)"
| "SYSCALLS OpenInfo e c cur k = Some (Done (Val sys_OpenInfo), k)"

text \<open>Where a call that cannot complete sleeps: \<open>kernel_wait\<close> on a condition variable. A write does
  not sleep, it yields with the kernel locked.\<close>

fun wait_channel :: "sysreq \<Rightarrow> kernel \<Rightarrow> nat \<Rightarrow> nat option" where
  "wait_channel (WaitChild pid) k cur = Some (child_exit cur)"
| "wait_channel (Exit ev) k cur = Some (child_exit cur)"
| "wait_channel (ReadFid fd sz) k cur = do {
     f \<leftarrow> get_fcb k cur fd;
     obj \<leftarrow> streamobj (FT k f);
     (case obj of Serial_dcb i \<Rightarrow> Some (rx_ready i) | NULL_obj \<Rightarrow> None)
   }"
| "wait_channel _ k cur = None"

definition PRE_CALL :: "nat \<Rightarrow> nat \<Rightarrow> uint64 \<Rightarrow> kernel \<Rightarrow> (outcome \<times> kernel) option" where
  "PRE_CALL c w ct k = do { (r, mn) \<leftarrow> kernel_lock c w ct (monitor k); Some (r, k\<lparr>monitor := mn\<rparr>) }"

definition POST_CALL :: "nat \<Rightarrow> kernel \<Rightarrow> kernel option" where
  "POST_CALL c k = do { mn \<leftarrow> kernel_unlock c (monitor k); Some (k\<lparr>monitor := mn\<rparr>) }"

datatype reply = Returned result | Waits | Polls | Locked_out | Gone

definition SYSCALL ::
  "nat \<Rightarrow> nat \<Rightarrow> nat \<Rightarrow> nat \<Rightarrow> sys_env \<Rightarrow> sysreq \<Rightarrow> kernel \<Rightarrow> (reply \<times> kernel) option" where
  "SYSCALL c cur w w' e req k = do {
     (r, k1) \<leftarrow> PRE_CALL c w (now e) k;
     (case r of
        Sleeps \<Rightarrow> Some (Locked_out, k1)
      | Proceeds \<Rightarrow> do {
          (ret, k2) \<leftarrow> SYSCALLS req e c cur k1;
          (case ret of
             Done No_return \<Rightarrow> Some (Gone, k2)
           | Done v \<Rightarrow> do { k3 \<leftarrow> POST_CALL c k2; Some (Returned v, k3) }
           | Block \<Rightarrow>
               (case wait_channel req k2 cur of
                  None \<Rightarrow> Some (Polls, k2)
                | Some cv \<Rightarrow> do {
                    mn \<leftarrow> kernel_wait_wchan c cv w' NO_TIMEOUT (now e) (monitor k2);
                    Some (Waits, k2\<lparr>monitor := mn\<rparr>)
                  }))
        })
   }"

section \<open>The threads of the scheduler\<close>

text \<open>\<open>thread_start\<close> up to the call of \<open>thread_func\<close>, which does not return; the handlers of ALARM
  and ICI.\<close>

definition thread_start :: "sched \<Rightarrow> nat \<Rightarrow> itimer \<Rightarrow> (funptr \<times> sched) option" where
  "thread_start s c remaining = do {
     s1 \<leftarrow> gain s c True remaining;
     Some (thread_func (tcb s1 (current_thread s1 c)), s1)
   }"

definition yield_handler :: "sched \<Rightarrow> nat \<Rightarrow> uint64 \<Rightarrow> itimer \<Rightarrow> (sched \<times> bool) option" where
  "yield_handler s c curtime remaining = yield s c SCHED_QUANTUM curtime remaining"

definition ici_handler :: "sched \<Rightarrow> sched" where "ici_handler s = s"

text \<open>The idle thread behind a \<open>yield\<close>: it halts the core, and yields again when it is restarted, or
  it leaves the scheduler.\<close>

datatype idle_next = Halts | Leaves

definition idle_thread :: "sched \<Rightarrow> nat \<Rightarrow> itimer \<Rightarrow> (idle_next \<times> sched) option" where
  "idle_thread s c remaining =
     (if active_threads s > 0 then do {
        v \<leftarrow> cpu_core_halt (vm s) c;
        Some (Halts, s\<lparr>vm := v\<rparr>)
      }
      else Some (Leaves,
        s\<lparr>vm := cpu_core_restart_all (fst (bios_cancel_timer (vm s) c remaining))\<rparr>))"

definition run_scheduler_end :: "sched \<Rightarrow> nat \<Rightarrow> sched option" where
  "run_scheduler_end s c =
     (if current_thread s c = Idle_thread c
      then Some (s\<lparr>vm := cpu_interrupt_handler (cpu_interrupt_handler (vm s) c ALARM None) c ICI None\<rparr>)
      else None)"

section \<open>Boot\<close>

record boot_record =
  init_task :: funptr
  boot_argl :: int
  boot_args :: "byte list option"

definition boot_devices :: "kernel \<Rightarrow> nat \<Rightarrow> kernel" where
  "boot_devices k c =
     (let mn = monitor k; (d, s, sc) = initialize_devices c (devs k) (kcvs mn) (ksched mn)
      in k\<lparr>devs := d, monitor := mn\<lparr>kcvs := s, ksched := sc\<rparr>\<rparr>)"

text \<open>The part of \<open>boot_tinyos_kernel\<close> that core 0 executes before the cores meet at the barrier;
  \<open>None\<close> also for its FATAL.\<close>

definition boot_tinyos_kernel :: "boot_record \<Rightarrow> sys_env \<Rightarrow> nat \<Rightarrow> nat \<Rightarrow> kernel \<Rightarrow> kernel option" where
  "boot_tinyos_kernel br e w w' k = do {
     k1 \<leftarrow> initialize_processes k;
     let k2 = boot_devices k1 0;
     let k3 = initialize_files k2;
     let k4 = set_sched k3 (initialize_scheduler (ksched (monitor k3)));
     (r, k5) \<leftarrow> SYSCALL 0 0 w w' e (Exec (Some (init_task br)) (boot_argl br) (boot_args br)) k4;
     (if r = Returned (Val 1) then Some k5 else None)
   }"

section \<open>The semaphore and the devices through a system call\<close>

abbreviation sem :: "kernel \<Rightarrow> int" where "sem k \<equiv> kernel_sem (monitor k)"

lemma set_fid_devs [simp]: "devs (set_fid k p i v) = devs k"
  by (simp add: set_fid_def)

lemma sem_simps [simp]:
  "sem (set_sched k sc) = sem k" "sem (set_fid k p i v) = sem k" "sem (FCB_incref k f) = sem k"
  "sem (release_FCB k f) = sem k" "sem (release_PCB k p) = sem k"
  by (simp_all add: set_sched_def set_fid_def FCB_incref_def release_FCB_def release_PCB_def Let_def)

lemma decref_sem: "FCB_decref k f = Some (r, k') \<Longrightarrow> sem k' = sem k"
  by (auto simp: FCB_decref_def Let_def split: if_splits bind_splits option.splits)

lemma decref_devs: "FCB_decref k f = Some (r, k') \<Longrightarrow> devs k' = devs k"
  by (auto simp: FCB_decref_def Let_def split: if_splits bind_splits option.splits)

lemma acquire_FCB_sem: "acquire_FCB k = (r, k') \<Longrightarrow> sem k' = sem k"
  by (auto simp: acquire_FCB_def Let_def split: if_splits prod.splits option.splits)

lemma acquire_FCBs_sem: "acquire_FCBs n fs k = (ok, fs', k') \<Longrightarrow> sem k' = sem k"
  by (induction n fs k rule: acquire_FCBs.induct)
     (auto dest: acquire_FCB_sem split: prod.splits option.splits)

lemma roll_back_sem: "sem (roll_back fs k) = sem k"
  by (induction fs k rule: roll_back.induct) simp_all

lemma link_fids_sem: "sem (link_fids cur xs k) = sem k"
  by (induction cur xs k rule: link_fids.induct) (simp_all add: Let_def)

lemma reserve_sem: "FCB_reserve n k cur = (r, k') \<Longrightarrow> sem k' = sem k"
  by (auto simp: FCB_reserve_def roll_back_sem link_fids_sem dest!: acquire_FCBs_sem
      split: option.splits prod.splits if_splits bool.splits)

lemma unreserve_sem: "FCB_unreserve xs k cur = Some k' \<Longrightarrow> sem k' = sem k"
  by (induction xs k cur arbitrary: k' rule: FCB_unreserve.induct) (auto split: if_splits)

lemma open_stream_sem: "open_stream k cur major minor = Some (r, k') \<Longrightarrow> sem k' = sem k"
  by (auto simp: open_stream_def dest!: reserve_sem unreserve_sem
      split: prod.splits option.splits bind_splits)

lemma io_finish_sem: "io_finish k f r = Some (v, k') \<Longrightarrow> sem k' = sem k"
  by (auto simp: io_finish_def dest!: decref_sem split: prod.splits io.splits bind_splits)

lemma Read_sem: "sys_Read k c cur fd sz rx = Some (r, k') \<Longrightarrow> sem k' = sem k"
  by (auto simp: sys_Read_def Let_def dest!: io_finish_sem decref_sem
      split: option.splits bind_splits)

lemma Write_sem: "sys_Write k c cur fd buf sz tx = Some (r, k') \<Longrightarrow> sem k' = sem k"
  by (auto simp: sys_Write_def Let_def dest!: io_finish_sem decref_sem
      split: option.splits bind_splits)

lemma Close_sem: "sys_Close k cur fd = Some (r, k') \<Longrightarrow> sem k' = sem k"
  by (auto simp: sys_Close_def Let_def dest!: decref_sem split: option.splits)

lemma Dup2_sem: "sys_Dup2 k cur fd fd' = Some (r, k') \<Longrightarrow> sem k' = sem k"
  by (auto simp: sys_Dup2_def Let_def dest!: decref_sem split: option.splits if_splits bind_splits)

lemma inherit_sem: "sem (inherit_fids is cur newp k) = sem k"
  by (induction "is" cur newp k rule: inherit_fids.induct) (simp_all add: Let_def split: option.splits)

lemma Exec_sem: "sys_Exec k c cur call al arg t = Some (r, k') \<Longrightarrow> sem k' = sem k"
  by (auto simp: sys_Exec_def acquire_PCB_def exec_link_def exec_args_def inherit_sem Let_def
      split: option.splits prod.splits if_splits bind_splits)

lemma cleanup_sem: "cleanup_zombie k p = (v, k') \<Longrightarrow> sem k' = sem k \<and> devs k' = devs k"
  by (auto simp: cleanup_zombie_def release_PCB_def Let_def)

lemma WaitChild_sem: "sys_WaitChild k cur pid = Some (r, k') \<Longrightarrow> sem k' = sem k \<and> devs k' = devs k"
  by (auto simp: sys_WaitChild_def wait_for_specific_child_def wait_specific_loop_def
      wait_for_any_child_def wait_any_loop_def dest!: cleanup_sem
      split: if_splits option.splits prod.splits bind_splits)

lemma init_reap_sem:
  assumes "init_reap k cur = Some y"
  shows "sem (snd y) = sem k \<and> devs (snd y) = devs k"
proof (rule init_reap.raw_induct [where P = "\<lambda>k cur y. sem (snd y) = sem k \<and> devs (snd y) = devs k", OF _ assms])
  fix f :: "kernel \<Rightarrow> nat \<Rightarrow> (unit io \<times> kernel) option" and k cur y
  assume IH: "\<And>k cur y. f k cur = Some y \<Longrightarrow> sem (snd y) = sem k \<and> devs (snd y) = devs k"
  assume eq: "do { (r, k1) \<leftarrow> sys_WaitChild k cur NOPROC;
     (case r of Block \<Rightarrow> Some (Block, k1)
      | Done (cpid, st) \<Rightarrow> if cpid \<noteq> NOPROC then f k1 cur else Some (Done (), k1)) } = Some y"
  then obtain r k1 where "sys_WaitChild k cur NOPROC = Some (r, k1)"
    by (auto split: bind_splits)
  with eq IH WaitChild_sem [OF this] show "sem (snd y) = sem k \<and> devs (snd y) = devs k"
    by (cases r) (auto split: prod.splits if_splits)
qed

lemma close_fids_sem: "close_fids is cur k = Some k' \<Longrightarrow> sem k' = sem k \<and> devs k' = devs k"
proof (induction "is" arbitrary: k)
  case (Cons i "is")
  then show ?case using decref_sem decref_devs by (cases "FIDT (PT k cur) ! i") (fastforce split: bind_splits)+
qed simp

lemma reparent_sem:
  assumes "reparent k cur ip = Some y"
  shows "sem y = sem k \<and> devs y = devs k"
proof (rule reparent.raw_induct [where P = "\<lambda>k cur ip y. sem y = sem k \<and> devs y = devs k", OF _ assms])
  fix f :: "kernel \<Rightarrow> nat \<Rightarrow> nat \<Rightarrow> kernel option" and k cur ip y
  assume IH: "\<And>k cur ip y. f k cur ip = Some y \<Longrightarrow> sem y = sem k \<and> devs y = devs k"
  assume "(if \<not> is_rlist_empty (pheap k) (Children_list cur) then
      let (h, child) = rlist_pop_front (pheap k) (Children_list cur) in do {
        p \<leftarrow> rl_obj h child;
        let k1 = upd_pcb (k\<lparr>pheap := h\<rparr>) p (\<lambda>b. b\<lparr>parent := Some ip\<rparr>);
        f (k1\<lparr>pheap := rlist_push_front (pheap k1) (Children_list ip) child\<rparr>) cur ip
      } else Some k) = Some y"
  then show "sem y = sem k \<and> devs y = devs k" by (auto simp: Let_def dest!: IH split: prod.splits if_splits bind_splits)
qed

lemma broadcast_exit_sem: "broadcast_exit c p k = Some k' \<Longrightarrow> sem k' = sem k \<and> devs k' = devs k"
  by (auto simp: broadcast_exit_def kernel_broadcast_def split: bind_splits prod.splits)

lemma exit_lists_sem: "exit_lists k c cur = Some k' \<Longrightarrow> sem k' = sem k \<and> devs k' = devs k"
  by (auto simp: exit_lists_def dest!: reparent_sem broadcast_exit_sem
      split: bind_splits if_splits option.splits)

lemma kernel_sleep_sem: "kernel_sleep c st ct mn = Some mn' \<Longrightarrow> kernel_sem mn' = kernel_sem mn + 1"
  by (auto simp: kernel_sleep_def dest: kernel_release_sem split: bind_splits prod.splits)

lemma exit_rest_sem: "exit_rest k c cur ev ct = Some k' \<Longrightarrow> sem k' = sem k + 1 \<and> devs k' = devs k"
  by (auto simp: exit_rest_def Let_def dest!: close_fids_sem exit_lists_sem kernel_sleep_sem
      split: bind_splits if_splits)

lemma Exit_sem:
  "sys_Exit k c cur ev ct = Some (r, k') \<Longrightarrow> sem k' = (case r of Done _ \<Rightarrow> sem k + 1 | Block \<Rightarrow> sem k)"
  by (auto simp: sys_Exit_def dest!: init_reap_sem exit_rest_sem split: bind_splits if_splits io.splits)

lemma map_io_Done: "map_io f r = Done v \<longleftrightarrow> (\<exists>a. r = Done a \<and> v = f a)"
  by (cases r) auto

lemma map_io_Block: "map_io f r = Block \<longleftrightarrow> r = Block"
  by (cases r) auto

text \<open>The semaphore behind the body of a call: \<open>Exit\<close> has given it back on its own.\<close>

definition sem_after :: "kernel \<Rightarrow> result io \<Rightarrow> kernel \<Rightarrow> bool" where
  "sem_after k r k' \<longleftrightarrow> sem k' = (if r = Done No_return then sem k + 1 else sem k)"

lemma returns_sem:
  assumes "returns f x = Some (r, k')" and "\<And>v k1. x = Some (v, k1) \<Longrightarrow> sem k1 = sem k" and "\<And>v. f v \<noteq> No_return"
  shows "sem_after k r k'"
  using assms by (auto simp: returns_def sem_after_def)

lemma may_block_sem:
  assumes "may_block f x = Some (r, k')" and "\<And>v k1. x = Some (v, k1) \<Longrightarrow> sem k1 = sem k" and "\<And>v. f v \<noteq> No_return"
  shows "sem_after k r k'"
  using assms by (auto simp: may_block_def map_io_Done sem_after_def) (metis)

lemma SYSCALLS_sem:
  assumes "SYSCALLS req e c cur k = Some (r, k')"
  shows "sem_after k r k'"
proof (cases req)
  case (Exec task al arg)
  then show ?thesis using assms by (auto elim!: returns_sem dest: Exec_sem)
next
  case (Exit ev)
  then show ?thesis using assms
    by (auto simp: sem_after_def may_block_def map_io_Done map_io_Block dest!: Exit_sem split: io.splits)
next
  case (WaitChild pid)
  then show ?thesis using assms by (auto elim!: may_block_sem dest: WaitChild_sem)
next
  case (ReadFid fd sz)
  then show ?thesis using assms by (auto elim!: may_block_sem dest: Read_sem)
next
  case (WriteFid fd buf sz)
  then show ?thesis using assms by (auto elim!: may_block_sem dest: Write_sem)
next
  case (OpenTerminal n)
  then show ?thesis using assms by (auto simp: sys_OpenTerminal_def elim!: returns_sem dest: open_stream_sem)
next
  case OpenNull
  then show ?thesis using assms by (auto simp: sys_OpenNull_def elim!: returns_sem dest: open_stream_sem)
next
  case (CloseFid fd)
  then show ?thesis using assms by (auto elim!: returns_sem dest: Close_sem)
next
  case (Dup2 fd fd')
  then show ?thesis using assms by (auto elim!: returns_sem dest: Dup2_sem)
qed (use assms in \<open>auto simp: sem_after_def\<close>)

lemma PRE_CALL_Some:
  assumes "PRE_CALL c w ct k = Some (r, k1)"
  shows "(r = Proceeds \<longleftrightarrow> 0 < sem k) \<and> sem k1 = sem k - (if r = Proceeds then 1 else 0) \<and>
     k1 = k\<lparr>monitor := monitor k1\<rparr>"
  using assms by (auto simp: PRE_CALL_def kernel_lock_def dest: kernel_acquire_sem split: bind_splits)

lemma POST_CALL_sem: "POST_CALL c k = Some k' \<Longrightarrow> sem k' = sem k + 1"
  by (auto simp: POST_CALL_def kernel_unlock_def dest: kernel_release_sem split: bind_splits)

lemma kernel_wait_sem:
  "kernel_wait_wchan c cv w t ct mn = Some mn' \<Longrightarrow> kernel_sem mn' = kernel_sem mn + 1"
  by (auto simp: kernel_wait_wchan_def dest: kernel_release_sem split: bind_splits prod.splits)

section \<open>Calls that are not implemented\<close>

fun stub_result :: "sysreq \<Rightarrow> result option" where
  "stub_result (CreateThread task al) = Some (Tid NOTHREAD)"
| "stub_result (ThreadJoin tid) = Some (Val (-1))"
| "stub_result (ThreadDetach tid) = Some (Val (-1))"
| "stub_result (ThreadExit ev) = Some (Void ())"
| "stub_result Pipe = Some (Val (-1))"
| "stub_result (Socket port) = Some (Val NOFILE)"
| "stub_result (Listen sock) = Some (Val (-1))"
| "stub_result (Accept sock) = Some (Val NOFILE)"
| "stub_result (Connect sock port t) = Some (Val (-1))"
| "stub_result (ShutDown sock how) = Some (Val (-1))"
| "stub_result OpenInfo = Some (Val NOFILE)"
| "stub_result _ = None"

lemma stub_body: "stub_result req = Some v \<Longrightarrow> SYSCALLS req e c cur k = Some (Done v, k) \<and> v \<noteq> No_return"
  by (cases req) (auto simp: sys_CreateThread_def sys_ThreadJoin_def sys_ThreadDetach_def sys_ThreadExit_def
      sys_Pipe_def sys_Socket_def sys_Listen_def sys_Accept_def sys_Connect_def sys_ShutDown_def
      sys_OpenInfo_def)

lemma lock_unlock_quiet:
  assumes "0 < sem k" and "waitset (kcvs (monitor k)) kernel_sem_cv = None"
  shows "PRE_CALL c w ct k = Some (Proceeds, k\<lparr>monitor := (monitor k)\<lparr>kernel_sem := sem k - 1\<rparr>\<rparr>)"
    and "POST_CALL c k = Some (k\<lparr>monitor := (monitor k)\<lparr>kernel_sem := sem k + 1\<rparr>\<rparr>)"
  using assms by (simp_all add: PRE_CALL_def POST_CALL_def kernel_lock_def kernel_acquire_def kernel_unlock_def
      kernel_release_def Cond_Signal_def cv_signal.simps [of c kernel_sem_cv])

section \<open>What the kernel's initialisation keeps\<close>

definition fresh_monitor :: "kernel \<Rightarrow> bool" where
  "fresh_monitor k \<longleftrightarrow> sem k = 1 \<and> waitset (kcvs (monitor k)) kernel_sem_cv = None \<and>
     (\<forall>j. \<not> live (ksched (monitor k)) (Thread j)) \<and> active_threads (ksched (monitor k)) = 0"

lemma fresh_cong: "fresh_monitor k \<Longrightarrow> monitor k' = monitor k \<Longrightarrow> fresh_monitor k'"
  by (simp add: fresh_monitor_def)

lemma init_PCBs_fresh: "fresh_monitor k \<Longrightarrow> fresh_monitor (initialize_PCBs ps k)"
  by (induction ps arbitrary: k)
     (simp_all add: initialize_PCB_def Let_def fresh_monitor_def kernel_sem_cv_def child_exit_def)

lemma initialize_processes_fresh:
  assumes "fresh_monitor k" and "initialize_processes k = Some k'"
  shows "fresh_monitor k'"
proof -
  let ?k1 = "initialize_PCBs [0..<MAX_PROC] k"
  have "sys_Exec ((build_freelist MAX_PROC (?k1\<lparr>pcb_freelist := None\<rparr>))\<lparr>process_count := 0\<rparr>)
      0 0 None 0 None (Thread 0) = Some (0, k')"
    using assms(2) unfolding initialize_processes_def Let_def by (auto split: bind_splits if_splits)
  then have "monitor k' = monitor (build_freelist MAX_PROC (?k1\<lparr>pcb_freelist := None\<rparr>))"
    by (auto simp: sys_Exec_def acquire_PCB_def exec_link_def exec_args_def get_pid_def NOPROC_def Let_def
        split: option.splits if_splits)
  then have "monitor k' = monitor ?k1" using build_freelist_frame [of MAX_PROC] by simp
  then show ?thesis using init_PCBs_fresh [OF assms(1)] fresh_cong by blast
qed

lemma init_serial_waitset:
  "init_serial is d s = (d', s') \<Longrightarrow> waitset s' kernel_sem_cv = waitset s kernel_sem_cv"
  by (induction "is" arbitrary: d s) (auto simp: rx_ready_def kernel_sem_cv_def)

lemma boot_devices_fresh: "fresh_monitor k \<Longrightarrow> fresh_monitor (boot_devices k c)"
  by (auto simp: boot_devices_def initialize_devices_def fresh_monitor_def Let_def
      dest: init_serial_waitset split: prod.splits)

lemma boot_devices_frame:
  "PT (boot_devices k c) = PT k" "pheap (boot_devices k c) = pheap k"
  "pcb_freelist (boot_devices k c) = pcb_freelist k" "process_count (boot_devices k c) = process_count k"
  by (simp_all add: boot_devices_def Let_def split: prod.splits)

text \<open>The device table behind \<open>initialize_devices\<close>.\<close>

definition initialized_devices :: "devices \<Rightarrow> devices \<Rightarrow> bool" where
  "initialized_devices d d' \<longleftrightarrow> serial_ports d' = serial_ports d \<and>
     devtable d' DEV_NULL = \<lparr>dtype = DEV_NULL, devnum = 1, dev_fops = nulldev_fops\<rparr> \<and>
     devtable d' DEV_SERIAL = \<lparr>dtype = DEV_SERIAL, devnum = of_nat (serial_ports d), dev_fops = serial_fops\<rparr>"

lemma init_serial_table:
  "init_serial is d s = (d', s') \<Longrightarrow> devtable d' = devtable d \<and> serial_ports d' = serial_ports d"
  by (induction "is" arbitrary: d s) auto

lemma boot_devices_init: "initialized_devices (devs k) (devs (boot_devices k c))"
  by (auto simp: boot_devices_def initialize_devices_def initialized_devices_def Let_def
      dest: init_serial_table split: prod.splits)

lemma inherit_devs: "devs (inherit_fids is cur newp k) = devs k"
  by (induction "is" cur newp k rule: inherit_fids.induct)
     (simp_all add: Let_def set_fid_def FCB_incref_def split: option.splits)

lemma init_PCBs_devs: "devs (initialize_PCBs ps k) = devs k"
  by (induction ps arbitrary: k) (simp_all add: initialize_PCB_def Let_def)

lemma Exec_devs: "sys_Exec k c cur call al arg t = Some (r, k') \<Longrightarrow> devs k' = devs k"
  by (auto simp: sys_Exec_def acquire_PCB_def exec_link_def exec_args_def inherit_devs Let_def
      split: option.splits prod.splits if_splits bind_splits)

lemma initialize_files_devs [simp]: "devs (initialize_files k) = devs k"
proof -
  have "devs (init_fcbs is k) = devs k" for "is" k by (induction "is" arbitrary: k) (simp_all add: Let_def)
  then show ?thesis by (simp add: initialize_files_def)
qed

lemma initialize_processes_devs: "initialize_processes k = Some k' \<Longrightarrow> devs k' = devs k"
  by (auto simp: initialize_processes_def Let_def build_freelist_frame init_PCBs_devs dest!: Exec_devs
      split: bind_splits if_splits)

lemma booted_tables:
  assumes "fresh_monitor k"
  shows "\<exists>k1 k4. initialize_processes k = Some k1 \<and>
     k4 = (let k3 = initialize_files (boot_devices k1 0)
           in set_sched k3 (initialize_scheduler (ksched (monitor k3)))) \<and>
     pinv k4 (\<lambda>_. []) (\<lambda>_. []) (1 # [2..<MAX_PROC]) \<and> stream_inv k4 (\<lambda>_. 0) [0..<MAX_FILES] \<and>
     pstate (PT k4 0) = ALIVE \<and> sem k4 = 1 \<and> waitset (kcvs (monitor k4)) kernel_sem_cv = None \<and>
     initialized_devices (devs k) (devs k4) \<and>
     (\<exists>m. sinv m \<and> sch m = ksched (monitor k4) \<and> (\<forall>j. \<not> live (sch m) (Thread j)))"
proof -
  obtain k1 where k1: "initialize_processes k = Some k1" "pinv k1 (\<lambda>_. []) (\<lambda>_. []) [1..<MAX_PROC]"
    "\<And>p. p < MAX_PROC \<Longrightarrow> FIDT (PT k1 p) = replicate MAX_FILEID None" "pstate (PT k1 0) = ALIVE"
    using initialize_processes_pinv [of k] by auto
  define k3 where "k3 = initialize_files (boot_devices k1 0)"
  define k4 where "k4 = set_sched k3 (initialize_scheduler (ksched (monitor k3)))"
  note fr = initialize_files_frame [of "boot_devices k1 0"] boot_devices_frame [of k1 0]
  have f3: "fresh_monitor k3"
    using fresh_cong [OF boot_devices_fresh [OF initialize_processes_fresh [OF assms k1(1)], of 0]]
    by (simp add: k3_def fr)
  have upt: "[1..<MAX_PROC] = 1 # [2..<MAX_PROC]"
    using upt_conv_Cons [of 1 MAX_PROC] by (simp add: MAX_PROC_def numeral_2_eq_2 del: upt_Suc)
  have p: "pinv k4 (\<lambda>_. []) (\<lambda>_. []) (1 # [2..<MAX_PROC])"
    using k1(2) unfolding upt by (rule pinv_cong) (simp_all add: k4_def k3_def fr)
  have "stream_inv k3 (\<lambda>_. 0) [0..<MAX_FILES]"
    unfolding k3_def by (rule initialize_files_inv) (simp add: fr k1(3))
  then have s: "stream_inv k4 (\<lambda>_. 0) [0..<MAX_FILES]" by (rule stream_inv_cong) (simp_all add: k4_def)
  let ?m = "\<lparr>sch = ksched (monitor k4), up = {}, pc = (\<lambda>_. Run), ypre = (\<lambda>_. False), spre = (\<lambda>_. False)\<rparr>"
  have "sstart ?m"
    using f3 by (auto simp: sstart_def k4_def set_sched_def fresh_monitor_def intro!: exI [of _ "ksched (monitor k3)"])
  then have "sinv ?m" using start_sinv by (auto simp: sinv_def)
  moreover have "\<not> live (sch ?m) (Thread j)" for j
    using f3 by (simp add: k4_def set_sched_def fresh_monitor_def initialize_scheduler_def)
  ultimately have "\<exists>m. sinv m \<and> sch m = ksched (monitor k4) \<and> (\<forall>j. \<not> live (sch m) (Thread j))"
    by (intro exI [of _ ?m]) simp
  moreover have "sem k4 = 1" "waitset (kcvs (monitor k4)) kernel_sem_cv = None"
    using f3 by (simp_all add: k4_def set_sched_def fresh_monitor_def)
  moreover have "initialized_devices (devs k) (devs k4)"
    using boot_devices_init [of k1 0] initialize_processes_devs [OF k1(1)]
    by (simp add: k4_def k3_def initialize_files_frame)
  moreover have "pstate (PT k4 0) = ALIVE" by (simp add: k4_def k3_def fr k1(4))
  ultimately show ?thesis using k1(1) p s unfolding k4_def k3_def Let_def by blast
qed

lemma inherit_kcvs: "kcvs (monitor (inherit_fids is cur newp k)) = kcvs (monitor k)"
  by (induction "is" cur newp k rule: inherit_fids.induct)
     (simp_all add: Let_def set_fid_def FCB_incref_def split: option.splits)

lemma Exec_kcvs: "sys_Exec k c cur call al arg t = Some (r, k') \<Longrightarrow> kcvs (monitor k') = kcvs (monitor k)"
  by (auto simp: sys_Exec_def acquire_PCB_def exec_link_def exec_args_def inherit_kcvs set_sched_def Let_def
      split: option.splits prod.splits if_splits bind_splits)

lemma POST_CALL_quiet:
  "waitset (kcvs (monitor k)) kernel_sem_cv = None \<Longrightarrow>
     POST_CALL c k = Some (k\<lparr>monitor := (monitor k)\<lparr>kernel_sem := sem k + 1\<rparr>\<rparr>)"
  by (simp add: POST_CALL_def kernel_unlock_def kernel_release_def Cond_Signal_def
      cv_signal.simps [of c kernel_sem_cv])

definition ex_quiet :: kernel where
  "ex_quiet = ex_kernel\<lparr>monitor := (ex_mon ex_start)\<lparr>kernel_sem := 1\<rparr>\<rparr>"

definition ex_env :: sys_env where
  "ex_env = \<lparr>new_block = Thread 3, rx_bytes = [], tx_room = [], now = 0\<rparr>"

lemma ex_quiet_facts: "fresh_monitor ex_quiet" "sem ex_quiet = 1" "waitset (kcvs (monitor ex_quiet)) kernel_sem_cv = None"
  by (simp_all add: ex_quiet_def ex_mon_def ex_start_def fresh_monitor_def initialize_scheduler_def)

lemma booted:
  assumes "fresh_monitor k" and "new_block e = Thread j"
  shows "\<exists>k'. boot_tinyos_kernel br e w w' k = Some k' \<and>
     pinv k' (\<lambda>_. []) (\<lambda>_. []) [2..<MAX_PROC] \<and> stream_inv k' (\<lambda>_. 0) [0..<MAX_FILES] \<and>
     sem k' = 1 \<and> pstate (PT k' 0) = ALIVE \<and> pstate (PT k' 1) = ALIVE \<and> parent (PT k' 1) = None \<and>
     main_task (PT k' 1) = Some (init_task br) \<and> argl (PT k' 1) = boot_argl br \<and>
     args (PT k' 1) = map_option (take (nat (boot_argl br))) (boot_args br) \<and>
     main_thread (PT k' 1) = Some (Thread j) \<and> state (tcb (ksched (monitor k')) (Thread j)) = READY \<and>
     waitset (kcvs (monitor k')) kernel_sem_cv = None \<and> initialized_devices (devs k) (devs k')"
proof -
  obtain k1 k4 m where k4: "initialize_processes k = Some k1"
    "k4 = (let k3 = initialize_files (boot_devices k1 0)
           in set_sched k3 (initialize_scheduler (ksched (monitor k3))))"
    "pinv k4 (\<lambda>_. []) (\<lambda>_. []) (1 # [2..<MAX_PROC])" "stream_inv k4 (\<lambda>_. 0) [0..<MAX_FILES]"
    "pstate (PT k4 0) = ALIVE" "sem k4 = 1" "waitset (kcvs (monitor k4)) kernel_sem_cv = None"
    "initialized_devices (devs k) (devs k4)"
    and m: "sinv m" "sch m = ksched (monitor k4)" "\<not> live (sch m) (Thread j)"
    using booted_tables [OF assms(1)] by metis
  let ?task = "Some (init_task br)"
  let ?k5 = "k4\<lparr>monitor := (monitor k4)\<lparr>kernel_sem := 0\<rparr>\<rparr>"
  have "pinv ?k5 (\<lambda>_. []) (\<lambda>_. []) (1 # [2..<MAX_PROC])" using k4(3) by (rule pinv_cong) simp_all
  moreover have "stream_inv ?k5 (\<lambda>_. 0) [0..<MAX_FILES]" using k4(4) by (rule stream_inv_cong) simp_all
  moreover have "0 < MAX_PROC" by (simp add: MAX_PROC_def)
  ultimately obtain k6 where k6: "sys_Exec ?k5 0 0 ?task (boot_argl br) (boot_args br) (Thread j) = Some (1, k6)"
    "pinv k6 (\<lambda>_. []) (\<lambda>_. []) [2..<MAX_PROC]" "stream_inv k6 (\<lambda>_. 0) [0..<MAX_FILES]"
    "PT k6 = (PT ?k5)(1 := new_pcb ?k5 0 1 ?task (boot_argl br) (boot_args br) (Thread j))"
    "state (tcb (ksched (monitor k6)) (Thread j)) = READY"
    using sys_Exec_Some [of ?k5 "\<lambda>_. []" "\<lambda>_. []" 1 "[2..<MAX_PROC]" "\<lambda>_. 0" "[0..<MAX_FILES]" 0 m
        ?task j 0 "boot_argl br" "boot_args br"] k4(5) m by auto
  let ?k' = "k6\<lparr>monitor := (monitor k6)\<lparr>kernel_sem := 1\<rparr>\<rparr>"
  have "sem k6 = 0" using Exec_sem [OF k6(1)] by simp
  moreover have "waitset (kcvs (monitor k6)) kernel_sem_cv = None" using Exec_kcvs [OF k6(1)] k4(7) by simp
  ultimately have "POST_CALL 0 k6 = Some ?k'" using POST_CALL_quiet [of k6 0] by simp
  then have "SYSCALL 0 0 w w' e (Exec ?task (boot_argl br) (boot_args br)) k4 = Some (Returned (Val 1), ?k')"
    using lock_unlock_quiet(1) [of k4 0 w "now e"] k4(6,7) k6(1) assms(2)
    by (simp add: SYSCALL_def returns_def)
  then have "boot_tinyos_kernel br e w w' k = Some ?k'"
    using k4(1,2) by (simp add: boot_tinyos_kernel_def Let_def)
  moreover have "pinv ?k' (\<lambda>_. []) (\<lambda>_. []) [2..<MAX_PROC]" using k6(2) by (rule pinv_cong) simp_all
  moreover have "stream_inv ?k' (\<lambda>_. 0) [0..<MAX_FILES]" using k6(3) by (rule stream_inv_cong) simp_all
  moreover have "initialized_devices (devs k) (devs ?k')" using k4(8) Exec_devs [OF k6(1)] by simp
  moreover have "waitset (kcvs (monitor ?k')) kernel_sem_cv = None" using Exec_kcvs [OF k6(1)] k4(7) by simp
  ultimately show ?thesis using k6(4,5) k4(5) by (simp add: new_pcb_def)
qed

section \<open>Properties\<close>



text \<open>The calls without an implementation report an error (NOTHREAD, NOFILE or -1; \<open>ThreadExit\<close>
  just returns) and leave the whole kernel as it was.\<close>

lemma unimplemented_calls_fail:
  assumes "stub_result req = Some v" and "0 < sem k"
    and "waitset (kcvs (monitor k)) kernel_sem_cv = None"
  shows "SYSCALL c cur w w' e req k = Some (Returned v, k)"
proof -
  let ?k1 = "k\<lparr>monitor := (monitor k)\<lparr>kernel_sem := sem k - 1\<rparr>\<rparr>"
  have "SYSCALLS req e c cur ?k1 = Some (Done v, ?k1)" "v \<noteq> No_return" using stub_body [OF assms(1)] by auto
  moreover have "POST_CALL c ?k1 = Some k" using assms(3) by (simp add: POST_CALL_quiet)
  ultimately show ?thesis using lock_unlock_quiet(1) [OF assms(2,3)]
    by (simp add: SYSCALL_def split: result.splits)
qed

text \<open>C23: Booting the kernel always succeeds: no assertion fails and the FATAL of
  \<open>boot_tinyos_kernel\<close> is not reached. Afterwards the process tree and the streams are consistent,
  the kernel lock is free, process 0 exists, and process 1, without a parent, is about to run the
  boot task with the given argument on a READY thread.\<close>

theorem boot_correct:
  assumes "fresh_monitor k" and "new_block e = Thread j"
  shows "\<exists>k'. boot_tinyos_kernel br e w w' k = Some k' \<and>
     pinv k' (\<lambda>_. []) (\<lambda>_. []) [2..<MAX_PROC] \<and> stream_inv k' (\<lambda>_. 0) [0..<MAX_FILES] \<and>
     sem k' = 1 \<and> pstate (PT k' 0) = ALIVE \<and> pstate (PT k' 1) = ALIVE \<and> parent (PT k' 1) = None \<and>
     main_task (PT k' 1) = Some (init_task br) \<and> argl (PT k' 1) = boot_argl br \<and>
     args (PT k' 1) = map_option (take (nat (boot_argl br))) (boot_args br) \<and>
     main_thread (PT k' 1) = Some (Thread j) \<and> state (tcb (ksched (monitor k')) (Thread j)) = READY"
  using booted [OF assms, of br w w'] by blast

theorem boot_correct_witness:
  "\<exists>k'. boot_tinyos_kernel \<lparr>init_task = 5, boot_argl = 2, boot_args = Some [7, 8]\<rparr> ex_env 0 1 ex_quiet = Some k' \<and>
     pstate (PT k' 1) = ALIVE \<and> main_task (PT k' 1) = Some 5 \<and> args (PT k' 1) = Some [7, 8]"
  using boot_correct [OF ex_quiet_facts(1), of ex_env 3 "\<lparr>init_task = 5, boot_argl = 2, boot_args = Some [7, 8]\<rparr>" 0 1]
  by (auto simp: ex_env_def)

end
