(* ===== verification/Symposium.thy ===== *)
theory Symposium
  imports Kernel
begin

text \<open>
  The dining philosophers, \<^verbatim>\<open>symposium.c\<close> and \<^verbatim>\<open>symposium.h\<close>.

  The symposium is a monitor: a philosopher changes \<open>state\<close> only while it holds \<open>mx\<close>, so each critical
  section of \<open>SymposiumTable_philosopher\<close> is one step of the machine below, and the steps of the
  philosophers interleave in any order. A philosopher that waits on its condition variable
  \<open>hungry[i]\<close> is in \<open>asleep\<close> until \<open>Cond_Signal\<close> takes it out. \<open>print_state\<close> only prints.
\<close>

section \<open>The table\<close>

datatype PHIL = NOTHERE | THINKING | HUNGRY | EATING

record symposium_t =
  N :: nat
  bites :: nat
  fmin :: int
  fmax :: int

record SymposiumTable =
  symp :: symposium_t
  phils :: "nat \<Rightarrow> PHIL"
  asleep :: "nat set"

definition FBASE :: int where "FBASE = 35"
definition FGAP :: int where "FGAP = 10"

text \<open>\<open>lg\<close> is the integer part of the logarithm that is computed in floating point.\<close>

definition adjust_symposium :: "symposium_t \<Rightarrow> int \<Rightarrow> int \<Rightarrow> int \<Rightarrow> symposium_t" where
  "adjust_symposium s dBASE dGAP lg =
     s\<lparr>fmin := FBASE + dBASE - lg, fmax := FBASE + dBASE - lg + FGAP + dGAP\<rparr>"

definition fiborand :: "int \<Rightarrow> int \<Rightarrow> int \<Rightarrow> int" where
  "fiborand rnd mn mx = rnd mod (mx - mn + 1) + mn"

fun fibo :: "nat \<Rightarrow> uint32" where
  "fibo n = (if n < 2 then of_nat n else fibo (n - 1) + fibo (n - 2))"

declare fibo.simps [simp del]

definition LEFT :: "nat \<Rightarrow> nat \<Rightarrow> nat" where "LEFT i n = (i + 1) mod n"
definition RIGHT :: "nat \<Rightarrow> nat \<Rightarrow> nat" where "RIGHT i n = (i + n - 1) mod n"

definition SymposiumTable_init :: "symposium_t \<Rightarrow> SymposiumTable" where
  "SymposiumTable_init s = \<lparr>symp = s, phils = (\<lambda>_. NOTHERE), asleep = {}\<rparr>"

definition set_phil :: "SymposiumTable \<Rightarrow> nat \<Rightarrow> PHIL \<Rightarrow> SymposiumTable" where
  "set_phil S i p = S\<lparr>phils := (phils S)(i := p)\<rparr>"

definition trytoeat :: "SymposiumTable \<Rightarrow> nat \<Rightarrow> SymposiumTable" where
  "trytoeat S i =
     (let n = N (symp S) in
      if phils S i = HUNGRY \<and> phils S (LEFT i n) \<noteq> EATING \<and> phils S (RIGHT i n) \<noteq> EATING
      then (set_phil S i EATING)\<lparr>asleep := asleep S - {i}\<rparr> else S)"

section \<open>The philosopher\<close>

datatype phil_pc = Arriving | Thinks nat | Waits_hungry nat | Eats nat | Left

text \<open>The critical sections in the order of the code. \<open>phil_check\<close> is the test of the loop around
  \<open>Cond_Wait\<close>, \<open>None\<close> its failing assertion.\<close>

definition phil_arrive :: "SymposiumTable \<Rightarrow> nat \<Rightarrow> phil_pc \<times> SymposiumTable" where
  "phil_arrive S i = (Thinks 0, set_phil S i THINKING)"

definition phil_check :: "SymposiumTable \<Rightarrow> nat \<Rightarrow> nat \<Rightarrow> (phil_pc \<times> SymposiumTable) option" where
  "phil_check S i j =
     (case phils S i of
        HUNGRY \<Rightarrow> Some (Waits_hungry j, S\<lparr>asleep := insert i (asleep S)\<rparr>)
      | EATING \<Rightarrow> Some (Eats j, S)
      | _ \<Rightarrow> None)"

definition phil_hungry :: "SymposiumTable \<Rightarrow> nat \<Rightarrow> nat \<Rightarrow> (phil_pc \<times> SymposiumTable) option" where
  "phil_hungry S i j = phil_check (trytoeat (set_phil S i HUNGRY) i) i j"

definition phil_done :: "SymposiumTable \<Rightarrow> nat \<Rightarrow> nat \<Rightarrow> phil_pc \<times> SymposiumTable" where
  "phil_done S i j =
     (let n = N (symp S)
      in (Thinks (j + 1), trytoeat (trytoeat (set_phil S i THINKING) (LEFT i n)) (RIGHT i n)))"

definition phil_leave :: "SymposiumTable \<Rightarrow> nat \<Rightarrow> phil_pc \<times> SymposiumTable" where
  "phil_leave S i = (Left, set_phil S i NOTHERE)"

definition SymposiumTable_philosopher ::
  "SymposiumTable \<Rightarrow> nat \<Rightarrow> phil_pc \<Rightarrow> (phil_pc \<times> SymposiumTable) option" where
  "SymposiumTable_philosopher S i at =
     (case at of
        Arriving \<Rightarrow> Some (phil_arrive S i)
      | Thinks j \<Rightarrow> if j < bites (symp S) then phil_hungry S i j else Some (phil_leave S i)
      | Waits_hungry j \<Rightarrow> phil_check S i j
      | Eats j \<Rightarrow> Some (phil_done S i j)
      | Left \<Rightarrow> None)"

section \<open>The programs\<close>

definition sizeof_philosopher_args :: int where "sizeof_philosopher_args = 16"
definition sizeof_symposium_t :: int where "sizeof_symposium_t = 16"

text \<open>\<open>PhilosopherProcess\<close>: the philosopher it plays, \<open>None\<close> for a failing assertion.\<close>

definition PhilosopherProcess :: "int \<Rightarrow> nat \<Rightarrow> nat option" where
  "PhilosopherProcess al i = (if al = sizeof_philosopher_args then Some i else None)"

definition PhilosopherThread :: "int \<Rightarrow> nat" where "PhilosopherThread i = nat i"

text \<open>The system calls of \<open>SymposiumOfProcesses\<close> and \<open>SymposiumOfThreads\<close>; \<open>argbytes i\<close> are the bytes of
  \<open>philosopher_args\<close> for philosopher \<open>i\<close>, \<open>task\<close> the address of \<open>PhilosopherProcess\<close> or
  \<open>PhilosopherThread\<close>.\<close>

definition SymposiumOfProcesses :: "int \<Rightarrow> symposium_t \<Rightarrow> funptr \<Rightarrow> (nat \<Rightarrow> byte list) \<Rightarrow> sysreq list option" where
  "SymposiumOfProcesses al s task argbytes =
     (if al = sizeof_symposium_t
      then Some (map (\<lambda>i. Exec (Some task) sizeof_philosopher_args (Some (argbytes i))) [0..<N s] @
                 map (\<lambda>_. WaitChild NOPROC) [0..<N s])
      else None)"

definition SymposiumOfThreads :: "int \<Rightarrow> symposium_t \<Rightarrow> funptr \<Rightarrow> (nat \<Rightarrow> tcb_ref option) \<Rightarrow> sysreq list option" where
  "SymposiumOfThreads al s task tids =
     (if al = sizeof_symposium_t
      then Some (map (\<lambda>i. CreateThread task (int i)) [0..<N s] @ map (\<lambda>i. ThreadJoin (tids i)) [0..<N s])
      else None)"

section \<open>The symposium as a machine\<close>

record party =
  table :: SymposiumTable
  phil_at :: "nat \<Rightarrow> phil_pc"

inductive party_step :: "party \<Rightarrow> party \<Rightarrow> bool" where
  "i < N (symp (table m)) \<Longrightarrow> i \<notin> asleep (table m) \<Longrightarrow>
   SymposiumTable_philosopher (table m) i (phil_at m i) = Some (pc', S') \<Longrightarrow>
   party_step m \<lparr>table = S', phil_at = (phil_at m)(i := pc')\<rparr>"

definition party_start :: "party \<Rightarrow> bool" where
  "party_start m \<longleftrightarrow> (\<exists>s. 0 < N s \<and> table m = SymposiumTable_init s) \<and> phil_at m = (\<lambda>_. Arriving)"

fun agrees :: "phil_pc \<Rightarrow> PHIL \<Rightarrow> bool \<Rightarrow> bool" where
  "agrees Arriving p sl \<longleftrightarrow> p = NOTHERE \<and> \<not> sl"
| "agrees (Thinks j) p sl \<longleftrightarrow> p = THINKING \<and> \<not> sl"
| "agrees (Waits_hungry j) p sl \<longleftrightarrow> (p = HUNGRY \<and> sl) \<or> (p = EATING \<and> \<not> sl)"
| "agrees (Eats j) p sl \<longleftrightarrow> p = EATING \<and> \<not> sl"
| "agrees Left p sl \<longleftrightarrow> p = NOTHERE \<and> \<not> sl"

text \<open>Neighbours do not eat at the same time, and a hungry philosopher has a neighbour that eats.\<close>

definition forks_ok :: "nat \<Rightarrow> (nat \<Rightarrow> PHIL) \<Rightarrow> bool" where
  "forks_ok n p \<longleftrightarrow> (\<forall>i < n. p i = EATING \<longrightarrow> LEFT i n = i \<or> p (LEFT i n) \<noteq> EATING)"

definition served :: "nat \<Rightarrow> (nat \<Rightarrow> PHIL) \<Rightarrow> nat \<Rightarrow> bool" where
  "served n p i \<longleftrightarrow> (p i = HUNGRY \<longrightarrow> p (LEFT i n) = EATING \<or> p (RIGHT i n) = EATING)"

definition party_inv :: "party \<Rightarrow> bool" where
  "party_inv m \<longleftrightarrow>
     (let S = table m; n = N (symp S) in
      0 < n \<and> forks_ok n (phils S) \<and> (\<forall>i < n. served n (phils S) i) \<and>
      (\<forall>i < n. agrees (phil_at m i) (phils S i) (i \<in> asleep S)))"

section \<open>Neighbours\<close>

lemma LEFT_RIGHT:
  assumes "i < n"
  shows "LEFT i n < n" "RIGHT i n < n" "LEFT (RIGHT i n) n = i" "RIGHT (LEFT i n) n = i"
proof -
  show "LEFT i n < n" "RIGHT i n < n" using assms by (simp_all add: LEFT_def RIGHT_def)
  have r: "RIGHT i n = (if i = 0 then n - 1 else i - 1)"
    using assms by (auto simp: RIGHT_def mod_if le_mod_geq)
  show "LEFT (RIGHT i n) n = i" using assms by (auto simp: r LEFT_def)
  have l: "LEFT i n = (if i + 1 = n then 0 else i + 1)" using assms by (auto simp: LEFT_def)
  show "RIGHT (LEFT i n) n = i" using assms by (auto simp: l RIGHT_def mod_if le_mod_geq)
qed

definition try_eat :: "nat \<Rightarrow> (nat \<Rightarrow> PHIL) \<Rightarrow> nat \<Rightarrow> nat \<Rightarrow> PHIL" where
  "try_eat n p i =
     (if p i = HUNGRY \<and> p (LEFT i n) \<noteq> EATING \<and> p (RIGHT i n) \<noteq> EATING then p(i := EATING) else p)"

lemma trytoeat_eq:
  "phils (trytoeat S i) = try_eat (N (symp S)) (phils S) i" "symp (trytoeat S i) = symp S"
  "asleep (trytoeat S i) = (if phils (trytoeat S i) i \<noteq> phils S i then asleep S - {i} else asleep S)"
  by (simp_all add: trytoeat_def try_eat_def set_phil_def Let_def)

lemma try_eat_forks:
  assumes "forks_ok n p" and i: "i < n"
  shows "forks_ok n (try_eat n p i)"
proof (cases "p i = HUNGRY \<and> p (LEFT i n) \<noteq> EATING \<and> p (RIGHT i n) \<noteq> EATING")
  case True
  have "LEFT k n = k \<or> (p(i := EATING)) (LEFT k n) \<noteq> EATING" if k: "k < n" "(p(i := EATING)) k = EATING" for k
  proof (cases "k = i")
    case False
    then have "p k = EATING" using k by simp
    moreover have "LEFT k n \<noteq> i" using LEFT_RIGHT(4) [OF k(1)] True \<open>p k = EATING\<close> by auto
    ultimately show ?thesis using assms(1) k(1) by (auto simp: forks_ok_def)
  qed (use True in auto)
  then show ?thesis using True by (simp add: try_eat_def forks_ok_def)
next
  case False
  then show ?thesis unfolding try_eat_def using assms(1) by (simp only: if_False)
qed

lemma try_eat_served: "served n p k \<Longrightarrow> served n (try_eat n p i) k"
  by (auto simp: served_def try_eat_def)

lemma try_eat_self: "served n (try_eat n p i) i"
  by (auto simp: served_def try_eat_def)

lemma not_eating_forks: "forks_ok n p \<Longrightarrow> q \<noteq> EATING \<Longrightarrow> forks_ok n (p(i := q))"
  by (auto simp: forks_ok_def)

lemma other_served:
  assumes "served n p k" and "k < n" and "i < n" and "q \<noteq> HUNGRY"
    and "p i \<noteq> EATING \<or> k \<noteq> LEFT i n \<and> k \<noteq> RIGHT i n"
  shows "served n (p(i := q)) k"
  using assms LEFT_RIGHT(3,4) [OF assms(2)] by (auto simp: served_def)

lemma hungry_served:
  assumes "served n p k" and "k \<noteq> i" and "p i \<noteq> EATING"
  shows "served n (p(i := HUNGRY)) k"
  using assms by (auto simp: served_def)

section \<open>The invariant\<close>

lemma party_invD:
  assumes "party_inv m"
  shows "0 < N (symp (table m))" "forks_ok (N (symp (table m))) (phils (table m))"
    "i < N (symp (table m)) \<Longrightarrow> served (N (symp (table m))) (phils (table m)) i"
    "i < N (symp (table m)) \<Longrightarrow> agrees (phil_at m i) (phils (table m) i) (i \<in> asleep (table m))"
  using assms by (auto simp: party_inv_def Let_def)

lemma trytoeat_agrees:
  assumes "agrees at (phils S k) (k \<in> asleep S)"
  shows "agrees at (phils (trytoeat S i) k) (k \<in> asleep (trytoeat S i))"
  using assms by (cases at) (auto simp: trytoeat_def set_phil_def Let_def split: if_splits)

lemma party_invI:
  assumes "0 < n" and "N (symp S) = n" and "forks_ok n (phils S)" and "\<And>k. k < n \<Longrightarrow> served n (phils S) k"
    and "\<And>k. k < n \<Longrightarrow> agrees (f k) (phils S k) (k \<in> asleep S)"
  shows "party_inv \<lparr>table = S, phil_at = f\<rparr>"
  using assms by (simp add: party_inv_def)

lemma done_inv:
  assumes inv: "party_inv m" and i: "i < N (symp (table m))" and at: "phil_at m i = Eats j"
    and r: "phil_done (table m) i j = (a, S')"
  shows "party_inv \<lparr>table = S', phil_at = (phil_at m)(i := a)\<rparr>"
proof -
  let ?S = "table m" let ?n = "N (symp ?S)" let ?S1 = "set_phil ?S i THINKING"
  let ?S2 = "trytoeat ?S1 (LEFT i ?n)"
  note inv = party_invD [OF inv] and lr = LEFT_RIGHT [OF i]
  have S': "S' = trytoeat ?S2 (RIGHT i ?n)" "a = Thinks (j + 1)" using r by (auto simp: phil_done_def Let_def)
  have n: "N (symp ?S1) = ?n" by (simp add: set_phil_def)
  have p: "phils ?S1 = (phils ?S)(i := THINKING)" by (simp add: set_phil_def)
  have S'p: "phils S' = try_eat ?n (try_eat ?n (phils ?S1) (LEFT i ?n)) (RIGHT i ?n)" "N (symp S') = ?n"
    by (simp_all add: S' trytoeat_eq n)
  have "forks_ok ?n (phils ?S1)" unfolding p using inv(2) by (rule not_eating_forks) simp
  then have f: "forks_ok ?n (phils S')" unfolding S'p using lr by (intro try_eat_forks)
  have s: "served ?n (phils S') k" if "k < ?n" for k
  proof (cases "k = LEFT i ?n \<or> k = RIGHT i ?n")
    case True
    then show ?thesis unfolding S'p by (auto intro: try_eat_self try_eat_served)
  next
    case False
    have "served ?n (phils ?S1) k" unfolding p using inv(3) [OF that] that i False by (intro other_served) auto
    then show ?thesis unfolding S'p by (intro try_eat_served)
  qed
  have a: "agrees (((phil_at m)(i := a)) k) (phils S' k) (k \<in> asleep S')" if "k < ?n" for k
  proof -
    have "agrees (((phil_at m)(i := a)) k) (phils ?S1 k) (k \<in> asleep ?S1)"
      using inv(4) [OF that] inv(4) [OF i] at by (auto simp: S'(2) set_phil_def)
    then show ?thesis unfolding S'(1) by (intro trytoeat_agrees)
  qed
  show ?thesis by (rule party_invI [OF inv(1) S'p(2) f s a])
qed

lemma hungry_inv:
  assumes inv: "party_inv m" and i: "i < N (symp (table m))" and at: "phil_at m i = Thinks j"
  shows "\<exists>a S'. phil_hungry (table m) i j = Some (a, S') \<and> (a = Eats j \<or> a = Waits_hungry j) \<and> symp S' = symp (table m) \<and>
     party_inv \<lparr>table = S', phil_at = (phil_at m)(i := a)\<rparr>"
proof -
  let ?S = "table m" let ?n = "N (symp ?S)" let ?S1 = "set_phil ?S i HUNGRY" let ?S2 = "trytoeat ?S1 i"
  note inv = party_invD [OF inv]
  have th: "phils ?S i = THINKING" "i \<notin> asleep ?S" using inv(4) [OF i] at by auto
  have n: "N (symp ?S1) = ?n" "symp ?S1 = symp ?S" by (simp_all add: set_phil_def)
  have p: "phils ?S1 = (phils ?S)(i := HUNGRY)" by (simp add: set_phil_def)
  have p2: "phils ?S2 = try_eat ?n (phils ?S1) i" "symp ?S2 = symp ?S" by (simp_all add: trytoeat_eq n)
  have f1: "forks_ok ?n (phils ?S1)" unfolding p using inv(2) by (rule not_eating_forks) simp
  have f: "forks_ok ?n (phils ?S2)" unfolding p2 using f1 i by (rule try_eat_forks)
  have s: "served ?n (phils ?S2) k" if "k < ?n" for k
  proof (cases "k = i")
    case False
    have "served ?n (phils ?S1) k" unfolding p using inv(3) [OF that] False th by (intro hungry_served) auto
    then show ?thesis unfolding p2 by (rule try_eat_served)
  qed (simp add: p2 try_eat_self)
  have i2: "phils ?S2 i = EATING \<or> phils ?S2 i = HUNGRY" "i \<notin> asleep ?S2"
    using th by (auto simp: p2 try_eat_def p trytoeat_eq set_phil_def)
  have ag: "agrees (phil_at m k) (phils ?S2 k) (k \<in> asleep ?S2)" if "k < ?n" "k \<noteq> i" for k
    by (rule trytoeat_agrees) (use inv(4) [OF that(1)] that(2) in \<open>simp add: set_phil_def\<close>)
  from i2(1) show ?thesis
  proof
    assume e: "phils ?S2 i = EATING"
    have "party_inv \<lparr>table = ?S2, phil_at = (phil_at m)(i := Eats j)\<rparr>"
      by (rule party_invI [OF inv(1) _ f s]) (use ag i2 e p2 in auto)
    then show ?thesis using e p2 by (simp add: phil_hungry_def phil_check_def)
  next
    assume e: "phils ?S2 i = HUNGRY"
    let ?S3 = "?S2\<lparr>asleep := insert i (asleep ?S2)\<rparr>"
    have "party_inv \<lparr>table = ?S3, phil_at = (phil_at m)(i := Waits_hungry j)\<rparr>"
      by (rule party_invI [OF inv(1)]) (use f s ag e p2 in auto)
    then show ?thesis using e p2 by (simp add: phil_hungry_def phil_check_def)
  qed
qed

section \<open>Progress\<close>

text \<open>What is left to do for a philosopher.\<close>

fun todo :: "nat \<Rightarrow> phil_pc \<Rightarrow> nat" where
  "todo b Arriving = 3 * b + 2"
| "todo b (Thinks j) = 3 * (b - j) + 1"
| "todo b (Waits_hungry j) = 3 * (b - j)"
| "todo b (Eats j) = 3 * (b - j) - 1"
| "todo b Left = 0"

fun in_bites :: "nat \<Rightarrow> phil_pc \<Rightarrow> bool" where
  "in_bites b (Waits_hungry j) \<longleftrightarrow> j < b"
| "in_bites b (Eats j) \<longleftrightarrow> j < b"
| "in_bites b _ \<longleftrightarrow> True"

definition counted :: "party \<Rightarrow> bool" where
  "counted m \<longleftrightarrow> (\<forall>i. in_bites (bites (symp (table m))) (phil_at m i))"

lemma simple_inv:
  assumes inv: "party_inv m" and i: "i < N (symp (table m))" and q: "q = NOTHERE \<or> q = THINKING"
    and p: "phils (table m) i \<noteq> EATING" "i \<notin> asleep (table m)" and a: "agrees a q False"
  shows "party_inv \<lparr>table = set_phil (table m) i q, phil_at = (phil_at m)(i := a)\<rparr>"
proof -
  note inv = party_invD [OF inv]
  let ?n = "N (symp (table m))"
  have f: "forks_ok ?n ((phils (table m))(i := q))" using inv(2) q by (intro not_eating_forks) auto
  have s: "served ?n ((phils (table m))(i := q)) k" if "k < ?n" for k
    using inv(3) [OF that] that i q p by (intro other_served) auto
  show ?thesis by (rule party_invI [OF inv(1)]) (use f s inv(4) a p in \<open>auto simp: set_phil_def\<close>)
qed

lemma philosopher_step:
  assumes inv: "party_inv m" "counted m" and i: "i < N (symp (table m))" "i \<notin> asleep (table m)"
    and go: "phil_at m i \<noteq> Left"
  shows "\<exists>a S'. SymposiumTable_philosopher (table m) i (phil_at m i) = Some (a, S') \<and>
     party_inv \<lparr>table = S', phil_at = (phil_at m)(i := a)\<rparr> \<and> symp S' = symp (table m) \<and>
     in_bites (bites (symp (table m))) a \<and> todo (bites (symp (table m))) a < todo (bites (symp (table m))) (phil_at m i)"
proof -
  let ?S = "table m" let ?b = "bites (symp ?S)"
  have ag: "agrees (phil_at m i) (phils ?S i) False" using party_invD(4) [OF inv(1) i(1)] i(2) by simp
  have ib: "in_bites ?b (phil_at m i)" using inv(2) by (simp add: counted_def)
  show ?thesis
  proof (cases "phil_at m i")
    case Arriving
    then show ?thesis using simple_inv [OF inv(1) i(1), of THINKING "Thinks 0"] ag i(2)
      by (simp add: SymposiumTable_philosopher_def phil_arrive_def set_phil_def)
  next
    case (Thinks j)
    show ?thesis
    proof (cases "j < ?b")
      case True
      obtain a S' where a: "phil_hungry ?S i j = Some (a, S')" "a = Eats j \<or> a = Waits_hungry j" "symp S' = symp ?S"
        "party_inv \<lparr>table = S', phil_at = (phil_at m)(i := a)\<rparr>"
        using hungry_inv [OF inv(1) i(1) Thinks] by blast
      then show ?thesis using Thinks True by (auto simp: SymposiumTable_philosopher_def)
    next
      case False
      then show ?thesis using simple_inv [OF inv(1) i(1), of NOTHERE Left] ag i(2) Thinks
        by (simp add: SymposiumTable_philosopher_def phil_leave_def set_phil_def)
    qed
  next
    case (Waits_hungry j)
    have e: "phils ?S i = EATING" using ag Waits_hungry by simp
    note D = party_invD [OF inv(1)]
    have "party_inv \<lparr>table = ?S, phil_at = (phil_at m)(i := Eats j)\<rparr>"
      by (rule party_invI [OF D(1) refl D(2,3)]) (use D(4) e i in auto)
    then show ?thesis using Waits_hungry e ib by (simp add: SymposiumTable_philosopher_def phil_check_def)
  next
    case (Eats j)
    obtain a S' where a: "phil_done ?S i j = (a, S')" by force
    have "a = Thinks (j + 1)" "symp S' = symp ?S"
      using a by (auto simp: phil_done_def Let_def trytoeat_eq set_phil_def)
    then show ?thesis using done_inv [OF inv(1) i(1) Eats a] Eats a ib
      by (auto simp: SymposiumTable_philosopher_def)
  qed (use go in simp)
qed

definition remaining :: "party \<Rightarrow> nat" where
  "remaining m = (\<Sum>i < N (symp (table m)). todo (bites (symp (table m))) (phil_at m i))"

inductive_cases party_stepE: "party_step m m'"

lemma party_step_effect:
  assumes "party_step m m'" and "party_inv m" and "counted m"
  shows "party_inv m' \<and> counted m' \<and> remaining m' < remaining m"
proof -
  obtain i a S' where 1: "m' = \<lparr>table = S', phil_at = (phil_at m)(i := a)\<rparr>" "i < N (symp (table m))"
    "i \<notin> asleep (table m)" "SymposiumTable_philosopher (table m) i (phil_at m i) = Some (a, S')"
    using assms(1) by (auto elim: party_stepE)
  have go: "phil_at m i \<noteq> Left" using 1 by (auto simp: SymposiumTable_philosopher_def)
  have r: "party_inv \<lparr>table = S', phil_at = (phil_at m)(i := a)\<rparr>" "symp S' = symp (table m)"
    "in_bites (bites (symp (table m))) a" "todo (bites (symp (table m))) a < todo (bites (symp (table m))) (phil_at m i)"
    using philosopher_step [OF assms(2,3) 1(2,3) go] 1(4) by auto
  have "remaining m' < remaining m"
  proof -
    let ?n = "N (symp (table m))" let ?f = "\<lambda>k. todo (bites (symp (table m))) (phil_at m k)"
    have "sum (?f(i := todo (bites (symp (table m))) a)) {..<?n} < sum ?f {..<?n}"
      using r(4) 1(2) by (intro sum_strict_mono_ex1) auto
    moreover have "remaining m' = sum (?f(i := todo (bites (symp (table m))) a)) {..<?n}"
      unfolding remaining_def 1(1) using r(2) by (intro sum.cong) auto
    ultimately show ?thesis by (simp add: remaining_def)
  qed
  then show ?thesis using r assms(3) 1(1) by (simp add: counted_def)
qed

interpretation symposium: transition_invariant party_start party_step "\<lambda>m. party_inv m \<and> counted m"
proof unfold_locales
  show "party_inv m \<and> counted m" if "party_start m" for m
    using that by (auto simp: party_start_def party_inv_def counted_def SymposiumTable_init_def forks_ok_def served_def)
qed (use party_step_effect in blast)

text \<open>Two philosophers; the first has arrived and eats.\<close>

definition ex_symp :: symposium_t where "ex_symp = \<lparr>N = 2, bites = 1, fmin = 0, fmax = 1\<rparr>"

definition ex_party0 :: party where
  "ex_party0 = \<lparr>table = SymposiumTable_init ex_symp, phil_at = (\<lambda>_. Arriving)\<rparr>"

definition ex_move :: "nat \<Rightarrow> party \<Rightarrow> party" where
  "ex_move i m = (case SymposiumTable_philosopher (table m) i (phil_at m i) of
     Some (a, S') \<Rightarrow> \<lparr>table = S', phil_at = (phil_at m)(i := a)\<rparr> | None \<Rightarrow> m)"

lemmas ex_party_defs = ex_move_def ex_party0_def ex_symp_def SymposiumTable_init_def SymposiumTable_philosopher_def
  phil_arrive_def phil_hungry_def phil_check_def trytoeat_def set_phil_def LEFT_def RIGHT_def Let_def

lemma ex_move_reach:
  assumes "reach party_start party_step m" and "i < N (symp (table m))" and "i \<notin> asleep (table m)"
    and "SymposiumTable_philosopher (table m) i (phil_at m i) \<noteq> None"
  shows "reach party_start party_step (ex_move i m)"
proof -
  obtain a S' where r: "SymposiumTable_philosopher (table m) i (phil_at m i) = Some (a, S')" using assms(4) by auto
  have "party_step m (ex_move i m)" using party_step.intros [OF assms(2,3) r] r by (simp add: ex_move_def)
  then show ?thesis by (rule reach_trans [OF assms(1)])
qed

lemma ex_party_reach: "reach party_start party_step ex_party0" "reach party_start party_step (ex_move 0 (ex_move 0 ex_party0))"
proof -
  have "party_start ex_party0" unfolding party_start_def
    by (intro conjI exI [of _ ex_symp]) (simp_all add: ex_party0_def ex_symp_def)
  then show r0: "reach party_start party_step ex_party0" by (rule reach_start)
  have r1: "reach party_start party_step (ex_move 0 ex_party0)"
    by (rule ex_move_reach [OF r0]) (simp_all add: ex_party_defs)
  show "reach party_start party_step (ex_move 0 (ex_move 0 ex_party0))"
    by (rule ex_move_reach [OF r1]) (simp_all add: ex_party_defs)
qed

section \<open>Properties\<close>

text \<open>C30: The dining philosophers. In every state the symposium can reach, neighbours do not eat at the
  same time; a philosopher is hungry only while a neighbour eats; and a philosopher that sleeps is
  hungry, so the signal to eat is never lost.\<close>

theorem philosophers_share_forks:
  assumes "reach party_start party_step m" and "i < N (symp (table m))" and "1 < N (symp (table m))"
  shows "(phils (table m) i = EATING \<longrightarrow>
       phils (table m) (LEFT i (N (symp (table m)))) \<noteq> EATING \<and> phils (table m) (RIGHT i (N (symp (table m)))) \<noteq> EATING) \<and>
     (phils (table m) i = HUNGRY \<longrightarrow>
       phils (table m) (LEFT i (N (symp (table m)))) = EATING \<or> phils (table m) (RIGHT i (N (symp (table m)))) = EATING) \<and>
     (i \<in> asleep (table m) \<longrightarrow> phils (table m) i = HUNGRY)"
proof -
  let ?n = "N (symp (table m))" let ?p = "phils (table m)"
  have inv: "party_inv m" using symposium.inv_reach [OF assms(1)] by simp
  note D = party_invD [OF inv] and lr = LEFT_RIGHT [OF assms(2)]
  have ne: "LEFT k ?n \<noteq> k" if "k < ?n" for k
    using that assms(3) by (cases "k + 1 = ?n") (auto simp: LEFT_def)
  have "?p (LEFT i ?n) \<noteq> EATING" "?p (RIGHT i ?n) \<noteq> EATING" if "?p i = EATING"
    using D(2) that assms(2) ne [OF assms(2)] ne [OF lr(2)] lr by (auto simp: forks_ok_def)
  moreover have "i \<in> asleep (table m) \<longrightarrow> ?p i = HUNGRY" using D(4) [OF assms(2)] by (cases "phil_at m i") auto
  ultimately show ?thesis using D(3) [OF assms(2)] by (auto simp: served_def)
qed

theorem philosophers_share_forks_witness:
  "phils (table (ex_move 0 (ex_move 0 ex_party0))) 0 = EATING \<and>
   phils (table (ex_move 0 (ex_move 0 ex_party0))) (LEFT 0 2) \<noteq> EATING"
proof -
  have f: "N (symp (table (ex_move 0 (ex_move 0 ex_party0)))) = 2"
    "phils (table (ex_move 0 (ex_move 0 ex_party0))) 0 = EATING" by (simp_all add: ex_party_defs)
  from philosophers_share_forks [OF ex_party_reach(2), of 0] show ?thesis unfolding f by simp
qed

text \<open>C31: The symposium ends. In every reachable state either all philosophers have left or some step is
  possible (no deadlock and no failing assertion), and every step makes the number of remaining
  steps smaller, so no run is infinite.\<close>

theorem symposium_completes:
  assumes "reach party_start party_step m"
  shows "((\<exists>m'. party_step m m') \<longleftrightarrow> \<not> (\<forall>i. i < N (symp (table m)) \<longrightarrow> phil_at m i = Left)) \<and>
     (\<forall>m'. party_step m m' \<longrightarrow> remaining m' < remaining m)"
proof -
  let ?n = "N (symp (table m))" let ?p = "phils (table m)"
  have inv: "party_inv m" "counted m" using symposium.inv_reach [OF assms] by auto
  note D = party_invD [OF inv(1)]
  have step: "\<exists>m'. party_step m m'" if "k < ?n" "k \<notin> asleep (table m)" "phil_at m k \<noteq> Left" for k
    using philosopher_step [OF inv that] party_step.intros [OF that(1,2)] by blast
  have "\<exists>m'. party_step m m'" if i: "i < ?n" "phil_at m i \<noteq> Left" for i
  proof (cases "i \<in> asleep (table m)")
    case True
    then have "?p i = HUNGRY" using D(4) [OF i(1)] by (cases "phil_at m i") auto
    then obtain k where "k < ?n" "?p k = EATING"
      using D(3) [OF i(1)] LEFT_RIGHT [OF i(1)] by (auto simp: served_def)
    then show ?thesis using step [of k] D(4) [of k] by (cases "phil_at m k") auto
  qed (use step i in blast)
  moreover have "\<not> party_step m m'" if "\<forall>i. i < ?n \<longrightarrow> phil_at m i = Left" for m'
    using that by (auto elim!: party_stepE simp: SymposiumTable_philosopher_def)
  ultimately show ?thesis using party_step_effect inv by blast
qed

theorem symposium_completes_witness: "\<exists>m'. party_step ex_party0 m' \<and> remaining m' < remaining ex_party0"
proof -
  have "N (symp (table ex_party0)) = 2" "phil_at ex_party0 0 = Arriving" by (simp_all add: ex_party_defs)
  then show ?thesis using symposium_completes [OF ex_party_reach(1)]
    by (metis phil_pc.distinct(7) zero_less_numeral)
qed

end
