(* ===== verification/Argv.thy ===== *)
theory Argv
  imports Prelude "HOL-Library.Monad_Syntax"
begin

text \<open>
  Packing and unpacking of string vectors, \<^verbatim>\<open>util.h\<close>.

  A \<open>const char*\<close> is the list of the bytes from that address on, the terminating zero included; an
  argument buffer is a list of bytes. A read or a write outside these lists, or an overflow of the
  \<open>int\<close> counter, gives \<open>None\<close>.
\<close>

section \<open>The functions\<close>

fun strlen :: "byte list \<Rightarrow> nat option" where
  "strlen [] = None"
| "strlen (c # s) = (if c = 0 then Some 0 else map_option Suc (strlen s))"

fun argvlen :: "byte list list \<Rightarrow> uint64 option" where
  "argvlen [] = Some 0"
| "argvlen (s # ss) = do { n \<leftarrow> strlen s; l \<leftarrow> argvlen ss; Some (of_nat (n + 1) + l) }"

text \<open>The loop \<open>while(( *pos++ = *s++ )) argl++\<close>.\<close>

fun copy_string :: "byte list \<Rightarrow> nat \<Rightarrow> byte list \<Rightarrow> int \<Rightarrow> (byte list \<times> nat \<times> int) option" where
  "copy_string buf pos [] argl = None"
| "copy_string buf pos (c # s) argl =
     (if pos < length buf then
        if c \<noteq> 0 then
          if argl + 1 < 2 ^ 31 then copy_string (buf[pos := c]) (pos + 1) s (argl + 1) else None
        else Some (buf[pos := c], pos + 1, argl)
      else None)"

fun argvpack_loop :: "byte list \<Rightarrow> nat \<Rightarrow> byte list list \<Rightarrow> int \<Rightarrow> (byte list \<times> int) option" where
  "argvpack_loop buf pos [] argl = Some (buf, argl)"
| "argvpack_loop buf pos (s # ss) argl = do {
     (buf1, pos1, argl1) \<leftarrow> copy_string buf pos s argl;
     argvpack_loop buf1 pos1 ss argl1
   }"

definition argvpack :: "byte list \<Rightarrow> byte list list \<Rightarrow> (byte list \<times> uint64) option" where
  "argvpack args argv = do {
     (buf, argl) \<leftarrow> argvpack_loop args 0 argv 0;
     Some (buf, of_int argl + of_nat (length argv))
   }"

fun argscount_loop :: "byte list \<Rightarrow> nat list \<Rightarrow> int \<Rightarrow> int option" where
  "argscount_loop a [] n = Some n"
| "argscount_loop a (i # is) n =
     (if i < length a then argscount_loop a is (if a ! i = 0 then n + 1 else n) else None)"

definition argscount :: "int \<Rightarrow> byte list \<Rightarrow> uint64 option" where
  "argscount argl args = map_option of_int (argscount_loop args [0..<nat argl] 0)"

text \<open>The loop \<open>while( *a++)\<close>: the position behind the next zero byte.\<close>

function skip_string :: "byte list \<Rightarrow> nat \<Rightarrow> nat option" where
  "skip_string args a =
     (if a < length args then if args ! a \<noteq> 0 then skip_string args (a + 1) else Some (a + 1) else None)"
  by pat_completeness auto
termination by (relation "measure (\<lambda>(args, a). length args - a)") auto

declare skip_string.simps [simp del]

fun argvunpack_loop :: "nat \<Rightarrow> byte list \<Rightarrow> nat \<Rightarrow> (nat list \<times> nat) option" where
  "argvunpack_loop 0 args a = Some ([], a)"
| "argvunpack_loop (Suc n) args a = do {
     a1 \<leftarrow> skip_string args a;
     (argv, a2) \<leftarrow> argvunpack_loop n args a1;
     Some (a # argv, a2)
   }"

text \<open>The result: the positions stored in \<open>argv\<close> and the first location not unpacked.\<close>

definition argvunpack :: "nat \<Rightarrow> int \<Rightarrow> byte list \<Rightarrow> (nat list \<times> nat) option" where
  "argvunpack argc argl args = argvunpack_loop argc args 0"

section \<open>C strings\<close>

text \<open>The string at a position, and the memory of a string constant.\<close>

definition cstring :: "byte list \<Rightarrow> nat \<Rightarrow> byte list" where
  "cstring args a = takeWhile (\<lambda>c. c \<noteq> 0) (drop a args)"

definition terminated :: "byte list \<Rightarrow> byte list" where
  "terminated s = s @ [0]"

definition packed :: "byte list list \<Rightarrow> byte list" where
  "packed ss = concat (map terminated ss)"

lemma packed_simps [simp]: "packed [] = []" "packed (s # ss) = s @ 0 # packed ss"
  by (simp_all add: packed_def terminated_def)

lemma length_packed: "length (packed ss) = sum_list (map length ss) + length ss"
  by (induction ss) auto

lemma strlen_terminated: "0 \<notin> set s \<Longrightarrow> strlen (terminated s @ t) = Some (length s)"
  by (induction s) (auto simp: terminated_def)

lemma argvlen_packed:
  "(\<And>s. s \<in> set ss \<Longrightarrow> 0 \<notin> set s) \<Longrightarrow> argvlen (map terminated ss) = Some (of_nat (length (packed ss)))"
proof (induction ss)
  case (Cons s ss)
  then have "argvlen (map terminated ss) = Some (of_nat (length (packed ss)))" by simp
  moreover have "strlen (terminated s) = Some (length s)"
    using strlen_terminated [of s "[]"] Cons(2) by simp
  ultimately show ?case by (simp add: algebra_simps)
qed simp

section \<open>Packing\<close>

lemma copy_string_spec:
  assumes "0 \<notin> set s" and "length fin = pos" and "length s < length rest"
    and "0 \<le> argl" and "argl + int (length s) < 2 ^ 31"
  shows "copy_string (fin @ rest) pos (terminated s) argl =
     Some (fin @ s @ 0 # drop (Suc (length s)) rest, pos + length s + 1, argl + int (length s))"
  using assms
proof (induction s arbitrary: fin pos rest argl)
  case Nil
  then obtain r rs where "rest = r # rs" by (cases rest) auto
  then show ?case using Nil by (auto simp: terminated_def list_update_append)
next
  case (Cons c s)
  then obtain r rs where r: "rest = r # rs" by (cases rest) auto
  have upd: "(fin @ r # rs)[pos := c] = (fin @ [c]) @ rs"
    using Cons(3) by (auto simp: list_update_append)
  have "copy_string ((fin @ [c]) @ rs) (pos + 1) (terminated s) (argl + 1) =
      Some ((fin @ [c]) @ s @ 0 # drop (Suc (length s)) rs, pos + 1 + length s + 1, argl + 1 + int (length s))"
    by (rule Cons.IH) (use Cons.prems r in auto)
  then show ?case using Cons.prems r upd by (simp add: terminated_def)
qed

lemma argvpack_loop_spec:
  assumes "\<And>s. s \<in> set ss \<Longrightarrow> 0 \<notin> set s" and "length fin = pos" and "length (packed ss) \<le> length rest"
    and "0 \<le> argl" and "argl + int (sum_list (map length ss)) < 2 ^ 31"
  shows "argvpack_loop (fin @ rest) pos (map terminated ss) argl =
     Some (fin @ packed ss @ drop (length (packed ss)) rest, argl + int (sum_list (map length ss)))"
  using assms
proof (induction ss arbitrary: fin pos rest argl)
  case (Cons s ss)
  have "copy_string (fin @ rest) pos (terminated s) argl =
      Some (fin @ s @ 0 # drop (Suc (length s)) rest, pos + length s + 1, argl + int (length s))"
    by (rule copy_string_spec) (use Cons.prems in auto)
  moreover have "argvpack_loop ((fin @ s @ [0]) @ drop (Suc (length s)) rest) (pos + length s + 1)
      (map terminated ss) (argl + int (length s)) =
    Some ((fin @ s @ [0]) @ packed ss @ drop (length (packed ss)) (drop (Suc (length s)) rest),
      argl + int (length s) + int (sum_list (map length ss)))"
    by (rule Cons.IH) (use Cons.prems in auto)
  ultimately show ?case by (simp add: add.commute)
qed simp

lemma argvpack_spec:
  assumes "\<And>s. s \<in> set ss \<Longrightarrow> 0 \<notin> set s" and "length (packed ss) \<le> length buf"
    and "sum_list (map length ss) < 2 ^ 31"
  shows "argvpack buf (map terminated ss) =
     Some (packed ss @ drop (length (packed ss)) buf, of_nat (length (packed ss)))"
proof -
  have "argvpack_loop ([] @ buf) 0 (map terminated ss) 0 =
      Some ([] @ packed ss @ drop (length (packed ss)) buf, 0 + int (sum_list (map length ss)))"
    by (rule argvpack_loop_spec) (use assms in auto)
  then show ?thesis by (simp add: argvpack_def length_packed)
qed

section \<open>Unpacking\<close>

lemma argscount_loop_spec:
  "m \<le> length a \<Longrightarrow> argscount_loop a [m - k..<m] n =
     Some (n + int (count_list (drop (m - k) (take m a)) 0))"
proof (induction k arbitrary: n)
  case (Suc k)
  show ?case
  proof (cases "k < m")
    case True
    then have "[m - Suc k..<m] = (m - Suc k) # [m - k..<m]"
      using upt_conv_Cons [of "m - Suc k" m] by (simp add: Suc_diff_Suc)
    moreover have "drop (m - Suc k) (take m a) = a ! (m - Suc k) # drop (m - k) (take m a)"
      using True Suc(2) Cons_nth_drop_Suc [of "m - Suc k" "take m a"] by (simp add: Suc_diff_Suc)
    ultimately show ?thesis using Suc True by auto
  next
    case False
    then show ?thesis using Suc by simp
  qed
qed simp

lemma argscount_count:
  assumes "0 \<le> argl" and "nat argl \<le> length a"
  shows "argscount argl a = Some (of_nat (count_list (take (nat argl) a) 0))"
  using argscount_loop_spec [of "nat argl" a "nat argl" 0] assms by (simp add: argscount_def)

lemma count_packed:
  "(\<And>s. s \<in> set ss \<Longrightarrow> 0 \<notin> set s) \<Longrightarrow> count_list (packed ss) 0 = length ss"
  by (induction ss) (auto simp: count_list_append count_list_0_iff)

lemma skip_string_spec:
  assumes "0 \<notin> set s"
  shows "skip_string (pre @ s @ 0 # post) (length pre) = Some (length pre + length s + 1)"
  using assms
proof (induction s arbitrary: pre)
  case Nil
  show ?case by (simp add: skip_string.simps)
next
  case (Cons c s)
  have "skip_string ((pre @ [c]) @ s @ 0 # post) (length (pre @ [c])) = Some (length (pre @ [c]) + length s + 1)"
    by (rule Cons.IH) (use Cons.prems in simp)
  then show ?case using Cons.prems by (simp add: skip_string.simps [of _ "length pre"])
qed

lemma cstring_at: "0 \<notin> set s \<Longrightarrow> cstring (pre @ s @ 0 # post) (length pre) = s"
  by (induction s) (auto simp: cstring_def)

lemma argvunpack_loop_spec:
  assumes "\<And>s. s \<in> set ss \<Longrightarrow> 0 \<notin> set s"
  shows "\<exists>argv. argvunpack_loop (length ss) (pre @ packed ss @ post) (length pre) =
       Some (argv, length (pre @ packed ss)) \<and>
     map (cstring (pre @ packed ss @ post)) argv = ss"
  using assms
proof (induction ss arbitrary: pre)
  case (Cons s ss)
  let ?buf = "pre @ packed (s # ss) @ post"
  have "skip_string ?buf (length pre) = Some (length pre + length s + 1)"
    using skip_string_spec [of s pre "packed ss @ post"] Cons.prems by simp
  moreover obtain argv where "argvunpack_loop (length ss) ?buf (length pre + length s + 1) =
      Some (argv, length (pre @ packed (s # ss)))" "map (cstring ?buf) argv = ss"
    using Cons.IH [of "pre @ s @ [0]"] Cons.prems by auto
  moreover have "cstring ?buf (length pre) = s"
    using cstring_at [of s pre "packed ss @ post"] Cons.prems by simp
  ultimately show ?case by simp
qed simp

section \<open>Properties\<close>

text \<open>C34: Packing and unpacking are inverse. For strings without zero bytes whose total length fits
  an \<open>int\<close> and a buffer of at least \<open>argvlen\<close> bytes, \<open>argvpack\<close> writes no byte beyond that
  length and returns it, \<open>argscount\<close> finds the number of strings, and \<open>argvunpack\<close> gives pointers to
  exactly the strings that were packed and ends behind the last.\<close>

theorem argv_round_trip:
  assumes "\<And>s. s \<in> set ss \<Longrightarrow> 0 \<notin> set s" and "argvlen (map terminated ss) = Some l"
    and "unat l \<le> length buf" and "length (packed ss) < 2 ^ 31"
  shows "\<exists>buf' argv. argvpack buf (map terminated ss) = Some (buf', l) \<and>
     drop (unat l) buf' = drop (unat l) buf \<and> argscount (int (unat l)) buf' = Some (of_nat (length ss)) \<and>
     argvunpack (length ss) (int (unat l)) buf' = Some (argv, unat l) \<and> map (cstring buf') argv = ss"
proof -
  let ?n = "length (packed ss)"
  have l: "l = of_nat ?n" using argvlen_packed [of ss] assms(1,2) by simp
  have u: "unat l = ?n" unfolding l using assms(4) by (simp add: unat_of_nat_small)
  let ?buf = "packed ss @ drop ?n buf"
  have "argvpack buf (map terminated ss) = Some (?buf, l)"
    using argvpack_spec [of ss buf] assms u l length_packed [of ss] by simp
  moreover have "argscount (int ?n) ?buf = Some (of_nat (length ss))"
    using argscount_count [of "int ?n" ?buf] count_packed [of ss] assms(1) by simp
  moreover obtain argv where "argvunpack (length ss) (int ?n) ?buf = Some (argv, ?n)" "map (cstring ?buf) argv = ss"
    using argvunpack_loop_spec [of ss "[]" "drop ?n buf"] assms(1) by (auto simp: argvunpack_def)
  ultimately show ?thesis using u by auto
qed

theorem argv_round_trip_witness:
  "\<exists>buf' argv. argvpack (replicate 9 1) (map terminated [[104, 105], [], [33]]) = Some (buf', 6) \<and>
     argvunpack 3 6 buf' = Some (argv, 6) \<and> map (cstring buf') argv = [[104, 105], [], [33]]"
proof -
  have "argvlen (map terminated [[104, 105], [], [33]]) = Some 6" by (simp add: terminated_def)
  moreover have "0 \<notin> set s" if "s \<in> set [[104, 105], [], [33]]" for s :: "byte list" using that by auto
  ultimately show ?thesis
    using argv_round_trip [of "[[104, 105], [], [33]]" 6 "replicate 9 1"] by (auto simp: numeral_3_eq_3)
qed

end
