(* ===== verification/Tinyoslib.thy ===== *)
theory Tinyoslib
  imports Kernel Argv
begin

text \<open>
  The library for user programs, \<^verbatim>\<open>tinyoslib.c\<close>: programs with a string vector on top of \<open>Exec\<close>
  (\<open>Execute\<close>, \<open>exec_wrapper\<close>, \<open>ParseProcInfo\<close>) and the standard streams over file ids.

  A \<open>Program\<close> is the 64-bit address of its code; what it computes from its arguments is the parameter
  \<open>run\<close>. A pointer occupies eight bytes, the least significant first.
\<close>

unbundle bit_operations_syntax

section \<open>Programs with arguments\<close>

fun bytes_of :: "nat \<Rightarrow> uint64 \<Rightarrow> byte list" where
  "bytes_of 0 p = []"
| "bytes_of (Suc n) p = ucast p # bytes_of n (drop_bit 8 p)"

fun of_bytes :: "byte list \<Rightarrow> uint64" where
  "of_bytes [] = 0"
| "of_bytes (b # bs) = ucast b OR push_bit 8 (of_bytes bs)"

definition put_pointer :: "uint64 \<Rightarrow> byte list" where "put_pointer p = bytes_of 8 p"

definition get_pointer :: "byte list \<Rightarrow> uint64" where "get_pointer bs = of_bytes (take 8 bs)"

text \<open>The address of \<open>exec_wrapper\<close>.\<close>

definition exec_wrapper_addr :: funptr where "exec_wrapper_addr = 2"

definition exec_wrapper :: "(uint64 \<Rightarrow> byte list list \<Rightarrow> 'r) \<Rightarrow> int \<Rightarrow> byte list \<Rightarrow> 'r option" where
  "exec_wrapper run al arg = do {
     _ \<leftarrow> (if 8 \<le> length arg then Some () else None);
     let prog = get_pointer arg;
     let al1 = al - 8;
     let arg1 = drop 8 arg;
     argc \<leftarrow> argscount al1 arg1;
     (argv, rest) \<leftarrow> argvunpack (unat argc) al1 arg1;
     Some (run prog (map (cstring arg1) argv))
   }"

text \<open>The call that \<open>Execute\<close> makes. The buffer on the stack holds arbitrary bytes \<open>stk\<close>; its length is
  passed to \<open>Exec\<close> as an \<open>int\<close>.\<close>

definition Execute :: "uint64 \<Rightarrow> byte list list \<Rightarrow> (nat \<Rightarrow> byte list) \<Rightarrow> sysreq option" where
  "Execute prog argv stk = do {
     l \<leftarrow> argvlen argv;
     let al = l + 8;
     let arg = put_pointer prog @ drop 8 (stk (unat al));
     (packed_args, n) \<leftarrow> argvpack (drop 8 arg) argv;
     Some (Exec (Some exec_wrapper_addr) (sint (ucast al :: uint32)) (Some (take 8 arg @ packed_args)))
   }"

section \<open>Process information\<close>

definition PROCINFO_MAX_ARGS_SIZE :: nat where "PROCINFO_MAX_ARGS_SIZE = 128"

record procinfo =
  pi_pid :: int
  pi_ppid :: int
  pi_alive :: bool
  pi_thread_count :: uint64
  pi_main_task :: funptr
  pi_argl :: int
  pi_args :: "byte list"

text \<open>\<open>prog\<close> is the variable that the second parameter points to, if it is not NULL. The result: the
  return value, that variable afterwards, and the positions stored in \<open>argv\<close>, if it is not NULL.\<close>

definition ParseProcInfo ::
  "procinfo \<Rightarrow> uint64 option \<Rightarrow> int \<Rightarrow> bool \<Rightarrow> (int \<times> uint64 option \<times> nat list) option" where
  "ParseProcInfo pinfo prog argc want_argv =
     (if pi_main_task pinfo \<noteq> exec_wrapper_addr then Some (-1, prog, [])
      else if pi_argl pinfo > int PROCINFO_MAX_ARGS_SIZE then Some (-1, prog, [])
      else do {
        let al = pi_argl pinfo - 8;
        let arg = drop 8 (pi_args pinfo);
        N \<leftarrow> argscount al arg;
        argv \<leftarrow> (if want_argv then do {
             let n = (if (of_int argc :: uint64) > N then unat N else nat argc);
             (argv, rest) \<leftarrow> argvunpack n al arg;
             Some argv
           } else Some []);
        Some (sint (ucast N :: uint32), prog, argv)
      })"

section \<open>Standard streams\<close>

text \<open>The cookie functions, on the result of the system call they make.\<close>

definition tinyos_fid_read :: "int \<Rightarrow> int" where "tinyos_fid_read ret = ret"

definition tinyos_fid_write :: "int \<Rightarrow> int" where
  "tinyos_fid_write ret = (if ret < 0 then 0 else ret)"

definition tinyos_fid_close :: int where "tinyos_fid_close = 0"

datatype cfile = Host nat | Fid_stream int bool

record stdio =
  std_in :: cfile
  std_out :: cfile
  saved_in :: "cfile option"
  saved_out :: "cfile option"

text \<open>A stream on a file id; the boolean tells whether it is for writing.\<close>

definition fidopen :: "int \<Rightarrow> bool \<Rightarrow> cfile" where "fidopen fid wr = Fid_stream fid wr"

definition get_std_stream :: "int \<Rightarrow> bool \<Rightarrow> cfile" where "get_std_stream fid wr = fidopen fid wr"

definition tinyos_replace_stdio :: "stdio \<Rightarrow> stdio option" where
  "tinyos_replace_stdio s =
     (if saved_in s = None \<and> saved_out s = None
      then Some \<lparr>std_in = get_std_stream 0 False, std_out = get_std_stream 1 True,
                 saved_in = Some (std_in s), saved_out = Some (std_out s)\<rparr>
      else None)"

definition tinyos_restore_stdio :: "stdio \<Rightarrow> stdio" where
  "tinyos_restore_stdio s =
     (case (saved_in s, saved_out s) of
        (_, None) \<Rightarrow> s
      | (Some i, Some t) \<Rightarrow> \<lparr>std_in = i, std_out = t, saved_in = None, saved_out = None\<rparr>
      | (None, Some t) \<Rightarrow> s\<lparr>std_out := t, saved_out := None\<rparr>)"

lemma stdio_restored:
  "saved_in s = None \<Longrightarrow> saved_out s = None \<Longrightarrow> map_option tinyos_restore_stdio (tinyos_replace_stdio s) = Some s"
  by (cases s) (simp add: tinyos_replace_stdio_def tinyos_restore_stdio_def)

section \<open>Pointers as bytes\<close>

lemma length_bytes_of [simp]: "length (bytes_of n p) = n"
  by (induction n arbitrary: p) simp_all

lemma of_bytes_of: "of_bytes (bytes_of n p) = take_bit (8 * n) p"
proof (induction n arbitrary: p)
  case (Suc n)
  have "(ucast (ucast p :: byte) :: uint64) OR push_bit 8 (take_bit (8 * n) (drop_bit 8 p)) =
      take_bit (8 * n + 8) p"
    by (rule bit_word_eqI) (auto simp: bit_simps)
  then show ?case by (simp add: Suc add.commute)
qed simp

lemma length_put_pointer [simp]: "length (put_pointer p) = 8"
  by (simp add: put_pointer_def)

lemma get_put_pointer: "get_pointer (put_pointer p @ bs) = p"
  using of_bytes_of [of 8 p] by (simp add: get_pointer_def put_pointer_def take_bit_word_eq_self)

section \<open>The argument buffer\<close>

lemma Execute_eq:
  assumes "\<And>s. s \<in> set ss \<Longrightarrow> 0 \<notin> set s" and "length (packed ss) + 8 < 2 ^ 31" and "\<And>n. length (stk n) = n"
  shows "Execute prog (map terminated ss) stk =
     Some (Exec (Some exec_wrapper_addr) (int (length (packed ss) + 8)) (Some (put_pointer prog @ packed ss)))"
proof -
  let ?n = "length (packed ss)"
  have l: "argvlen (map terminated ss) = Some (of_nat ?n)" using assms(1) by (rule argvlen_packed)
  have al: "of_nat ?n + 8 = (of_nat (?n + 8) :: uint64)" by simp
  have u: "unat (of_nat (?n + 8) :: uint64) = ?n + 8" using assms(2) by (subst unat_of_nat_small) auto
  have "take_bit 64 (?n + 8) = ?n + 8" using assms(2) by (simp add: take_bit_nat_eq_self)
  then have "(ucast (of_nat (?n + 8) :: uint64) :: uint32) = of_nat (?n + 8)"
    by (simp only: unsigned_of_nat len_num0 len_num1 len_bit0 len_bit1) simp
  moreover have "signed_take_bit 31 (int (?n + 8)) = int (?n + 8)"
    using assms(2) by (intro signed_take_bit_int_eq_self) simp_all
  ultimately have s: "sint (ucast (of_nat (?n + 8) :: uint64) :: uint32) = int (?n + 8)"
    by (simp only: signed_of_nat) simp
  have p: "argvpack (drop 8 (stk (?n + 8))) (map terminated ss) = Some (packed ss, of_nat ?n)"
    using argvpack_spec [of ss "drop 8 (stk (?n + 8))"] assms length_packed [of ss] by simp
  show ?thesis unfolding Execute_def l using p by (simp only: bind.bind_lunit Let_def al u s) simp
qed

lemma exec_wrapper_packed:
  assumes "\<And>s. s \<in> set ss \<Longrightarrow> 0 \<notin> set s" and "length (packed ss) < 2 ^ 31"
  shows "exec_wrapper run (int (length (packed ss) + 8)) (put_pointer prog @ packed ss) = Some (run prog ss)"
proof -
  let ?n = "length (packed ss)"
  have c: "argscount (int ?n) (packed ss) = Some (of_nat (length ss))"
    using argscount_count [of "int ?n" "packed ss"] count_packed [of ss] assms(1) by simp
  have "length ss \<le> ?n" by (simp add: length_packed)
  then have u: "unat (of_nat (length ss) :: uint64) = length ss"
    using assms(2) by (subst unat_of_nat_small) auto
  obtain argv where "argvunpack (length ss) (int ?n) (packed ss) = Some (argv, ?n)"
    "map (cstring (packed ss)) argv = ss"
    using argvunpack_loop_spec [of ss "[]" "[]"] assms(1) by (auto simp: argvunpack_def)
  then show ?thesis using c u get_put_pointer [of prog "packed ss"] by (simp add: exec_wrapper_def)
qed

text \<open>The bytes of \<open>pi_args\<close> behind the argument are arbitrary. The variable that \<open>prog\<close> points to is not
  written, whatever it holds.\<close>

lemma ParseProcInfo_packed:
  assumes "\<And>s. s \<in> set ss \<Longrightarrow> 0 \<notin> set s" and "length (packed ss) + 8 \<le> PROCINFO_MAX_ARGS_SIZE"
    and "pi_main_task p = exec_wrapper_addr" and "pi_argl p = int (length (packed ss) + 8)"
    and "pi_args p = put_pointer q @ packed ss @ post" and "length ss \<le> nat argc" and "argc < 2 ^ 31"
  shows "\<exists>argv. ParseProcInfo p prog argc True = Some (int (length ss), prog, argv) \<and>
     map (cstring (drop 8 (pi_args p))) argv = ss"
proof -
  let ?n = "length (packed ss)" let ?buf = "packed ss @ post"
  have n: "length ss \<le> ?n" "?n < 128" using assms(2) by (simp_all add: length_packed PROCINFO_MAX_ARGS_SIZE_def)
  have c: "argscount (int ?n) ?buf = Some (of_nat (length ss))"
    using argscount_count [of "int ?n" ?buf] count_packed [of ss] assms(1) by simp
  have u: "unat (of_nat (length ss) :: uint64) = length ss" using n by (subst unat_of_nat_small) auto
  have le: "nat argc = length ss" if "\<not> (of_int argc :: uint64) > of_nat (length ss)"
  proof (cases "0 \<le> argc")
    case True
    then have e: "(of_int argc :: uint64) = of_nat (nat argc)" by simp
    have "unat (of_nat (nat argc) :: uint64) = nat argc" using assms(7) by (subst unat_of_nat_small) auto
    then have "nat argc \<le> length ss" using that unfolding e word_less_nat_alt u by simp
    then show ?thesis using assms(6) by simp
  next
    case False
    then show ?thesis using assms(6) by simp
  qed
  have num: "(if (of_int argc :: uint64) > of_nat (length ss) then unat (of_nat (length ss) :: uint64)
      else nat argc) = length ss" using le u by simp
  have sg: "sint (ucast (of_nat (length ss) :: uint64) :: uint32) = int (length ss)"
  proof -
    have "take_bit 64 (length ss) = length ss" "signed_take_bit 31 (int (length ss)) = int (length ss)"
      using n by (simp_all add: take_bit_nat_eq_self signed_take_bit_int_eq_self)
    then show ?thesis by (simp add: unsigned_of_nat signed_of_nat)
  qed
  obtain argv where "argvunpack (length ss) (int ?n) ?buf = Some (argv, ?n)" "map (cstring ?buf) argv = ss"
    using argvunpack_loop_spec [of ss "[]" post] assms(1) by (auto simp: argvunpack_def)
  then show ?thesis using assms(2-5) c num sg by (simp add: ParseProcInfo_def)
qed

section \<open>Properties\<close>

text \<open>C26: A program that is started with \<open>Execute\<close> gets exactly the string vector of its caller. For
  strings without zero bytes whose packed length fits an \<open>int\<close>, \<open>Execute\<close> makes one \<open>Exec\<close> call; the
  new process, a child of the caller, runs \<open>exec_wrapper\<close> on the kernel's copy of the argument, which
  calls the given program with the same strings.\<close>

theorem Execute_passes_arguments:
  assumes "\<And>s. s \<in> set ss \<Longrightarrow> 0 \<notin> set s" and "length (packed ss) + 8 < 2 ^ 31" and "\<And>n. length (stk n) = n"
    and "pinv k cs es (newp # ps)" and "stream_inv k use fs" and "cur < MAX_PROC" and "pstate (PT k cur) = ALIVE"
    and "sinv m" and "sch m = ksched (monitor k)" and "\<not> live (sch m) (Thread j)"
  shows "\<exists>al arg k'. Execute prog (map terminated ss) stk = Some (Exec (Some exec_wrapper_addr) al (Some arg)) \<and>
     sys_Exec k c cur (Some exec_wrapper_addr) al (Some arg) (Thread j) = Some (int newp, k') \<and>
     parent (PT k' newp) = (if newp \<le> 1 then None else Some cur) \<and>
     start_main_thread (\<lambda>call l a. if call = exec_wrapper_addr then exec_wrapper run l (the a) else None) k' newp =
       Some (Some (run prog ss))"
proof -
  let ?al = "int (length (packed ss) + 8)" let ?arg = "put_pointer prog @ packed ss"
  obtain k' where k': "sys_Exec k c cur (Some exec_wrapper_addr) ?al (Some ?arg) (Thread j) = Some (int newp, k')"
    "PT k' newp = new_pcb k cur newp (Some exec_wrapper_addr) ?al (Some ?arg) (Thread j)"
    using sys_Exec_Some [OF assms(4-9), of "Some exec_wrapper_addr" j c ?al "Some ?arg"] assms(10) by auto
  have "take (nat ?al) ?arg = ?arg" by simp
  then have "start_main_thread (\<lambda>call l a. if call = exec_wrapper_addr then exec_wrapper run l (the a) else None) k' newp =
      Some (exec_wrapper run ?al ?arg)"
    by (simp add: start_main_thread_def k'(2) new_pcb_def)
  moreover have "exec_wrapper run ?al ?arg = Some (run prog ss)"
    using exec_wrapper_packed [of ss run prog] assms(1,2) by simp
  moreover have "parent (PT k' newp) = (if newp \<le> 1 then None else Some cur)" by (simp add: k'(2) new_pcb_def)
  ultimately show ?thesis using Execute_eq [OF assms(1-3), of prog] k'(1) by auto
qed

theorem Execute_passes_arguments_witness:
  "\<exists>al arg k'. Execute 77 (map terminated [[104, 105], []]) (\<lambda>n. replicate n 9) =
       Some (Exec (Some exec_wrapper_addr) al (Some arg)) \<and>
     sys_Exec (ex_init\<lparr>monitor := ex_mon ex_ready\<rparr>) 0 1 (Some exec_wrapper_addr) al (Some arg) (Thread 1) = Some (2, k') \<and>
     start_main_thread (\<lambda>call l a. if call = exec_wrapper_addr then exec_wrapper (\<lambda>p ss. (p, ss)) l (the a) else None)
       k' 2 = Some (Some (77, [[104, 105], []]))"
proof -
  let ?k = "ex_init\<lparr>monitor := ex_mon ex_ready\<rparr>"
  have "0 \<notin> set s" if "s \<in> set [[104, 105], []]" for s :: "byte list" using that by auto
  from Execute_passes_arguments [where ss = "[[104, 105], []]", OF this _ _ ex_exec_facts,
      where stk = "\<lambda>n. replicate n 9" and prog = 77 and c = 0 and run = "\<lambda>p ss. (p, ss)"]
  show ?thesis by (auto; metis)
qed

end
