(* ===== verification/C_Text.thy ===== *)
theory C_Text
  imports Prelude
begin

text \<open>
  What the programs use of the C library's text functions: \<open>atoi\<close> and \<open>strtol\<close>, \<open>strtok\<close> with one
  delimiter, the conversions \<open>%d\<close> and \<open>%s\<close> of \<open>printf\<close> with a field width, and character classes.
\<close>

section \<open>Characters\<close>

definition nl :: string where "nl = [CHR 0x0A]"

definition isblank :: "char \<Rightarrow> bool" where "isblank c \<longleftrightarrow> c = CHR 0x20 \<or> c = CHR 0x09"

section \<open>Numbers as text\<close>

definition digit :: "char \<Rightarrow> bool" where
  "digit c \<longleftrightarrow> of_char c \<ge> (48 :: nat) \<and> of_char c \<le> (57 :: nat)"

fun atoi_digits :: "string \<Rightarrow> int \<Rightarrow> int" where
  "atoi_digits [] acc = acc"
| "atoi_digits (c # cs) acc = (if digit c then atoi_digits cs (10 * acc + (of_char c - 48)) else acc)"

definition isspace :: "char \<Rightarrow> bool" where
  "isspace c \<longleftrightarrow> of_char c = (32 :: nat) \<or> (of_char c \<ge> (9 :: nat) \<and> of_char c \<le> (13 :: nat))"

definition atoi :: "string \<Rightarrow> int" where
  "atoi s = (case dropWhile isspace s of
       [] \<Rightarrow> 0
     | c # cs \<Rightarrow> if c = CHR 0x2D then - atoi_digits cs 0 else if c = CHR 0x2B then atoi_digits cs 0
                 else atoi_digits (c # cs) 0)"

fun decimal_loop :: "nat \<Rightarrow> nat \<Rightarrow> string" where
  "decimal_loop 0 n = []"
| "decimal_loop (Suc f) n =
     (if n < 10 then [char_of (48 + n)] else decimal_loop f (n div 10) @ [char_of (48 + n mod 10)])"

definition decimal :: "nat \<Rightarrow> string" where "decimal n = decimal_loop (n + 1) n"

definition pad :: "nat \<Rightarrow> string \<Rightarrow> string" where "pad w s = replicate (w - length s) CHR 0x20 @ s"

definition padr :: "nat \<Rightarrow> string \<Rightarrow> string" where "padr w s = s @ replicate (w - length s) CHR 0x20"

definition decimal_int :: "int \<Rightarrow> string" where
  "decimal_int v = (if v < 0 then CHR 0x2D # decimal (nat (- v)) else decimal (nat v))"

section \<open>Tokens\<close>

text \<open>The tokens that repeated calls of \<open>strtok\<close> deliver: maximal runs of characters that are not the
  delimiter.\<close>

fun strtok_run :: "char \<Rightarrow> string \<Rightarrow> string \<Rightarrow> string list" where
  "strtok_run d [] acc = (if acc = [] then [] else [acc])"
| "strtok_run d (c # cs) acc =
     (if c = d then (if acc = [] then strtok_run d cs [] else acc # strtok_run d cs [])
      else strtok_run d cs (acc @ [c]))"

definition strtok_all :: "char \<Rightarrow> string \<Rightarrow> string list" where
  "strtok_all d s = strtok_run d s []"

text \<open>\<open>strtol\<close> in base 10: the value, clamped to the range of \<open>long\<close>, and the text at \<open>endptr\<close>; without
  a digit there is no conversion and \<open>endptr\<close> is the start.\<close>

definition clamp_long :: "int \<Rightarrow> int" where
  "clamp_long v = max (- (2 ^ 63)) (min (2 ^ 63 - 1) v)"

definition strtol :: "string \<Rightarrow> int \<times> string" where
  "strtol s =
     (let t = dropWhile isspace s;
          neg = (t \<noteq> [] \<and> hd t = CHR 0x2D);
          u = (if t \<noteq> [] \<and> (hd t = CHR 0x2D \<or> hd t = CHR 0x2B) then tl t else t);
          ds = takeWhile digit u
      in if ds = [] then (0, s)
         else (clamp_long (if neg then - atoi_digits ds 0 else atoi_digits ds 0), dropWhile digit u))"

end
