(* ===== verification/Shell.thy ===== *)
theory Shell
  imports Symposium Tinyoslib C_Text
begin

text \<open>
  The shell and its programs, \<^verbatim>\<open>tinyos_shell.c\<close>.

  A program is an action tree: it ends with its exit status, makes a system call and continues with
  the result, starts a program with \<open>Execute\<close>, writes text, or fails an assertion. What the
  terminal delivers is an argument: the characters up to the end of the input for a filter, the
  lines for the shell. The loops that wait for all children are unrolled up to a bound, which is the
  size of the process table.

  The threads of the remote server are in theory \<open>Remote_Server\<close>.
\<close>

section \<open>Actions\<close>

datatype program =
    HelpMessage | ListPrograms | SystemInfo | RunTerm | Shell | Repeat | Fibonacci | Capitalize | LowerCase
  | WordCount | LineEnum | More | Symposium_proc | Symposium_thr | Hanoi | RemoteServer | RemoteClient | Echo
  | Rsrv_process

datatype 'a act =
    Ret 'a | Sys sysreq "result \<Rightarrow> 'a act" | Exe program "string list" "int \<Rightarrow> 'a act" | Out string "'a act"
  | Failed

primrec bind_act :: "'a act \<Rightarrow> ('a \<Rightarrow> 'b act) \<Rightarrow> 'b act" where
  "bind_act (Ret a) f = f a"
| "bind_act (Sys r k) f = Sys r (\<lambda>x. bind_act (k x) f)"
| "bind_act (Exe p av k) f = Exe p av (\<lambda>x. bind_act (k x) f)"
| "bind_act (Out s k) f = Out s (bind_act k f)"
| "bind_act Failed f = Failed"

fun int_of :: "result \<Rightarrow> int" where
  "int_of (Val v) = v"
| "int_of (Status p st) = p"
| "int_of (Data n b) = n"
| "int_of (Uint n) = uint n"
| "int_of _ = 0"

section \<open>The command table\<close>

record command =
  cmdname :: string
  prog :: program
  nargs :: nat
  help_text :: string

definition COMMANDS :: "command list" where
  "COMMANDS = map (\<lambda>(n, p, k, h). \<lparr>cmdname = n, prog = p, nargs = k, help_text = h\<rparr>)
     [(''help'', HelpMessage, 0,
        ''A help message.''),
      (''ls'', ListPrograms, 0,
        ''List available programs programs.''),
      (''sysinfo'', SystemInfo, 0,
        ''Print some basic info about the current system.''),
      (''runterm'', RunTerm, 2,
        ''runterm <term> <prog>  <args...> : execute '<prog> <args...>' on terminal <term>.''),
      (''sh'', Shell, 0,
        ''Run a shell.''),
      (''repeat'', Repeat, 2,
        ''repeat <n> <prog> <args...>: execute '<prog> <args...>' <n> times.''),
      (''fibo'', Fibonacci, 1,
        ''Compute a fibonacci number.''),
      (''cap'', Capitalize, 0,
        ''Copy stdin to stdout, capitalizing all letters''),
      (''lcase'', LowerCase, 0,
        ''Copy stdin to stdout, lower-casing all letters''),
      (''wc'', WordCount, 0,
        ''Count and print lines, words and chars of stdin''),
      (''lenum'', LineEnum, 0,
        ''Copy stdin to stdout, adding line numbers''),
      (''more'', More, 0,
        ''more [<n>] (default: <n>=20). Read the input <n> lines at a time.''),
      (''symposium'', Symposium_proc, 2,
        ''Dining Philosophers(processes): symposium  <philosophers> <bites>''),
      (''symp_thr'', Symposium_thr, 2,
        ''Dining Philosophers(threads): symp_thr  <philosophers> <bites>''),
      (''hanoi'', Hanoi, 1,
        ''The towers of Hanoi.''),
      (''rserver'', RemoteServer, 0,
        ''A server for remote execution.''),
      (''rcli'', RemoteClient, 1,
        ''Remote client: rcli <cmd> [<args...>].''),
      (''echo'', Echo, 0,
        ''echo [<args...>], send the <args...> to stdout'')]"

text \<open>The loop of \<open>programs\<close> counts the NULL entry at the end too.\<close>

definition programs :: nat where "programs = length COMMANDS + 1"

fun find_command :: "command list \<Rightarrow> int \<Rightarrow> string \<Rightarrow> int" where
  "find_command [] c name = -1"
| "find_command (x # xs) c name = (if cmdname x = name then c else find_command xs (c + 1) name)"

definition getprog_byname :: "string \<Rightarrow> int" where
  "getprog_byname name = find_command COMMANDS 0 name"

section \<open>Arguments\<close>

text \<open>\<open>checkargs(n)\<close>: the body runs only with enough arguments.\<close>

definition checkargs :: "nat \<Rightarrow> string list \<Rightarrow> int act \<Rightarrow> int act" where
  "checkargs n argv body =
     (if length argv \<le> n then Out (''Insufficient arguments. '' @ decimal n @ '' expected, '' @
        decimal_int (int (length argv) - 1) @ '' given.'' @ nl) (Ret (-1)) else body)"

definition getint :: "string list \<Rightarrow> nat \<Rightarrow> int" where "getint argv n = atoi (argv ! n)"

definition getprog :: "string list \<Rightarrow> nat \<Rightarrow> int" where "getprog argv n = getprog_byname (argv ! n)"

definition nth_prog :: "int \<Rightarrow> program" where "nth_prog c = prog (COMMANDS ! nat c)"

section \<open>Programs that start other programs\<close>

definition symp_argproc :: "string list \<Rightarrow> int \<Rightarrow> symposium_t" where
  "symp_argproc argv lg =
     (let dBASE = (if length argv \<ge> 4 then getint argv 3 else 0);
          dGAP = (if length argv \<ge> 5 then getint argv 4 else 0)
      in adjust_symposium \<lparr>N = nat (getint argv 1), bites = nat (getint argv 2), fmin = 0, fmax = 0\<rparr> dBASE dGAP lg)"

fun calls :: "sysreq list \<Rightarrow> 'a act \<Rightarrow> 'a act" where
  "calls [] k = k"
| "calls (r # rs) k = Sys r (\<lambda>_. calls rs k)"

definition run_Symposium_proc :: "funptr \<Rightarrow> (nat \<Rightarrow> byte list) \<Rightarrow> int \<Rightarrow> string list \<Rightarrow> int act" where
  "run_Symposium_proc task argbytes lg argv = checkargs 2 argv
     (case SymposiumOfProcesses sizeof_symposium_t (symp_argproc argv lg) task argbytes of
        Some rs \<Rightarrow> calls rs (Ret 0) | None \<Rightarrow> Failed)"

definition run_Symposium_thr :: "funptr \<Rightarrow> (nat \<Rightarrow> tcb_ref option) \<Rightarrow> int \<Rightarrow> string list \<Rightarrow> int act" where
  "run_Symposium_thr task tids lg argv = checkargs 2 argv
     (case SymposiumOfThreads sizeof_symposium_t (symp_argproc argv lg) task tids of
        Some rs \<Rightarrow> calls rs (Ret 0) | None \<Rightarrow> Failed)"

text \<open>\<open>while(times--)\<close> for a 32-bit \<open>times\<close>.\<close>

fun repeat_loop :: "nat \<Rightarrow> program \<Rightarrow> string list \<Rightarrow> int act" where
  "repeat_loop 0 p av = Ret 0"
| "repeat_loop (Suc n) p av = Exe p av (\<lambda>_. Sys (WaitChild NOPROC) (\<lambda>_. repeat_loop n p av))"

definition run_Repeat :: "string list \<Rightarrow> int act" where
  "run_Repeat argv = checkargs 2 argv
     (let times = getint argv 1; c = getprog argv 2 in
      if c < 0 then Out (''Program not found. See 'ls' for program names.'' @ nl) (Ret c)
      else
        (let loop = repeat_loop (unat (of_int times :: uint32)) (nth_prog c) (drop 2 argv)
         in if times < 0 then Out (''Cannot execute a negative number of times!'' @ nl) loop else loop))"

definition run_RunTerm :: "string list \<Rightarrow> int act" where
  "run_RunTerm argv = checkargs 2 argv
     (let trm = getint argv 1; c = getprog argv 2 in
      Sys GetTerminalDevices (\<lambda>nt.
        if trm < 0 \<or> trm \<ge> int_of nt then Out (''The terminal provided is not valid: '' @ decimal_int trm @ nl) (Ret 1)
        else if c < 0 then Out (''The program provided is not valid: '' @ argv ! 2 @ nl) (Ret 2)
        else Sys (OpenTerminal (of_int trm)) (\<lambda>fid.
          let rest = Sys (Dup2 0 1) (\<lambda>_. Exe (nth_prog c) (drop 2 argv) Ret)
          in if int_of fid \<noteq> 0
             then Sys (Dup2 (int_of fid) 0) (\<lambda>_. Sys (CloseFid (int_of fid)) (\<lambda>_. rest)) else rest)))"

section \<open>Programs that print\<close>

definition run_HelpMessage :: "int act" where
  "run_HelpMessage = Out (''This is a simple shell for tinyos.'' @ nl @ nl @
     ''You can run some simple commands. Every command takes a'' @ nl @
     ''only **integer** arguments. The list of commands and the'' @ nl @
     ''number of arguments for each command is shown by'' @ nl @ ''typing 'ls'. '' @ nl @ nl @
     ''When you are tired of playing, type 'exit' to quit.'' @ nl) (Ret 0)"

definition run_ListPrograms :: "int act" where
  "run_ListPrograms =
     Out (''no.  '' @ padr 15 ''Command'' @ '' no.of.args   help '' @ nl)
      (Out (''---------------------------------------------------'' @ nl)
        (foldr (\<lambda>(c, x) k. Out (pad 3 (decimal c) @ ''  '' @ padr 20 (cmdname x) @ '' '' @
             pad 2 (decimal (nargs x)) @ ''   '' @ help_text x @ nl) k)
           (zip [0..<length COMMANDS] COMMANDS) (Ret 0)))"

text \<open>\<open>SystemInfo\<close>, with the number of cores and of serial ports; the stream of \<open>OpenInfo\<close> is read
  as long as it delivers something, here up to a bound. \<open>decode\<close> is the layout of \<open>struct procinfo\<close> in
  memory.\<close>

definition text_of :: "byte list \<Rightarrow> string" where "text_of bs = map (\<lambda>b. char_of (unat b)) bs"

definition show_procinfo :: "procinfo \<Rightarrow> string option" where
  "show_procinfo info = do {
     (argc, p, argv) \<leftarrow> ParseProcInfo info (Some 0) 10 True;
     let pname = (if argc \<ge> 1 then text_of (cstring (drop 8 (pi_args info)) (argv ! 0))
                  else if argc = -1 \<and> pi_pid info = 1 then ''init'' else ''-'');
     Some (pad 5 (decimal_int (pi_pid info)) @ '' '' @ pad 5 (decimal_int (pi_ppid info)) @ '' '' @
       pad 6 (if pi_alive info then ''ALIVE'' else ''ZOMBIE'') @ '' '' @
       pad 8 (decimal (unat (pi_thread_count info))) @ '' '' @ pad 20 pname @ nl)
   }"

fun info_loop :: "nat \<Rightarrow> int \<Rightarrow> (byte list \<Rightarrow> procinfo) \<Rightarrow> int act" where
  "info_loop 0 finfo decode = Failed"
| "info_loop (Suc n) finfo decode = Sys (ReadFid finfo 168) (\<lambda>r.
     if int_of r > 0 then
       (case show_procinfo (decode (case r of Data k b \<Rightarrow> b | _ \<Rightarrow> [])) of
          Some line \<Rightarrow> Out line (info_loop n finfo decode) | None \<Rightarrow> Failed)
     else Out nl (Ret 0))"

definition run_SystemInfo :: "nat \<Rightarrow> nat \<Rightarrow> (byte list \<Rightarrow> procinfo) \<Rightarrow> int act" where
  "run_SystemInfo cores ports decode =
     Out (''Number of cores         = '' @ decimal cores @ nl)
       (Out (''Number of serial devices= '' @ decimal ports @ nl)
         (Sys OpenInfo (\<lambda>r. if int_of r \<noteq> NOFILE then
             Out (pad 5 ''PID'' @ '' '' @ pad 5 ''PPID'' @ '' '' @ pad 6 ''State'' @ '' '' @ pad 8 ''Threads'' @ '' '' @
               pad 20 ''Main program'' @ nl) (info_loop (MAX_PROC + 1) (int_of r) decode)
           else Out nl (Ret 0))))"

fun hanoi :: "nat \<Rightarrow> nat \<Rightarrow> nat \<Rightarrow> nat \<Rightarrow> (nat \<times> nat) list" where
  "hanoi 0 a b c = []"
| "hanoi (Suc n) a b c = hanoi n a c b @ [(a, b)] @ hanoi n c b a"

definition run_Hanoi :: "string list \<Rightarrow> int act" where
  "run_Hanoi argv = checkargs 1 argv
     (let n = getint argv 1 in
      if n < 1 \<or> n > 15 then Out (''The argument must be between 1 and 15.'' @ nl) (Ret n)
      else Out (''We shall move '' @ decimal_int n @ '' disks from tile 1 to tile 2 via tile 3.'' @ nl)
        (foldr (\<lambda>(a, b) k. Out (''Move the top disk from tile '' @ pad 2 (decimal a) @ '' to tile '' @
             pad 2 (decimal b) @ nl) k) (hanoi (nat n) 1 2 3) (Ret 0)))"

definition run_Fibonacci :: "string list \<Rightarrow> int act" where
  "run_Fibonacci argv = checkargs 1 argv
     (let n = getint argv 1
      in Out (''Fibonacci('' @ decimal_int n @ '')='' @
           decimal_int (sint (fibo (unat (of_int n :: uint32)))) @ nl) (Ret 0))"

text \<open>\<open>Echo\<close> writes \<open>argv[1]\<close> for every argument.\<close>

definition run_Echo :: "string list \<Rightarrow> int act" where
  "run_Echo argv =
     foldr (\<lambda>i k. if i > 1 then Out '' '' (Out (argv ! 1) k) else Out (argv ! 1) k)
       [1..<length argv] (Out nl (Ret 0))"

section \<open>Filters\<close>

text \<open>\<open>while((c=fgetc(fin))!=EOF)\<close> with a \<open>char\<close> \<open>c\<close>: the byte 255 ends the loop as well.\<close>

definition until_EOF :: "string \<Rightarrow> string" where
  "until_EOF inp = takeWhile (\<lambda>c. c \<noteq> CHR 0xFF) inp"

definition toupper :: "char \<Rightarrow> char" where
  "toupper c = (if of_char c \<ge> (97 :: nat) \<and> of_char c \<le> (122 :: nat) then char_of (of_char c - 32 :: nat) else c)"

definition tolower :: "char \<Rightarrow> char" where
  "tolower c = (if of_char c \<ge> (65 :: nat) \<and> of_char c \<le> (90 :: nat) then char_of (of_char c + 32 :: nat) else c)"

definition run_Capitalize :: "string \<Rightarrow> string" where "run_Capitalize inp = map toupper (until_EOF inp)"

definition run_LowerCase :: "string \<Rightarrow> string" where "run_LowerCase inp = map tolower (until_EOF inp)"

fun lenum_loop :: "string \<Rightarrow> bool \<Rightarrow> nat \<Rightarrow> string" where
  "lenum_loop [] atend cnt = []"
| "lenum_loop (c # cs) atend cnt =
     (if atend then pad 6 (decimal (cnt + 1)) @ '': '' else []) @
     c # lenum_loop cs (c = CHR 0x0A) (if atend then cnt + 1 else cnt)"

definition run_LineEnum :: "string \<Rightarrow> string" where "run_LineEnum inp = lenum_loop (until_EOF inp) True 0"

text \<open>\<open>More\<close>: what is printed, \<open>None\<close> for the division by zero of \<open>count % page\<close>.\<close>

fun more_loop :: "string \<Rightarrow> int \<Rightarrow> bool \<Rightarrow> nat \<Rightarrow> string option" where
  "more_loop [] page atend cnt = Some []"
| "more_loop (c # cs) page atend cnt =
     (if atend \<and> page = 0 then None
      else
        (let cnt1 = (if atend then cnt + 1 else cnt);
             prompt = (if atend \<and> of_nat cnt1 mod (of_int page :: uint64) = 0
                       then ''press enter to continue:'' else [])
         in map_option (\<lambda>s. prompt @ c # s) (more_loop cs page (c = CHR 0x0A) cnt1)))"

definition run_More :: "string list \<Rightarrow> string \<Rightarrow> string option" where
  "run_More argv inp = more_loop (until_EOF inp) (if length argv \<ge> 2 then getint argv 1 else 25) True 0"

fun wc_loop :: "string \<Rightarrow> bool \<Rightarrow> nat \<times> nat \<times> nat \<Rightarrow> nat \<times> nat \<times> nat" where
  "wc_loop [] wspace r = r"
| "wc_loop (c # cs) wspace (nline, nword, nchar) =
     (let start = wspace \<and> \<not> isblank c;
          wspace1 = (if start then False else wspace);
          wspace2 = (if c = CHR 0x0A then True else wspace1);
          wspace3 = (if isblank c then True else wspace2)
      in wc_loop cs wspace3 (if c = CHR 0x0A then nline + 1 else nline, if start then nword + 1 else nword, nchar + 1))"

definition run_WordCount :: "string \<Rightarrow> string" where
  "run_WordCount inp =
     (let (nline, nword, nchar) = wc_loop (until_EOF inp) True (0, 0, 0)
      in pad 8 (decimal nline) @ '' '' @ pad 8 (decimal nword) @ '' '' @ pad 8 (decimal nchar) @ nl)"

section \<open>Messages of the remote server\<close>

text \<open>\<open>recv_message\<close> and \<open>send_message\<close>: each pass transfers at least one byte, so \<open>len\<close> bounds their
  number. The result of receiving is the bytes that arrived.\<close>

fun recv_loop :: "nat \<Rightarrow> int \<Rightarrow> nat \<Rightarrow> byte list \<Rightarrow> byte list act" where
  "recv_loop 0 sock len buf = Ret buf"
| "recv_loop (Suc f) sock len buf =
     (if length buf < len then Sys (ReadFid sock (of_nat (len - length buf))) (\<lambda>r.
        if int_of r < 1 then Ret buf
        else recv_loop f sock len (buf @ (case r of Data n b \<Rightarrow> b | _ \<Rightarrow> [])))
      else Ret buf)"

definition recv_message :: "int \<Rightarrow> nat \<Rightarrow> (bool \<times> byte list) act" where
  "recv_message sock len = bind_act (recv_loop len sock len []) (\<lambda>buf. Ret (length buf = len, buf))"

fun send_loop :: "nat \<Rightarrow> int \<Rightarrow> byte list \<Rightarrow> nat \<Rightarrow> nat act" where
  "send_loop 0 sock buf cnt = Ret cnt"
| "send_loop (Suc f) sock buf cnt =
     (if cnt < length buf then
        Sys (WriteFid sock (drop cnt buf) (of_nat (length buf - cnt))) (\<lambda>r.
          if int_of r < 1 then Ret cnt else send_loop f sock buf (cnt + nat (int_of r)))
      else Ret cnt)"

definition send_message :: "int \<Rightarrow> byte list \<Rightarrow> int act \<Rightarrow> int act" where
  "send_message sock buf k = bind_act (send_loop (length buf) sock buf 0) (\<lambda>cnt.
     if cnt \<noteq> length buf then Out (''In client: I/O error writing '' @ decimal (length buf) @ '' bytes ('' @
       decimal cnt @ '' written)'' @ nl) (Sys (Exit 1) (\<lambda>_. Failed)) else k)"

definition run_rsrv_process :: "string list \<Rightarrow> int \<Rightarrow> int act" where
  "run_rsrv_process argv stk = checkargs 2 argv
     (let sock = getint argv 1 in
      if sock = 0 \<or> sock = 1 then Failed
      else Sys (Dup2 sock 0) (\<lambda>_. Sys (Dup2 sock 1) (\<lambda>_. Sys (CloseFid sock) (\<lambda>_.
        let c = getprog argv 2 in
        if c = -1 then Out (''Error in remote process: Command '' @ argv ! 2 @ '' is not found'' @ nl) (Ret (-1))
        else Exe (nth_prog c) (drop 2 argv) (\<lambda>pid. Sys (WaitChild pid) (\<lambda>r.
          Ret (case r of Status p (Some st) \<Rightarrow> st | _ \<Rightarrow> stk)))))))"

text \<open>\<open>argl\<close> goes over the connection as the four bytes of an \<open>int\<close>; what comes back up to the end of the
  stream is copied to the output.\<close>

definition bytes32 :: "uint32 \<Rightarrow> byte list" where
  "bytes32 w = bytes_of 4 (ucast w)"

definition REMOTE_SERVER_DEFAULT_PORT :: int where "REMOTE_SERVER_DEFAULT_PORT = 20"

definition client_message :: "byte list list \<Rightarrow> (nat \<Rightarrow> byte list) \<Rightarrow> (uint32 \<times> byte list) option" where
  "client_message argv stk = do {
     l \<leftarrow> argvlen argv;
     let al = (ucast l :: uint32);
     (buf, n) \<leftarrow> argvpack (stk (unat al)) argv;
     Some (al, take (unat al) buf)
   }"

definition run_RemoteClient :: "byte list list \<Rightarrow> (nat \<Rightarrow> byte list) \<Rightarrow> string \<Rightarrow> int act" where
  "run_RemoteClient argv stk reply =
     (if length argv \<le> 1 then Out (''Insufficient arguments. 1 expected, '' @
        decimal_int (int (length argv) - 1) @ '' given.'' @ nl) (Ret (-1))
      else Sys (Socket 0) (\<lambda>sock. Sys (Connect (int_of sock) REMOTE_SERVER_DEFAULT_PORT 1000) (\<lambda>rc.
        if int_of rc = -1 then Out (''Could not connect to the server'' @ nl) (Ret (-1))
        else if int_of sock = NOFILE then Failed
        else
          (case client_message (tl argv) stk of
             None \<Rightarrow> Failed
           | Some (al, buf) \<Rightarrow>
               send_message (int_of sock) (bytes32 al) (send_message (int_of sock) buf
                 (Sys (ShutDown (int_of sock) 2) (\<lambda>_. Out (until_EOF reply) (Ret 0))))))))"

section \<open>The command line\<close>

definition process_builtin :: "string list \<Rightarrow> (string option)" where
  "process_builtin argv =
     (if argv ! 0 = ''?'' then Some (''Type 'help' for help, 'exit' to quit.'' @ nl) else None)"

definition savefid :: "int \<Rightarrow> (int \<Rightarrow> 'a act) \<Rightarrow> 'a act" where
  "savefid fsaved k = Sys OpenNull (\<lambda>r.
     if int_of r = NOFILE then Failed else Sys (Dup2 fsaved (int_of r)) (\<lambda>_. k (int_of r)))"

text \<open>The arrays \<open>Vargc\<close> and \<open>Vargv\<close> as a list of counts and start positions, the current fragment last.
  They have room for \<open>argc\<close> fragments; \<open>None\<close>: a fragment beyond that.\<close>

fun split_loop :: "string list \<Rightarrow> nat \<Rightarrow> nat \<Rightarrow> (nat \<times> nat) list \<Rightarrow> (nat \<times> nat) list option" where
  "split_loop [] i argc frags = Some frags"
| "split_loop (a # as) i argc frags =
     (if a \<noteq> ''|'' then
        (let (cnt, start) = last frags
         in split_loop as (i + 1) argc (butlast frags @ [(cnt + 1, if cnt + 1 = 1 then i else start)]))
      else if length frags < argc then split_loop as (i + 1) argc (frags @ [(0, 0)])
      else None)"

definition fragment :: "string list \<Rightarrow> nat \<times> nat \<Rightarrow> string list" where
  "fragment argv f = take (fst f) (drop (snd f) argv)"

fun check_fragments :: "string list list \<Rightarrow> string + program list" where
  "check_fragments [] = Inr []"
| "check_fragments (av # avs) =
     (if av = [] then Inl (''Error: a pipeline fragment was empty.'' @ nl)
      else if getprog_byname (av ! 0) = -1 then Inl (''Command not found: '' @ [CHR 0x27] @ av ! 0 @ [CHR 0x27] @ nl)
      else
        (case check_fragments avs of
           Inl e \<Rightarrow> Inl e
         | Inr ps \<Rightarrow> Inr (nth_prog (getprog_byname (av ! 0)) # ps)))"

text \<open>\<open>pipes i\<close> is what \<open>pipe\<close> holds after the \<open>i\<close>-th call of \<open>Pipe\<close>, (read, write). The result is the
  array \<open>child\<close>.\<close>

fun pipeline :: "(program \<times> string list) list \<Rightarrow> (nat \<Rightarrow> int \<times> int) \<Rightarrow> nat \<Rightarrow> int \<Rightarrow> int \<Rightarrow> int list act" where
  "pipeline [] pipes i savein saveout = Ret []"
| "pipeline ((p, av) # rest) pipes i savein saveout =
     (if rest \<noteq> [] then
        Sys Pipe (\<lambda>_. Sys (Dup2 (snd (pipes i)) 1) (\<lambda>_. Sys (CloseFid (snd (pipes i))) (\<lambda>_.
          Exe p av (\<lambda>pid. Sys (Dup2 (fst (pipes i)) 0) (\<lambda>_. Sys (CloseFid (fst (pipes i))) (\<lambda>_.
            bind_act (pipeline rest pipes (i + 1) savein saveout) (\<lambda>pids. Ret (pid # pids))))))))
      else
        Sys (Dup2 saveout 1) (\<lambda>_. Sys (CloseFid saveout) (\<lambda>_.
          Exe p av (\<lambda>pid. Sys (Dup2 savein 0) (\<lambda>_. Sys (CloseFid savein) (\<lambda>_. Ret [pid]))))))"

definition exit_note :: "string \<Rightarrow> int \<Rightarrow> string" where
  "exit_note name ev = name @ '' exited with status '' @ decimal_int ev @ nl"

text \<open>\<open>stk\<close> is the value of the uninitialised \<open>exitval\<close>, which a failing \<open>WaitChild\<close> leaves alone.\<close>

fun wait_children :: "(int \<times> string) list \<Rightarrow> int \<Rightarrow> int act" where
  "wait_children [] stk = Ret 1"
| "wait_children ((pid, name) # rest) stk = Sys (WaitChild pid) (\<lambda>r.
     let ev = (case r of Status p (Some st) \<Rightarrow> st | _ \<Rightarrow> stk)
     in if ev \<noteq> 0 then Out (exit_note name ev) (wait_children rest stk)
        else wait_children rest stk)"

definition process_line :: "string list \<Rightarrow> (nat \<Rightarrow> int \<times> int) \<Rightarrow> int \<Rightarrow> int act" where
  "process_line argv pipes stk =
     (case split_loop argv 0 (length argv) [(0, 0)] of
        None \<Rightarrow> Failed
      | Some frags \<Rightarrow>
          (let avs = map (fragment argv) frags in
           case check_fragments avs of
             Inl msg \<Rightarrow> Out msg (Ret 0)
           | Inr ps \<Rightarrow>
               savefid 0 (\<lambda>savein. savefid 1 (\<lambda>saveout.
                 bind_act (pipeline (zip ps avs) pipes 0 savein saveout)
                   (\<lambda>pids. wait_children (zip pids (map hd avs)) stk)))))"

section \<open>The shell\<close>

text \<open>Repeated \<open>strtok_r\<close> with the delimiters blank, newline and tab.\<close>

definition delimiter :: "char \<Rightarrow> bool" where
  "delimiter c \<longleftrightarrow> c = CHR 0x20 \<or> c = CHR 0x0A \<or> c = CHR 0x09"

function tokens :: "string \<Rightarrow> string list" where
  "tokens s = (case dropWhile delimiter s of
       [] \<Rightarrow> []
     | c # cs \<Rightarrow> takeWhile (\<lambda>x. \<not> delimiter x) (c # cs) # tokens (dropWhile (\<lambda>x. \<not> delimiter x) cs))"
  by pat_completeness auto
termination
proof (relation "measure length", simp)
  fix s c cs
  assume "dropWhile delimiter s = c # cs"
  then have "length (c # cs) \<le> length s" by (metis length_dropWhile_le)
  moreover have "length (dropWhile (\<lambda>x. \<not> delimiter x) cs) \<le> length cs" by (rule length_dropWhile_le)
  ultimately show "(dropWhile (\<lambda>x. \<not> delimiter x) cs, s) \<in> measure length" by simp
qed

declare tokens.simps [simp del]

definition ARGN :: nat where "ARGN = 128"

text \<open>\<open>lines\<close> is what \<open>getline\<close> returns until the end of the input.\<close>

fun shell_loop :: "string list \<Rightarrow> (nat \<Rightarrow> int \<times> int) \<Rightarrow> int \<Rightarrow> int act" where
  "shell_loop [] pipes stk = Out ''% '' (Out (''Exiting'' @ nl) (Ret 0))"
| "shell_loop (line # rest) pipes stk = Out ''% ''
     (let argv = take (ARGN - 1) (tokens line) in
      if argv = [] then shell_loop rest pipes stk
      else if argv ! 0 = ''exit'' then Ret (if length argv \<ge> 2 then atoi (argv ! 1) else 0)
      else
        (case process_builtin argv of
           Some msg \<Rightarrow> Out msg (shell_loop rest pipes stk)
         | None \<Rightarrow> bind_act (process_line argv pipes stk) (\<lambda>_. shell_loop rest pipes stk)))"

definition run_Shell :: "string list \<Rightarrow> (nat \<Rightarrow> int \<times> int) \<Rightarrow> int \<Rightarrow> int act" where
  "run_Shell lines pipes stk =
     Out (''Starting tinyos shell'' @ nl @ ''Type 'help' for help, 'exit' to quit.'' @ nl) (shell_loop lines pipes stk)"

section \<open>The initial task\<close>

fun wait_all :: "nat \<Rightarrow> int act" where
  "wait_all 0 = Failed"
| "wait_all (Suc n) = Sys (WaitChild NOPROC) (\<lambda>r. if int_of r \<noteq> NOPROC then wait_all n else Ret 0)"

definition move_fid :: "int \<Rightarrow> int \<Rightarrow> 'a act \<Rightarrow> 'a act" where
  "move_fid fid target k =
     (if fid \<noteq> target then Sys (Dup2 fid target) (\<lambda>_. Sys (CloseFid fid) (\<lambda>_. k)) else k)"

fun start_shells :: "nat list \<Rightarrow> program \<Rightarrow> int act \<Rightarrow> int act" where
  "start_shells [] sh k = k"
| "start_shells (i # is) sh k = Sys (OpenTerminal (of_nat i)) (\<lambda>fin. move_fid (int_of fin) 0
     (Sys (OpenTerminal (of_nat i)) (\<lambda>fout. move_fid (int_of fout) 1
       (Exe sh [''sh''] (\<lambda>_. Sys (CloseFid 0) (\<lambda>_. start_shells is sh k))))))"

text \<open>\<open>tinyos_pseudo_console\<close> (\<^verbatim>\<open>console.c\<close>) is the parameter \<open>console\<close>. The replacement of the C
  streams around the loops is not a system call.\<close>

definition count_shells :: "(nat \<Rightarrow> 'a act) \<Rightarrow> 'a act" where
  "count_shells k = Sys GetTerminalDevices (\<lambda>a.
     if int_of a > 0 then Sys GetTerminalDevices (\<lambda>b. k (nat (int_of b))) else k 1)"

fun console_shells :: "nat \<Rightarrow> program \<Rightarrow> (int act \<Rightarrow> int act) \<Rightarrow> int act \<Rightarrow> int act" where
  "console_shells 0 sh console k = k"
| "console_shells (Suc n) sh console k = Sys (CloseFid 0) (\<lambda>_. Sys (CloseFid 1) (\<lambda>_. console
     (Exe sh [''sh''] (\<lambda>_. console_shells n sh console k))))"

definition boot_shell :: "(int act \<Rightarrow> int act) \<Rightarrow> int act" where
  "boot_shell console = count_shells (\<lambda>nshells.
     let sh = nth_prog (getprog_byname ''sh'') in
     Sys GetTerminalDevices (\<lambda>nt.
       if int_of nt \<noteq> 0 then start_shells [0..<nshells] sh (wait_all (MAX_PROC + 1))
       else console_shells nshells sh console (wait_all (MAX_PROC + 1))))"

definition main_args :: "string list \<Rightarrow> (uint32 \<times> uint32) option" where
  "main_args argv = (if length argv \<noteq> 3 then None else Some (of_int (atoi (argv ! 1)), of_int (atoi (argv ! 2))))"

section \<open>What a program does\<close>

text \<open>A run of a program against an environment that answers every request, depending on all that
  happened before: the events in order, and the exit status if the program gets there.\<close>

datatype event = Ev_sys sysreq | Ev_exe program "string list" | Ev_out string

record environment =
  on_sys :: "event list \<Rightarrow> sysreq \<Rightarrow> result"
  on_exe :: "event list \<Rightarrow> program \<Rightarrow> string list \<Rightarrow> int"

primrec observe :: "'a act \<Rightarrow> environment \<Rightarrow> event list \<Rightarrow> event list \<times> 'a option" where
  "observe (Ret a) e tr = (tr, Some a)"
| "observe (Sys r k) e tr = observe (k (on_sys e tr r)) e (tr @ [Ev_sys r])"
| "observe (Exe p av k) e tr = observe (k (on_exe e tr p av)) e (tr @ [Ev_exe p av])"
| "observe (Out s k) e tr = observe k e (tr @ [Ev_out s])"
| "observe Failed e tr = (tr, None)"

lemma observe_bind:
  "observe (bind_act a f) e tr =
     (case observe a e tr of (tr1, Some v) \<Rightarrow> observe (f v) e tr1 | (tr1, None) \<Rightarrow> (tr1, None))"
  by (induction a arbitrary: tr) (simp_all split: prod.splits option.splits)

fun started :: "event list \<Rightarrow> (program \<times> string list) list" where
  "started [] = []"
| "started (Ev_exe p av # es) = (p, av) # started es"
| "started (_ # es) = started es"

lemma started_append [simp]: "started (xs @ ys) = started xs @ started ys"
  by (induction xs rule: started.induct) simp_all

lemma pipeline_starts:
  "ps \<noteq> [] \<Longrightarrow> \<exists>tr' pids. observe (pipeline ps pipes i savein saveout) e tr = (tr @ tr', Some pids) \<and>
     started tr' = ps \<and> length pids = length ps"
proof (induction ps arbitrary: i tr)
  case (Cons x ps)
  obtain p av where x: "x = (p, av)" by force
  show ?case
  proof (cases "ps = []")
    case False
    define tr1 where "tr1 = tr @ [Ev_sys Pipe, Ev_sys (Dup2 (snd (pipes i)) 1), Ev_sys (CloseFid (snd (pipes i))),
      Ev_exe p av, Ev_sys (Dup2 (fst (pipes i)) 0), Ev_sys (CloseFid (fst (pipes i)))]"
    obtain tr' pids where "observe (pipeline ps pipes (i + 1) savein saveout) e tr1 = (tr1 @ tr', Some pids)"
      "started tr' = ps" "length pids = length ps" using Cons.IH [OF False] by blast
    then show ?thesis using False by (simp add: x observe_bind) (simp add: tr1_def)
  qed (simp add: x)
qed simp

lemma wait_children_quiet: "\<exists>tr'. observe (wait_children cs stk) e tr = (tr @ tr', Some 1) \<and> started tr' = []"
proof (induction cs arbitrary: tr)
  case (Cons x cs)
  obtain pid name where x: "x = (pid, name)" by force
  define ev where "ev = (case on_sys e tr (WaitChild pid) of Status p (Some st) \<Rightarrow> st | _ \<Rightarrow> stk)"
  obtain t1 where "observe (wait_children cs stk) e (tr @ [Ev_sys (WaitChild pid)]) =
      (tr @ Ev_sys (WaitChild pid) # t1, Some 1)" "started t1 = []"
    using Cons [of "tr @ [Ev_sys (WaitChild pid)]"] by auto
  moreover obtain t2 where "observe (wait_children cs stk) e (tr @ [Ev_sys (WaitChild pid), Ev_out (exit_note name ev)]) =
      (tr @ Ev_sys (WaitChild pid) # Ev_out (exit_note name ev) # t2, Some 1)" "started t2 = []"
    using Cons [of "tr @ [Ev_sys (WaitChild pid), Ev_out (exit_note name ev)]"] by auto
  ultimately show ?case by (cases "ev = 0") (simp_all add: x Let_def flip: ev_def)
qed simp

section \<open>Splitting the line\<close>

fun split_bar :: "string list \<Rightarrow> string list list" where
  "split_bar [] = [[]]"
| "split_bar (a # as) = (if a = ''|'' then [] # split_bar as else (a # hd (split_bar as)) # tl (split_bar as))"

lemma split_bar_ne [simp]: "split_bar as \<noteq> []"
  by (induction as) simp_all

lemma length_split_bar: "length (split_bar as) = length (filter (\<lambda>a. a = ''|'') as) + 1"
  by (induction as) simp_all

text \<open>While the loop runs, the fragments read so far are those of the prefix read so far.\<close>

lemma split_loop_spec:
  assumes "frags \<noteq> []" and "argv = pre @ as" and "i = length pre"
    and "length frags + length (filter (\<lambda>a. a = ''|'') as) \<le> argc"
    and "fst (last frags) > 0 \<Longrightarrow> snd (last frags) + fst (last frags) = length pre"
  shows "\<exists>frags'. split_loop as i argc frags = Some frags' \<and>
     map (fragment argv) frags' =
       map (fragment argv) (butlast frags) @
         (fragment argv (last frags) @ hd (split_bar as)) # tl (split_bar as)"
  using assms
proof (induction as arbitrary: i pre frags)
  case Nil
  then show ?case by (simp flip: map_append) (metis append_butlast_last_id map_append list.simps(8,9))
next
  case (Cons a as)
  show ?case
  proof (cases "a = ''|''")
    case True
    have "fragment argv (0, 0) = []" by (simp add: fragment_def)
    moreover have "map (fragment argv) frags = map (fragment argv) (butlast frags) @ [fragment argv (last frags)]"
      using Cons.prems(1) by (metis append_butlast_last_id map_append list.simps(8,9))
    moreover have "\<exists>frags'. split_loop as (i + 1) argc (frags @ [(0, 0)]) = Some frags' \<and>
        map (fragment argv) frags' = map (fragment argv) (butlast (frags @ [(0, 0)])) @
          (fragment argv (last (frags @ [(0, 0)])) @ hd (split_bar as)) # tl (split_bar as)"
      by (rule Cons.IH [of _ "pre @ [a]"]) (use Cons.prems True in auto)
    ultimately show ?thesis using True Cons.prems(4) by simp
  next
    case False
    obtain cnt start where l: "last frags = (cnt, start)" by force
    let ?new = "(cnt + 1, if cnt + 1 = 1 then i else start)"
    have new: "fragment argv ?new = fragment argv (last frags) @ [a]"
    proof (cases "cnt = 0")
      case True
      then show ?thesis using Cons.prems(2,3) by (simp add: fragment_def l)
    next
      case False
      then have s: "start + cnt = length pre" using Cons.prems(5) l by simp
      then have "drop start argv = drop start pre @ a # as" "length (drop start pre) = cnt"
        using Cons.prems(2) by simp_all
      then show ?thesis using False by (simp add: fragment_def l)
    qed
    have "\<exists>frags'. split_loop as (i + 1) argc (butlast frags @ [?new]) = Some frags' \<and>
        map (fragment argv) frags' = map (fragment argv) (butlast (butlast frags @ [?new])) @
          (fragment argv (last (butlast frags @ [?new])) @ hd (split_bar as)) # tl (split_bar as)"
      by (rule Cons.IH [of _ "pre @ [a]"]) (use Cons.prems False l in auto)
    then show ?thesis using False new by (simp add: l)
  qed
qed

lemma split_loop_start:
  assumes "\<exists>a \<in> set argv. a \<noteq> ''|''"
  shows "\<exists>frags. split_loop argv 0 (length argv) [(0, 0)] = Some frags \<and> map (fragment argv) frags = split_bar argv"
proof -
  have "length (filter (\<lambda>a. a = ''|'') argv) < length argv" using assms by (auto intro: length_filter_less)
  then show ?thesis using split_loop_spec [of "[(0, 0)]" argv "[]" argv 0 "length argv"]
    by (simp add: fragment_def)
qed

definition runnable :: "string list \<Rightarrow> bool" where
  "runnable av \<longleftrightarrow> av \<noteq> [] \<and> getprog_byname (hd av) \<noteq> -1"

lemma check_fragments_runnable:
  "runnable av \<Longrightarrow> check_fragments (av # avs) =
     (case check_fragments avs of Inl e \<Rightarrow> Inl e | Inr ps \<Rightarrow> Inr (nth_prog (getprog_byname (hd av)) # ps))"
  by (cases av) (auto simp: runnable_def split: sum.splits)

lemma check_fragments_refused: "\<not> runnable av \<Longrightarrow> \<exists>msg. check_fragments (av # avs) = Inl msg"
  by (cases av) (auto simp: runnable_def)

lemma check_fragments_good:
  "\<forall>av \<in> set avs. runnable av \<Longrightarrow> check_fragments avs = Inr (map (\<lambda>av. nth_prog (getprog_byname (hd av))) avs)"
proof (induction avs)
  case (Cons av avs)
  then show ?case using check_fragments_runnable [of av avs] by simp
qed simp

lemma check_fragments_bad: "\<not> (\<forall>av \<in> set avs. runnable av) \<Longrightarrow> \<exists>msg. check_fragments avs = Inl msg"
proof (induction avs)
  case (Cons av avs)
  show ?case
  proof (cases "runnable av")
    case True
    then obtain msg where "check_fragments avs = Inl msg" using Cons by auto
    then show ?thesis using check_fragments_runnable [OF True, of avs] by simp
  qed (rule check_fragments_refused)
qed simp

lemma split_loop_bars:
  "as \<noteq> [] \<Longrightarrow> \<forall>a \<in> set as. a = ''|'' \<Longrightarrow> length frags + length as = Suc argc \<Longrightarrow> split_loop as i argc frags = None"
  by (induction as arbitrary: i frags) auto

text \<open>A line of bars only makes \<open>process_line\<close> write behind its arrays.\<close>

lemma only_bars_overflow:
  "argv \<noteq> [] \<Longrightarrow> \<forall>a \<in> set argv. a = ''|'' \<Longrightarrow> process_line argv pipes stk = Failed"
  using split_loop_bars [of argv "[(0, 0)]" "length argv" 0] by (simp add: process_line_def)

text \<open>Every argument is printed as the first one; an empty line counts as a word.\<close>

lemma echo_repeats_first:
  "fst (observe (run_Echo [''echo'', ''a'', ''b'']) e []) = [Ev_out ''a'', Ev_out '' '', Ev_out ''a'', Ev_out nl]"
  by (simp add: run_Echo_def upt_rec)

lemma wc_counts_empty_lines: "wc_loop (nl @ nl) True (0, 0, 0) = (2, 2, 2)"
  by (simp add: nl_def isblank_def Let_def)

lemma programs_counts_terminator: "programs = 19 \<and> length COMMANDS = 18"
  by (simp add: programs_def COMMANDS_def)

lemma negative_repeat_loops: "t < 0 \<Longrightarrow> - (2 ^ 31) \<le> t \<Longrightarrow> unat (of_int t :: uint32) \<ge> 2 ^ 31"
proof -
  assume t: "t < 0" "- (2 ^ 31) \<le> t"
  have "uint (of_int t :: uint32) = t mod 2 ^ 32" by (simp add: uint_word_of_int)
  also have "\<dots> = (t + 2 ^ 32) mod 2 ^ 32" by simp
  also have "\<dots> = t + 2 ^ 32" using t by (intro mod_pos_pos_trivial) auto
  finally have "unat (of_int t :: uint32) = nat (t + 2 ^ 32)" by (simp only: unat_eq_nat_uint)
  then show ?thesis using t by simp
qed

section \<open>The towers of Hanoi\<close>

text \<open>Disks by size, the top of a peg first; a move takes the top disk of a peg to a peg that is empty or
  has a larger disk on top.\<close>

fun hanoi_move :: "nat \<times> nat \<Rightarrow> (nat \<Rightarrow> nat list) \<Rightarrow> (nat \<Rightarrow> nat list) option" where
  "hanoi_move (a, b) pegs =
     (case pegs a of
        [] \<Rightarrow> None
      | d # ds \<Rightarrow> if a \<noteq> b \<and> (pegs b = [] \<or> d < hd (pegs b)) then Some (pegs(a := ds, b := d # pegs b)) else None)"

fun play :: "(nat \<times> nat) list \<Rightarrow> (nat \<Rightarrow> nat list) \<Rightarrow> (nat \<Rightarrow> nat list) option" where
  "play [] pegs = Some pegs"
| "play (m # ms) pegs = Option.bind (hanoi_move m pegs) (play ms)"

lemma play_append: "play (xs @ ys) pegs = Option.bind (play xs pegs) (play ys)"
proof (induction xs arbitrary: pegs)
  case (Cons x xs)
  then show ?case by (cases "hanoi_move x pegs") simp_all
qed simp

lemma hanoi_play:
  assumes "distinct [a, b, c]" and "pegs a = [1..<Suc n] @ A"
    and "\<And>d. d \<in> set A \<union> set (pegs b) \<union> set (pegs c) \<Longrightarrow> n < d"
  shows "play (hanoi n a b c) pegs = Some (pegs(a := A, b := [1..<Suc n] @ pegs b))"
  using assms
proof (induction n arbitrary: a b c pegs A)
  case 0
  then show ?case by (simp add: fun_upd_idem)
next
  case (Suc n)
  let ?T = "[1..<Suc n]"
  have pa: "pegs a = ?T @ Suc n # A" using Suc.prems(2) by simp
  let ?p1 = "pegs(a := Suc n # A, c := ?T @ pegs c)"
  have "play (hanoi n a c b) pegs = Some ?p1"
    by (rule Suc.IH) (use Suc.prems pa in \<open>fastforce+\<close>)
  moreover let ?p2 = "?p1(a := A, b := Suc n # pegs b)"
  have "hanoi_move (a, b) ?p1 = Some ?p2"
    using Suc.prems(1) Suc.prems(3) [of "hd (pegs b)"] by (cases "pegs b") auto
  moreover have "play (hanoi n c b a) ?p2 = Some (?p2(c := pegs c, b := ?T @ ?p2 b))"
    by (rule Suc.IH) (use Suc.prems in \<open>fastforce+\<close>)
  moreover have "?p2(c := pegs c, b := ?T @ ?p2 b) = pegs(a := A, b := [1..<Suc (Suc n)] @ pegs b)"
    using Suc.prems(1) by (auto simp: fun_eq_iff)
  ultimately show ?case by (simp add: play_append del: upt_Suc hanoi_move.simps fun_upd_apply)
qed

section \<open>Properties\<close>



text \<open>The moves that \<open>hanoi\<close> prints solve the puzzle: each is legal, together they bring \<open>n\<close> disks from
  the first peg to the second, and there are 2^n - 1 of them.\<close>

lemma hanoi_correct:
  assumes "distinct [a, b, c]"
  shows "play (hanoi n a b c) ((\<lambda>_. [])(a := [1..<Suc n])) = Some ((\<lambda>_. [])(b := [1..<Suc n])) \<and>
     length (hanoi n a b c) = 2 ^ n - 1"
proof -
  have "length (hanoi n a b c) = 2 ^ n - 1" by (induction n arbitrary: a b c) simp_all
  moreover have "play (hanoi n a b c) ((\<lambda>_. [])(a := [1..<Suc n])) =
      Some (((\<lambda>_. [])(a := [1..<Suc n]))(a := [], b := [1..<Suc n] @ ((\<lambda>_. [])(a := [1..<Suc n])) b))"
    by (rule hanoi_play) (use assms in auto)
  moreover have "((\<lambda>_. [])(a := [1..<Suc n]))(a := [], b := [1..<Suc n] @ ((\<lambda>_. [])(a := [1..<Suc n])) b) =
      (\<lambda>_. [])(b := [1..<Suc n])" using assms by (auto simp: fun_eq_iff)
  ultimately show ?thesis by simp
qed

end
