(* ===== verification/Remote_Server.thy ===== *)
theory Remote_Server
  imports Shell
begin

text \<open>
  The remote server of \<^verbatim>\<open>tinyos_shell.c\<close>: its log, and the three kinds of threads that share its
  globals: the console (\<open>RemoteServer\<close>), the listener and one thread per client.

  A thread is a function from its position, the globals and the result of its pending call to its
  next position and the new globals. Positions separate the accesses to shared variables that other
  threads can come between; what is done between \<open>Mutex_Lock\<close> and \<open>Mutex_Unlock\<close> is one step where only
  holders of the mutex access the variables. \<open>None\<close> is a failing assertion or a call that does not fit
  the position.
\<close>

section \<open>The log of the remote server\<close>

datatype lognode = Log_list | Truncated | Logrec nat

record rs_globals =
  quit :: bool
  port :: int
  listener :: "tcb_ref option"
  listener_socket :: int
  active_conn :: uint64
  total_conn :: uint64
  conn_id_counter :: uint64
  log :: "(lognode, uint64 option) rlheap"
  messages :: "nat \<Rightarrow> string"
  logcount :: uint64

definition log_init :: "rs_globals \<Rightarrow> rs_globals" where
  "log_init g = g\<lparr>log := rlnode_init (log g) Log_list None, logcount := 0\<rparr>"

text \<open>\<open>rec\<close> is the address of the buffer that holds the record.\<close>

definition log_message :: "rs_globals \<Rightarrow> nat \<Rightarrow> string \<Rightarrow> rs_globals" where
  "log_message g rec msg =
     (let n = logcount g + 1;
          h = rlnode_init (log g) (Logrec rec) (Some n)
      in g\<lparr>logcount := n, messages := (messages g)(rec := msg), log := rlist_push_back h Log_list (Logrec rec)\<rparr>)"

partial_function (option) log_print_loop :: "rs_globals \<Rightarrow> lognode \<Rightarrow> string option" where
  "log_print_loop g ptr =
     (case ptr of
        Logrec rec \<Rightarrow> do {
          n \<leftarrow> rl_obj (log g) ptr;
          s \<leftarrow> log_print_loop g (rl_next (log g) ptr);
          Some (pad 6 (decimal_int (sint (ucast n :: uint32))) @ '': '' @ messages g rec @ nl @ s)
        }
      | Log_list \<Rightarrow> Some []
      | Truncated \<Rightarrow> None)"

definition log_print :: "rs_globals \<Rightarrow> string option" where
  "log_print g = log_print_loop g (rl_next (log g) Log_list)"

partial_function (option) log_free_loop :: "(lognode, uint64 option) rlheap \<Rightarrow> (lognode, uint64 option) rlheap option" where
  "log_free_loop h =
     (if rl_next h Truncated \<noteq> Truncated then log_free_loop (fst (rlist_pop_front h Truncated)) else Some h)"

definition log_truncate :: "rs_globals \<Rightarrow> rs_globals option" where
  "log_truncate g = do {
     let h = rlnode_init (log g) Truncated None;
     h1 \<leftarrow> log_free_loop (rlist_append h Truncated Log_list);
     Some (g\<lparr>log := h1\<rparr>)
   }"

section \<open>The listener\<close>

datatype call_result = Result int | Tid_result "tcb_ref option" | Received bool "byte list" | Exec_result int
  | Exit_status int | Record nat | Line "string option" | Proceed

text \<open>What a position expects.\<close>

fun the_Result :: "call_result \<Rightarrow> int option" where "the_Result (Result v) = Some v" | "the_Result _ = None"
fun the_Tid :: "call_result \<Rightarrow> tcb_ref option option" where "the_Tid (Tid_result t) = Some t" | "the_Tid _ = None"
fun the_Received :: "call_result \<Rightarrow> (bool \<times> byte list) option" where
  "the_Received (Received ok bs) = Some (ok, bs)" | "the_Received _ = None"
fun the_Exec :: "call_result \<Rightarrow> int option" where "the_Exec (Exec_result v) = Some v" | "the_Exec _ = None"
fun the_Exit :: "call_result \<Rightarrow> int option" where "the_Exit (Exit_status v) = Some v" | "the_Exit _ = None"
fun the_Record :: "call_result \<Rightarrow> nat option" where "the_Record (Record a) = Some a" | "the_Record _ = None"
fun the_Line :: "call_result \<Rightarrow> string option option" where "the_Line (Line l) = Some l" | "the_Line _ = None"
fun the_Proceed :: "call_result \<Rightarrow> unit option" where "the_Proceed Proceed = Some ()" | "the_Proceed _ = None"

datatype listener_pc =
    L_socket | L_listen int | L_accept int | L_log int | L_load int int | L_store int int uint64
  | L_total int int | L_create int int | L_detach int "tcb_ref option" | L_returned int

text \<open>\<open>active_conn++\<close> is a load and a store, outside the mutex. \<open>CreateThread\<close> at \<open>L_create\<close> starts \<open>rsrv_client\<close>
  with the socket.\<close>

fun rsrv_listener_thread ::
  "int \<Rightarrow> listener_pc \<Rightarrow> call_result \<Rightarrow> rs_globals \<Rightarrow> (listener_pc \<times> rs_globals) option" where
  "rsrv_listener_thread prt L_socket r g = do {
     lsock \<leftarrow> the_Result r;
     Some (L_listen lsock, g) }"
| "rsrv_listener_thread prt (L_listen lsock) r g = do {
     r \<leftarrow> the_Result r;
     (if r = -1 then Some (L_returned (-1), g) else Some (L_accept lsock, g\<lparr>listener_socket := lsock\<rparr>)) }"
| "rsrv_listener_thread prt (L_accept lsock) r g = do {
     sock \<leftarrow> the_Result r;
     (if sock = NOFILE then (if quit g then Some (L_returned 0, g) else Some (L_log lsock, g))
      else Some (L_load lsock sock, g)) }"
| "rsrv_listener_thread prt (L_log lsock) r g = do {
     rec \<leftarrow> the_Record r;
     Some (L_accept lsock, log_message g rec (''listener(port='' @ decimal_int prt @ ''): failed to accept!'' @ nl)) }"
| "rsrv_listener_thread prt (L_load lsock sock) r g = do {
     _ \<leftarrow> the_Proceed r;
     Some (L_store lsock sock (active_conn g), g) }"
| "rsrv_listener_thread prt (L_store lsock sock v) r g = do {
     _ \<leftarrow> the_Proceed r;
     Some (L_total lsock sock, g\<lparr>active_conn := v + 1\<rparr>) }"
| "rsrv_listener_thread prt (L_total lsock sock) r g = do {
     _ \<leftarrow> the_Proceed r;
     Some (L_create lsock sock, g\<lparr>total_conn := total_conn g + 1\<rparr>) }"
| "rsrv_listener_thread prt (L_create lsock sock) r g = do {
     t \<leftarrow> the_Tid r;
     Some (L_detach lsock t, g) }"
| "rsrv_listener_thread prt (L_detach lsock t) r g = do {
     r \<leftarrow> the_Result r;
     Some (L_accept lsock, g) }"
| "rsrv_listener_thread prt (L_returned v) r g = None"

section \<open>A client\<close>

datatype client_pc =
    C_id | C_log_start uint64 | C_recv_length uint64 | C_recv_args uint64 int | C_exec uint64 "string list"
  | C_close uint64 int | C_wait uint64 int | C_log_end uint64 int | C_log_abort uint64
  | C_lock | C_store uint64 | C_returned

definition int_of_bytes :: "byte list \<Rightarrow> int" where
  "int_of_bytes bs = sint (ucast (of_bytes bs) :: uint32)"

text \<open>The argument vector of the process that serves the client: its own name, the socket and the strings
  of the message.\<close>

definition request_argv :: "int \<Rightarrow> int \<Rightarrow> byte list \<Rightarrow> string list option" where
  "request_argv sock al bytes = do {
     argc \<leftarrow> argscount al bytes;
     (ptrs, e) \<leftarrow> argvunpack (unat argc) al bytes;
     Some (''rsrv_process'' # decimal_int sock # map (\<lambda>a. text_of (cstring bytes a)) ptrs)
   }"

definition client_name :: "string \<Rightarrow> uint64 \<Rightarrow> string" where
  "client_name who ID = who @ ''['' @ pad 6 (decimal (unat ID)) @ '']: ''"

fun rsrv_client ::
  "int \<Rightarrow> client_pc \<Rightarrow> call_result \<Rightarrow> rs_globals \<Rightarrow> (client_pc \<times> rs_globals) option" where
  "rsrv_client sock C_id r g = do {
     _ \<leftarrow> the_Proceed r;
     Some (C_log_start (conn_id_counter g + 1), g\<lparr>conn_id_counter := conn_id_counter g + 1\<rparr>) }"
| "rsrv_client sock (C_log_start ID) r g = do {
     rec \<leftarrow> the_Record r;
     Some (C_recv_length ID, log_message g rec (client_name ''Client'' ID @ ''started'')) }"
| "rsrv_client sock (C_recv_length ID) r g = do {
     (ok, bytes) \<leftarrow> the_Received r;
     (if \<not> ok then Some (C_log_abort ID, g)
      else if 0 < int_of_bytes bytes \<and> int_of_bytes bytes \<le> 2048
      then Some (C_recv_args ID (int_of_bytes bytes), g) else None) }"
| "rsrv_client sock (C_recv_args ID al) r g = do {
     (ok, bytes) \<leftarrow> the_Received r;
     (if \<not> ok then Some (C_log_abort ID, g)
      else map_option (\<lambda>argv. (C_exec ID argv, g)) (request_argv sock al bytes)) }"
| "rsrv_client sock (C_exec ID argv) r g = do {
     pid \<leftarrow> the_Exec r;
     Some (C_close ID pid, g) }"
| "rsrv_client sock (C_close ID pid) r g = do {
     r \<leftarrow> the_Result r;
     Some (C_wait ID pid, g) }"
| "rsrv_client sock (C_wait ID pid) r g = do {
     st \<leftarrow> the_Exit r;
     Some (C_log_end ID st, g) }"
| "rsrv_client sock (C_log_end ID st) r g = do {
     rec \<leftarrow> the_Record r;
     Some (C_lock, log_message g rec (client_name ''Client'' ID @ ''finished with status '' @ decimal_int st)) }"
| "rsrv_client sock (C_log_abort ID) r g = do {
     rec \<leftarrow> the_Record r;
     Some (C_lock, log_message g rec (client_name ''Cliend'' ID @ ''error in receiving request, aborting'')) }"
| "rsrv_client sock C_lock r g = do {
     _ \<leftarrow> the_Proceed r;
     Some (C_store (active_conn g), g) }"
| "rsrv_client sock (C_store v) r g = do {
     _ \<leftarrow> the_Proceed r;
     Some (C_returned, g\<lparr>active_conn := v - 1\<rparr>) }"
| "rsrv_client sock C_returned r g = None"

section \<open>The console\<close>

datatype console_pc = M_create | M_line | M_close | M_join | M_check | M_waits | M_returned

definition RemoteServer_globals :: "rs_globals \<Rightarrow> rs_globals" where
  "RemoteServer_globals g = log_init (g\<lparr>quit := False, port := REMOTE_SERVER_DEFAULT_PORT, active_conn := 0,
     total_conn := 0, conn_id_counter := 0\<rparr>)"

definition server_help :: string where
  "server_help = ''Commands: '' @ nl @ ''q: quit the server'' @ nl @ ''h: print this help'' @ nl @
     ''s: show statistics'' @ nl @ ''l: show the log'' @ nl"

text \<open>What a line makes the console print, and whether it quits. \<open>None\<close>: printing the log does not end.\<close>

definition server_command :: "string \<Rightarrow> rs_globals \<Rightarrow> (string \<times> bool) option" where
  "server_command l g =
     (if l = ''q'' @ nl then Some (''Quitting'' @ nl, True)
      else if l = ''s'' @ nl then
        Some (''Connections: active='' @ pad 4 (decimal_int (sint (active_conn g))) @ '' total='' @
          pad 4 (decimal_int (sint (total_conn g))) @ nl, False)
      else if l = ''h'' @ nl then Some (server_help, False)
      else if l = ''l'' @ nl then map_option (\<lambda>s. (s, False)) (log_print g)
      else if l = nl then Some ([], False)
      else Some (''Unknown command: '' @ [CHR 0x27] @ l @ [CHR 0x27] @ nl, False))"

fun run_RemoteServer ::
  "console_pc \<Rightarrow> call_result \<Rightarrow> rs_globals \<Rightarrow> (console_pc \<times> rs_globals \<times> string) option" where
  "run_RemoteServer M_create r g = do {
     t \<leftarrow> the_Tid r;
     Some (M_line, g\<lparr>listener := t\<rparr>, ''Type h for help, or a command: '') }"
| "run_RemoteServer M_line r g = do {
     l \<leftarrow> the_Line r;
     (case l of
        None \<Rightarrow> Some (M_returned, g, [])
      | Some s \<Rightarrow> map_option (\<lambda>(out, q). if q then (M_close, g\<lparr>quit := True\<rparr>, out)
                     else (M_line, g, out @ ''Type h for help, or a command: '')) (server_command s g)) }"
| "run_RemoteServer M_close r g = do {
     r \<leftarrow> the_Result r;
     Some (M_join, g, []) }"
| "run_RemoteServer M_join r g = do {
     r \<leftarrow> the_Result r;
     Some (M_check, g, []) }"
| "run_RemoteServer M_check r g = do {
     _ \<leftarrow> the_Proceed r;
     (if active_conn g > 0
      then Some (M_waits, g, ''Waiting '' @ decimal (unat (active_conn g)) @ '' connections ...'' @ nl)
      else map_option (\<lambda>g'. (M_returned, g', [])) (log_truncate g)) }"
| "run_RemoteServer M_waits r g = None"
| "run_RemoteServer M_returned r g = None"

section \<open>The threads together\<close>

text \<open>The server with its threads. \<open>clients i\<close> is the position of the \<open>i\<close>-th client thread and its
  socket. A client holds the mutex \<open>mx\<close> between its load and its store; its broadcast then wakes the
  console, if that waits. The steps that lock the mutex need it to be free.\<close>

record server =
  globals :: rs_globals
  listener_at :: listener_pc
  clients :: "(client_pc \<times> int) list"
  console_at :: console_pc
  mx_held :: bool

datatype server_event = Listener call_result | Client nat call_result | Console call_result

fun listener_locks :: "listener_pc \<Rightarrow> bool" where
  "listener_locks (L_log s) = True"
| "listener_locks _ = False"

fun client_locks :: "client_pc \<Rightarrow> bool" where
  "client_locks C_id = True"
| "client_locks (C_log_start i) = True"
| "client_locks (C_log_end i st) = True"
| "client_locks (C_log_abort i) = True"
| "client_locks C_lock = True"
| "client_locks _ = False"

fun new_client :: "listener_pc \<Rightarrow> (client_pc \<times> int) list" where
  "new_client (L_create lsock sock) = [(C_id, sock)]"
| "new_client _ = []"

definition woken_console :: "client_pc \<Rightarrow> console_pc \<Rightarrow> console_pc" where
  "woken_console p m = (case p of C_store v \<Rightarrow> if m = M_waits then M_check else m | _ \<Rightarrow> m)"

fun server_exec :: "server_event \<Rightarrow> server \<Rightarrow> server option" where
  "server_exec (Listener r) s =
     (if console_at s = M_create \<or> listener_locks (listener_at s) \<and> mx_held s then None
      else map_option (\<lambda>(p, g). s\<lparr>listener_at := p, globals := g, clients := clients s @ new_client (listener_at s)\<rparr>)
             (rsrv_listener_thread (port (globals s)) (listener_at s) r (globals s)))"
| "server_exec (Client i r) s =
     (if i < length (clients s) then
        (let (p, sock) = clients s ! i in
         if client_locks p \<and> mx_held s then None
         else map_option (\<lambda>(p', g). s\<lparr>clients := (clients s)[i := (p', sock)], globals := g,
                    mx_held := (if p = C_lock then True else if p' = C_returned then False else mx_held s),
                    console_at := woken_console p (console_at s)\<rparr>)
                (rsrv_client sock p r (globals s)))
      else None)"
| "server_exec (Console r) s =
     (if console_at s = M_check \<and> mx_held s then None
      else if console_at s = M_join \<and> \<not> (case listener_at s of L_returned v \<Rightarrow> True | _ \<Rightarrow> False) then None
      else map_option (\<lambda>(m, g, out). s\<lparr>console_at := m, globals := g\<rparr>)
             (run_RemoteServer (console_at s) r (globals s)))"

definition server_step :: "server \<Rightarrow> server \<Rightarrow> bool" where
  "server_step s s' \<longleftrightarrow> (\<exists>ev. server_exec ev s = Some s')"

definition server_start :: "server \<Rightarrow> bool" where
  "server_start s \<longleftrightarrow> (\<exists>g. s = \<lparr>globals = RemoteServer_globals g, listener_at = L_socket, clients = [],
     console_at = M_create, mx_held = False\<rparr>)"

fun server_run :: "server_event list \<Rightarrow> server \<Rightarrow> server option" where
  "server_run [] s = Some s"
| "server_run (ev # evs) s = do { s' \<leftarrow> server_exec ev s; server_run evs s' }"

lemma server_run_reach:
  "reach server_start server_step s \<Longrightarrow> server_run evs s = Some s' \<Longrightarrow> reach server_start server_step s'"
proof (induction evs arbitrary: s)
  case (Cons ev evs)
  then obtain s1 where "server_exec ev s = Some s1" "server_run evs s1 = Some s'" by (auto split: bind_splits)
  then show ?case using Cons reach_trans by (metis server_step_def)
qed simp

section \<open>Identifiers of clients\<close>

fun client_id :: "client_pc \<Rightarrow> uint64 option" where
  "client_id (C_log_start i) = Some i"
| "client_id (C_recv_length i) = Some i"
| "client_id (C_recv_args i al) = Some i"
| "client_id (C_exec i av) = Some i"
| "client_id (C_close i p) = Some i"
| "client_id (C_wait i p) = Some i"
| "client_id (C_log_end i st) = Some i"
| "client_id (C_log_abort i) = Some i"
| "client_id _ = None"

text \<open>The numbers of the clients that have one are distinct and not larger than the counter, and the counter
  with the clients that still wait for a number gives the number of clients.\<close>

definition id_of :: "server \<Rightarrow> nat \<Rightarrow> uint64 option" where
  "id_of s i = (if i < length (clients s) then client_id (fst (clients s ! i)) else None)"

definition waiting_for_id :: "server \<Rightarrow> nat" where
  "waiting_for_id s = count_list (map fst (clients s)) C_id"

definition server_inv :: "server \<Rightarrow> bool" where
  "server_inv s \<longleftrightarrow> (length (clients s) < 2 ^ 64 \<longrightarrow>
     unat (conn_id_counter (globals s)) + waiting_for_id s = length (clients s) \<and>
     (\<forall>i a. id_of s i = Some a \<longrightarrow> 0 < a \<and> a \<le> conn_id_counter (globals s)) \<and>
     (\<forall>i j a. id_of s i = Some a \<longrightarrow> id_of s j = Some a \<longrightarrow> i = j))"

lemma client_keeps_id:
  assumes "rsrv_client sock p r g = Some (p', g')" and "p \<noteq> C_id"
  shows "conn_id_counter g' = conn_id_counter g" "p' \<noteq> C_id" "client_id p' = None \<or> client_id p' = client_id p"
  using assms by (cases p; auto simp: log_message_def Let_def split: bind_splits if_splits)+

lemma listener_keeps_ids:
  assumes "rsrv_listener_thread prt p r g = Some (p', g')"
  shows "conn_id_counter g' = conn_id_counter g"
  using assms by (cases p; auto simp: log_message_def Let_def split: bind_splits if_splits)+

lemma console_keeps_ids:
  assumes "run_RemoteServer m r g = Some (m', g', out)"
  shows "conn_id_counter g' = conn_id_counter g"
  using assms by (cases m) (auto simp: log_truncate_def Let_def split: bind_splits if_splits option.splits prod.splits)

lemma server_inv_start: "server_start s \<Longrightarrow> server_inv s"
  by (auto simp: server_start_def server_inv_def id_of_def waiting_for_id_def RemoteServer_globals_def log_init_def)

lemma server_inv_cong:
  assumes "clients s' = clients s" and "conn_id_counter (globals s') = conn_id_counter (globals s)"
  shows "server_inv s' = server_inv s"
proof -
  have "id_of s' = id_of s" "waiting_for_id s' = waiting_for_id s"
    by (auto simp: id_of_def waiting_for_id_def assms(1))
  then show ?thesis by (simp add: server_inv_def assms)
qed

lemma server_inv_listener:
  assumes "server_inv s" and "server_exec (Listener r) s = Some s'"
  shows "server_inv s'"
proof -
  obtain p g where g: "rsrv_listener_thread (port (globals s)) (listener_at s) r (globals s) = Some (p, g)"
    and s': "s' = s\<lparr>listener_at := p, globals := g, clients := clients s @ new_client (listener_at s)\<rparr>"
    using assms(2) by (auto split: if_splits)
  have cnt: "conn_id_counter g = conn_id_counter (globals s)" by (rule listener_keeps_ids [OF g])
  consider "new_client (listener_at s) = []" | sock where "new_client (listener_at s) = [(C_id, sock)]"
    by (cases "listener_at s") auto
  then show ?thesis
  proof cases
    case 1
    then show ?thesis using assms(1) server_inv_cong [of s' s] by (simp add: s' cnt)
  next
    case 2
    then have "id_of s' i = id_of s i" for i by (simp add: s' id_of_def nth_append less_Suc_eq)
    then show ?thesis using assms(1) 2 by (simp add: server_inv_def s' cnt waiting_for_id_def)
  qed
qed

lemma server_inv_client:
  assumes "server_inv s" and "server_exec (Client i r) s = Some s'"
  shows "server_inv s'"
proof -
  have i: "i < length (clients s)" using assms(2) by (simp split: if_splits)
  obtain p sock where p: "clients s ! i = (p, sock)" by fastforce
  obtain p' g where g: "rsrv_client sock p r (globals s) = Some (p', g)"
    and s': "globals s' = g" "clients s' = (clients s)[i := (p', sock)]"
    using assms(2) i p by (auto split: if_splits)
  have id': "id_of s' j = (if j = i then client_id p' else id_of s j)" for j
    using i by (auto simp: id_of_def s')
  have idi: "id_of s i = client_id p" using i p by (simp add: id_of_def)
  have wait: "waiting_for_id s' + (if p = C_id then 1 else 0) = waiting_for_id s + (if p' = C_id then 1 else 0)"
    using count_list_update [of i "map fst (clients s)" p' C_id] i p by (simp add: waiting_for_id_def s' map_update)
  show ?thesis
  proof (cases "p = C_id")
    case True
    then have p': "p' = C_log_start (conn_id_counter (globals s) + 1)"
       "conn_id_counter g = conn_id_counter (globals s) + 1" using g by (auto split: bind_splits)
    show ?thesis unfolding server_inv_def s' length_list_update
    proof
      let ?c = "conn_id_counter (globals s)"
      assume small: "length (clients s) < 2 ^ 64"
      then have inv: "unat ?c + waiting_for_id s = length (clients s)"
          "\<And>j a. id_of s j = Some a \<Longrightarrow> 0 < a \<and> a \<le> ?c"
          "\<And>j k a. id_of s j = Some a \<Longrightarrow> id_of s k = Some a \<Longrightarrow> j = k"
        using assms(1) by (auto simp: server_inv_def)
      have "unat ?c + 1 < 2 ^ 64" using inv(1) wait True small p'(1) by simp
      then have suc: "unat (?c + 1) = unat ?c + 1" by (simp add: unat_word_ariths)
      then have less: "a < ?c + 1" if "a \<le> ?c" for a using that by (simp add: word_less_nat_alt word_le_nat_alt)
      have "0 < ?c + 1" using suc by (simp add: word_less_nat_alt)
      then show "unat (conn_id_counter g) + waiting_for_id s' = length (clients s) \<and>
         (\<forall>j a. id_of s' j = Some a \<longrightarrow> 0 < a \<and> a \<le> conn_id_counter g) \<and>
         (\<forall>j k a. id_of s' j = Some a \<longrightarrow> id_of s' k = Some a \<longrightarrow> j = k)"
        using inv suc wait True less unfolding id' p' by (fastforce split: if_splits)
    qed
  next
    case False
    note keep = client_keeps_id [OF g False]
    have "id_of s' j = Some a \<Longrightarrow> id_of s j = Some a" for j a using keep(3) idi by (auto simp: id' split: if_splits)
    then show ?thesis using assms(1) keep wait False unfolding server_inv_def s' by auto
  qed
qed

lemma server_inv_step: "server_step s s' \<Longrightarrow> server_inv s \<Longrightarrow> server_inv s'"
proof -
  assume "server_step s s'" and inv: "server_inv s"
  then obtain ev where ev: "server_exec ev s = Some s'" by (auto simp: server_step_def)
  show ?thesis
  proof (cases ev)
    case (Console r)
    then obtain m g out where "run_RemoteServer (console_at s) r (globals s) = Some (m, g, out)"
       "s' = s\<lparr>console_at := m, globals := g\<rparr>" using ev by (auto split: if_splits)
    then show ?thesis using inv console_keeps_ids [of "console_at s" r "globals s" m g out]
        server_inv_cong [of s' s] by simp
  qed (use server_inv_listener server_inv_client inv ev in blast)+
qed

interpretation server: transition_invariant server_start server_step server_inv
  by unfold_locales (blast intro: server_inv_start server_inv_step)+

section \<open>The count of connections\<close>

text \<open>A run with two connections. The listener has loaded \<open>active_conn\<close> for the second when the first client
  decrements it.\<close>

definition message_of :: "byte list" where "message_of = [108, 115, 0]"

definition serve :: "nat \<Rightarrow> nat \<Rightarrow> server_event list" where
  "serve i rec = map (Client i) [Proceed, Record rec, Received True [3, 0, 0, 0], Received True message_of,
     Exec_result 5, Result 0, Exit_status 0, Record (rec + 1), Proceed, Proceed]"

definition accept_conn :: "int \<Rightarrow> server_event list" where
  "accept_conn sock = map Listener [Proceed, Proceed, Tid_result (Some (Thread 0)), Result 0]"

definition lost_update :: "server_event list" where
  "lost_update = [Console (Tid_result (Some (Thread 0)))] @
     map Listener [Result 3, Result 0, Result 4, Proceed] @ accept_conn 4 @
     map Listener [Result 5, Proceed] @ serve 0 10 @ accept_conn 5 @ serve 1 20 @
     [Console (Line (Some (''q'' @ nl))), Console (Result 0), Listener (Result (-1)), Console (Result 0),
      Console Proceed]"

definition ex_globals :: rs_globals where
  "ex_globals = \<lparr>quit = False, port = 0, listener = None, listener_socket = 0, active_conn = 0, total_conn = 0,
     conn_id_counter = 0, log = \<lparr>rl_obj = (\<lambda>_. None), rl_prev = (\<lambda>n. n), rl_next = (\<lambda>n. n)\<rparr>,
     messages = (\<lambda>_. []), logcount = 0\<rparr>"

definition ex_server :: server where
  "ex_server = \<lparr>globals = RemoteServer_globals ex_globals, listener_at = L_socket, clients = [],
     console_at = M_create, mx_held = False\<rparr>"

lemma ex_server_reach: "reach server_start server_step ex_server"
  by (rule reach_start) (auto simp: server_start_def ex_server_def)

lemma lost_update_run:
  "map_option (\<lambda>s. (console_at s, listener_at s, map fst (clients s), active_conn (globals s), mx_held s))
     (server_run lost_update ex_server) =
   Some (M_waits, L_returned 0, [C_returned, C_returned], 1, False)"
  by code_simp

section \<open>Requests\<close>

lemma request_argv_packed:
  assumes "\<And>s. s \<in> set ss \<Longrightarrow> 0 \<notin> set s" and "length (packed ss) < 2 ^ 31"
  shows "request_argv sock (int (length (packed ss))) (packed ss) =
     Some (''rsrv_process'' # decimal_int sock # map text_of ss)"
proof -
  let ?n = "length (packed ss)"
  have c: "argscount (int ?n) (packed ss) = Some (of_nat (length ss))"
    using argscount_count [of "int ?n" "packed ss"] count_packed [of ss] assms(1) by simp
  have "length ss \<le> ?n" by (simp add: length_packed)
  then have u: "unat (of_nat (length ss) :: uint64) = length ss" using assms(2) by (intro unat_of_nat_small) simp
  obtain argv where "argvunpack (length ss) (int ?n) (packed ss) = Some (argv, ?n)" "map (cstring (packed ss)) argv = ss"
    using argvunpack_loop_spec [of ss "[]" "[]"] assms(1) by (auto simp: argvunpack_def)
  moreover have "map (\<lambda>a. text_of (cstring (packed ss) a)) argv = map text_of (map (cstring (packed ss)) argv)" by simp
  ultimately show ?thesis unfolding request_argv_def c by (simp add: u)
qed

lemma int_of_bytes32: "int_of_bytes (bytes32 w) = sint w"
proof -
  have "(ucast (take_bit 32 (ucast w :: uint64)) :: uint32) = w" by (rule bit_word_eqI) (simp add: bit_simps)
  then show ?thesis by (simp add: int_of_bytes_def bytes32_def of_bytes_of)
qed

section \<open>Properties\<close>

text \<open>Every client of the remote server has its own number: in every state that the interleaving of the
  console, the listener and the clients can reach with fewer than 2^64 connections, two clients with the same
  number are the same client, and no number is larger than the counter.\<close>

lemma client_numbers_unique:
  assumes "reach server_start server_step s" and "length (clients s) < 2 ^ 64"
    and "id_of s i = Some a" and "id_of s j = Some b"
  shows "(a = b \<longrightarrow> i = j) \<and> 0 < a \<and> a \<le> conn_id_counter (globals s)"
  using server.inv_reach [OF assms(1)] assms(2-) by (auto simp: server_inv_def)

definition two_clients :: "server_event list" where
  "two_clients = [Console (Tid_result (Some (Thread 0)))] @
     map Listener [Result 3, Result 0, Result 4, Proceed] @ accept_conn 4 @
     map Listener [Result 5, Proceed] @ accept_conn 5 @ [Client 1 Proceed, Client 0 Proceed]"

definition ex_two_clients :: server where
  "ex_two_clients = the (server_run two_clients ex_server)"

lemma ex_two_clients_facts:
  "reach server_start server_step ex_two_clients"
  "id_of ex_two_clients 0 = Some 2" "id_of ex_two_clients 1 = Some 1" "length (clients ex_two_clients) = 2"
proof -
  have "map_option (\<lambda>s. length (clients s)) (server_run two_clients ex_server) = Some 2" by code_simp
  then have "server_run two_clients ex_server = Some ex_two_clients"
    by (cases "server_run two_clients ex_server") (simp_all add: ex_two_clients_def)
  then show "reach server_start server_step ex_two_clients" by (rule server_run_reach [OF ex_server_reach])
  show "id_of ex_two_clients 0 = Some 2" "id_of ex_two_clients 1 = Some 1" "length (clients ex_two_clients) = 2"
    by code_simp+
qed

lemma client_numbers_unique_witness: "(2 :: uint64) \<noteq> 1 \<and> 2 \<le> conn_id_counter (globals ex_two_clients)"
  using client_numbers_unique [OF ex_two_clients_facts(1) _ ex_two_clients_facts(2,3)] ex_two_clients_facts(4)
  by auto


text \<open>C29: A request arrives as it was sent. For a command line of strings without zero bytes that is not empty
  and packs into at most 2048 bytes, the message of the client (the length and the packed strings) is
  accepted by the server's assertion, and the process that the server starts gets exactly the strings of
  the client behind its own name and the socket.\<close>

theorem request_round_trip:
  assumes "\<And>s. s \<in> set ss \<Longrightarrow> 0 \<notin> set s" and "ss \<noteq> []" and "length (packed ss) \<le> 2048"
    and "\<And>n. length (stk n) = n"
  shows "\<exists>al buf. client_message (map terminated ss) stk = Some (al, buf) \<and>
     rsrv_client sock (C_recv_length ID) (Received True (bytes32 al)) g = Some (C_recv_args ID (int (length buf)), g) \<and>
     rsrv_client sock (C_recv_args ID (int (length buf))) (Received True buf) g =
       Some (C_exec ID (''rsrv_process'' # decimal_int sock # map text_of ss), g)"
proof -
  let ?n = "length (packed ss)"
  let ?al = "of_nat ?n :: uint32"
  have n: "unat ?al = ?n" "sint ?al = int ?n" "(ucast (of_nat ?n :: uint64) :: uint32) = ?al"
    using assms(3)
    by (simp_all add: unat_of_nat_small sint_uint uint_nat signed_take_bit_int_eq_self,
        simp add: word_eq_iff_unsigned unsigned_of_nat take_bit_nat_eq_self flip: unat_eq_nat_uint)
  have pos: "0 < ?n" using assms(2) by (simp add: length_packed neq_Nil_conv)
  have msg: "client_message (map terminated ss) stk = Some (?al, packed ss)"
    using argvlen_packed [of ss] argvpack_spec [of ss "stk ?n"] assms n length_packed [of ss]
    by (simp add: client_message_def)
  show ?thesis using msg int_of_bytes32 [of ?al] n(2) pos assms(3) request_argv_packed [OF assms(1)] by auto
qed

theorem request_round_trip_witness:
  "\<exists>al buf. client_message (map terminated [[108, 115]]) (\<lambda>n. replicate n 0) = Some (al, buf) \<and>
     rsrv_client 4 (C_recv_args 1 (int (length buf))) (Received True buf) ex_globals =
       Some (C_exec 1 (''rsrv_process'' # decimal_int 4 # map text_of [[108, 115]]), ex_globals)"
proof -
  have "0 \<notin> set s" if "s \<in> set [[108, 115]]" for s :: "byte list" using that by auto
  moreover have "length (packed [[108, 115 :: byte]]) \<le> 2048" by (simp add: length_packed)
  ultimately show ?thesis
    using request_round_trip [of "[[108, 115]]" "\<lambda>n. replicate n 0" 4 1 ex_globals] by (auto simp del: rsrv_client.simps)
qed

end
