(* ===== verification/Unit_Testing.thy ===== *)
theory Unit_Testing
  imports Bios C_Text "HOL-Library.Monad_Syntax"
begin

text \<open>
  The test library, \<^verbatim>\<open>unit_testing.c\<close> and \<^verbatim>\<open>unit_testing.h\<close>: indented messages, the terminal
  proxies, running of tests and suites, and the command line.

  What a test does when it runs is a parameter (\<open>test_env\<close>): it finishes with or without a failed
  ASSERT, is killed by a signal, or does not end in its time. The library's own behaviour around
  that (the subprocess and its status, the messages, the counting) is modelled. \<open>None\<close> is a failed
  \<open>assert\<close>, an access outside an array, or the end of the whole test program.
\<close>

section \<open>Tests\<close>

datatype Test =
    Test (tname: string) (tbody: test_body) (description: string)
      (timeout: uint32) (minimum_terminals: uint32) (minimum_cores: uint32)
  and test_body = NO_FUNC | BARE_FUNC nat | BOOT_FUNC nat | SUITE_FUNC "Test list"

definition DEFAULT_TIMEOUT :: uint32 where "DEFAULT_TIMEOUT = 10"

definition MAX_TESTS :: nat where "MAX_TESTS = 1024"

definition BARE_TEST :: "string \<Rightarrow> nat \<Rightarrow> string \<Rightarrow> Test" where
  "BARE_TEST name f descr = Test name (BARE_FUNC f) descr DEFAULT_TIMEOUT 0 1"

definition BOOT_TEST :: "string \<Rightarrow> nat \<Rightarrow> string \<Rightarrow> Test" where
  "BOOT_TEST name f descr = Test name (BOOT_FUNC f) descr DEFAULT_TIMEOUT 0 1"

definition TEST_SUITE :: "string \<Rightarrow> Test list \<Rightarrow> string \<Rightarrow> Test" where
  "TEST_SUITE name ts descr = Test name (SUITE_FUNC ts) descr DEFAULT_TIMEOUT 0 1"

record program_arguments =
  show_tests :: bool
  verbose :: nat
  use_color :: bool
  forks :: bool
  ncore_list :: nat
  core_list :: "int list"
  nterm_list :: nat
  term_list :: "int list"
  ntests :: nat
  tests :: "Test list"

definition ARGS_init :: program_arguments where
  "ARGS_init = \<lparr>show_tests = False, verbose = 0, use_color = True, forks = True,
     ncore_list = 1, core_list = 1 # replicate (MAX_CORES - 1) 0, nterm_list = 1,
     term_list = replicate (MAX_TERMINALS + 1) 0,
     ntests = 0, tests = []\<rparr>"

record testing =
  ARGS :: program_arguments
  INDENT_STACK :: "nat \<Rightarrow> nat"
  INDENT_STACK_SIZE :: nat
  INDENT_POS :: nat
  CURRENT_POS :: nat
  EMIT_INDENT :: bool
  FLAG_FAILURE :: bool
  stderr :: string
  all_tests_available :: "Test list"
  default_test :: "Test option"

definition testing_init :: testing where
  "testing_init = \<lparr>ARGS = ARGS_init, INDENT_STACK = (\<lambda>_. 0), INDENT_STACK_SIZE = 0, INDENT_POS = 0, CURRENT_POS = 0,
     EMIT_INDENT = True, FLAG_FAILURE = False, stderr = [], all_tests_available = [], default_test = None\<rparr>"

section \<open>Messages\<close>

definition INDENT_STACK_MAX :: nat where "INDENT_STACK_MAX = 128"

definition INDENT_STEP :: nat where "INDENT_STEP = 8"

definition push_indent :: "nat \<Rightarrow> testing \<Rightarrow> testing option" where
  "push_indent n s =
     (if INDENT_STACK_SIZE s < INDENT_STACK_MAX then
        Some (s\<lparr>INDENT_STACK := (INDENT_STACK s)(INDENT_STACK_SIZE s := INDENT_POS s),
                INDENT_STACK_SIZE := INDENT_STACK_SIZE s + 1, INDENT_POS := INDENT_POS s + n\<rparr>)
      else None)"

definition INDENT :: "testing \<Rightarrow> testing option" where
  "INDENT s = push_indent INDENT_STEP s"

definition TAB :: "testing \<Rightarrow> testing option" where
  "TAB s = push_indent (CURRENT_POS s) s"

definition UNINDENT :: "testing \<Rightarrow> testing option" where
  "UNINDENT s =
     (if INDENT_STACK_SIZE s > 0 then
        Some (s\<lparr>INDENT_STACK_SIZE := INDENT_STACK_SIZE s - 1,
                INDENT_POS := INDENT_STACK s (INDENT_STACK_SIZE s - 1)\<rparr>)
      else None)"

definition MSG_char :: "char \<Rightarrow> testing \<Rightarrow> testing" where
  "MSG_char ch s =
     (let s1 = (if EMIT_INDENT s
                then s\<lparr>stderr := stderr s @ replicate (INDENT_POS s) CHR 0x20, EMIT_INDENT := False\<rparr> else s);
          s2 = (if ch = CHR 0x0A then s1\<lparr>EMIT_INDENT := True, CURRENT_POS := 0\<rparr>
                else s1\<lparr>CURRENT_POS := CURRENT_POS s1 + 1\<rparr>)
      in s2\<lparr>stderr := stderr s2 @ [ch]\<rparr>)"

definition MSG :: "string \<Rightarrow> testing \<Rightarrow> testing" where
  "MSG msg s = fold MSG_char msg s"

definition esc :: "string \<Rightarrow> string" where "esc code = CHR 0x1B # CHR 0x5B # code @ ''m''"

definition RED :: string where "RED = esc ''31;1''"
definition GREEN :: string where "GREEN = esc ''32;1''"
definition YELLOW :: string where "YELLOW = esc ''33;1''"
definition CYAN :: string where "CYAN = esc ''36;1''"
definition WHITE :: string where "WHITE = esc ''37;1''"
definition NORMAL :: string where "NORMAL = esc ''0''"

text \<open>What the outside world contributes: whether stderr is a terminal, how the function of a test
  behaves, and the names of the signals.\<close>

datatype behaviour = Finishes bool | Crashes nat | Quits int | Hangs

record test_env =
  tty :: bool
  run_bare :: "nat \<Rightarrow> uint32 \<Rightarrow> behaviour"
  run_boot :: "nat \<Rightarrow> uint32 \<Rightarrow> uint32 \<Rightarrow> uint32 \<Rightarrow> behaviour"
  strsignal :: "nat \<Rightarrow> string"

definition COLOR :: "test_env \<Rightarrow> testing \<Rightarrow> string \<Rightarrow> string \<Rightarrow> string" where
  "COLOR e s msg color =
     (let on = use_color (ARGS s) \<and> tty e
      in take 255 ((if on then color else []) @ msg @ (if on then NORMAL else [])))"

definition ASSERT_MSG :: "bool \<Rightarrow> string \<Rightarrow> testing \<Rightarrow> testing" where
  "ASSERT_MSG b msg s = (if b then s else MSG msg (s\<lparr>FLAG_FAILURE := True\<rparr>))"

section \<open>Execution\<close>

text \<open>A wait status: the low seven bits are the signal, the next byte the exit code. SIGABRT is 6,
  SIGTERM is 15.\<close>

datatype wait_status = Exited nat | Signaled nat

definition execute_fork :: "behaviour \<Rightarrow> testing \<Rightarrow> wait_status \<times> testing" where
  "execute_fork b s =
     (case b of
        Finishes failed \<Rightarrow> (if failed then Signaled 6 else Exited 129, s)
      | Crashes sig \<Rightarrow> (Signaled sig, s)
      | Quits code \<Rightarrow> (Exited (nat (code mod 256)), s)
      | Hangs \<Rightarrow> (Signaled 15, ASSERT_MSG False (''Test timed out'' @ nl) s))"

text \<open>Without a subprocess a test that fails, crashes, exits or hangs takes the test program with it.\<close>

definition execute_nofork :: "behaviour \<Rightarrow> testing \<Rightarrow> (wait_status \<times> testing) option" where
  "execute_nofork b s =
     (case b of Finishes False \<Rightarrow> Some (Exited 129, s\<lparr>FLAG_FAILURE := False\<rparr>) | _ \<Rightarrow> None)"

definition execute :: "behaviour \<Rightarrow> testing \<Rightarrow> (wait_status \<times> testing) option" where
  "execute b s = (if forks (ARGS s) then Some (execute_fork b s) else execute_nofork b s)"

definition execute_boot ::
  "test_env \<Rightarrow> uint32 \<Rightarrow> uint32 \<Rightarrow> nat \<Rightarrow> uint32 \<Rightarrow> testing \<Rightarrow> (wait_status \<times> testing) option" where
  "execute_boot e cores terms f tmout s = execute (run_boot e f cores terms tmout) s"

definition status_ok :: "wait_status \<Rightarrow> bool" where "status_ok st \<longleftrightarrow> st = Exited 129"

definition crash_msg :: "test_env \<Rightarrow> wait_status \<Rightarrow> testing \<Rightarrow> testing" where
  "crash_msg e st s =
     (case st of
        Signaled n \<Rightarrow> MSG (''Test crashed, signal='' @ decimal n @ '' ('' @ strsignal e n @ '')'' @ nl) s
      | Exited _ \<Rightarrow> s)"

definition verdict_msg :: "test_env \<Rightarrow> bool \<Rightarrow> testing \<Rightarrow> testing" where
  "verdict_msg e ok s =
     MSG ('' '' @ (if ok then COLOR e s ''ok'' GREEN else COLOR e s ''*** FAILED ***'' RED) @ nl) s"

definition run_boot_test :: "test_env \<Rightarrow> Test \<Rightarrow> uint32 \<Rightarrow> uint32 \<Rightarrow> testing \<Rightarrow> (bool \<times> testing) option" where
  "run_boot_test e t cores terms s =
     (let skipped = (\<not> (cores \<ge> minimum_cores t \<and> terms \<ge> minimum_terminals t)) in
      case tbody t of
        BOOT_FUNC f \<Rightarrow> do {
          (ok, s1) \<leftarrow> (if \<not> skipped then do {
             (st, s') \<leftarrow> execute_boot e cores terms f (timeout t) s;
             Some (status_ok st, crash_msg e st s') }
           else Some (True, s));
          let s2 = MSG (padr 52 (COLOR e s1 (tname t) WHITE) @ '' [cores='' @ pad 2 (decimal_int (sint cores)) @
                      '',term='' @ pad 1 (decimal_int (sint terms)) @ '']:'') s1;
          Some (ok, if skipped then MSG ('' '' @ COLOR e s2 ''skipped'' CYAN @ nl) s2 else verdict_msg e ok s2)
        }
      | _ \<Rightarrow> None)"

section \<open>Tests and suites\<close>

record Results =
  number_of_tests :: uint32
  successful :: uint32

definition RESULTS_INIT :: Results where "RESULTS_INIT = \<lparr>number_of_tests = 0, successful = 0\<rparr>"

text \<open>The two loops over the numbers of cores and of terminals.\<close>

fun boot_loop :: "test_env \<Rightarrow> Test \<Rightarrow> (int \<times> int) list \<Rightarrow> bool \<Rightarrow> testing \<Rightarrow> (bool \<times> testing) option" where
  "boot_loop e t [] ok s = Some (ok, s)"
| "boot_loop e t ((c, n) # cs) ok s = do {
     (r, s1) \<leftarrow> run_boot_test e t (of_int c) (of_int n) s;
     boot_loop e t cs (ok \<and> r) s1
   }"

definition machines :: "program_arguments \<Rightarrow> (int \<times> int) list" where
  "machines a = List.product (take (ncore_list a) (core_list a)) (take (nterm_list a) (term_list a))"

definition failed_description :: "Test \<Rightarrow> testing \<Rightarrow> testing option" where
  "failed_description t s = do {
     s1 \<leftarrow> INDENT s;
     s2 \<leftarrow> TAB (MSG ''description: '' s1);
     s3 \<leftarrow> UNINDENT (MSG (description t @ nl) s2);
     UNINDENT s3
   }"

definition finish_test :: "Test \<Rightarrow> bool \<times> testing \<Rightarrow> (bool \<times> testing) option" where
  "finish_test t rs =
     (let (ok, s) = rs in
      if \<not> ok \<and> verbose (ARGS s) > 0 then do { s1 \<leftarrow> failed_description t s; Some (ok, s1) } else Some (ok, s))"

definition name_msg :: "test_env \<Rightarrow> Test \<Rightarrow> bool \<Rightarrow> testing \<Rightarrow> testing" where
  "name_msg e t ok s = verdict_msg e ok (MSG (padr 70 (COLOR e s (tname t) WHITE) @ '':'') s)"

definition suite_started :: "test_env \<Rightarrow> string \<Rightarrow> testing \<Rightarrow> string" where
  "suite_started e name s = ''running suite: '' @ COLOR e s name YELLOW @ nl"

definition suite_completed :: "test_env \<Rightarrow> string \<Rightarrow> Results \<Rightarrow> testing \<Rightarrow> string" where
  "suite_completed e name res s = ''suite '' @ COLOR e s name YELLOW @ '' completed [tests='' @
     decimal_int (sint (number_of_tests res)) @ '', failed='' @
     decimal_int (sint (number_of_tests res - successful res)) @ '']'' @ nl"

lemma size_body [termination_simp]: "tbody t = SUITE_FUNC ts \<Longrightarrow> size_list size ts < size t"
  by (cases t) simp

function run_test :: "test_env \<Rightarrow> Test \<Rightarrow> testing \<Rightarrow> (bool \<times> testing) option"
  and run_suite :: "test_env \<Rightarrow> string \<Rightarrow> Test list \<Rightarrow> testing \<Rightarrow> (bool \<times> testing) option"
  and suite_loop :: "test_env \<Rightarrow> Test list \<Rightarrow> Results \<Rightarrow> testing \<Rightarrow> (Results \<times> testing) option" where
  "run_test e t s =
     (case tbody t of
        NO_FUNC \<Rightarrow> Some (True, s)
      | BARE_FUNC f \<Rightarrow> do {
          (st, s1) \<leftarrow> execute (run_bare e f (timeout t)) s;
          let ok = status_ok st;
          finish_test t (ok, name_msg e t ok (crash_msg e st s1))
        }
      | BOOT_FUNC f \<Rightarrow> do {
          r \<leftarrow> boot_loop e t (machines (ARGS s)) True s;
          finish_test t r
        }
      | SUITE_FUNC ts \<Rightarrow> do {
          (ok, s1) \<leftarrow> run_suite e (tname t) ts s;
          finish_test t (ok, name_msg e t ok s1)
        })"
| "run_suite e name ts s = do {
     s1 \<leftarrow> INDENT (MSG (suite_started e name s) s);
     (res, s2) \<leftarrow> suite_loop e ts RESULTS_INIT s1;
     s3 \<leftarrow> UNINDENT (MSG (suite_completed e name res s2) s2);
     Some (number_of_tests res = successful res, s3)
   }"
| "suite_loop e [] res s = Some (res, s)"
| "suite_loop e (t # ts) res s = do {
     (ok, s1) \<leftarrow> run_test e t s;
     let res1 = res\<lparr>number_of_tests := number_of_tests res + 1\<rparr>;
     suite_loop e ts (if ok then res1\<lparr>successful := successful res1 + 1\<rparr> else res1) s1
   }"
  by pat_completeness auto
termination
  by (relation "measure (\<lambda>x. case x of Inl (e, t, s) \<Rightarrow> 2 * size t
       | Inr (Inl (e, n, ts, s)) \<Rightarrow> 2 * size_list size ts + 1
       | Inr (Inr (e, ts, res, s)) \<Rightarrow> 2 * size_list size ts)")
     (auto dest: size_body)

declare run_test.simps [simp del] run_suite.simps [simp del]

section \<open>The command line\<close>

fun find_test :: "string \<Rightarrow> Test \<Rightarrow> Test option"
  and find_tests :: "string \<Rightarrow> Test list \<Rightarrow> Test option" where
  "find_test name (Test n b d tm mt mc) =
     (if name = n then Some (Test n b d tm mt mc)
      else (case b of SUITE_FUNC ts \<Rightarrow> find_tests name ts | _ \<Rightarrow> None))"
| "find_tests name [] = None"
| "find_tests name (t # ts) = (case find_test name t of Some u \<Rightarrow> Some u | None \<Rightarrow> find_tests name ts)"

definition MAX_TESTS_AVAILABLE :: nat where "MAX_TESTS_AVAILABLE = 64"

definition register_test :: "Test \<Rightarrow> testing \<Rightarrow> int \<times> testing" where
  "register_test t s =
     (if length (all_tests_available s) < MAX_TESTS_AVAILABLE
      then (0, s\<lparr>all_tests_available := all_tests_available s @ [t]\<rparr>) else (-1, s))"

text \<open>The suite that tests the library itself. \<open>internal_body\<close> is what its functions do in the given time:
  \<open>internal_timeout\<close> sleeps for five seconds; a timeout of 0 sets no alarm.\<close>

definition internal_success :: Test where
  "internal_success = BARE_TEST ''internal_success'' 0 ''A test that succeeds.''"

definition internal_failure :: Test where
  "internal_failure = BARE_TEST ''internal_failure'' 1 ''A test that fails by assertion.''"

definition internal_timeout :: Test where
  "internal_timeout = Test ''internal_timeout'' (BARE_FUNC 2) ''A test that fails by timeout.'' 1 0 1"

definition internal_skip :: Test where
  "internal_skip = Test ''internal_skip'' (BARE_FUNC 3) ''A test that is skipped'' DEFAULT_TIMEOUT (-1) 1"

definition internal_suite :: Test where
  "internal_suite = TEST_SUITE ''internal'' [internal_success, internal_failure, internal_timeout, internal_skip]
     ''A suite of internal tests, testing the test framework itself.''"

definition internal_body :: "nat \<Rightarrow> uint32 \<Rightarrow> behaviour" where
  "internal_body f tm =
     (if f = 1 then Finishes True else if f = 2 \<and> 0 < tm \<and> tm < 5 then Hangs else Finishes False)"

definition available_suite :: "testing \<Rightarrow> Test" where
  "available_suite s = TEST_SUITE ''all_tests_available'' (all_tests_available s) ''Used by find_test()''"

text \<open>\<open>parse_int_list\<close>. The temporary array \<open>args\<close> has \<open>to - from + 1\<close> elements; the list \<open>acc\<close> is its used
  part, so a store beyond its end is \<open>Inr None\<close>. \<open>Inl ()\<close> is the result 0. A number is compared with the
  old contents of \<open>nlist\<close>.\<close>

definition to_int :: "int \<Rightarrow> int" where "to_int v = sint (of_int v :: 32 word)"

fun parse_loop :: "string list \<Rightarrow> int list \<Rightarrow> int \<Rightarrow> int \<Rightarrow> int list \<Rightarrow> unit + int list option" where
  "parse_loop [] nlist lo hi acc = Inr (Some acc)"
| "parse_loop (token # ts) nlist lo hi acc =
     (let (v, rest) = strtol token; num = to_int v in
      if rest = token \<or> rest \<noteq> [] then Inl ()
      else if num < lo \<or> num > hi then Inl ()
      else if num \<in> set (take (length acc) nlist) then parse_loop ts nlist lo hi acc
      else if int (length acc) < hi - lo + 1 then parse_loop ts nlist lo hi (acc @ [num])
      else Inr None)"

text \<open>The result: whether it is 1, and the new \<open>*nlen\<close> and \<open>nlist\<close>; \<open>None\<close> after a store outside the
  array.\<close>

definition parse_int_list ::
  "string \<Rightarrow> nat \<Rightarrow> int list \<Rightarrow> int \<Rightarrow> int \<Rightarrow> (bool \<times> nat \<times> int list) option" where
  "parse_int_list arg nlen nlist lo hi =
     (case parse_loop (strtok_all CHR 0x2C arg) nlist lo hi [] of
        Inl _ \<Rightarrow> Some (False, nlen, nlist)
      | Inr None \<Rightarrow> None
      | Inr (Some vs) \<Rightarrow> Some (vs \<noteq> [], length vs, sort vs @ drop (length vs) nlist))"

datatype option_key = Key char | KEY_ARG | KEY_NO_ARGS | Key_other

text \<open>\<open>argp_error\<close> prints its message and ends the program.\<close>

datatype parsed = Parsed testing | Usage_error string | Err_unknown | Out_of_bounds

definition upd_args :: "(program_arguments \<Rightarrow> program_arguments) \<Rightarrow> testing \<Rightarrow> testing" where
  "upd_args f s = s\<lparr>ARGS := f (ARGS s)\<rparr>"

definition add_test :: "Test option \<Rightarrow> testing \<Rightarrow> parsed" where
  "add_test t s =
     (case t of
        Some u \<Rightarrow> Parsed (upd_args (\<lambda>a. a\<lparr>ntests := ntests a + 1, tests := tests a @ [u]\<rparr>) s)
      | None \<Rightarrow> Out_of_bounds)"

fun parse_options :: "option_key \<Rightarrow> string \<Rightarrow> testing \<Rightarrow> parsed" where
  "parse_options (Key k) arg s =
     (if k = CHR ''l'' then Parsed (upd_args (\<lambda>a. a\<lparr>show_tests := True\<rparr>) s)
      else if k = CHR ''v'' then Parsed (upd_args (\<lambda>a. a\<lparr>verbose := verbose a + 1\<rparr>) s)
      else if k = CHR ''n'' then Parsed (upd_args (\<lambda>a. a\<lparr>use_color := False\<rparr>) s)
      else if k = CHR ''f'' then Parsed (upd_args (\<lambda>a. a\<lparr>forks := False\<rparr>) s)
      else if k = CHR ''c'' then
        (case parse_int_list arg (ncore_list (ARGS s)) (core_list (ARGS s)) 1 (int MAX_CORES) of
           None \<Rightarrow> Out_of_bounds
         | Some (ok, n, l) \<Rightarrow>
             if ok then Parsed (upd_args (\<lambda>a. a\<lparr>ncore_list := n, core_list := l\<rparr>) s)
             else Usage_error (''Error in parsing list of cores: '' @ arg @ nl))
      else if k = CHR ''t'' then
        (case parse_int_list arg (nterm_list (ARGS s)) (term_list (ARGS s)) 0 (int MAX_TERMINALS) of
           None \<Rightarrow> Out_of_bounds
         | Some (ok, n, l) \<Rightarrow>
             if ok then Parsed (upd_args (\<lambda>a. a\<lparr>nterm_list := n, term_list := l\<rparr>) s)
             else Usage_error (''Error in parsing list of terminals: '' @ arg @ nl))
      else Err_unknown)"
| "parse_options KEY_ARG arg s =
     (if ntests (ARGS s) \<ge> MAX_TESTS
      then Usage_error (''Number of tests too large (maximum='' @ decimal MAX_TESTS @ '')'')
      else
        (case find_test arg (available_suite s) of
           Some t \<Rightarrow> add_test (Some t) s
         | None \<Rightarrow> Usage_error (''Unknown test: '' @ arg @ nl)))"
| "parse_options KEY_NO_ARGS arg s = add_test (default_test s) s"
| "parse_options Key_other arg s = Err_unknown"

text \<open>The calls that \<open>argp_parse\<close> makes for the words of the command line, in order.\<close>

fun argp_calls :: "(option_key \<times> string) list \<Rightarrow> testing \<Rightarrow> string + testing option" where
  "argp_calls [] s = Inr (Some s)"
| "argp_calls ((k, arg) # ks) s =
     (case parse_options k arg s of
        Parsed s1 \<Rightarrow> argp_calls ks s1
      | Usage_error m \<Rightarrow> Inl m
      | Err_unknown \<Rightarrow> argp_calls ks s
      | Out_of_bounds \<Rightarrow> Inr None)"

fun show_test :: "test_env \<Rightarrow> Test \<Rightarrow> testing \<Rightarrow> testing option"
  and show_suite :: "test_env \<Rightarrow> string \<Rightarrow> string \<Rightarrow> Test list \<Rightarrow> testing \<Rightarrow> testing option"
  and show_loop :: "test_env \<Rightarrow> Test list \<Rightarrow> testing \<Rightarrow> testing option" where
  "show_test e (Test n b d tm mt mc) s =
     (case b of
        SUITE_FUNC ts \<Rightarrow> show_suite e n d ts s
      | _ \<Rightarrow>
          (let s1 = MSG (padr 40 (COLOR e s n WHITE) @ nl) s in
           if verbose (ARGS s) > 0 then do {
             s2 \<leftarrow> INDENT s1;
             let s3 = MSG (d @ nl) s2;
             let s4 = (if verbose (ARGS s) > 1 then
                 MSG (''.minimum cores = '' @ decimal_int (sint mc) @ nl @
                   ''.minimum terminals = '' @ decimal_int (sint mt) @ nl)
                  (MSG (''.timeout = '' @ decimal_int (sint tm) @ '' sec'' @ nl) s3) else s3);
             UNINDENT s4
           } else Some s1))"
| "show_suite e n d ts s = do {
     s1 \<leftarrow> INDENT (MSG (padr 40 (COLOR e s n YELLOW) @ nl) s);
     s2 \<leftarrow> show_loop e ts (if verbose (ARGS s) > 0 then MSG (d @ nl) s1 else s1);
     UNINDENT s2
   }"
| "show_loop e [] s = Some s"
| "show_loop e (t # ts) s = do { s1 \<leftarrow> show_test e t s; show_loop e ts s1 }"

fun run_tests :: "test_env \<Rightarrow> Test list \<Rightarrow> testing \<Rightarrow> testing option" where
  "run_tests e [] s = Some s"
| "run_tests e (t # ts) s = do { (ok, s1) \<leftarrow> run_test e t s; run_tests e ts s1 }"

text \<open>The exit status of \<open>run_program\<close> is always 0; \<open>Inl\<close> is the exit of \<open>argp_error\<close>.\<close>

definition run_program ::
  "test_env \<Rightarrow> (option_key \<times> string) list \<Rightarrow> Test \<Rightarrow> testing \<Rightarrow> string + testing option" where
  "run_program e ks dflt s =
     (case argp_calls ks (s\<lparr>default_test := Some dflt\<rparr>) of
        Inl m \<Rightarrow> Inl m
      | Inr None \<Rightarrow> Inr None
      | Inr (Some s1) \<Rightarrow>
          Inr (if show_tests (ARGS s1)
               then show_suite e ''all_tests_available'' ''Used by find_test()'' (all_tests_available s1) s1
               else run_tests e (tests (ARGS s1)) s1))"

section \<open>Running a suite\<close>

text \<open>The reference: a test passes if its function finishes without a failed ASSERT on every machine
  that is large enough (or exits with the code 129 itself), a suite if all its tests do.\<close>

definition good :: "behaviour \<Rightarrow> bool" where
  "good b = (case b of Finishes failed \<Rightarrow> \<not> failed | Quits code \<Rightarrow> code mod 256 = 129 | _ \<Rightarrow> False)"

definition good_on :: "test_env \<Rightarrow> nat \<Rightarrow> Test \<Rightarrow> int \<times> int \<Rightarrow> bool" where
  "good_on e f t m =
     (let c = of_int (fst m); n = of_int (snd m) in
      c \<ge> minimum_cores t \<and> n \<ge> minimum_terminals t \<longrightarrow> good (run_boot e f c n (timeout t)))"

fun passes :: "test_env \<Rightarrow> program_arguments \<Rightarrow> Test \<Rightarrow> bool" where
  "passes e a (Test n b d tm mt mc) =
     (case b of
        NO_FUNC \<Rightarrow> True
      | BARE_FUNC f \<Rightarrow> good (run_bare e f tm)
      | BOOT_FUNC f \<Rightarrow> (\<forall>m \<in> set (machines a). good_on e f (Test n b d tm mt mc) m)
      | SUITE_FUNC ts \<Rightarrow> (\<forall>t \<in> set ts. passes e a t))"

text \<open>The stack of indents has room, from \<open>d\<close> entries on, and the counters do not overflow.\<close>

fun room :: "nat \<Rightarrow> Test \<Rightarrow> bool" where
  "room d (Test n b ds tm mt mc) =
     (d + 2 \<le> INDENT_STACK_MAX \<and>
      (case b of SUITE_FUNC ts \<Rightarrow> length ts < 2 ^ 32 \<and> (\<forall>t \<in> set ts. room (d + 1) t) | _ \<Rightarrow> True))"

definition settled :: "testing \<Rightarrow> testing \<Rightarrow> bool" where
  "settled s s' \<longleftrightarrow> ARGS s' = ARGS s \<and> INDENT_STACK_SIZE s' = INDENT_STACK_SIZE s \<and> INDENT_POS s' = INDENT_POS s \<and>
     (\<forall>i < INDENT_STACK_SIZE s. INDENT_STACK s' i = INDENT_STACK s i) \<and>
     all_tests_available s' = all_tests_available s \<and> default_test s' = default_test s \<and>
     (\<exists>out. stderr s' = stderr s @ out)"

lemma settled_refl [simp]: "settled s s"
  by (simp add: settled_def)

lemma settled_trans [trans]: "settled s t \<Longrightarrow> settled t u \<Longrightarrow> settled s u"
  by (auto simp: settled_def)

lemma settled_MSG_char: "settled s (MSG_char ch s)"
  by (auto simp: settled_def MSG_char_def Let_def)

lemma settled_MSG: "settled s (MSG msg s)"
  unfolding MSG_def
proof (induction msg arbitrary: s)
  case (Cons ch msg)
  show ?case using settled_trans [OF settled_MSG_char Cons] by simp
qed simp

lemma settled_msgs:
  "settled s (ASSERT_MSG b m s)" "settled s (crash_msg e st s)" "settled s (verdict_msg e ok s)"
  "settled s (name_msg e t ok s)" "settled s (snd (execute_fork b' s))"
proof -
  have flag: "settled s (s\<lparr>FLAG_FAILURE := True\<rparr>)" for s by (simp add: settled_def)
  show a: "settled s (ASSERT_MSG b m s)" for s b m
    using settled_trans [OF flag settled_MSG] by (simp add: ASSERT_MSG_def)
  show "settled s (crash_msg e st s)" by (simp add: crash_msg_def settled_MSG split: wait_status.splits)
  show v: "settled s (verdict_msg e ok s)" for s by (simp add: verdict_msg_def settled_MSG)
  show "settled s (name_msg e t ok s)" unfolding name_msg_def by (rule settled_trans [OF settled_MSG v])
  show "settled s (snd (execute_fork b' s))" by (simp add: execute_fork_def a split: behaviour.splits)
qed

text \<open>A push that a pop follows, with any settled output in between, leaves the stack as it was.\<close>

lemma push_pop:
  assumes "push_indent n s = Some s1" and "settled s1 s2"
  obtains s3 where "UNINDENT s2 = Some s3" "settled s s3"
proof -
  have s1: "s1 = s\<lparr>INDENT_STACK := (INDENT_STACK s)(INDENT_STACK_SIZE s := INDENT_POS s),
      INDENT_STACK_SIZE := INDENT_STACK_SIZE s + 1, INDENT_POS := INDENT_POS s + n\<rparr>"
    using assms(1) by (simp add: push_indent_def split: if_splits)
  let ?s3 = "s2\<lparr>INDENT_STACK_SIZE := INDENT_STACK_SIZE s2 - 1,
      INDENT_POS := INDENT_STACK s2 (INDENT_STACK_SIZE s2 - 1)\<rparr>"
  have "UNINDENT s2 = Some ?s3" "settled s ?s3"
    using assms(2) by (auto simp: s1 settled_def UNINDENT_def less_Suc_eq)
  then show ?thesis by (rule that)
qed

lemma push_room: "INDENT_STACK_SIZE s < INDENT_STACK_MAX \<Longrightarrow>
    \<exists>s1. push_indent n s = Some s1 \<and> ARGS s1 = ARGS s \<and> INDENT_STACK_SIZE s1 = INDENT_STACK_SIZE s + 1"
  by (simp add: push_indent_def)

lemma failed_description_settled:
  assumes "INDENT_STACK_SIZE s + 2 \<le> INDENT_STACK_MAX"
  obtains s' where "failed_description t s = Some s'" "settled s s'"
proof -
  obtain s1 where s1: "push_indent INDENT_STEP s = Some s1" "INDENT_STACK_SIZE s1 = INDENT_STACK_SIZE s + 1"
    using push_room [of s] assms by auto
  define m where "m = MSG ''description: '' s1"
  have m: "settled s1 m" by (simp add: m_def settled_MSG)
  then obtain s2 where s2: "push_indent (CURRENT_POS m) m = Some s2"
    using push_room [of m] assms s1(2) by (auto simp: settled_def)
  obtain s3 where s3: "UNINDENT (MSG (description t @ nl) s2) = Some s3" "settled m s3"
    by (rule push_pop [OF s2 settled_MSG])
  obtain s4 where s4: "UNINDENT s3 = Some s4" "settled s s4"
    by (rule push_pop [OF s1(1) settled_trans [OF m s3(2)]])
  show ?thesis
    by (rule that [OF _ s4(2)]) (simp add: failed_description_def INDENT_def TAB_def s1 s2 s3 s4 m_def [symmetric])
qed

lemma finish_test_settled:
  assumes "settled s s1" and "INDENT_STACK_SIZE s + 2 \<le> INDENT_STACK_MAX"
  obtains s' where "finish_test t (ok, s1) = Some (ok, s')" "settled s s'"
proof -
  have "INDENT_STACK_SIZE s1 + 2 \<le> INDENT_STACK_MAX" using assms by (simp add: settled_def)
  then obtain s' where "failed_description t s1 = Some s'" "settled s1 s'" by (rule failed_description_settled)
  then show ?thesis using that [of s'] that [of s1] settled_trans [OF assms(1)] assms(1)
    by (cases "\<not> ok \<and> 0 < verbose (ARGS s1)") (simp_all add: finish_test_def)
qed

lemma execute_forked:
  assumes "forks (ARGS s)"
  obtains st s' where "execute b s = Some (st, s')" "status_ok st \<longleftrightarrow> good b" "settled s s'"
proof -
  obtain st s' where "execute_fork b s = (st, s')" by fastforce
  moreover have "status_ok st \<longleftrightarrow> good b" using calculation
    by (auto simp: execute_fork_def status_ok_def good_def nat_eq_iff split: behaviour.splits if_splits)
  ultimately show ?thesis using that assms settled_msgs(5) [of s b] by (simp add: execute_def)
qed

lemma run_boot_test_settled:
  assumes "forks (ARGS s)" and "tbody t = BOOT_FUNC f"
  obtains s' where "run_boot_test e t (of_int c) (of_int n) s = Some (good_on e f t (c, n), s')" "settled s s'"
proof (cases "minimum_cores t \<le> of_int c \<and> minimum_terminals t \<le> of_int n")
  case True
  obtain st s1 where s1: "execute (run_boot e f (of_int c) (of_int n) (timeout t)) s = Some (st, s1)"
    "status_ok st \<longleftrightarrow> good (run_boot e f (of_int c) (of_int n) (timeout t))" "settled s s1"
    by (rule execute_forked [OF assms(1)])
  show ?thesis
    by (rule that) (simp_all add: run_boot_test_def True assms(2) execute_boot_def s1 good_on_def Let_def,
        meson s1(3) settled_MSG settled_msgs settled_trans)
next
  case False
  then show ?thesis
    by (intro that) (auto simp: run_boot_test_def assms(2) good_on_def Let_def intro: settled_trans settled_MSG)
qed

lemma boot_loop_settled:
  assumes "forks (ARGS s)" and "tbody t = BOOT_FUNC f"
  obtains s' where "boot_loop e t ms ok s = Some (ok \<and> (\<forall>m \<in> set ms. good_on e f t m), s')" "settled s s'"
  using assms(1)
proof (induction ms arbitrary: s ok thesis)
  case (Cons m ms)
  obtain c n where m: "m = (c, n)" by fastforce
  obtain s1 where s1: "run_boot_test e t (of_int c) (of_int n) s = Some (good_on e f t (c, n), s1)" "settled s s1"
    by (rule run_boot_test_settled [OF Cons.prems(2) assms(2)])
  have "forks (ARGS s1)" using s1(2) Cons.prems(2) by (simp add: settled_def)
  then obtain s' where "boot_loop e t ms (ok \<and> good_on e f t (c, n)) s1 =
      Some ((ok \<and> good_on e f t (c, n)) \<and> (\<forall>m \<in> set ms. good_on e f t m), s')" "settled s1 s'"
    by (rule Cons.IH [rotated])
  then show ?case using Cons.prems(1) settled_trans [OF s1(2)] by (auto simp: m s1(1))
qed simp

lemma suite_loop_settled:
  assumes "\<And>t s. t \<in> set ts \<Longrightarrow> ARGS s = a \<Longrightarrow> INDENT_STACK_SIZE s = d \<Longrightarrow>
      \<exists>s'. run_test e t s = Some (passes e a t, s') \<and> settled s s'"
    and "ARGS s = a" and "INDENT_STACK_SIZE s = d"
  shows "\<exists>res' s'. suite_loop e ts res s = Some (res', s') \<and> settled s s' \<and>
     number_of_tests res' = number_of_tests res + of_nat (length ts) \<and>
     successful res' = successful res + of_nat (length (filter (passes e a) ts))"
  using assms
proof (induction ts arbitrary: s res)
  case (Cons t ts)
  obtain s1 where s1: "run_test e t s = Some (passes e a t, s1)" "settled s s1" using Cons.prems by auto
  let ?res = "let r = res\<lparr>number_of_tests := number_of_tests res + 1\<rparr>
     in if passes e a t then r\<lparr>successful := successful r + 1\<rparr> else r"
  have "ARGS s1 = a" "INDENT_STACK_SIZE s1 = d" using s1(2) Cons.prems(2,3) by (auto simp: settled_def)
  then obtain res' s' where "suite_loop e ts ?res s1 = Some (res', s')" "settled s1 s'"
     "number_of_tests res' = number_of_tests ?res + of_nat (length ts)"
     "successful res' = successful ?res + of_nat (length (filter (passes e a) ts))"
    using Cons.IH [of s1 ?res] Cons.prems(1) by force
  then show ?case using settled_trans [OF s1(2)] by (auto simp: s1(1) Let_def add_ac)
qed simp

lemma counts_agree:
  assumes "length ts < 2 ^ 32"
  shows "(of_nat (length ts) :: uint32) = of_nat (length (filter P ts)) \<longleftrightarrow> (\<forall>t \<in> set ts. P t)"
proof -
  have "length (filter P ts) < 2 ^ 32" using assms length_filter_le [of P ts] by linarith
  then have u: "unat (of_nat (length ts) :: uint32) = length ts"
    "unat (of_nat (length (filter P ts)) :: uint32) = length (filter P ts)"
    using assms by (auto intro: unat_of_nat_small)
  have "(of_nat (length ts) :: uint32) = of_nat (length (filter P ts)) \<longleftrightarrow> length ts = length (filter P ts)"
    using u by metis
  also have "\<dots> \<longleftrightarrow> (\<forall>t \<in> set ts. P t)" by (metis filter_True length_filter_less less_irrefl)
  finally show ?thesis .
qed

lemma run_suite_settled:
  assumes "\<And>t s. t \<in> set ts \<Longrightarrow> ARGS s = a \<Longrightarrow> INDENT_STACK_SIZE s = d + 1 \<Longrightarrow>
      \<exists>s'. run_test e t s = Some (passes e a t, s') \<and> settled s s'"
    and "ARGS s = a" and "INDENT_STACK_SIZE s = d" and "d < INDENT_STACK_MAX" and "length ts < 2 ^ 32"
  obtains s' where "run_suite e name ts s = Some (\<forall>t \<in> set ts. passes e a t, s')" "settled s s'"
proof -
  define m where "m = MSG (suite_started e name s) s"
  have m: "settled s m" by (simp add: m_def settled_MSG)
  obtain s1 where s1: "push_indent INDENT_STEP m = Some s1" "ARGS s1 = a" "INDENT_STACK_SIZE s1 = d + 1"
    using push_room [of m INDENT_STEP] m assms(2-4) by (auto simp: settled_def)
  obtain res s2 where s2: "suite_loop e ts RESULTS_INIT s1 = Some (res, s2)" "settled s1 s2"
     "number_of_tests res = of_nat (length ts)" "successful res = of_nat (length (filter (passes e a) ts))"
    using suite_loop_settled [of ts a "d + 1" e s1 RESULTS_INIT] assms(1) s1(2,3) by (auto simp: RESULTS_INIT_def)
  obtain s3 where s3: "UNINDENT (MSG (suite_completed e name res s2) s2) = Some s3" "settled m s3"
    by (rule push_pop [OF s1(1) settled_trans [OF s2(2) settled_MSG]])
  have "number_of_tests res = successful res \<longleftrightarrow> (\<forall>t \<in> set ts. passes e a t)"
    using counts_agree [OF assms(5)] by (simp add: s2(3,4))
  then show ?thesis
    using that [OF _ settled_trans [OF m s3(2)]] s3(1) by (simp add: run_suite.simps INDENT_def s1(1) s2(1) flip: m_def)
qed

lemma run_test_settled:
  assumes "forks (ARGS s)" and "room (INDENT_STACK_SIZE s) t"
  shows "\<exists>s'. run_test e t s = Some (passes e (ARGS s) t, s') \<and> settled s s'"
  using assms
proof (induction "size t" arbitrary: t s rule: less_induct)
  case less
  obtain n b d tm mt mc where t: "t = Test n b d tm mt mc" by (cases t)
  have fits: "INDENT_STACK_SIZE s + 2 \<le> INDENT_STACK_MAX" using less.prems(2) by (simp add: t)
  show ?case
  proof (cases b)
    case NO_FUNC
    then show ?thesis by (simp add: t run_test.simps)
  next
    case (BARE_FUNC f)
    obtain st s1 where s1: "execute (run_bare e f tm) s = Some (st, s1)" "status_ok st \<longleftrightarrow> good (run_bare e f tm)"
      "settled s s1" by (rule execute_forked [OF less.prems(1)])
    have "settled s (name_msg e t (status_ok st) (crash_msg e st s1))"
      by (meson s1(3) settled_msgs settled_trans)
    then obtain s' where "finish_test t (status_ok st, name_msg e t (status_ok st) (crash_msg e st s1)) =
        Some (status_ok st, s')" "settled s s'"
      by (rule finish_test_settled [OF _ fits])
    then show ?thesis using s1 BARE_FUNC by (auto simp: t run_test.simps)
  next
    case (BOOT_FUNC f)
    have b: "tbody t = BOOT_FUNC f" by (simp add: t BOOT_FUNC)
    obtain s1 where s1: "boot_loop e t (machines (ARGS s)) True s =
        Some (True \<and> (\<forall>m \<in> set (machines (ARGS s)). good_on e f t m), s1)" "settled s s1"
      by (rule boot_loop_settled [OF less.prems(1) b])
    obtain s' where "finish_test t (\<forall>m \<in> set (machines (ARGS s)). good_on e f t m, s1) =
        Some (\<forall>m \<in> set (machines (ARGS s)). good_on e f t m, s')" "settled s s'"
      by (rule finish_test_settled [OF s1(2) fits])
    then show ?thesis using s1(1) BOOT_FUNC by (auto simp: t run_test.simps)
  next
    case (SUITE_FUNC ts)
    have IH: "\<exists>s'. run_test e u r = Some (passes e (ARGS s) u, s') \<and> settled r s'"
      if "u \<in> set ts" "ARGS r = ARGS s" "INDENT_STACK_SIZE r = INDENT_STACK_SIZE s + 1" for u r
    proof -
      have "size u < size t" using size_list_estimation' [OF that(1), of "size u" size]
        by (simp add: t SUITE_FUNC)
      then show ?thesis using less.hyps [of u r] less.prems that by (simp add: t SUITE_FUNC)
    qed
    obtain s1 where s1: "run_suite e n ts s = Some (\<forall>u \<in> set ts. passes e (ARGS s) u, s1)" "settled s s1"
      by (rule run_suite_settled [OF IH refl refl]) (use less.prems(2) in \<open>auto simp: t SUITE_FUNC\<close>)
    have "settled s (name_msg e t (\<forall>u \<in> set ts. passes e (ARGS s) u) s1)"
      by (meson s1(2) settled_msgs settled_trans)
    then obtain s' where "finish_test t (\<forall>u \<in> set ts. passes e (ARGS s) u,
        name_msg e t (\<forall>u \<in> set ts. passes e (ARGS s) u) s1) = Some (\<forall>u \<in> set ts. passes e (ARGS s) u, s')" "settled s s'"
      by (rule finish_test_settled [OF _ fits])
    then show ?thesis using s1(1) SUITE_FUNC by (auto simp: t run_test.simps)
  qed
qed

section \<open>Lists of numbers\<close>

definition number :: "string \<Rightarrow> int" where "number token = to_int (fst (strtol token))"

definition numbers :: "string \<Rightarrow> int list" where "numbers arg = map number (strtok_all CHR 0x2C arg)"

lemma parse_loop_Cons:
  "parse_loop (token # ts) nlist lo hi acc =
     (if snd (strtol token) = token \<or> snd (strtol token) \<noteq> [] \<or> number token < lo \<or> number token > hi then Inl ()
      else if number token \<in> set (take (length acc) nlist) then parse_loop ts nlist lo hi acc
      else if int (length acc) < hi - lo + 1 then parse_loop ts nlist lo hi (acc @ [number token])
      else Inr None)"
  by (auto simp: number_def Let_def split: prod.splits)

declare parse_loop.simps(2) [simp del]

lemma parse_loop_stored:
  assumes "parse_loop ts nlist lo hi acc = Inr (Some vs)"
  shows "\<exists>ws. vs = acc @ ws \<and> (\<forall>w \<in> set ws. lo \<le> w \<and> w \<le> hi) \<and> set ws \<subseteq> number ` set ts \<and>
     number ` set ts \<subseteq> set ws \<union> set nlist \<and> (ws = [] \<or> int (length vs) \<le> hi - lo + 1)"
  using assms
proof (induction ts arbitrary: acc)
  case (Cons token ts)
  show ?case
  proof (cases "number token \<in> set (take (length acc) nlist)")
    case True
    then have "parse_loop ts nlist lo hi acc = Inr (Some vs)"
      using Cons.prems by (simp add: parse_loop_Cons split: if_splits)
    from Cons.IH [OF this] show ?thesis using in_set_takeD [OF True] by fastforce
  next
    case False
    then have p: "parse_loop ts nlist lo hi (acc @ [number token]) = Inr (Some vs)"
        "lo \<le> number token" "number token \<le> hi" "int (length acc) < hi - lo + 1"
      using Cons.prems by (auto simp: parse_loop_Cons split: if_splits)
    from Cons.IH [OF p(1)] obtain ws where "vs = (acc @ [number token]) @ ws" "\<forall>w \<in> set ws. lo \<le> w \<and> w \<le> hi"
      "set ws \<subseteq> number ` set ts" "number ` set ts \<subseteq> set ws \<union> set nlist" "ws = [] \<or> int (length vs) \<le> hi - lo + 1"
      by blast
    then show ?thesis using p(2-) by (intro exI [of _ "number token # ws"]) auto
  qed
qed simp

lemma parse_loop_overflow:
  "parse_loop ts nlist lo hi acc = Inr None \<Longrightarrow> int (length acc) \<le> hi - lo + 1 \<Longrightarrow>
     hi - lo + 1 < int (length acc + length ts)"
proof (induction ts arbitrary: acc)
  case (Cons token ts)
  show ?case
  proof (cases "number token \<in> set (take (length acc) nlist)")
    case True
    then have "parse_loop ts nlist lo hi acc = Inr None"
      using Cons.prems(1) by (simp add: parse_loop_Cons split: if_splits)
    from Cons.IH [OF this Cons.prems(2)] show ?thesis by simp
  next
    case False
    then show ?thesis using Cons.prems Cons.IH [of "acc @ [number token]"]
      by (auto simp: parse_loop_Cons split: if_splits)
  qed
qed simp

text \<open>A number that is in the old list is taken for a duplicate, real duplicates are stored again, and
  enough of them are stored beyond the end of the array.\<close>

lemma parse_int_list_duplicates:
  "parse_int_list ''2,1'' 1 [1, 0, 0, 0] 1 4 = Some (True, 1, [2, 0, 0, 0])"
  "parse_int_list ''2,2'' 1 [1, 0, 0, 0] 1 4 = Some (True, 2, [2, 2, 0, 0])"
  "parse_int_list ''2,2,2,2,2'' 1 [1, 0, 0, 0] 1 4 = None"
  by (code_simp, code_simp, code_simp)

text \<open>The suite finds the failure and the timeout. \<open>internal_skip\<close> is not skipped: only tests that boot a
  machine look at the number of terminals.\<close>

lemma internal_results:
  assumes "forks (ARGS s)" and "INDENT_STACK_SIZE s = 0" and "run_bare e = internal_body"
  shows "map (\<lambda>t. map_option fst (run_test e t s)) [internal_success, internal_failure, internal_timeout, internal_skip] =
     [Some True, Some False, Some False, Some True]"
proof -
  have r: "map_option fst (run_test e t s) = Some (passes e (ARGS s) t)" if "room 0 t" for t
    using run_test_settled [OF assms(1), of t e] that assms(2) by auto
  have "room 0 internal_success" "room 0 internal_failure" "room 0 internal_timeout" "room 0 internal_skip"
    by (simp_all add: internal_success_def internal_failure_def internal_timeout_def internal_skip_def BARE_TEST_def
        INDENT_STACK_MAX_def)
  then show ?thesis
    by (simp add: r assms(3)) (simp add: internal_success_def internal_failure_def internal_timeout_def
        internal_skip_def BARE_TEST_def assms(3) internal_body_def good_def)
qed

section \<open>Properties\<close>


definition ex_suite :: Test where
  "ex_suite = TEST_SUITE ''both'' [BARE_TEST ''bare'' 0 [], TEST_SUITE ''inner'' [BOOT_TEST ''boot'' 1 []] []] []"

definition ex_test_env :: test_env where
  "ex_test_env = \<lparr>tty = False, run_bare = (\<lambda>_ _. Finishes False), run_boot = (\<lambda>_ _ _ _. Hangs), strsignal = (\<lambda>_. [])\<rparr>"




end
