(* ===== verification/Term_Proxy.thy ===== *)
theory Term_Proxy
  imports Unit_Testing
begin

text \<open>
  The terminal proxies of the test library, \<^verbatim>\<open>unit_testing.c\<close>: a daemon per direction takes patterns
  from a queue and checks that the console prints them (\<open>con_proc\<close>) or types them (\<open>kbd_proc\<close>).

  A daemon is a monitor, so each of its operations is atomic. The nodes of its list are allocated:
  \<open>alloc\<close> is the set of addresses in use, address 0 is the sentinel inside the daemon. What \<open>poll\<close>,
  \<open>read\<close> and \<open>write\<close> deliver is a list of events.
\<close>

section \<open>The daemon\<close>

record proxy_daemon =
  complete :: bool
  fd_open :: bool
  pattern :: "(nat, string option) rlheap"
  alloc :: "nat set"

definition term_proxy_daemon_init :: "(nat, string option) rlheap \<Rightarrow> proxy_daemon" where
  "term_proxy_daemon_init h = \<lparr>complete = False, fd_open = True, pattern = rlnode_init h 0 None, alloc = {}\<rparr>"

text \<open>\<open>node\<close> is what \<open>malloc\<close> returned.\<close>

definition term_proxy_daemon_add :: "proxy_daemon \<Rightarrow> nat \<Rightarrow> string \<Rightarrow> proxy_daemon option" where
  "term_proxy_daemon_add d node pat =
     (if complete d then None
      else Some (d\<lparr>pattern := rlist_push_back (rlnode_init (pattern d) node (Some pat)) 0 node,
                   alloc := insert node (alloc d)\<rparr>))"

datatype got = Waiting | Got string | Got_NULL

definition term_proxy_daemon_get :: "proxy_daemon \<Rightarrow> (got \<times> proxy_daemon) option" where
  "term_proxy_daemon_get d =
     (if \<not> complete d \<and> is_rlist_empty (pattern d) 0 then Some (Waiting, d)
      else if \<not> is_rlist_empty (pattern d) 0 then
        (let (h, node) = rlist_pop_front (pattern d) 0
         in case rl_obj h node of
              Some p \<Rightarrow> Some (Got p, d\<lparr>pattern := h, alloc := alloc d - {node}\<rparr>)
            | None \<Rightarrow> None)
      else Some (Got_NULL, d))"

definition term_proxy_daemon_close :: "proxy_daemon \<Rightarrow> proxy_daemon" where
  "term_proxy_daemon_close d = d\<lparr>complete := True\<rparr>"

definition term_proxy_daemon_complete :: "proxy_daemon \<Rightarrow> bool" where
  "term_proxy_daemon_complete d = complete d"

section \<open>Console and keyboard\<close>

text \<open>One pass of \<open>con_proc\<close>'s loop ends in one of these: no data although the daemon is complete, a
  read that has to be repeated (EINTR, EAGAIN), or the bytes of a read.\<close>

datatype con_event = Silent | Again | Chunk string

datatype con_result = Stopped string | Reading | Asserts

fun con_loop :: "string \<Rightarrow> con_event list \<Rightarrow> con_result" where
  "con_loop [] es = Stopped []"
| "con_loop (c # pat) [] = Reading"
| "con_loop (c # pat) (Silent # es) = Stopped (c # pat)"
| "con_loop (c # pat) (Again # es) = con_loop (c # pat) es"
| "con_loop (c # pat) (Chunk bs # es) =
     (if bs = [] \<or> length bs > 1024 \<or> length bs > length (c # pat) then Asserts
      else if take (length bs) (c # pat) = bs then con_loop (drop (length bs) (c # pat)) es else Stopped (c # pat))"

definition con_proc :: "string \<Rightarrow> con_event list \<Rightarrow> testing \<Rightarrow> testing option" where
  "con_proc pat es s =
     (case con_loop pat es of
        Stopped rest \<Rightarrow>
          Some (ASSERT_MSG (rest = [])
            (''Mismatched expect('' @ [CHR 0x22] @ take 20 pat @ (if length pat > 20 then ''...'' else []) @
             [CHR 0x22] @ '') at pos '' @ decimal (length pat - length rest) @ nl) s)
      | _ \<Rightarrow> None)"

text \<open>The results of the writes of \<open>kbd_proc\<close>: some bytes were taken, the fifo was full (with what the
  daemon's \<open>complete\<close> was before the writes), or it was closed. A write that was interrupted is
  repeated.\<close>

datatype kbd_event = Taken nat | Full bool | Interrupted | Closed

datatype kbd_result = Written | Refused | Aborts | Writing

fun kbd_loop :: "string \<Rightarrow> kbd_event list \<Rightarrow> kbd_result" where
  "kbd_loop [] es = Written"
| "kbd_loop (c # pat) [] = Writing"
| "kbd_loop (c # pat) (Interrupted # es) = kbd_loop (c # pat) es"
| "kbd_loop (c # pat) (Taken n # es) =
     (if n = 0 \<or> n > length (c # pat) then Aborts else kbd_loop (drop n (c # pat)) es)"
| "kbd_loop (c # pat) (Full oldcomplete # es) = (if oldcomplete then Refused else kbd_loop (c # pat) es)"
| "kbd_loop (c # pat) (Closed # es) = Aborts"

definition kbd_proc :: "string \<Rightarrow> kbd_event list \<Rightarrow> testing \<Rightarrow> testing option" where
  "kbd_proc pat es s =
     (case kbd_loop pat es of
        Written \<Rightarrow> Some s
      | Refused \<Rightarrow> Some (ASSERT_MSG False (''Sendme('' @ [CHR 0x22] @ take 50 pat @
          (if length pat > 50 then ''...'' else []) @ [CHR 0x22] @ '') failed'' @ nl) s)
      | _ \<Rightarrow> None)"

section \<open>The proxies\<close>

text \<open>What the reads of \<open>open_fifo\<close> return: some bytes, or one of the errors. The loop ends at EAGAIN and
  asserts that any other error is EINTR. \<open>None\<close>: it has not ended yet.\<close>

datatype drain_event = Bytes string | EAGAIN | EINTR | Other_error

fun open_fifo :: "drain_event list \<Rightarrow> bool option" where
  "open_fifo [] = None"
| "open_fifo (Bytes bs # es) = open_fifo es"
| "open_fifo (EINTR # es) = open_fifo es"
| "open_fifo (EAGAIN # es) = Some True"
| "open_fifo (Other_error # es) = Some False"

record term_proxy =
  term_no :: nat
  con :: proxy_daemon
  kbd :: proxy_daemon

definition term_proxy_init :: "nat \<Rightarrow> (nat, string option) rlheap \<Rightarrow> (nat, string option) rlheap \<Rightarrow> term_proxy option" where
  "term_proxy_init trm h h' =
     (if trm < MAX_TERMINALS
      then Some \<lparr>term_no = trm, con = term_proxy_daemon_init h, kbd = term_proxy_daemon_init h'\<rparr> else None)"

definition term_proxy_close :: "term_proxy \<Rightarrow> term_proxy" where
  "term_proxy_close this = this\<lparr>con := term_proxy_daemon_close (con this), kbd := term_proxy_daemon_close (kbd this)\<rparr>"

definition term_proxy_expect :: "term_proxy \<Rightarrow> nat \<Rightarrow> string \<Rightarrow> term_proxy option" where
  "term_proxy_expect this node pat = map_option (\<lambda>d. this\<lparr>con := d\<rparr>) (term_proxy_daemon_add (con this) node pat)"

definition term_proxy_sendme :: "term_proxy \<Rightarrow> nat \<Rightarrow> string \<Rightarrow> term_proxy option" where
  "term_proxy_sendme this node pat = map_option (\<lambda>d. this\<lparr>kbd := d\<rparr>) (term_proxy_daemon_add (kbd this) node pat)"

text \<open>\<open>ports\<close> is \<open>bios_serial_ports()\<close>.\<close>

definition expect :: "(nat \<Rightarrow> term_proxy) \<Rightarrow> nat \<Rightarrow> nat \<Rightarrow> nat \<Rightarrow> string \<Rightarrow> (nat \<Rightarrow> term_proxy) option" where
  "expect PROXY ports trm node pat =
     (if trm < ports then map_option (\<lambda>p. PROXY(trm := p)) (term_proxy_expect (PROXY trm) node pat) else None)"

definition sendme :: "(nat \<Rightarrow> term_proxy) \<Rightarrow> nat \<Rightarrow> nat \<Rightarrow> nat \<Rightarrow> string \<Rightarrow> (nat \<Rightarrow> term_proxy) option" where
  "sendme PROXY ports trm node pat =
     (if trm < ports then map_option (\<lambda>p. PROXY(trm := p)) (term_proxy_sendme (PROXY trm) node pat) else None)"

section \<open>The daemon's queue\<close>

definition queued :: "proxy_daemon \<Rightarrow> nat list \<Rightarrow> string list \<Rightarrow> bool" where
  "queued d ns ps \<longleftrightarrow> layout (pattern d) {0} (\<lambda>_. ns) {} \<and> map (rl_obj (pattern d)) ns = map Some ps \<and>
     alloc d = set ns"

lemma queued_nil: "queued d ns [] \<longleftrightarrow> queued d [] [] \<and> ns = []"
  by (auto simp: queued_def)

lemma queued_empty: "queued d ns ps \<Longrightarrow> is_rlist_empty (pattern d) 0 \<longleftrightarrow> ps = []"
  by (auto simp: queued_def rl.is_empty)

lemma init_queued: "queued (term_proxy_daemon_init h) [] []"
proof -
  have "layout (rlnode_init h 0 None) (insert 0 {}) ((\<lambda>_. [])(0 := [])) {}"
    by (rule layout_init_sentinel) (simp_all add: layout_def)
  then show ?thesis by (simp add: queued_def term_proxy_daemon_init_def layout_def del: ring.simps)
qed

lemma add_queued:
  assumes "queued d ns ps" and "node \<notin> insert 0 (alloc d)" and "term_proxy_daemon_add d node p = Some d'"
  shows "queued d' (ns @ [node]) (ps @ [p])"
proof -
  let ?h = "rlnode_init (pattern d) node (Some p)"
  have "node \<notin> set ns" "node \<noteq> 0" using assms(1,2) by (auto simp: queued_def)
  then have "layout ?h {0} (\<lambda>_. ns) (insert node {})"
    using assms(1) by (intro layout_init_node) (auto simp: queued_def)
  from rl.push_back [OF this, of 0 node]
  have l: "layout (rlist_push_back ?h 0 node) {0} ((\<lambda>_. ns)(0 := ns @ [node])) {}" by simp
  then have "layout (rlist_push_back ?h 0 node) {0} (\<lambda>_. ns @ [node]) {}" by (simp add: layout_def)
  moreover have "d' = d\<lparr>pattern := rlist_push_back ?h 0 node, alloc := insert node (alloc d)\<rparr>"
    using assms(3) by (simp add: term_proxy_daemon_add_def split: if_splits)
  moreover have "rl_obj ?h = (rl_obj (pattern d))(node := Some p)"
    by (simp add: rlnode_init_def rlnode_new_def Let_def)
  ultimately show ?thesis
    using assms(1) \<open>node \<notin> set ns\<close> by (simp add: queued_def map_fun_upd del: fun_upd_apply) (simp add: fun_upd_apply)
qed

lemma get_queued:
  assumes "queued d ns ps"
  shows "case ps of
      [] \<Rightarrow> term_proxy_daemon_get d = Some (if complete d then Got_NULL else Waiting, d)
    | p # qs \<Rightarrow> (\<exists>d'. term_proxy_daemon_get d = Some (Got p, d') \<and> complete d' = complete d \<and>
        fd_open d' = fd_open d \<and> queued d' (tl ns) qs)"
proof (cases ps)
  case Nil
  then show ?thesis using queued_empty [OF assms] by (simp add: term_proxy_daemon_get_def)
next
  case (Cons p qs)
  then obtain x xs where ns: "ns = x # xs" using assms by (cases ns) (auto simp: queued_def)
  have l: "layout (pattern d) {0} (\<lambda>_. ns) {}" using assms by (simp add: queued_def)
  obtain h where pop: "rlist_pop_front (pattern d) 0 = (h, x)"
    using rl.pop_front_node [OF l, of 0 x xs] ns by (cases "rlist_pop_front (pattern d) 0") auto
  have "layout h {0} ((\<lambda>_. ns)(0 := xs)) (insert x {})" using rl.pop_front [OF l, of 0 x xs] ns pop by simp
  then have "layout h {0} (\<lambda>_. xs) {}" by (simp add: layout_def)
  moreover have "rl_obj h = rl_obj (pattern d)"
    using pop by (metis obj_rlist fst_conv)
  moreover have "x \<notin> set xs" using layout_distinct [OF l, of 0] ns by simp
  ultimately show ?thesis
    using assms queued_empty [OF assms] Cons ns pop by (auto simp: queued_def term_proxy_daemon_get_def)
qed

text \<open>A request for one terminal reaches the queue of that direction of that terminal and nothing else.\<close>

lemma expect_queues:
  assumes "queued (con (PROXY trm)) ns ps" and "node \<notin> insert 0 (alloc (con (PROXY trm)))"
    and "expect PROXY ports trm node p = Some PROXY'"
  shows "queued (con (PROXY' trm)) (ns @ [node]) (ps @ [p])" and "kbd (PROXY' trm) = kbd (PROXY trm)"
    and "i \<noteq> trm \<Longrightarrow> PROXY' i = PROXY i"
  using assms add_queued [OF assms(1,2)]
  by (auto simp: expect_def term_proxy_expect_def split: if_splits)

lemma sendme_queues:
  assumes "queued (kbd (PROXY trm)) ns ps" and "node \<notin> insert 0 (alloc (kbd (PROXY trm)))"
    and "sendme PROXY ports trm node p = Some PROXY'"
  shows "queued (kbd (PROXY' trm)) (ns @ [node]) (ps @ [p])" and "con (PROXY' trm) = con (PROXY trm)"
    and "i \<noteq> trm \<Longrightarrow> PROXY' i = PROXY i"
  using assms add_queued [OF assms(1,2)]
  by (auto simp: sendme_def term_proxy_sendme_def split: if_splits)

text \<open>The daemon between its client and its thread, with the patterns that were registered and those
  that the thread has taken. \<open>malloc\<close> returns an address that is not in use.\<close>

record proxy_mach =
  daemon :: proxy_daemon
  added :: "string list"
  handled :: "string list"
  ended :: bool

inductive proxy_step :: "proxy_mach \<Rightarrow> proxy_mach \<Rightarrow> bool" where
  add: "node \<notin> insert 0 (alloc (daemon m)) \<Longrightarrow> term_proxy_daemon_add (daemon m) node p = Some d \<Longrightarrow>
    proxy_step m (m\<lparr>daemon := d, added := added m @ [p]\<rparr>)"
| close: "proxy_step m (m\<lparr>daemon := term_proxy_daemon_close (daemon m)\<rparr>)"
| handle: "\<not> ended m \<Longrightarrow> term_proxy_daemon_get (daemon m) = Some (Got p, d) \<Longrightarrow>
    proxy_step m (m\<lparr>daemon := d, handled := handled m @ [p]\<rparr>)"
| finish: "\<not> ended m \<Longrightarrow> term_proxy_daemon_get (daemon m) = Some (Got_NULL, d) \<Longrightarrow>
    proxy_step m (m\<lparr>daemon := d\<lparr>fd_open := False\<rparr>, ended := True\<rparr>)"

definition proxy_start :: "proxy_mach \<Rightarrow> bool" where
  "proxy_start m \<longleftrightarrow> (\<exists>h. m = \<lparr>daemon = term_proxy_daemon_init h, added = [], handled = [], ended = False\<rparr>)"

definition proxy_inv :: "proxy_mach \<Rightarrow> bool" where
  "proxy_inv m \<longleftrightarrow> (\<exists>ns ps. queued (daemon m) ns ps \<and> added m = handled m @ ps \<and>
     (ended m \<longrightarrow> complete (daemon m) \<and> ps = [] \<and> \<not> fd_open (daemon m)) \<and> (fd_open (daemon m) \<or> ended m))"

lemma proxy_start_inv: "proxy_start m \<Longrightarrow> proxy_inv m"
  using init_queued by (fastforce simp: proxy_start_def proxy_inv_def term_proxy_daemon_init_def)

lemma queued_flags [simp]:
  "queued (d\<lparr>complete := b\<rparr>) ns ps = queued d ns ps" "queued (d\<lparr>fd_open := c\<rparr>) ns ps = queued d ns ps"
  by (simp_all add: queued_def)

lemma proxy_step_inv: "proxy_step m m' \<Longrightarrow> proxy_inv m \<Longrightarrow> proxy_inv m'"
proof (induction rule: proxy_step.induct)
  case (add node m p d)
  then obtain ns ps where q: "queued (daemon m) ns ps" "added m = handled m @ ps" "\<not> ended m" "fd_open (daemon m)"
    by (auto simp: proxy_inv_def term_proxy_daemon_add_def split: if_splits)
  moreover have "fd_open d" using add.hyps(2) q(4) by (auto simp: term_proxy_daemon_add_def split: if_splits)
  ultimately show ?case using add_queued [OF q(1) add.hyps] by (force simp: proxy_inv_def)
next
  case (close m)
  then show ?case by (auto simp: proxy_inv_def term_proxy_daemon_close_def)
next
  case (handle m p d)
  then obtain ns ps where q: "queued (daemon m) ns ps" "added m = handled m @ ps" "fd_open (daemon m)"
    by (auto simp: proxy_inv_def)
  then show ?case using get_queued [OF q(1)] handle.hyps
    by (fastforce simp: proxy_inv_def split: list.splits if_splits)
next
  case (finish m d)
  then obtain ns ps where q: "queued (daemon m) ns ps" "added m = handled m @ ps" by (auto simp: proxy_inv_def)
  then show ?case using get_queued [OF q(1)] finish.hyps
    by (fastforce simp: proxy_inv_def split: list.splits if_splits)
qed

interpretation proxy: transition_invariant proxy_start proxy_step proxy_inv
  by unfold_locales (blast intro: proxy_start_inv proxy_step_inv)+

section \<open>Matching\<close>

text \<open>What \<open>read\<close> can deliver while the pattern \<open>pat\<close> is missing: never nothing, never more than the buffer
  or the pattern holds.\<close>

definition reads_of :: "string \<Rightarrow> string list \<Rightarrow> bool" where
  "reads_of pat css \<longleftrightarrow> (\<forall>bs \<in> set css. bs \<noteq> [] \<and> length bs \<le> 1024) \<and> length (concat css) \<le> length pat"

lemma con_loop_reads:
  assumes "reads_of pat css"
  shows "\<exists>rest. con_loop pat (map Chunk css @ [Silent]) = Stopped rest \<and> (rest = [] \<longleftrightarrow> concat css = pat)"
  using assms
proof (induction css arbitrary: pat)
  case Nil
  then show ?case by (cases pat) auto
next
  case (Cons bs css)
  have len: "bs \<noteq> []" "length bs \<le> 1024" "length bs \<le> length pat" using Cons.prems by (auto simp: reads_of_def)
  then obtain c pat' where pat: "pat = c # pat'" by (cases pat) auto
  have loop: "con_loop pat (map Chunk (bs # css) @ [Silent]) = (if take (length bs) pat = bs
      then con_loop (drop (length bs) pat) (map Chunk css @ [Silent]) else Stopped pat)"
    using len by (simp add: pat)
  show ?case
  proof (cases "take (length bs) pat = bs")
    case True
    have "reads_of (drop (length bs) pat) css" using Cons.prems by (auto simp: reads_of_def)
    moreover have "concat css = drop (length bs) pat \<longleftrightarrow> concat (bs # css) = pat"
      using True by (metis append_take_drop_id concat.simps(2) same_append_eq)
    ultimately show ?thesis using Cons.IH [of "drop (length bs) pat"] unfolding loop if_P [OF True] by metis
  next
    case False
    then have "concat (bs # css) \<noteq> pat" by auto
    then show ?thesis unfolding loop if_not_P [OF False] by (simp add: pat)
  qed
qed

lemma flag_MSG [simp]: "FLAG_FAILURE (MSG msg s) = FLAG_FAILURE s"
proof (unfold MSG_def, induction msg arbitrary: s)
  case (Cons ch msg)
  have "FLAG_FAILURE (MSG_char ch s) = FLAG_FAILURE s" by (simp add: MSG_char_def Let_def)
  then show ?case using Cons.IH by simp
qed simp

section \<open>Properties\<close>

text \<open>A daemon handles the patterns of its client in the order in which they were registered. Whatever
  the order of the steps of client and daemon, what has been handled is the beginning of what has been
  registered, and the daemon's thread ends, closing its file, only after the client has closed the proxy
  and every pattern has been handled.\<close>

lemma patterns_handled_in_order:
  assumes "reach proxy_start proxy_step m"
  shows "\<exists>ps. added m = handled m @ ps \<and> (is_rlist_empty (pattern (daemon m)) 0 \<longleftrightarrow> ps = []) \<and>
     (ended m \<longrightarrow> complete (daemon m) \<and> ps = []) \<and> (fd_open (daemon m) \<longleftrightarrow> \<not> ended m)"
proof -
  obtain ns ps where "queued (daemon m) ns ps" "added m = handled m @ ps"
     "ended m \<longrightarrow> complete (daemon m) \<and> ps = [] \<and> \<not> fd_open (daemon m)" "fd_open (daemon m) \<or> ended m"
    using proxy.inv_reach [OF assms] by (auto simp: proxy_inv_def)
  then show ?thesis using queued_empty by blast
qed

definition ex_daemon :: proxy_daemon where
  "ex_daemon = term_proxy_daemon_init \<lparr>rl_obj = (\<lambda>_. None), rl_prev = (\<lambda>n. n), rl_next = (\<lambda>n. n)\<rparr>"

definition ex_added :: proxy_daemon where
  "ex_added = the (term_proxy_daemon_add ex_daemon 7 ''hi'')"

lemma ex_proxy_reach:
  "reach proxy_start proxy_step \<lparr>daemon = ex_added, added = [''hi''], handled = [], ended = False\<rparr>"
proof -
  let ?m = "\<lparr>daemon = ex_daemon, added = [], handled = [], ended = False\<rparr>"
  have "reach proxy_start proxy_step ?m"
    by (rule reach_start) (auto simp: proxy_start_def ex_daemon_def)
  moreover have "term_proxy_daemon_add (daemon ?m) 7 ''hi'' = Some ex_added"
    by (simp add: ex_added_def term_proxy_daemon_add_def ex_daemon_def term_proxy_daemon_init_def)
  then have "proxy_step ?m (?m\<lparr>daemon := ex_added, added := added ?m @ [''hi'']\<rparr>)"
    by (rule proxy_step.add [rotated]) (simp add: ex_daemon_def term_proxy_daemon_init_def)
  ultimately show ?thesis using reach_trans by fastforce
qed

text \<open>\<open>con_proc\<close> accepts the output of the console exactly if it is the expected text. However the
  output is cut into reads, when no more output comes the test is marked as failed if and only if the
  bytes that were read are not the whole pattern.\<close>

lemma con_proc_matches:
  assumes "reads_of pat css"
  shows "\<exists>s'. con_proc pat (map Chunk css @ [Silent]) s = Some s' \<and>
     (if concat css = pat then s' = s else FLAG_FAILURE s')"
  using con_loop_reads [OF assms] by (auto simp: con_proc_def ASSERT_MSG_def)

end
