(* ===== verification/API_Tests.thy ===== *)
theory API_Tests
  imports Kernel Unit_Testing
begin

text \<open>
  The tests of the system call interface, \<^verbatim>\<open>validate_api.c\<close>.

  A test is a tree of actions: system calls with their continuations, \<open>Exec\<close> and \<open>CreateThread\<close> of a local
  function (with the tree of that function), ASSERT, which only sets the failure flag, \<open>assert\<close>, which
  aborts, requests to the terminal proxies, and accesses to variables and synchronisation objects that
  processes share through memory (named by numbers; \<open>T_fetch_add\<close> is the atomic increment of an
  \<open>unsigned int\<close>). \<open>fibo\<close> calls, which only take time, are left out.
  A loop whose end depends on the results of its calls takes a bound on its passes and becomes
  \<open>T_unfinished\<close> beyond it.
\<close>

section \<open>Actions of a test\<close>

datatype sync_op = Lock nat | Unlock nat | Wait nat nat | TimedWait nat nat uint64 | Signal nat | Broadcast nat

datatype tact =
    T_return int
  | T_sys sysreq "result \<Rightarrow> tact"
  | T_exec tact int "byte list option" "int \<Rightarrow> tact"
  | T_thread tact "tcb_ref option \<Rightarrow> tact"
  | ASSERT bool tact
  | T_abort
  | T_sendme nat string tact
  | T_expect nat string tact
  | T_put nat int tact
  | T_get nat "int \<Rightarrow> tact"
  | T_fetch_add nat "int \<Rightarrow> tact"
  | T_sync sync_op tact
  | T_clock "uint64 \<Rightarrow> tact"
  | T_unfinished

fun int_result :: "result \<Rightarrow> int" where
  "int_result (Val v) = v"
| "int_result (Status p st) = p"
| "int_result (Data n b) = n"
| "int_result (Uint n) = uint n"
| "int_result _ = 0"

definition call :: "sysreq \<Rightarrow> (int \<Rightarrow> tact) \<Rightarrow> tact" where
  "call req k = T_sys req (\<lambda>r. k (int_result r))"

definition assert_else_abort :: "bool \<Rightarrow> tact \<Rightarrow> tact" where
  "assert_else_abort b k = (if b then k else T_abort)"

text \<open>\<open>for\<close> loops: the body gets the index and the rest of the loop.\<close>

definition for_each :: "'i list \<Rightarrow> ('i \<Rightarrow> tact \<Rightarrow> tact) \<Rightarrow> tact \<Rightarrow> tact" where
  "for_each is body k = foldr body is k"

text \<open>A \<open>for\<close> loop that stores the result of each pass in an array.\<close>

fun collect :: "'i list \<Rightarrow> ('i \<Rightarrow> ('v \<Rightarrow> tact) \<Rightarrow> tact) \<Rightarrow> 'v list \<Rightarrow> ('v list \<Rightarrow> tact) \<Rightarrow> tact" where
  "collect [] body acc k = k acc"
| "collect (i # is) body acc k = body i (\<lambda>v. collect is body (acc @ [v]) k)"

text \<open>\<open>while(WaitChild(NOPROC, NULL)!=NOPROC)\<close>.\<close>

fun wait_all_children :: "nat \<Rightarrow> tact \<Rightarrow> tact" where
  "wait_all_children 0 k = T_unfinished"
| "wait_all_children (Suc n) k = call (WaitChild NOPROC) (\<lambda>p. if p \<noteq> NOPROC then wait_all_children n k else k)"

definition ascii :: "string \<Rightarrow> byte list" where "ascii s = map of_char s"

section \<open>Process tests\<close>

definition test_pid_of_init_is_one :: tact where
  "test_pid_of_init_is_one = call GetPid (\<lambda>p. ASSERT (p = 1) (T_return 0))"

definition waitchild_error :: "tact \<Rightarrow> tact" where
  "waitchild_error k =
     call GetPid (\<lambda>p. call (WaitChild p) (\<lambda>r. ASSERT (r = NOPROC)
       (call (WaitChild (int MAX_PROC)) (\<lambda>r. ASSERT (r = NOPROC)
         (call GetPid (\<lambda>p. call (WaitChild (p + 1)) (\<lambda>r. ASSERT (r = NOPROC) k)))))))"

definition test_waitchild_error_on_invalid_pid :: tact where
  "test_waitchild_error_on_invalid_pid = waitchild_error
     (T_exec (call GetPid (\<lambda>p. ASSERT (p \<noteq> 1) (waitchild_error (T_return 0)))) 0 None
       (\<lambda>cpid. call (WaitChild NOPROC) (\<lambda>r. ASSERT (r = cpid) (T_return 0))))"

definition test_waitchild_error_on_nonchild :: tact where
  "test_waitchild_error_on_nonchild =
     T_exec (T_return 0) 0 None (\<lambda>cpid.
       T_exec (call (WaitChild cpid) (\<lambda>r. ASSERT (r = NOPROC) (T_return 0))) 0 None (\<lambda>badpid.
         ASSERT (badpid \<noteq> NOPROC)
          (call (WaitChild badpid) (\<lambda>r. ASSERT (r = badpid)
            (call (WaitChild cpid) (\<lambda>r. ASSERT (r = cpid) (T_return 0)))))))"

definition status_of :: "result \<Rightarrow> int \<Rightarrow> int" where
  "status_of r dflt = (case r of Status p (Some st) \<Rightarrow> st | _ \<Rightarrow> dflt)"

text \<open>\<open>test_exec_getpid_wait\<close> for the level of a process; \<open>argl\<close> is 0 only for the init task. The pid that
  a process stores in the record of its parent is never read. \<open>ptr\<close> are the bytes of the pointer to the
  record of the child, \<open>stk\<close> the indeterminate value of \<open>status\<close>.\<close>

primrec exec_getpid_wait :: "nat \<Rightarrow> (nat \<Rightarrow> byte list) \<Rightarrow> int \<Rightarrow> tact" where
  "exec_getpid_wait 0 ptr stk = call GetPid (\<lambda>p. call GetPid T_return)"
| "exec_getpid_wait (Suc level) ptr stk = call GetPid (\<lambda>p.
     for_each [0..<3] (\<lambda>i k. T_exec (exec_getpid_wait level ptr stk) 8 (Some (ptr i)) (\<lambda>cpid.
       ASSERT (cpid \<noteq> NOPROC)
        (if cpid \<noteq> NOPROC then T_sys (WaitChild cpid) (\<lambda>r.
           ASSERT (int_result r = cpid) (ASSERT (status_of r stk = cpid) k)) else k)))
     (call GetPid T_return))"

definition test_exec_getpid_wait :: "(nat \<Rightarrow> byte list) \<Rightarrow> int \<Rightarrow> tact" where
  "test_exec_getpid_wait ptr stk = call GetPid (\<lambda>p. ASSERT (p = 1) (exec_getpid_wait 7 ptr stk))"

text \<open>The child writes to its own copy of the argument, so the variable of the parent keeps its value 0;
  \<open>T_get 0\<close> reads that variable.\<close>

definition test_exec_copies_arguments :: tact where
  "test_exec_copies_arguments = T_put 0 0
     (T_exec (T_return 0) 4 (Some [0, 0, 0, 0]) (\<lambda>cpid. ASSERT (cpid \<noteq> NOPROC)
       (call (WaitChild cpid) (\<lambda>_. T_get 0 (\<lambda>v. ASSERT (v = 0) (T_return 0))))))"

definition exit_children :: "nat \<Rightarrow> tact \<Rightarrow> int \<Rightarrow> tact" where
  "exit_children n child stk =
     collect [0..<n] (\<lambda>i. T_exec child 0 None) [] (\<lambda>children.
       for_each children (\<lambda>c k. T_sys (WaitChild c) (\<lambda>r. ASSERT (status_of r stk = c) k)) (T_return 0))"

definition test_exit_returns_status :: "int \<Rightarrow> tact" where
  "test_exit_returns_status =
     exit_children 100 (call GetPid (\<lambda>p. call (Exit p) (\<lambda>_. ASSERT False (T_return 1))))"

definition test_main_return_returns_status :: "int \<Rightarrow> tact" where
  "test_main_return_returns_status = exit_children 10 (call GetPid T_return)"

definition test_orphans_adopted_by_init :: "int \<Rightarrow> tact" where
  "test_orphans_adopted_by_init stk =
     (let grandchild = T_return 1;
          child = for_each [0..<5] (\<lambda>i k. T_exec grandchild 0 None (\<lambda>p. ASSERT (p \<noteq> NOPROC) k)) (T_return 100)
      in for_each [0..<3] (\<lambda>i k. T_exec child 0 None (\<lambda>p. ASSERT (p \<noteq> NOPROC) k))
        (collect [0..<18] (\<lambda>i k. T_sys (WaitChild NOPROC) (\<lambda>r. ASSERT (int_result r \<noteq> NOPROC) (k (status_of r stk)))) []
          (\<lambda>sts. call (WaitChild NOPROC) (\<lambda>r. ASSERT (r = NOPROC) (ASSERT (sum_list sts = 315) (T_return 0))))))"

section \<open>Synchronisation tests\<close>

text \<open>The mutex is 0, the condition variables are 1 and 2, the variable \<open>flag\<close> is 0.\<close>

definition do_timeout :: "uint64 \<Rightarrow> tact" where
  "do_timeout t = T_clock (\<lambda>t1. T_sync (Lock 0) (T_sync (TimedWait 0 1 t) (T_clock (\<lambda>t2.
     let Dt = t2 - t1 in
     ASSERT (of_int (abs (sint (ucast (Dt - t) :: 32 word))) * 5 \<le> Dt) (T_return 0)))))"

definition test_cond_timedwait_timeout :: "(uint64 \<Rightarrow> byte list) \<Rightarrow> tact" where
  "test_cond_timedwait_timeout bytes =
     for_each [500, 600, 700, 800, 900] (\<lambda>t k. T_exec (do_timeout t) 8 (Some (bytes t)) (\<lambda>_. k))
      (for_each [550, 650, 750, 850, 950] (\<lambda>t k. T_exec (do_timeout t) 8 (Some (bytes t)) (\<lambda>_. k))
        (wait_all_children (MAX_PROC + 1) (T_return 0)))"

fun wait_flag :: "nat \<Rightarrow> (int \<Rightarrow> bool) \<Rightarrow> nat \<Rightarrow> tact \<Rightarrow> tact" where
  "wait_flag 0 ok cv k = T_unfinished"
| "wait_flag (Suc n) ok cv k = T_get 0 (\<lambda>v. if ok v then k else T_sync (Wait 0 cv) (wait_flag n ok cv k))"

definition test_cond_timedwait_signal :: "nat \<Rightarrow> tact" where
  "test_cond_timedwait_signal bound =
     (let long_blocking = T_sync (Lock 0) (T_put 0 1 (T_sync (Signal 1) (T_sync (TimedWait 0 1 10000000)
            (T_sync (Unlock 0) (T_return 0)))))
      in T_put 0 0 (T_exec long_blocking 0 None (\<lambda>child.
           T_sync (Lock 0) (wait_flag bound (\<lambda>v. v \<noteq> 0) 1
             (T_sync (Signal 1) (T_sync (Unlock 0) (call (WaitChild child) (\<lambda>_. T_return 0))))))))"

definition test_cond_timedwait_broadcast :: "nat \<Rightarrow> tact" where
  "test_cond_timedwait_broadcast bound =
     (let long_blocking = T_sync (Lock 0) (T_get 0 (\<lambda>v. T_put 0 (v + 1) (T_sync (Signal 2)
            (T_sync (TimedWait 0 1 10000000) (T_sync (Unlock 0) (T_return 0))))))
      in T_put 0 0 (for_each [0..<100] (\<lambda>i k. T_exec long_blocking 0 None (\<lambda>_. k))
           (T_sync (Lock 0) (wait_flag bound (\<lambda>v. v = 100) 2
             (T_sync (Broadcast 1) (T_sync (Unlock 0) (wait_all_children (MAX_PROC + 1) (T_return 0))))))))"

section \<open>File tests\<close>

text \<open>\<open>ports\<close> is \<open>bios_serial_ports()\<close>.\<close>

definition test_get_terminals :: "uint32 \<Rightarrow> tact" where
  "test_get_terminals ports = call GetTerminalDevices (\<lambda>n. ASSERT (uint ports = n) (T_return 0))"

definition test_dup2_error_on_nonfile :: tact where
  "test_dup2_error_on_nonfile =
     for_each [0..<MAX_FILEID] (\<lambda>fid k. call (Dup2 (int fid) (int (MAX_FILEID - 1 - fid))) (\<lambda>r. ASSERT (r = -1) k)) (T_return 0)"

definition test_dup2_error_on_invalid_fid :: tact where
  "test_dup2_error_on_invalid_fid =
     call (Dup2 NOFILE 3) (\<lambda>r. ASSERT (r = -1) (call (Dup2 (int MAX_FILEID) 3) (\<lambda>r. ASSERT (r = -1)
       (call OpenNull (\<lambda>fid. assert_else_abort (fid \<noteq> NOFILE)
         (call (Dup2 fid NOFILE) (\<lambda>r. ASSERT (r = -1)
           (call (Dup2 fid (int MAX_FILEID)) (\<lambda>r. ASSERT (r = -1) (T_return 0))))))))))"

text \<open>\<open>for(uint i=0; i<GetTerminalDevices(); i++)\<close>: the call is made before every pass. \<open>acc\<close> is the array
  \<open>term\<close>, which has MAX_TERMINALS elements.\<close>

fun for_terminals :: "nat \<Rightarrow> nat \<Rightarrow> (nat \<Rightarrow> tact \<Rightarrow> tact) \<Rightarrow> tact \<Rightarrow> tact" where
  "for_terminals 0 i body k = T_unfinished"
| "for_terminals (Suc n) i body k =
     call GetTerminalDevices (\<lambda>nt. if int i < nt then body i (for_terminals n (i + 1) body k) else k)"

fun open_terminals :: "nat \<Rightarrow> nat \<Rightarrow> int list \<Rightarrow> (int list \<Rightarrow> tact) \<Rightarrow> tact" where
  "open_terminals 0 i acc k = T_unfinished"
| "open_terminals (Suc n) i acc k =
     call GetTerminalDevices (\<lambda>nt. if int i < nt then
       call (OpenTerminal (of_nat i)) (\<lambda>fid. ASSERT (fid \<noteq> NOFILE) (open_terminals n (i + 1) (acc @ [fid]) k)) else k acc)"

definition test_open_terminals :: tact where
  "test_open_terminals = open_terminals (MAX_TERMINALS + 1) 0 [] (\<lambda>trm. T_return 0)"

definition test_close_error_on_invalid_fid :: tact where
  "test_close_error_on_invalid_fid =
     call (CloseFid NOFILE) (\<lambda>r. ASSERT (r = -1) (call (CloseFid (int MAX_FILEID)) (\<lambda>r. ASSERT (r = -1) (T_return 0))))"

definition test_close_success_on_valid_nonfile_fid :: tact where
  "test_close_success_on_valid_nonfile_fid =
     for_each [0..<MAX_FILEID] (\<lambda>i k. call (CloseFid (int i)) (\<lambda>r. ASSERT (r = 0) k)) (T_return 0)"

definition test_close_terminals :: tact where
  "test_close_terminals = open_terminals (MAX_TERMINALS + 1) 0 [] (\<lambda>trm.
     for_terminals (MAX_TERMINALS + 1) 0 (\<lambda>i k. call (CloseFid (trm ! i)) (\<lambda>r. ASSERT (r = 0) k)) (T_return 0))"

text \<open>\<open>checked_read\<close>: after a short read the first ASSERT has failed, and the comparison with the
  indeterminate rest of the buffer cannot change the flag any more.\<close>

definition data_of :: "result \<Rightarrow> byte list" where
  "data_of r = (case r of Data n b \<Rightarrow> b | _ \<Rightarrow> [])"

definition checked_read :: "int \<Rightarrow> string \<Rightarrow> tact \<Rightarrow> tact" where
  "checked_read fid msg k = T_sys (ReadFid fid (of_nat (length msg))) (\<lambda>r.
     ASSERT (int_result r = int (length msg)) (ASSERT (data_of r = ascii msg) k))"

definition open_terminal_0 :: "(int \<Rightarrow> tact) \<Rightarrow> tact" where
  "open_terminal_0 k = call GetTerminalDevices (\<lambda>n. assert_else_abort (n > 0)
     (call (OpenTerminal 0) (\<lambda>fterm. ASSERT (fterm \<noteq> NOFILE) (k fterm))))"

definition test_read_kbd :: tact where
  "test_read_kbd = open_terminal_0 (\<lambda>fterm. T_sendme 0 ''Hello'' (checked_read fterm ''Hello'' (T_return 0)))"

definition FUDGE :: string where "FUDGE = replicate 1024 (CHR 0xAA)"

fun read_total :: "nat \<Rightarrow> int \<Rightarrow> uint32 \<Rightarrow> uint32 \<Rightarrow> tact \<Rightarrow> tact" where
  "read_total 0 fid cnt tot k = T_unfinished"
| "read_total (Suc n) fid cnt tot k =
     (if cnt < tot then
        call (ReadFid fid (if sint (tot - cnt) < 16384 then tot - cnt else 16384)) (\<lambda>rc.
          ASSERT (rc > 0) (read_total n fid (cnt + of_int rc) tot k))
      else k)"

definition test_read_kbd_big :: "nat \<Rightarrow> tact" where
  "test_read_kbd_big bound = open_terminal_0 (\<lambda>fterm.
     for_each [0..<1024] (\<lambda>i k. T_sendme 0 FUDGE k) (read_total bound fterm 0 (2 ^ 20) (T_return 0)))"

definition test_dup2_copies_file :: tact where
  "test_dup2_copies_file = call (OpenTerminal 0) (\<lambda>fterm. ASSERT (fterm \<noteq> NOFILE)
     (let rest = T_sendme 0 ''zavarakatranemia''
            (for_each [1, 2, 3, 4] (\<lambda>n k. call (Dup2 0 n) (\<lambda>r. ASSERT (r = 0) k))
              (checked_read 1 ''zava'' (checked_read 3 ''raka'' (checked_read 2 ''trane'' (checked_read 4 ''mia'' (T_return 0))))))
      in if fterm \<noteq> 0 then call (Dup2 fterm 0) (\<lambda>r. ASSERT (r = 0) (call (CloseFid fterm) (\<lambda>_. rest))) else rest))"

definition test_read_error_on_bad_fid :: tact where
  "test_read_error_on_bad_fid = call (ReadFid 0 10) (\<lambda>r. ASSERT (r = -1) (T_return 0))"

definition terminal_message :: "nat \<Rightarrow> string" where
  "terminal_message i = ''This is terminal '' @ decimal i"

definition test_read_from_many_terminals :: tact where
  "test_read_from_many_terminals = open_terminals (MAX_TERMINALS + 1) 0 [] (\<lambda>trm.
     for_terminals (MAX_TERMINALS + 1) 0 (\<lambda>i k. T_sendme i (terminal_message i) k)
      (for_terminals (MAX_TERMINALS + 1) 0 (\<lambda>i k. checked_read (trm ! i) (terminal_message i) k) (T_return 0)))"

definition test_child_inherits_files :: tact where
  "test_child_inherits_files = call (OpenTerminal 0) (\<lambda>fterm. ASSERT (fterm \<noteq> NOFILE)
     (let greeted_child = checked_read 0 ''Hello child'' (checked_read 0 ''Hello again'' (T_return 0));
          rest = T_sendme 0 ''Hello child'' (T_exec greeted_child 0 None (\<lambda>cpid.
            call (CloseFid 0) (\<lambda>r. ASSERT (r = 0) (call (CloseFid fterm) (\<lambda>r. ASSERT (r = 0)
              (T_sendme 0 ''Hello again'' (ASSERT (cpid \<noteq> NOPROC)
                (call (WaitChild NOPROC) (\<lambda>r. ASSERT (r = cpid) (T_return 0))))))))))
      in if fterm \<noteq> 0 then call (Dup2 fterm 0) (\<lambda>r. ASSERT (r = 0) rest) else rest))"

text \<open>The bytes of \<open>z\<close> behind those that were read keep their value.\<close>

definition null_read :: "int \<Rightarrow> tact \<Rightarrow> tact" where
  "null_read fid k = T_sys (ReadFid fid 10) (\<lambda>r.
     let z = ascii ''zavarakatranemia'' @ [0] in
     ASSERT (int_result r = 10)
      (ASSERT (data_of r @ drop (length (data_of r)) z = replicate 10 0 @ ascii ''anemia'' @ [0]) k))"

definition test_null_device :: tact where
  "test_null_device = call OpenNull (\<lambda>fn. ASSERT (fn \<noteq> -1)
     (null_read fn (call (WriteFid fn [] 123456) (\<lambda>r. ASSERT (r = 123456)
       (call (CloseFid fn) (\<lambda>r. ASSERT (r = 0) (T_return 0)))))))"

fun checked_write :: "nat \<Rightarrow> int \<Rightarrow> byte list \<Rightarrow> int \<Rightarrow> tact \<Rightarrow> tact" where
  "checked_write 0 fid msg cnt k = T_unfinished"
| "checked_write (Suc n) fid msg cnt k =
     (if cnt < int (length msg) then
        call (WriteFid fid (drop (nat cnt) msg) 1) (\<lambda>wno. ASSERT (wno > 0) (checked_write n fid msg (cnt + wno) k))
      else k)"

definition test_write_con :: "nat \<Rightarrow> tact" where
  "test_write_con bound = open_terminal_0 (\<lambda>fterm.
     T_expect 0 ''Hello'' (checked_write bound fterm (ascii ''Hello'') 0 (T_return 0)))"

fun write_total :: "nat \<Rightarrow> int \<Rightarrow> int \<Rightarrow> int \<Rightarrow> tact \<Rightarrow> tact" where
  "write_total 0 fid cnt tot k = T_unfinished"
| "write_total (Suc n) fid cnt tot k =
     (if cnt < tot then
        call (WriteFid fid (replicate 16384 0xAA) (if tot - cnt < 16384 then of_int (tot - cnt) else 16384)) (\<lambda>rc.
          ASSERT (rc > 0) (write_total n fid (cnt + rc) tot k))
      else k)"

definition test_write_con_big :: "nat \<Rightarrow> tact" where
  "test_write_con_big bound = open_terminal_0 (\<lambda>fterm.
     for_each [0..<1024] (\<lambda>i k. T_expect 0 FUDGE k) (write_total bound fterm 0 (2 ^ 20) (T_return 0)))"

definition test_write_error_on_bad_fid :: "byte list \<Rightarrow> tact" where
  "test_write_error_on_bad_fid buf = call (WriteFid 0 buf 10) (\<lambda>r. ASSERT (r = -1) (T_return 0))"

definition test_write_to_many_terminals :: "nat \<Rightarrow> tact" where
  "test_write_to_many_terminals bound = open_terminals (MAX_TERMINALS + 1) 0 [] (\<lambda>trm.
     for_terminals (MAX_TERMINALS + 1) 0 (\<lambda>i k. T_expect i (terminal_message i) k)
      (for_terminals (MAX_TERMINALS + 1) 0
        (\<lambda>i k. checked_write bound (trm ! i) (ascii (terminal_message i)) 0 k) (T_return 0)))"

section \<open>Thread and pipe tests\<close>

text \<open>\<open>flag\<close> is the variable 0.\<close>

definition test_create_join_thread :: tact where
  "test_create_join_thread = T_put 0 0 (T_thread (T_put 0 1 (T_return 2)) (\<lambda>t. ASSERT (t \<noteq> NOTHREAD)
     (call (ThreadJoin t) (\<lambda>r. ASSERT (r = 0) (T_get 0 (\<lambda>v. ASSERT (v = 1) (T_return 0)))))))"

definition test_exit_many_threads :: tact where
  "test_exit_many_threads =
     T_exec (for_each [0..<5] (\<lambda>i k. T_thread (T_return 2) (\<lambda>t. ASSERT (t \<noteq> NOTHREAD) k)) (T_return 0)) 0 None
       (\<lambda>_. call (WaitChild NOPROC) (\<lambda>r. ASSERT (r \<noteq> NOPROC) (T_return 0)))"

text \<open>\<open>Pipe\<close> stores its two descriptors in the structure \<open>pipe\<close>; \<open>pp\<close> is what that holds afterwards, (read,
  write).\<close>

definition hello :: "byte list" where "hello = ascii ''Hello world'' @ [0]"

definition write_hello :: "int \<Rightarrow> int \<Rightarrow> tact \<Rightarrow> tact" where
  "write_hello fid res k = call (WriteFid fid hello 12) (\<lambda>rc. ASSERT (rc = res) k)"

text \<open>Read into a buffer with the contents \<open>old\<close> and compare: 12 bytes and the string.\<close>

definition strcmp_hello :: "byte list \<Rightarrow> bool" where
  "strcmp_hello buf \<longleftrightarrow> takeWhile (\<lambda>b. b \<noteq> 0) buf = ascii ''Hello world''"

definition read_hello :: "int \<Rightarrow> (byte list \<Rightarrow> tact) \<Rightarrow> byte list \<Rightarrow> tact" where
  "read_hello fid k old = T_sys (ReadFid fid 12) (\<lambda>r.
     let buf = data_of r @ drop (length (data_of r)) old in
     ASSERT (int_result r = 12) (ASSERT (strcmp_hello buf) (k buf)))"

fun times_read_hello :: "nat \<Rightarrow> int \<Rightarrow> (byte list \<Rightarrow> tact) \<Rightarrow> byte list \<Rightarrow> tact" where
  "times_read_hello 0 fid k old = k old"
| "times_read_hello (Suc n) fid k old = read_hello fid (times_read_hello n fid k) old"

definition test_pipe_open :: "int \<times> int \<Rightarrow> tact" where
  "test_pipe_open pp = call Pipe (\<lambda>r. ASSERT (r = 0)
     (for_each [0..<3] (\<lambda>i. write_hello (snd pp) 12)
       (times_read_hello 3 (fst pp) (\<lambda>_. T_return 0) (replicate 12 0))))"

definition test_pipe_fails_on_exhausted_fid :: tact where
  "test_pipe_fails_on_exhausted_fid =
     for_each [0..<MAX_FILEID div 2] (\<lambda>i k. call Pipe (\<lambda>r. ASSERT (r = 0) k))
      (for_each [0..<MAX_FILEID div 2] (\<lambda>i k. call Pipe (\<lambda>r. ASSERT (r = -1) k)) (T_return 0))"

definition test_pipe_close_reader :: "int \<times> int \<Rightarrow> tact" where
  "test_pipe_close_reader pp = call Pipe (\<lambda>r. ASSERT (r = 0)
     (for_each [0..<3] (\<lambda>i. write_hello (snd pp) 12) (call (CloseFid (fst pp)) (\<lambda>_.
       for_each [0..<3] (\<lambda>i. write_hello (snd pp) (-1)) (T_return 0)))))"

definition test_pipe_close_writer :: "int \<times> int \<Rightarrow> tact" where
  "test_pipe_close_writer pp = call Pipe (\<lambda>r. ASSERT (r = 0)
     (for_each [0..<3] (\<lambda>i. write_hello (snd pp) 12)
       (times_read_hello 3 (fst pp) (\<lambda>_. call (CloseFid (snd pp)) (\<lambda>_.
          for_each [0..<3] (\<lambda>i k. call (ReadFid (fst pp) 12) (\<lambda>rc. ASSERT (rc = 0) k)) (T_return 0))) (replicate 12 0))))"

text \<open>\<open>data_producer\<close> and \<open>data_consumer\<close>; \<open>buf\<close> is the indeterminate contents of the buffer.\<close>

fun produce :: "nat \<Rightarrow> byte list \<Rightarrow> int \<Rightarrow> tact \<Rightarrow> tact" where
  "produce 0 buf nbytes k = T_unfinished"
| "produce (Suc n) buf nbytes k =
     (if nbytes > 0 then
        call (WriteFid 1 buf (if nbytes < 32768 then of_int nbytes else 32768)) (\<lambda>rc.
          assert_else_abort (rc > 0) (produce n buf (nbytes - rc) k))
      else k)"

definition data_producer :: "nat \<Rightarrow> byte list \<Rightarrow> int \<Rightarrow> tact" where
  "data_producer bound buf nbytes = call (CloseFid 0) (\<lambda>_.
     produce bound buf nbytes (call (CloseFid 1) (\<lambda>_. T_return 0)))"

fun consume :: "nat \<Rightarrow> int \<Rightarrow> (int \<Rightarrow> tact) \<Rightarrow> tact" where
  "consume 0 cnt k = T_unfinished"
| "consume (Suc n) cnt k = call (ReadFid 0 16384) (\<lambda>rc.
     assert_else_abort (rc \<ge> 0) (if rc \<noteq> 0 then consume n (cnt + rc) k else k cnt))"

definition data_consumer :: "nat \<Rightarrow> int \<Rightarrow> tact" where
  "data_consumer bound nbytes = call (CloseFid 1) (\<lambda>_.
     consume bound 0 (\<lambda>cnt. ASSERT (cnt = nbytes) (T_return 0)))"

text \<open>The read end of the pipe becomes descriptor 0, the write end descriptor 1.\<close>

definition arrange_pipe :: "int \<times> int \<Rightarrow> tact \<Rightarrow> tact" where
  "arrange_pipe pp k =
     (let move1 = (\<lambda>w. if w \<noteq> 1 then call (Dup2 w 1) (\<lambda>_. call (CloseFid w) (\<lambda>_. k)) else k);
          move0 = (\<lambda>w. call (Dup2 (fst pp) 0) (\<lambda>_. call (CloseFid (fst pp)) (\<lambda>_. move1 w)))
      in if fst pp \<noteq> 0 then
           (if snd pp = 0 then call OpenNull (\<lambda>fid. assert_else_abort (fid \<noteq> NOFILE) (call (Dup2 0 fid) (\<lambda>_. move0 fid)))
            else move0 (snd pp))
         else move1 (snd pp))"

definition close_and_wait :: "nat \<Rightarrow> tact" where
  "close_and_wait n = call (CloseFid 0) (\<lambda>_. call (CloseFid 1) (\<lambda>_.
     for_each [0..<n] (\<lambda>i k. call (WaitChild NOPROC) (\<lambda>_. k)) (T_return 0)))"

definition int_bytes :: "int \<Rightarrow> byte list" where
  "int_bytes v = map (\<lambda>i. ucast (drop_bit (8 * i) (of_int v :: 32 word))) [0..<4]"

definition start_consumer :: "nat \<Rightarrow> int \<Rightarrow> tact \<Rightarrow> tact" where
  "start_consumer bound n k = T_exec (data_consumer bound n) 4 (Some (int_bytes n)) (\<lambda>p. ASSERT (p \<noteq> NOPROC) k)"

definition start_producer :: "nat \<Rightarrow> byte list \<Rightarrow> int \<Rightarrow> tact \<Rightarrow> tact" where
  "start_producer bound buf n k = T_exec (data_producer bound buf n) 4 (Some (int_bytes n)) (\<lambda>p. ASSERT (p \<noteq> NOPROC) k)"

definition single_producer :: "nat \<Rightarrow> byte list \<Rightarrow> tact" where
  "single_producer bound buf = start_consumer bound 10000000 (start_producer bound buf 10000000 (close_and_wait 2))"

definition multi_producer :: "nat \<Rightarrow> byte list \<Rightarrow> tact" where
  "multi_producer bound buf =
     for_each [0..<10] (\<lambda>i. start_producer bound buf 1000000) (start_consumer bound 10000000 (close_and_wait 11))"

definition test_pipe_single_producer :: "nat \<Rightarrow> byte list \<Rightarrow> int \<times> int \<Rightarrow> tact" where
  "test_pipe_single_producer bound buf pp = call Pipe (\<lambda>r. ASSERT (r = 0) (arrange_pipe pp (single_producer bound buf)))"

definition test_pipe_multi_producer :: "nat \<Rightarrow> byte list \<Rightarrow> int \<times> int \<Rightarrow> tact" where
  "test_pipe_multi_producer bound buf pp = call Pipe (\<lambda>r. ASSERT (r = 0) (arrange_pipe pp (multi_producer bound buf)))"

end
