(* ===== verification/Socket_Tests.thy ===== *)
theory Socket_Tests
  imports API_Tests
begin

text \<open>
  The tests of \<^verbatim>\<open>validate_api.c\<close> for sockets, for waiting on any of many children, and for
  multitasking.

  A descriptor that one thread stores for another (\<open>*sock2\<close> of \<open>connect_sockets\<close>) is a shared variable,
  named by a number. \<open>stk\<close> is the indeterminate content of an array on the stack.
\<close>

section \<open>Sockets\<close>

definition NOPORT :: int where "NOPORT = 0"

definition MAX_PORT :: int where "MAX_PORT = 1023"

definition SHUTDOWN_READ :: int where "SHUTDOWN_READ = 1"

definition SHUTDOWN_WRITE :: int where "SHUTDOWN_WRITE = 2"

definition connect_sockets :: "int \<Rightarrow> int \<Rightarrow> nat \<Rightarrow> int \<Rightarrow> tact \<Rightarrow> tact" where
  "connect_sockets sock1 lsock sock2 port k =
     (let accept_thread = call (Accept lsock) (\<lambda>s. T_put sock2 s (ASSERT (s \<noteq> NOFILE) (T_return 0)));
          connect_thread = call (Connect sock1 port 1000) (\<lambda>r. ASSERT (r = 0) (T_return 0))
      in T_thread accept_thread (\<lambda>t1. T_thread connect_thread (\<lambda>t2.
           ASSERT (t1 \<noteq> NOTHREAD) (ASSERT (t2 \<noteq> NOTHREAD)
            (call (ThreadJoin t1) (\<lambda>r. ASSERT (r = 0) (call (ThreadJoin t2) (\<lambda>r. ASSERT (r = 0) k))))))))"

definition check_transfer :: "int \<Rightarrow> int \<Rightarrow> tact \<Rightarrow> tact" where
  "check_transfer from to_fid k = write_hello from 12 (read_hello to_fid (\<lambda>_. k) (replicate 12 0))"

definition test_socket_constructor_many_per_port :: tact where
  "test_socket_constructor_many_per_port =
     for_each [0..<MAX_FILEID] (\<lambda>f k. call (Socket 100) (\<lambda>s. ASSERT (s \<noteq> NOFILE) k)) (T_return 0)"

definition test_socket_constructor_out_of_fids :: tact where
  "test_socket_constructor_out_of_fids =
     for_each [0..<MAX_FILEID] (\<lambda>f k. call (Socket 100) (\<lambda>s. ASSERT (s \<noteq> NOFILE) k))
      (for_each [0..<MAX_FILEID] (\<lambda>f k. call (Socket 100) (\<lambda>s. ASSERT (s = NOFILE) k)) (T_return 0))"

definition test_socket_constructor_illegal_port :: tact where
  "test_socket_constructor_illegal_port =
     for_each [NOPORT, 1, MAX_PORT] (\<lambda>p k. call (Socket p) (\<lambda>s. ASSERT (s \<noteq> NOFILE) k))
      (for_each [NOPORT - 1, MAX_PORT + 1, MAX_PORT + 10] (\<lambda>p k. call (Socket p) (\<lambda>s. ASSERT (s = NOFILE) k)) (T_return 0))"

text \<open>\<open>ASSERT(Listen(Socket(port))==res)\<close>.\<close>

definition listen_new :: "int \<Rightarrow> int \<Rightarrow> tact \<Rightarrow> tact" where
  "listen_new port res k = call (Socket port) (\<lambda>s. call (Listen s) (\<lambda>r. ASSERT (r = res) k))"

definition test_listen_success :: tact where
  "test_listen_success = listen_new 100 0 (T_return 0)"

text \<open>A call on four descriptors that are not sockets.\<close>

definition fails_on_bad_fid :: "(int \<Rightarrow> sysreq) \<Rightarrow> tact" where
  "fails_on_bad_fid req =
     call (req 7) (\<lambda>r. ASSERT (r = -1) (call OpenNull (\<lambda>fid. call (req fid) (\<lambda>r. ASSERT (r = -1)
       (call (req NOFILE) (\<lambda>r. ASSERT (r = -1) (call (req (int MAX_FILEID)) (\<lambda>r. ASSERT (r = -1) (T_return 0)))))))))"

definition test_listen_fails_on_bad_fid :: tact where
  "test_listen_fails_on_bad_fid = fails_on_bad_fid Listen"

definition test_listen_fails_on_NOPORT :: tact where
  "test_listen_fails_on_NOPORT = listen_new NOPORT (-1) (T_return 0)"

definition test_listen_fails_on_occupied_port :: tact where
  "test_listen_fails_on_occupied_port =
     call (Socket 100) (\<lambda>f. call (Listen f) (\<lambda>r. ASSERT (r = 0)
       (listen_new 100 (-1) (call (CloseFid f) (\<lambda>_. listen_new 100 0 (T_return 0))))))"

text \<open>\<open>sock[1]\<close> is the variable 1.\<close>

definition test_listen_fails_on_initialized_socket :: tact where
  "test_listen_fails_on_initialized_socket =
     call (Socket 100) (\<lambda>lsock. call (Listen lsock) (\<lambda>r. ASSERT (r = 0) (call (Listen lsock) (\<lambda>r. ASSERT (r = -1)
       (call (Socket 200) (\<lambda>sock0. connect_sockets sock0 lsock 1 100
         (call (Listen sock0) (\<lambda>r. ASSERT (r = -1)
           (T_get 1 (\<lambda>sock1. call (Listen sock1) (\<lambda>r. ASSERT (r = -1) (T_return 0))))))))))))"

text \<open>The variable \<open>srv\<close> is 0.\<close>

definition listen_and_connect :: "(int \<Rightarrow> int \<Rightarrow> tact) \<Rightarrow> tact" where
  "listen_and_connect k =
     call (Socket 100) (\<lambda>lsock. call (Listen lsock) (\<lambda>r. ASSERT (r = 0)
       (call (Socket NOPORT) (\<lambda>cli. connect_sockets cli lsock 0 100 (k lsock cli)))))"

definition test_accept_succeds :: tact where
  "test_accept_succeds = listen_and_connect (\<lambda>lsock cli. T_return 0)"

definition test_accept_fails_on_bad_fid :: tact where
  "test_accept_fails_on_bad_fid = fails_on_bad_fid Accept"

definition test_accept_fails_on_unbound_socket :: tact where
  "test_accept_fails_on_unbound_socket =
     call (Socket 100) (\<lambda>s. call (Accept s) (\<lambda>r. ASSERT (r = -1) (T_return 0)))"

definition test_accept_fails_on_connected_socket :: tact where
  "test_accept_fails_on_connected_socket = listen_and_connect (\<lambda>lsock cli.
     T_get 0 (\<lambda>srv. call (Accept srv) (\<lambda>r. ASSERT (r = -1) (T_return 0))))"

text \<open>\<open>Fid_t lsock = Socket(100); ASSERT(lsock!=NOFILE); ASSERT(Listen(lsock)==0);\<close>.\<close>

definition listening_socket :: "(int \<Rightarrow> tact) \<Rightarrow> tact" where
  "listening_socket k = call (Socket 100) (\<lambda>lsock. ASSERT (lsock \<noteq> NOFILE)
     (call (Listen lsock) (\<lambda>r. ASSERT (r = 0) (k lsock))))"

text \<open>\<open>srv[i]\<close> is the variable \<open>i\<close>.\<close>

definition test_accept_reusable :: tact where
  "test_accept_reusable = listening_socket (\<lambda>lsock.
     let n = MAX_FILEID div 2 - 1 in
     collect [0..<n] (\<lambda>i k. call (Socket NOPORT) (\<lambda>c. connect_sockets c lsock i 100 (k c))) [] (\<lambda>cli.
     collect [0..<n] T_get [] (\<lambda>srv.
       for_each (List.product [0..<n] [0..<n]) (\<lambda>(i, j) k. ASSERT (cli ! i \<noteq> srv ! j)
         (if i = j then k else ASSERT (srv ! i \<noteq> srv ! j) (ASSERT (cli ! i \<noteq> cli ! j) k))) (T_return 0))))"

definition accept_fails :: "int \<Rightarrow> tact" where
  "accept_fails lsock = call (Accept lsock) (\<lambda>s. ASSERT (s = NOFILE) (T_return 0))"

definition test_accept_fails_on_exhausted_fid :: tact where
  "test_accept_fails_on_exhausted_fid = listening_socket (\<lambda>lsock.
     let rest = for_each [0..<(MAX_FILEID - 1) div 2] (\<lambda>i k.
           call (Socket NOPORT) (\<lambda>cli. ASSERT (cli \<noteq> NOFILE) (connect_sockets cli lsock 0 100 k)))
          (call (Socket NOPORT) (\<lambda>cli. ASSERT (cli \<noteq> NOFILE)
            (T_thread (accept_fails lsock) (\<lambda>t. call (Connect cli 100 1000) (\<lambda>r. ASSERT (r = -1)
              (call (ThreadJoin t) (\<lambda>_. T_return 0)))))))
     in if odd MAX_FILEID then call OpenNull (\<lambda>_. rest) else rest)"

definition test_accept_unblocks_on_close :: tact where
  "test_accept_unblocks_on_close = listening_socket (\<lambda>lsock.
     T_thread (accept_fails lsock) (\<lambda>t. call (CloseFid lsock) (\<lambda>_. call (ThreadJoin t) (\<lambda>_. T_return 0))))"

text \<open>The body calls \<open>Accept\<close>, not \<open>Connect\<close>.\<close>

definition test_connect_fails_on_bad_fid :: tact where
  "test_connect_fails_on_bad_fid = fails_on_bad_fid Accept"

definition connect_fails :: "int \<Rightarrow> int \<Rightarrow> uint64 \<Rightarrow> tact \<Rightarrow> tact" where
  "connect_fails sock port t k = call (Connect sock port t) (\<lambda>r. ASSERT (r = -1) k)"

definition test_connect_fails_on_bad_socket :: tact where
  "test_connect_fails_on_bad_socket = listening_socket (\<lambda>lsock. connect_fails lsock 100 1000
     (call (Socket NOPORT) (\<lambda>cli. ASSERT (cli \<noteq> NOFILE) (connect_sockets cli lsock 0 100
       (connect_fails cli 100 1000 (T_get 0 (\<lambda>srv. connect_fails srv 100 1000 (T_return 0))))))))"

definition test_connect_fails_on_illegal_port :: tact where
  "test_connect_fails_on_illegal_port = call (Socket 10) (\<lambda>cli.
     connect_fails cli NOPORT 100 (connect_fails cli (MAX_PORT + 1) 100 (T_return 0)))"

definition test_connect_fails_on_non_listened_port :: tact where
  "test_connect_fails_on_non_listened_port = call (Socket 10) (\<lambda>cli. connect_fails cli 100 100 (T_return 0))"

definition test_connect_fails_on_timeout :: tact where
  "test_connect_fails_on_timeout = listening_socket (\<lambda>lsock.
     call (Socket 10) (\<lambda>cli. connect_fails cli 100 100 (T_return 0)))"

text \<open>\<open>if(lsock!=0) { Dup2(lsock,0); Close(lsock); }\<close>: the tests go on with \<open>lsock\<close>, which is closed if it was
  not 0.\<close>

definition move_to_0 :: "int \<Rightarrow> tact \<Rightarrow> tact" where
  "move_to_0 lsock k =
     (if lsock \<noteq> 0 then call (Dup2 lsock 0) (\<lambda>_. call (CloseFid lsock) (\<lambda>_. k)) else k)"

definition both_ways :: "nat \<Rightarrow> int \<Rightarrow> nat \<Rightarrow> tact \<Rightarrow> tact" where
  "both_ways n a b k = for_each [0..<n] (\<lambda>i k. T_get b (\<lambda>s. check_transfer a s (T_get b (\<lambda>s. check_transfer s a k)))) k"

definition test_socket_small_transfer :: tact where
  "test_socket_small_transfer = call (Socket 100) (\<lambda>lsock. ASSERT (lsock \<noteq> NOFILE) (move_to_0 lsock
     (call (Socket NOPORT) (\<lambda>sock0. ASSERT (sock0 \<noteq> NOFILE) (call (Listen lsock) (\<lambda>r. ASSERT (r = 0)
       (connect_sockets sock0 lsock 1 100 (both_ways 32768 sock0 1 (T_return 0)))))))))"

text \<open>\<open>if(fid!=n) { ASSERT(Dup2(fid,n)==0); ASSERT(Close(fid)==0); }\<close>.\<close>

definition checked_move :: "int \<Rightarrow> int \<Rightarrow> tact \<Rightarrow> tact" where
  "checked_move fid n k =
     (if fid \<noteq> n then call (Dup2 fid n) (\<lambda>r. ASSERT (r = 0) (call (CloseFid fid) (\<lambda>r. ASSERT (r = 0) k))) else k)"

definition arrange_sockets :: "tact \<Rightarrow> tact" where
  "arrange_sockets k = call (Socket NOPORT) (\<lambda>fid. ASSERT (fid \<noteq> NOFILE) (checked_move fid 0
     (call (Socket 100) (\<lambda>lsock. ASSERT (lsock \<noteq> NOFILE) (checked_move lsock 2
       (call (Listen 2) (\<lambda>r. ASSERT (r = 0) (connect_sockets 0 2 0 100 (T_get 0 (\<lambda>srv. checked_move srv 1 k))))))))))"

definition test_socket_single_producer :: "nat \<Rightarrow> byte list \<Rightarrow> tact" where
  "test_socket_single_producer bound buf = arrange_sockets (single_producer bound buf)"

definition test_socket_multi_producer :: "nat \<Rightarrow> byte list \<Rightarrow> tact" where
  "test_socket_multi_producer bound buf = arrange_sockets (multi_producer bound buf)"

definition arrange_shutdown :: "(int \<Rightarrow> tact) \<Rightarrow> tact" where
  "arrange_shutdown k = call (Socket 100) (\<lambda>lsock. ASSERT (lsock \<noteq> NOFILE) (move_to_0 lsock
     (call (Listen lsock) (\<lambda>r. ASSERT (r = 0) (call (Socket NOPORT) (\<lambda>cli. ASSERT (cli \<noteq> NOFILE)
       (connect_sockets cli lsock 0 100 (both_ways 2000 cli 0 (k cli)))))))))"

text \<open>\<open>srv\<close> is not written any more and read once.\<close>

definition test_shudown_read :: tact where
  "test_shudown_read = arrange_shutdown (\<lambda>cli. T_get 0 (\<lambda>srv. write_hello srv 12
     (call (ShutDown cli SHUTDOWN_READ) (\<lambda>_. call (ReadFid cli 12) (\<lambda>r. ASSERT (r = -1) (write_hello srv (-1)
       (for_each [0..<2000] (\<lambda>i k. write_hello srv (-1) (check_transfer cli srv k)) (T_return 0))))))))"

definition test_shudown_write :: "byte list \<Rightarrow> tact" where
  "test_shudown_write stk = arrange_shutdown (\<lambda>cli. T_get 0 (\<lambda>srv. for_each [0..<3] (\<lambda>i. write_hello srv 12)
     (call (ShutDown srv SHUTDOWN_WRITE) (\<lambda>_. write_hello srv (-1)
       (times_read_hello 3 cli (\<lambda>_. for_each [0..<2000] (\<lambda>i k. call (ReadFid cli 12) (\<lambda>rc. ASSERT (rc = 0) (check_transfer cli srv k)))
          (T_return 0)) stk)))))"

section \<open>Waiting for any child\<close>

text \<open>The member \<open>pid\<close> of the record of a process is the variable \<open>v\<close>, that of its child \<open>i\<close> the variable
  \<open>5 * v + i + 1\<close>, so that no two processes share one. \<open>ptr\<close> are the bytes of the pointer to the record.\<close>

fun find_rec :: "nat list \<Rightarrow> int \<Rightarrow> (nat option \<Rightarrow> tact) \<Rightarrow> tact" where
  "find_rec [] cpid k = k None"
| "find_rec (v # vs) cpid k = T_get v (\<lambda>p. if p = cpid then k (Some v) else find_rec vs cpid k)"

text \<open>When the pid is not found, the store behind the end of the array ends the model of the run.\<close>

primrec any_child :: "nat \<Rightarrow> nat \<Rightarrow> (nat \<Rightarrow> byte list) \<Rightarrow> tact" where
  "any_child 0 v ptr = T_return 0"
| "any_child (Suc level) v ptr =
     (let rec_vars = map (\<lambda>i. 5 * v + i + 1) [0..<5] in
      for_each rec_vars (\<lambda>u k. T_exec (call GetPid (\<lambda>p. T_put u p (any_child level u ptr))) 8 (Some (ptr u))
          (\<lambda>cpid. ASSERT (cpid \<noteq> NOPROC) k))
       (for_each [0..<5] (\<lambda>i k. call (WaitChild NOPROC) (\<lambda>cpid. ASSERT (cpid \<noteq> NOPROC)
          (find_rec rec_vars cpid (\<lambda>j. ASSERT (j \<noteq> None) (case j of None \<Rightarrow> T_unfinished | Some u \<Rightarrow> T_put u NOPROC k)))))
         (call (WaitChild NOPROC) (\<lambda>r. ASSERT (r = NOPROC) (T_return 0)))))"

definition test_wait_for_any_child :: "(nat \<Rightarrow> byte list) \<Rightarrow> tact" where
  "test_wait_for_any_child ptr = call GetPid (\<lambda>p. ASSERT (p = 1) (any_child 3 0 ptr))"

section \<open>Multitasking\<close>

text \<open>The counter of \<open>get_timestamp\<close> is the variable 0, \<open>tschild\<close> the variable 1; \<open>start[i]\<close> and \<open>end[i]\<close> are
  the variables \<open>1 + 2 * i\<close> and \<open>2 + 2 * i\<close>. \<open>fib\<close> is the result of \<open>fibo(38)\<close>.\<close>

definition get_timestamp :: "(int \<Rightarrow> tact) \<Rightarrow> tact" where
  "get_timestamp = T_fetch_add 0"

definition test_multitask :: "uint32 \<Rightarrow> tact" where
  "test_multitask fib =
     T_exec (get_timestamp (\<lambda>t. T_put 1 t (T_return (if fib > 10 then 1 else 0)))) 0 None (\<lambda>_.
       get_timestamp (\<lambda>ts. call (WaitChild NOPROC) (\<lambda>_. T_get 1 (\<lambda>tschild. ASSERT (ts < tschild) (T_return 0)))))"

definition preempted_child :: "nat \<Rightarrow> nat \<Rightarrow> tact" where
  "preempted_child st en = get_timestamp (\<lambda>t0. T_put st t0 (get_timestamp (\<lambda>t1. T_put en t1 (T_return 0))))"

definition test_preemption :: "(nat \<Rightarrow> byte list) \<Rightarrow> tact" where
  "test_preemption ptrs =
     for_each [0..<2] (\<lambda>i k. T_exec (preempted_child (1 + 2 * i) (2 + 2 * i)) 16 (Some (ptrs i)) (\<lambda>_. k))
      (for_each [0..<2] (\<lambda>i k. call (WaitChild NOPROC) (\<lambda>_. k))
       (for_each (List.product [0..<2] [0..<2]) (\<lambda>(i, j) k. if i \<noteq> j
          then T_get (1 + 2 * i) (\<lambda>s. T_get (2 + 2 * j) (\<lambda>f. ASSERT (s < f) k)) else k) (T_return 0)))"

end
