(* ===== verification/Test_Runs.thy ===== *)
theory Test_Runs
  imports Socket_Tests
begin

text \<open>
  Running the tests of \<^verbatim>\<open>validate_api.c\<close> on the kernel.

  \<open>run_alone\<close> executes a test as one process that nothing else disturbs: each of its actions is a system
  call of the model of the kernel. It stops where a second process would have to run (\<open>Exec\<close>, a thread,
  synchronisation) and where a call does not return. The verdict of a test is then known in two cases: it
  ended and no ASSERT had failed, or an ASSERT, an \<open>assert\<close> or an assertion of the kernel has failed.
\<close>

section \<open>Runs of one process\<close>

datatype ending = Ends int | Aborted | Stuck | Needs_others | Too_long

text \<open>The core and the pid of the process, the list nodes on its stack with which its thread waits, the
  environment of its n-th call, the host's clock in milliseconds and the addresses of the functions.\<close>

record test_setup =
  score :: nat
  spid :: nat
  snode :: nat
  snode' :: nat
  senv :: "nat \<Rightarrow> sys_env"
  sclock :: "nat \<Rightarrow> uint64"
  scode :: "tact \<Rightarrow> funptr"

definition do_call :: "test_setup \<Rightarrow> nat \<Rightarrow> sysreq \<Rightarrow> kernel \<Rightarrow> (reply \<times> kernel) option" where
  "do_call S n req k = SYSCALL (score S) (spid S) (snode S) (snode' S) (senv S n) req k"

text \<open>\<open>mem\<close> are the variables, \<open>fl\<close> is the failure flag.\<close>

fun thread_made :: "reply \<Rightarrow> bool" where
  "thread_made (Returned (Tid None)) = False"
| "thread_made _ = True"

primrec run_alone ::
  "tact \<Rightarrow> test_setup \<Rightarrow> nat \<Rightarrow> (nat \<Rightarrow> int) \<Rightarrow> bool \<Rightarrow> kernel \<Rightarrow> (ending \<times> bool \<times> kernel) option" where
  "run_alone (T_return v) = (\<lambda>S n mem fl k. Some (Ends v, fl, k))"
| "run_alone (T_sys req f) = (\<lambda>S n mem fl k. do {
     (r, k') \<leftarrow> do_call S n req k;
     (case r of Returned v \<Rightarrow> run_alone (f v) S (n + 1) mem fl k' | _ \<Rightarrow> Some (Stuck, fl, k'))
   })"
| "run_alone (T_exec t al arg f) = (\<lambda>S n mem fl k. Some (Needs_others, fl, k))"
| "run_alone (T_thread t f) = (\<lambda>S n mem fl k. do {
     (r, k') \<leftarrow> do_call S n (CreateThread (scode S t) 0) k;
     (if thread_made r then Some (Needs_others, fl, k') else run_alone (f NOTHREAD) S (n + 1) mem fl k')
   })"
| "run_alone (ASSERT b t) = (\<lambda>S n mem fl k. run_alone t S n mem (fl \<or> \<not> b) k)"
| "run_alone T_abort = (\<lambda>S n mem fl k. Some (Aborted, fl, k))"
| "run_alone (T_sendme i s t) = (\<lambda>S n mem fl k. run_alone t S n mem fl k)"
| "run_alone (T_expect i s t) = (\<lambda>S n mem fl k. run_alone t S n mem fl k)"
| "run_alone (T_put x v t) = (\<lambda>S n mem fl k. run_alone t S n (mem(x := v)) fl k)"
| "run_alone (T_get x f) = (\<lambda>S n mem fl k. run_alone (f (mem x)) S n mem fl k)"
| "run_alone (T_fetch_add x f) =
     (\<lambda>S n mem fl k. run_alone (f (mem x)) S n (mem(x := (mem x + 1) mod 2 ^ 32)) fl k)"
| "run_alone (T_sync op t) = (\<lambda>S n mem fl k. Some (Needs_others, fl, k))"
| "run_alone (T_clock f) = (\<lambda>S n mem fl k. run_alone (f (sclock S n)) S (n + 1) mem fl k)"
| "run_alone T_unfinished = (\<lambda>S n mem fl k. Some (Too_long, fl, k))"

definition verdict :: "(ending \<times> bool \<times> kernel) option \<Rightarrow> bool option" where
  "verdict r =
     (case r of
        None \<Rightarrow> Some False
      | Some (how, fl, k) \<Rightarrow>
          if fl \<or> how = Aborted then Some False else case how of Ends v \<Rightarrow> Some True | _ \<Rightarrow> None)"

text \<open>A failed ASSERT is never forgotten.\<close>

lemma failure_stays: "run_alone t S n mem True k = Some (how, fl, k') \<Longrightarrow> fl"
  by (induction t arbitrary: n mem k) (force split: bind_splits reply.splits if_splits)+

lemma failed_verdict [simp]: "verdict (run_alone t S n mem True k) = Some False"
  by (cases "run_alone t S n mem True k") (auto simp: verdict_def dest: failure_stays)

definition verdict_of :: "tact \<Rightarrow> test_setup \<Rightarrow> nat \<Rightarrow> (nat \<Rightarrow> int) \<Rightarrow> kernel \<Rightarrow> bool option" where
  "verdict_of t S n mem k = verdict (run_alone t S n mem False k)"

lemma verdict_simps [simp]:
  "verdict_of (T_return v) S n mem k = Some True"
  "verdict_of (ASSERT b t) S n mem k = (if b then verdict_of t S n mem k else Some False)"
  "verdict_of (T_put x v t) S n mem k = verdict_of t S n (mem(x := v)) k"
  "verdict_of (T_get x f) S n mem k = verdict_of (f (mem x)) S n mem k"
  "verdict_of (assert_else_abort b t) S n mem k = (if b then verdict_of t S n mem k else Some False)"
  by (auto simp: verdict_of_def verdict_def [of "Some _"] assert_else_abort_def)

lemma verdict_call:
  assumes "do_call S n req k = Some (Returned v, k')"
  shows "verdict_of (T_sys req f) S n mem k = verdict_of (f v) S (n + 1) mem k'"
    and "verdict_of (call req g) S n mem k = verdict_of (g (int_result v)) S (n + 1) mem k'"
  using assms by (simp_all add: verdict_of_def call_def)

section \<open>Calls on a quiet kernel\<close>

definition quiet :: "kernel \<Rightarrow> bool" where
  "quiet k \<longleftrightarrow> 0 < sem k \<and> waitset (kcvs (monitor k)) kernel_sem_cv = None"

definition locked :: "kernel \<Rightarrow> kernel" where
  "locked k = k\<lparr>monitor := (monitor k)\<lparr>kernel_sem := sem k - 1\<rparr>\<rparr>"

definition unlocked :: "kernel \<Rightarrow> kernel" where
  "unlocked k = k\<lparr>monitor := (monitor k)\<lparr>kernel_sem := sem k + 1\<rparr>\<rparr>"

lemma unlocked_locked [simp]: "unlocked (locked k) = k"
  by (simp add: locked_def unlocked_def)

lemma locked_simps [simp]:
  "PT (locked k) = PT k" "FT (locked k) = FT k" "devs (locked k) = devs k" "fheap (locked k) = fheap k"
  "PT (unlocked k) = PT k" "FT (unlocked k) = FT k" "devs (unlocked k) = devs k" "fheap (unlocked k) = fheap k"
  by (simp_all add: locked_def unlocked_def)

lemma do_call_quiet:
  assumes q: "quiet k"
    and body: "SYSCALLS req (senv S n) (score S) (spid S) (locked k) = Some (Done v, k2)" "v \<noteq> No_return"
    and cvs: "kcvs (monitor k2) = kcvs (monitor k)"
  shows "do_call S n req k = Some (Returned v, unlocked k2)" and "quiet (unlocked k2)"
proof -
  have "POST_CALL (score S) k2 = Some (unlocked k2)"
    using POST_CALL_quiet [of k2 "score S"] q cvs by (simp add: unlocked_def quiet_def)
  moreover have "PRE_CALL (score S) (snode S) (now (senv S n)) k = Some (Proceeds, locked k)"
    using lock_unlock_quiet(1) [of k] q by (simp add: quiet_def locked_def)
  ultimately show "do_call S n req k = Some (Returned v, unlocked k2)"
    using body by (cases v) (auto simp: do_call_def SYSCALL_def)
  show "quiet (unlocked k2)"
    using SYSCALLS_sem [OF body(1)] body(2) q cvs by (simp add: sem_after_def quiet_def unlocked_def locked_def)
qed

lemma pure_call:
  assumes "quiet k"
  shows "do_call S n GetPid k = Some (Returned (Val (sys_GetPid (Some (spid S)))), k)"
    and "do_call S n GetTerminalDevices k = Some (Returned (Uint (device_no (devs k) DEV_SERIAL)), k)"
  using do_call_quiet(1) [OF assms, of GetPid S n _ "locked k"]
    do_call_quiet(1) [OF assms, of GetTerminalDevices S n _ "locked k"]
  by (simp_all add: sys_GetTerminalDevices_def) (simp_all add: locked_def)

lemma stub_call:
  assumes "quiet k" and "stub_result req = Some v"
  shows "do_call S n req k = Some (Returned v, k)"
  using unimplemented_calls_fail [OF assms(2), of k] assms(1) by (simp add: do_call_def quiet_def)

lemma stub_verdict:
  assumes "quiet k"
  shows "verdict_of (call Pipe g) S n mem k = verdict_of (g (-1)) S (n + 1) mem k"
    and "verdict_of (call (Socket p) g) S n mem k = verdict_of (g NOFILE) S (n + 1) mem k"
    and "verdict_of (call (Listen s) g) S n mem k = verdict_of (g (-1)) S (n + 1) mem k"
    and "verdict_of (call (Accept s) g) S n mem k = verdict_of (g NOFILE) S (n + 1) mem k"
    and "verdict_of (call (Connect s p tm) g) S n mem k = verdict_of (g (-1)) S (n + 1) mem k"
    and "verdict_of (call (ThreadJoin t) g) S n mem k = verdict_of (g (-1)) S (n + 1) mem k"
    and "verdict_of (T_thread b f) S n mem k = verdict_of (f NOTHREAD) S (n + 1) mem k"
  using verdict_call(2) [OF stub_call [OF assms]] stub_call [OF assms, of "CreateThread (scode S b) 0"]
  by (simp_all add: verdict_of_def NOTHREAD_def)

section \<open>Streams of one process\<close>

text \<open>The kernel between calls of a process whose streams nobody else uses.\<close>

definition ready :: "test_setup \<Rightarrow> kernel \<Rightarrow> nat list \<Rightarrow> bool" where
  "ready S k fs \<longleftrightarrow> quiet k \<and> stream_inv k (\<lambda>_. 0) fs \<and> spid S < MAX_PROC \<and> (\<exists>d. initialized_devices d (devs k))"

lemma stream_inv_locked [simp]:
  "stream_inv (locked k) use fs = stream_inv k use fs" "stream_inv (unlocked k) use fs = stream_inv k use fs"
  by (auto elim!: stream_inv_cong)

lemma get_fcb_locked [simp]: "get_fcb (locked k) cur fd = get_fcb k cur fd" "get_fcb (unlocked k) cur fd = get_fcb k cur fd"
  by (simp_all add: get_fcb_def)

lemma decref_frame: "FCB_decref k f = Some (r, k') \<Longrightarrow> monitor k' = monitor k \<and> devs k' = devs k"
  using decref_same [of k f r k'] by (simp add: same_but_files_def)

lemma set_fid_frame: "monitor (set_fid k p i v) = monitor k" "devs (set_fid k p i v) = devs k"
  by (simp_all add: set_fid_def)

lemma Close_frame: "sys_Close k cur fd = Some (r, k') \<Longrightarrow> monitor k' = monitor k \<and> devs k' = devs k"
  by (auto simp: sys_Close_def set_fid_frame Let_def dest!: decref_frame split: option.splits)

lemma Dup2_frame: "sys_Dup2 k cur fd fd' = Some (r, k') \<Longrightarrow> monitor k' = monitor k \<and> devs k' = devs k"
  by (auto simp: sys_Dup2_def set_fid_frame FCB_incref_def Let_def dest!: decref_frame
      split: option.splits if_splits bind_splits)

lemma do_ready:
  assumes "ready S k fs" and "SYSCALLS req (senv S n) (score S) (spid S) (locked k) = Some (Done v, k2)" "v \<noteq> No_return"
    and "kcvs (monitor k2) = kcvs (monitor (locked k))" "devs k2 = devs k" and "stream_inv k2 (\<lambda>_. 0) fs'"
  shows "do_call S n req k = Some (Returned v, unlocked k2)" and "ready S (unlocked k2) fs'"
proof -
  have "kcvs (monitor k2) = kcvs (monitor k)" using assms(4) by (simp add: locked_def)
  note d = do_call_quiet [OF _ assms(2,3) this]
  show "do_call S n req k = Some (Returned v, unlocked k2)" using d(1) assms(1) by (simp add: ready_def)
  show "ready S (unlocked k2) fs'" using d(2) assms by (auto simp: ready_def)
qed

lemma readyD:
  assumes "ready S k fs"
  shows "quiet k" and "spid S < MAX_PROC" and "stream_inv (locked k) (\<lambda>_. 0) fs"
  using assms by (simp_all add: ready_def)

lemma do_Close:
  assumes "ready S k fs"
  shows "\<exists>r k' fs'. do_call S n (CloseFid fd) k = Some (Returned (Val r), k') \<and> ready S k' fs' \<and> devs k' = devs k \<and>
     get_fcb k' (spid S) fd = None \<and> (\<forall>fd'. fd' \<noteq> fd \<longrightarrow> get_fcb k' (spid S) fd' = get_fcb k (spid S) fd') \<and>
     (get_fcb k (spid S) fd = None \<longrightarrow> k' = k \<and> r = (if 0 \<le> fd \<and> fd < int MAX_FILEID then 0 else -1))"
proof -
  note R = readyD [OF assms]
  obtain r k2 fs' where k2: "sys_Close (locked k) (spid S) fd = Some (r, k2)" "stream_inv k2 (\<lambda>_. 0) fs'"
    "get_fcb k2 (spid S) fd = None" "\<forall>fd'. fd' \<noteq> fd \<longrightarrow> get_fcb k2 (spid S) fd' = get_fcb k (spid S) fd'"
    "get_fcb k (spid S) fd = None \<longrightarrow> k2 = locked k \<and> r = (if 0 \<le> fd \<and> fd < int MAX_FILEID then 0 else -1)"
    using sys_Close_spec [OF R(3,2), of fd] by auto
  note fr = Close_frame [OF k2(1)]
  from do_ready [OF assms, of "CloseFid fd" n "Val r" k2 fs'] k2 fr show ?thesis
    by (intro exI [of _ r] exI [of _ "unlocked k2"] exI [of _ fs']) (auto simp: returns_def)
qed

lemma do_Dup2:
  assumes "ready S k fs" and "get_fcb k (spid S) oldfd = None \<or> newfd < 0 \<or> int MAX_FILEID \<le> newfd"
  shows "do_call S n (Dup2 oldfd newfd) k = Some (Returned (Val (-1)), k)"
proof -
  note R = readyD [OF assms(1)]
  have "sys_Dup2 (locked k) (spid S) oldfd newfd = Some (-1, locked k)"
    using sys_Dup2_spec [OF R(3,2), of oldfd newfd] assms(2) by (auto split: if_splits)
  from do_ready(1) [OF assms(1), of "Dup2 oldfd newfd" n "Val (-1)" "locked k" fs] this R(3) show ?thesis
    by (simp add: returns_def)
qed

lemma do_io_closed:
  assumes "ready S k fs" and "get_fcb k (spid S) fd = None"
  shows "do_call S n (ReadFid fd sz) k = Some (Returned (Data (-1) []), k)"
    and "do_call S n (WriteFid fd buf sz) k = Some (Returned (Data (-1) []), k)"
  using do_ready(1) [OF assms(1), of "ReadFid fd sz" n "Data (-1) []" "locked k" fs]
    do_ready(1) [OF assms(1), of "WriteFid fd buf sz" n "Data (-1) []" "locked k" fs] assms(2) readyD(3) [OF assms(1)]
  by (simp_all add: may_block_def sys_Read_def sys_Write_def)

lemma acquire_FCB_frame: "acquire_FCB k = (r, k') \<Longrightarrow> monitor k' = monitor k \<and> devs k' = devs k \<and> PT k' = PT k"
  by (auto simp: acquire_FCB_def Let_def split: prod.splits option.splits if_splits)

lemma open_stream_frame:
  assumes "open_stream k cur major minor = Some (r, k')"
  shows "monitor k' = monitor k \<and> devs k' = devs k"
    and "r \<noteq> NOFILE \<Longrightarrow> fd \<noteq> r \<Longrightarrow> get_fcb k' cur fd = get_fcb k cur fd"
proof -
  have "open_stream k cur major minor = Some (r, k') \<Longrightarrow>
      (monitor k' = monitor k \<and> devs k' = devs k) \<and> (r \<noteq> NOFILE \<longrightarrow> fd \<noteq> r \<longrightarrow> get_fcb k' cur fd = get_fcb k cur fd)"
    by (auto simp: open_stream_def FCB_reserve_def get_fcb_def set_fid_def FCB_incref_def release_FCB_def
        numeral_1_eq_Suc_0 Let_def nat_eq_iff dest!: acquire_FCB_frame
        split: option.splits prod.splits bool.splits bind_splits if_splits)
  then show "monitor k' = monitor k \<and> devs k' = devs k"
    "r \<noteq> NOFILE \<Longrightarrow> fd \<noteq> r \<Longrightarrow> get_fcb k' cur fd = get_fcb k cur fd" using assms by auto
qed

text \<open>Closing any stream of the process succeeds.\<close>

definition closes_ok :: "kernel \<Rightarrow> nat \<Rightarrow> bool" where
  "closes_ok k cur \<longleftrightarrow> (\<forall>fd f ops obj. get_fcb k cur fd = Some f \<longrightarrow> streamfunc (FT k f) = Some ops \<longrightarrow> Close ops obj = 0)"

lemma closes_okD:
  "closes_ok k cur \<Longrightarrow> get_fcb k cur fd = Some f \<Longrightarrow> streamfunc (FT k f) = Some ops \<Longrightarrow> Close ops obj = 0"
  by (auto simp: closes_ok_def)

lemma closes_ok_sub:
  assumes "closes_ok k cur" and "\<And>fd f. get_fcb k' cur fd = Some f \<Longrightarrow> \<exists>fd'. get_fcb k cur fd' = Some f"
    and "\<And>f. streamfunc (FT k' f) = streamfunc (FT k f)"
  shows "closes_ok k' cur"
  using assms unfolding closes_ok_def by metis

lemma Close_streamfunc: "sys_Close k cur fd = Some (r, k') \<Longrightarrow> streamfunc (FT k' f) = streamfunc (FT k f)"
  by (auto simp: sys_Close_def set_fid_def same_but_files_def Let_def dest!: decref_same split: option.splits)

lemma Close_result:
  assumes "sys_Close k cur fd = Some (r, k')" and "closes_ok k cur" and "0 \<le> fd" "fd < int MAX_FILEID"
  shows "r = 0"
  using assms closes_okD [OF assms(2)]
  by (auto simp: sys_Close_def FCB_decref_def set_fid_def Let_def split: option.splits bind_splits if_splits)

lemma do_Close_ok:
  assumes "ready S k fs" and "closes_ok k (spid S)" and "0 \<le> fd" "fd < int MAX_FILEID"
  shows "\<exists>k' fs'. do_call S n (CloseFid fd) k = Some (Returned (Val 0), k') \<and> ready S k' fs' \<and> devs k' = devs k \<and>
     closes_ok k' (spid S)"
proof -
  note R = readyD [OF assms(1)]
  obtain r k2 fs' where k2: "sys_Close (locked k) (spid S) fd = Some (r, k2)" "stream_inv k2 (\<lambda>_. 0) fs'"
    "get_fcb k2 (spid S) fd = None" "\<forall>fd'. fd' \<noteq> fd \<longrightarrow> get_fcb k2 (spid S) fd' = get_fcb k (spid S) fd'"
    using sys_Close_spec [OF R(3,2), of fd] by auto
  note fr = Close_frame [OF k2(1)]
  have c: "closes_ok (locked k) (spid S)" using assms(2) by (simp add: closes_ok_def)
  have "r = 0" using Close_result [OF k2(1) c assms(3,4)] .
  moreover have "closes_ok (unlocked k2) (spid S)"
  proof (rule closes_ok_sub [OF assms(2)])
    show "\<exists>fd'. get_fcb k (spid S) fd' = Some f" if "get_fcb (unlocked k2) (spid S) fd'' = Some f" for fd'' f
      using that k2(3,4) by (cases "fd'' = fd") auto
  qed (simp add: Close_streamfunc [OF k2(1)])
  ultimately show ?thesis using do_ready [OF assms(1), of "CloseFid fd" n "Val 0" k2 fs'] k2 fr
    by (intro exI [of _ "unlocked k2"] exI [of _ fs']) (auto simp: returns_def)
qed

lemma open_streamfunc:
  assumes "open_stream k cur major minor = Some (r, k')" and "acquire_FCB k = (Some f, k1)" and "g \<noteq> f"
  shows "streamfunc (FT k' g) = streamfunc (FT k g)"
proof -
  have "streamfunc (FT k1 g) = streamfunc (FT k g)"
    using assms(2) by (auto simp: acquire_FCB_def Let_def split: if_splits prod.splits option.splits)
  then show ?thesis
    using assms by (auto simp: open_stream_def FCB_reserve_def set_fid_def FCB_incref_def release_FCB_def Let_def
        split: option.splits prod.splits bool.splits bind_splits if_splits)
qed

lemma open_closes_ok:
  assumes r: "ready S k (f # fs)" and ok: "closes_ok k (spid S)"
    and k2: "open_stream (locked k) (spid S) major minor = Some (int m, k2)" "get_fcb k2 (spid S) (int m) = Some f"
      "streamfunc (FT k2 f) = Some ops" and dev: "\<And>obj. Close ops obj = 0"
  shows "closes_ok k2 (spid S)"
  unfolding closes_ok_def
proof (intro allI impI)
  fix fd g ops' obj'
  assume g: "get_fcb k2 (spid S) fd = Some g" "streamfunc (FT k2 g) = Some ops'"
  note R = readyD [OF r]
  have "frep (locked k) (f # fs)" using R(3) finvD(1) stream_invD(1) by blast
  then obtain k1 where "acquire_FCB (locked k) = (Some f, k1)" using acquire_FCB_cons by blast
  note sf = open_streamfunc [OF k2(1) this]
  have "int m \<noteq> NOFILE" by (simp add: NOFILE_def)
  note fr = open_stream_frame(2) [OF k2(1) this]
  show "Close ops' obj' = 0"
  proof (cases "fd = int m")
    case True
    then show ?thesis using g k2(2,3) dev by simp
  next
    case False
    then have old: "get_fcb k (spid S) fd = Some g" using fr [of fd] g(1) by simp
    have "g \<noteq> f" using descriptor_ok(2) [OF R(3,2), of "nat fd" g] get_fcb_Some [OF old] by auto
    then show ?thesis using closes_okD [OF ok old] g(2) sf by simp
  qed
qed

text \<open>Exactly the first \<open>m\<close> descriptors are open.\<close>

definition first_open :: "kernel \<Rightarrow> nat \<Rightarrow> nat \<Rightarrow> bool" where
  "first_open k cur m \<longleftrightarrow> (\<forall>fd. get_fcb k cur fd \<noteq> None \<longleftrightarrow> 0 \<le> fd \<and> fd < int m)"

lemma first_open_next:
  assumes "first_open k cur m" and "m < MAX_FILEID"
  shows "next_free (FIDT (PT k cur)) 0 = m" and "FIDT (PT k cur) ! m = None"
proof -
  let ?t = "FIDT (PT k cur)" let ?g = "next_free ?t 0"
  have t: "?t ! i = None \<longleftrightarrow> m \<le> i" if "i < MAX_FILEID" for i
    using assms(1) [unfolded first_open_def, rule_format, of "int i"] that by (auto simp: get_fcb_def)
  show "?t ! m = None" using t [OF assms(2)] by simp
  have "?g \<le> MAX_FILEID" "?g < MAX_FILEID \<longrightarrow> ?t ! ?g = None" "\<forall>g. g < ?g \<longrightarrow> ?t ! g \<noteq> None"
    using next_free_spec [of 0 ?t] by auto
  then show "?g = m" using t [of ?g] \<open>?t ! m = None\<close> assms(2) by (metis leI le_antisym order_le_less_trans)
qed

lemma do_open:
  assumes r: "ready S k (f # fs)" and fo: "first_open k (spid S) m" "m < MAX_FILEID" and ok: "closes_ok k (spid S)"
    and req: "\<And>e c cur k. SYSCALLS req e c cur k = returns Val (open_stream k cur major minor)"
    and dev: "device_open (devs k) major minor = Some (0, Some (obj, ops))" "\<And>obj. Close ops obj = 0"
  shows "\<exists>k'. do_call S n req k = Some (Returned (Val (int m)), k') \<and> ready S k' fs \<and> devs k' = devs k \<and>
     first_open k' (spid S) (m + 1) \<and> get_fcb k' (spid S) (int m) = Some f \<and>
     streamobj (FT k' f) = Some obj \<and> streamfunc (FT k' f) = Some ops \<and> closes_ok k' (spid S)"
proof -
  note R = readyD [OF r] and N = first_open_next [OF fo]
  have "\<exists>i < MAX_FILEID. FIDT (PT k (spid S)) ! i = None" using N(2) fo(2) by blast
  then obtain k2 where k2: "open_stream (locked k) (spid S) major minor = Some (int m, k2)"
    "stream_inv k2 (\<lambda>_. 0) fs" "get_fcb k2 (spid S) (int m) = Some f"
    "streamobj (FT k2 f) = Some obj" "streamfunc (FT k2 f) = Some ops"
    using open_stream_spec [OF R(3,2), of major minor 0 "Some (obj, ops)"] dev(1) N(1) by auto
  have "int m \<noteq> NOFILE" by (simp add: NOFILE_def)
  note fr = open_stream_frame(1) [OF k2(1)] open_stream_frame(2) [OF k2(1) this]
  have "first_open (unlocked k2) (spid S) (m + 1)"
    unfolding first_open_def
  proof
    fix fd
    show "(get_fcb (unlocked k2) (spid S) fd \<noteq> None) = (0 \<le> fd \<and> fd < int (m + 1))"
      using fr(2) [of fd] k2(3) fo(1) by (cases "fd = int m") (auto simp: first_open_def)
  qed
  moreover have "closes_ok (unlocked k2) (spid S)"
    using open_closes_ok [OF r ok k2(1,3,5) dev(2)] by (simp add: closes_ok_def)
  ultimately show ?thesis
    using do_ready [OF r, of req n "Val (int m)" k2 fs] k2 fr(1) req [of _ _ _ "locked k"]
    by (intro exI [of _ "unlocked k2"]) (auto simp: returns_def)
qed

lemma ready_devices:
  assumes "ready S k fs"
  shows "device_open (devs k) DEV_NULL 0 = Some (0, Some (NULL_obj, nulldev_fops))"
    and "i < device_no (devs k) DEV_SERIAL \<Longrightarrow> unat (device_no (devs k) DEV_SERIAL) = serial_ports (devs k) \<Longrightarrow>
      device_open (devs k) DEV_SERIAL i = Some (0, Some (Serial_dcb (unat i), serial_fops))"
  using assms by (auto simp: ready_def initialized_devices_def device_open_def device_no_def nulldev_fops_def
      nulldev_open_def serial_fops_def serial_open_def word_less_nat_alt not_le)

lemma do_OpenNull:
  assumes "ready S k (f # fs)" and "first_open k (spid S) m" "m < MAX_FILEID" and "closes_ok k (spid S)"
  shows "\<exists>k'. do_call S n OpenNull k = Some (Returned (Val (int m)), k') \<and> ready S k' fs \<and> devs k' = devs k \<and>
     first_open k' (spid S) (m + 1) \<and> get_fcb k' (spid S) (int m) = Some f \<and>
     streamobj (FT k' f) = Some NULL_obj \<and> streamfunc (FT k' f) = Some nulldev_fops \<and>
     closes_ok k' (spid S)"
  by (rule do_open [OF assms _ ready_devices(1) [OF assms(1)]])
     (simp_all add: sys_OpenNull_def nulldev_fops_def nulldev_close_def)

section \<open>Verdicts\<close>

text \<open>The first process before it has opened anything.\<close>

definition fresh :: "test_setup \<Rightarrow> kernel \<Rightarrow> bool" where
  "fresh S k \<longleftrightarrow> ready S k [0..<MAX_FILES] \<and> first_open k (spid S) 0"

lemma freshD:
  assumes "fresh S k"
  shows "quiet k" and "ready S k (0 # [1..<MAX_FILES])" and "first_open k (spid S) 0" and "closes_ok k (spid S)"
  using assms upt_conv_Cons [of 0 MAX_FILES]
  by (auto simp: fresh_def ready_def first_open_def closes_ok_def MAX_FILES_def MAX_PROC_def)

lemma bad_fid_verdict:
  assumes "fresh S k"
    and "\<And>s. stub_result (req s) = Some (Val (-1))"
  shows "verdict_of (fails_on_bad_fid req) S n mem k = Some True"
proof -
  obtain k' where k': "do_call S (n + 1) OpenNull k = Some (Returned (Val 0), k')" "ready S k' [1..<MAX_FILES]"
    using do_OpenNull [OF freshD(2,3) [OF assms(1)] _ freshD(4) [OF assms(1)], of "n + 1"] by (auto simp: MAX_FILEID_def)
  have q: "quiet k" "quiet k'" using freshD(1) [OF assms(1)] k'(2) by (simp_all add: ready_def)
  note c = verdict_call(2) [OF stub_call [OF q(1) assms(2)]] verdict_call(2) [OF stub_call [OF q(2) assms(2)]]
    verdict_call(2) [OF k'(1)]
  show ?thesis by (simp add: fails_on_bad_fid_def c [simplified])
qed

text \<open>The suites as their tests with their names. \<open>bound\<close>, \<open>buf\<close> and \<open>stk\<close> as in the tests, \<open>pp\<close> the contents
  of the structures for the pipes.\<close>

definition pipe_tests :: "nat \<Rightarrow> byte list \<Rightarrow> int \<times> int \<Rightarrow> (string \<times> tact) list" where
  "pipe_tests bound buf pp =
    [(''test_pipe_open'', test_pipe_open pp),
     (''test_pipe_fails_on_exhausted_fid'', test_pipe_fails_on_exhausted_fid),
     (''test_pipe_close_reader'', test_pipe_close_reader pp),
     (''test_pipe_close_writer'', test_pipe_close_writer pp),
     (''test_pipe_single_producer'', test_pipe_single_producer bound buf pp),
     (''test_pipe_multi_producer'', test_pipe_multi_producer bound buf pp)]"

definition socket_tests :: "nat \<Rightarrow> byte list \<Rightarrow> byte list \<Rightarrow> (string \<times> tact) list" where
  "socket_tests bound buf stk =
    [(''test_socket_constructor_many_per_port'', test_socket_constructor_many_per_port),
     (''test_socket_constructor_out_of_fids'', test_socket_constructor_out_of_fids),
     (''test_socket_constructor_illegal_port'', test_socket_constructor_illegal_port),
     (''test_listen_success'', test_listen_success),
     (''test_listen_fails_on_bad_fid'', test_listen_fails_on_bad_fid),
     (''test_listen_fails_on_NOPORT'', test_listen_fails_on_NOPORT),
     (''test_listen_fails_on_occupied_port'', test_listen_fails_on_occupied_port),
     (''test_listen_fails_on_initialized_socket'', test_listen_fails_on_initialized_socket),
     (''test_accept_succeds'', test_accept_succeds),
     (''test_accept_fails_on_bad_fid'', test_accept_fails_on_bad_fid),
     (''test_accept_fails_on_unbound_socket'', test_accept_fails_on_unbound_socket),
     (''test_accept_fails_on_connected_socket'', test_accept_fails_on_connected_socket),
     (''test_accept_reusable'', test_accept_reusable),
     (''test_accept_fails_on_exhausted_fid'', test_accept_fails_on_exhausted_fid),
     (''test_accept_unblocks_on_close'', test_accept_unblocks_on_close),
     (''test_connect_fails_on_bad_fid'', test_connect_fails_on_bad_fid),
     (''test_connect_fails_on_bad_socket'', test_connect_fails_on_bad_socket),
     (''test_connect_fails_on_illegal_port'', test_connect_fails_on_illegal_port),
     (''test_connect_fails_on_non_listened_port'', test_connect_fails_on_non_listened_port),
     (''test_connect_fails_on_timeout'', test_connect_fails_on_timeout),
     (''test_socket_small_transfer'', test_socket_small_transfer),
     (''test_socket_single_producer'', test_socket_single_producer bound buf),
     (''test_socket_multi_producer'', test_socket_multi_producer bound buf),
     (''test_shudown_read'', test_shudown_read),
     (''test_shudown_write'', test_shudown_write stk)]"

text \<open>Every test that makes a pipe or a socket and wants to have it fails at that point, whatever follows.\<close>

lemma makes_fail:
  assumes "quiet k"
  shows "verdict_of (call Pipe (\<lambda>r. ASSERT (r = 0) t)) S n mem k = Some False"
    and "verdict_of (call (Socket p) (\<lambda>s. ASSERT (s \<noteq> NOFILE) (f s))) S n mem k = Some False"
    and "verdict_of (call (Socket p) (\<lambda>s. call (Listen s) (\<lambda>r. ASSERT (r = 0) (f s)))) S n mem k = Some False"
  using assms by (simp_all add: stub_verdict)

lemma for_each_Cons: "for_each (i # is) body t = body i (for_each is body t)"
  by (simp add: for_each_def)

lemma upt_MAX_FILEID: "[0..<MAX_FILEID] = 0 # [1..<MAX_FILEID]" "[0..<MAX_FILEID div 2] = 0 # [1..<MAX_FILEID div 2]"
  using upt_conv_Cons [of 0 MAX_FILEID] upt_conv_Cons [of 0 "MAX_FILEID div 2"] by (simp_all add: MAX_FILEID_def)

lemma pipe_verdicts:
  assumes "quiet k"
  shows "verdict_of (test_pipe_open pp) S n mem k = Some False"
    and "verdict_of test_pipe_fails_on_exhausted_fid S n mem k = Some False"
    and "verdict_of (test_pipe_close_reader pp) S n mem k = Some False"
    and "verdict_of (test_pipe_close_writer pp) S n mem k = Some False"
    and "verdict_of (test_pipe_single_producer bound buf pp) S n mem k = Some False"
    and "verdict_of (test_pipe_multi_producer bound buf pp) S n mem k = Some False"
  unfolding test_pipe_open_def test_pipe_fails_on_exhausted_fid_def test_pipe_close_reader_def
    test_pipe_close_writer_def test_pipe_single_producer_def test_pipe_multi_producer_def upt_MAX_FILEID for_each_Cons
  by (rule makes_fail [OF assms])+

lemma socket_failing:
  assumes "quiet k"
  shows "verdict_of test_socket_constructor_many_per_port S n mem k = Some False"
    and "verdict_of test_socket_constructor_out_of_fids S n mem k = Some False"
    and "verdict_of test_socket_constructor_illegal_port S n mem k = Some False"
    and "verdict_of test_accept_reusable S n mem k = Some False"
    and "verdict_of test_accept_fails_on_exhausted_fid S n mem k = Some False"
    and "verdict_of test_accept_unblocks_on_close S n mem k = Some False"
    and "verdict_of test_connect_fails_on_bad_socket S n mem k = Some False"
    and "verdict_of test_connect_fails_on_timeout S n mem k = Some False"
    and "verdict_of test_socket_small_transfer S n mem k = Some False"
    and "verdict_of (test_socket_single_producer bound buf) S n mem k = Some False"
    and "verdict_of (test_socket_multi_producer bound buf) S n mem k = Some False"
    and "verdict_of test_shudown_read S n mem k = Some False"
    and "verdict_of (test_shudown_write stk) S n mem k = Some False"
  unfolding test_socket_constructor_many_per_port_def test_socket_constructor_out_of_fids_def
    test_socket_constructor_illegal_port_def test_accept_reusable_def test_accept_fails_on_exhausted_fid_def
    test_accept_unblocks_on_close_def test_connect_fails_on_bad_socket_def test_connect_fails_on_timeout_def
    test_socket_small_transfer_def test_socket_single_producer_def test_socket_multi_producer_def
    test_shudown_read_def test_shudown_write_def listening_socket_def arrange_sockets_def arrange_shutdown_def
    upt_MAX_FILEID for_each_Cons
  by (rule makes_fail(2) [OF assms])+

lemma listen_failing:
  assumes "quiet k"
  shows "verdict_of test_listen_success S n mem k = Some False"
    and "verdict_of test_listen_fails_on_occupied_port S n mem k = Some False"
    and "verdict_of test_listen_fails_on_initialized_socket S n mem k = Some False"
    and "verdict_of test_accept_succeds S n mem k = Some False"
    and "verdict_of test_accept_fails_on_connected_socket S n mem k = Some False"
  unfolding test_listen_success_def listen_new_def test_listen_fails_on_occupied_port_def
    test_listen_fails_on_initialized_socket_def test_accept_succeds_def test_accept_fails_on_connected_socket_def
    listen_and_connect_def
  by (rule makes_fail(3) [OF assms])+

text \<open>Tests that only look for failures pass.\<close>

lemma socket_passing:
  assumes "fresh S k"
  shows "verdict_of test_listen_fails_on_bad_fid S n mem k = Some True"
    and "verdict_of test_listen_fails_on_NOPORT S n mem k = Some True"
    and "verdict_of test_accept_fails_on_bad_fid S n mem k = Some True"
    and "verdict_of test_accept_fails_on_unbound_socket S n mem k = Some True"
    and "verdict_of test_connect_fails_on_bad_fid S n mem k = Some True"
    and "verdict_of test_connect_fails_on_illegal_port S n mem k = Some True"
    and "verdict_of test_connect_fails_on_non_listened_port S n mem k = Some True"
proof -
  have q: "quiet k" using freshD(1) [OF assms] .
  show "verdict_of test_listen_fails_on_bad_fid S n mem k = Some True"
      "verdict_of test_accept_fails_on_bad_fid S n mem k = Some True"
      "verdict_of test_connect_fails_on_bad_fid S n mem k = Some True"
    unfolding test_listen_fails_on_bad_fid_def test_accept_fails_on_bad_fid_def test_connect_fails_on_bad_fid_def
    by (rule bad_fid_verdict [OF assms], simp add: NOFILE_def)+
  show "verdict_of test_listen_fails_on_NOPORT S n mem k = Some True"
      "verdict_of test_accept_fails_on_unbound_socket S n mem k = Some True"
      "verdict_of test_connect_fails_on_illegal_port S n mem k = Some True"
      "verdict_of test_connect_fails_on_non_listened_port S n mem k = Some True"
    using q by (simp_all add: test_listen_fails_on_NOPORT_def listen_new_def test_accept_fails_on_unbound_socket_def
        test_connect_fails_on_illegal_port_def test_connect_fails_on_non_listened_port_def connect_fails_def
        stub_verdict NOFILE_def)
qed

section \<open>File tests\<close>

lemma for_each_same:
  assumes "\<And>i t n. i \<in> set is \<Longrightarrow> verdict_of (body i t) S n mem k = verdict_of t S (n + 1) mem k"
  shows "verdict_of (for_each is body t) S n mem k = verdict_of t S (n + length is) mem k"
  using assms by (induction "is" arbitrary: n) (simp_all add: for_each_def)

lemma fresh_closed: "fresh S k \<Longrightarrow> get_fcb k (spid S) fd = None"
  by (auto simp: fresh_def first_open_def)

lemma fresh_simple_tests:
  assumes "fresh S k"
  shows "spid S = 1 \<Longrightarrow> verdict_of test_pid_of_init_is_one S n mem k = Some True"
    and "verdict_of (test_get_terminals (device_no (devs k) DEV_SERIAL)) S n mem k = Some True"
    and "verdict_of test_dup2_error_on_nonfile S n mem k = Some True"
    and "verdict_of test_close_error_on_invalid_fid S n mem k = Some True"
    and "verdict_of test_close_success_on_valid_nonfile_fid S n mem k = Some True"
    and "verdict_of test_read_error_on_bad_fid S n mem k = Some True"
    and "verdict_of (test_write_error_on_bad_fid buf) S n mem k = Some True"
proof -
  note F = freshD [OF assms] and C = fresh_closed [OF assms]
  note pure = verdict_call(2) [OF pure_call(1) [OF F(1)]] verdict_call(2) [OF pure_call(2) [OF F(1)]]
  have dup: "verdict_of (call (Dup2 fd fd') g) S n mem k = verdict_of (g (-1)) S (n + 1) mem k" for fd fd' g n
    using verdict_call(2) [OF do_Dup2 [OF F(2), of fd fd' n]] C by simp
  have cls: "verdict_of (call (CloseFid fd) g) S n mem k =
      verdict_of (g (if 0 \<le> fd \<and> fd < int MAX_FILEID then 0 else -1)) S (n + 1) mem k" for fd g n
  proof -
    obtain r where "do_call S n (CloseFid fd) k = Some (Returned (Val r), k)"
      "r = (if 0 \<le> fd \<and> fd < int MAX_FILEID then 0 else -1)"
      using do_Close [OF F(2), of n fd] C [of fd] by blast
    then show ?thesis using verdict_call(2) by simp
  qed
  note io = do_io_closed [OF F(2) C]
  show "spid S = 1 \<Longrightarrow> verdict_of test_pid_of_init_is_one S n mem k = Some True"
    by (simp add: test_pid_of_init_is_one_def pure sys_GetPid_def get_pid_def)
  show "verdict_of (test_get_terminals (device_no (devs k) DEV_SERIAL)) S n mem k = Some True"
    by (simp add: test_get_terminals_def pure)
  show "verdict_of test_dup2_error_on_nonfile S n mem k = Some True"
    unfolding test_dup2_error_on_nonfile_def by (subst for_each_same) (simp_all add: dup)
  show "verdict_of test_close_error_on_invalid_fid S n mem k = Some True"
    by (simp add: test_close_error_on_invalid_fid_def cls NOFILE_def)
  show "verdict_of test_close_success_on_valid_nonfile_fid S n mem k = Some True"
    unfolding test_close_success_on_valid_nonfile_fid_def by (subst for_each_same) (simp_all add: cls)
  show "verdict_of test_read_error_on_bad_fid S n mem k = Some True"
    by (simp add: test_read_error_on_bad_fid_def verdict_call(2) [OF io(1)])
  show "verdict_of (test_write_error_on_bad_fid buf) S n mem k = Some True"
    by (simp add: test_write_error_on_bad_fid_def verdict_call(2) [OF io(2)])
qed

lemma fresh_dup2_invalid:
  assumes "fresh S k"
  shows "verdict_of test_dup2_error_on_invalid_fid S n mem k = Some True"
proof -
  note F = freshD [OF assms] and C = fresh_closed [OF assms]
  obtain k' where k': "do_call S (n + 2) OpenNull k = Some (Returned (Val 0), k')" "ready S k' [1..<MAX_FILES]"
    using do_OpenNull [OF F(2,3) _ F(4), of "n + 2"] by (auto simp: MAX_FILEID_def)
  note d = do_Dup2 [OF F(2), of _ 3] do_Dup2 [OF k'(2), of 0]
  show ?thesis unfolding test_dup2_error_on_invalid_fid_def
    using C k'(1) by (simp add: verdict_call(2) [OF d(1)] verdict_call(2) [OF k'(1), simplified] verdict_call(2) [OF d(2)] NOFILE_def)
qed

text \<open>Reading and writing the null device.\<close>

lemma io_finish_frame:
  assumes "io_finish k f (Done (m, buf), ksched (monitor k)) = Some (r, k')"
  shows "monitor k' = monitor k \<and> devs k' = devs k \<and> PT k' = PT k \<and> (\<forall>g. streamfunc (FT k' g) = streamfunc (FT k g) \<and>
    streamobj (FT k' g) = streamobj (FT k g))"
  using assms by (auto simp: io_finish_def set_sched_def same_but_files_def dest!: decref_same split: bind_splits prod.splits)

lemma null_io:
  assumes r: "ready S k fs" and f: "get_fcb k (spid S) fd = Some f" and ok: "closes_ok k (spid S)"
    and null: "streamfunc (FT k f) = Some nulldev_fops" "streamobj (FT k f) = Some NULL_obj"
  shows "\<exists>k'. do_call S n (ReadFid fd sz) k = Some (Returned (Data (sint sz) (replicate (unat sz) 0)), k') \<and>
      ready S k' fs \<and> get_fcb k' (spid S) fd = Some f \<and> closes_ok k' (spid S) \<and>
      streamfunc (FT k' f) = Some nulldev_fops \<and> streamobj (FT k' f) = Some NULL_obj"
    and "\<exists>k'. do_call S n (WriteFid fd buf sz) k = Some (Returned (Data (sint sz) []), k') \<and>
      ready S k' fs \<and> closes_ok k' (spid S)"
proof -
  note R = readyD [OF r]
  let ?k = "locked k" let ?k1 = "FCB_incref ?k f"
  have g: "get_fcb ?k (spid S) fd = Some f" and n: "streamfunc (FT ?k f) = Some nulldev_fops" "streamobj (FT ?k f) = Some NULL_obj"
    using f null by simp_all
  have inc: "monitor ?k1 = monitor ?k" "devs ?k1 = devs ?k" "PT ?k1 = PT ?k"
    "streamfunc (FT ?k1 h) = streamfunc (FT k h)" "streamobj (FT ?k1 h) = streamobj (FT k h)" for h
    by (simp_all add: FCB_incref_def)
  have same: "get_fcb k2 (spid S) x = get_fcb k (spid S) x" if "PT k2 = PT ?k1" for k2 x
    using that inc(3) by (simp add: get_fcb_def)
  have cok: "closes_ok (unlocked k2) (spid S)"
    if "PT k2 = PT ?k1" "\<forall>h. streamfunc (FT k2 h) = streamfunc (FT ?k1 h) \<and> streamobj (FT k2 h) = streamobj (FT ?k1 h)" for k2
    using ok same [OF that(1)] that(2) inc(4) by (simp add: closes_ok_def)
  obtain k2 where k2: "sys_Read ?k (score S) (spid S) fd sz (rx_bytes (senv S n)) = Some (Done (sint sz, replicate (unat sz) 0), k2)"
    "stream_inv k2 (\<lambda>_. 0) fs" "PT k2 = PT ?k1"
    using sys_Read_spec [OF R(3,2) g _ n(1) _ n(2), of nulldev_read "score S" sz "rx_bytes (senv S n)"] inc(3)
    by (auto simp: nulldev_fops_def nulldev_read_def)
  have "io_finish ?k1 f (Done (sz, replicate (unat sz) 0), ksched (monitor ?k1)) = Some (Done (sint sz, replicate (unat sz) 0), k2)"
    using k2(1) g n by (simp add: sys_Read_def nulldev_fops_def nulldev_read_def)
  note fr = io_finish_frame [OF this]
  show "\<exists>k'. do_call S n (ReadFid fd sz) k = Some (Returned (Data (sint sz) (replicate (unat sz) 0)), k') \<and>
      ready S k' fs \<and> get_fcb k' (spid S) fd = Some f \<and> closes_ok k' (spid S) \<and>
      streamfunc (FT k' f) = Some nulldev_fops \<and> streamobj (FT k' f) = Some NULL_obj"
    using do_ready [OF r, of "ReadFid fd sz" n _ k2 fs] k2 fr inc f null same [OF k2(3)] cok [OF k2(3)]
    by (intro exI [of _ "unlocked k2"]) (simp add: may_block_def)
  obtain k3 where k3: "sys_Write ?k (score S) (spid S) fd buf sz (tx_room (senv S n)) = Some (Done (sint sz, []), k3)"
    "stream_inv k3 (\<lambda>_. 0) fs" "PT k3 = PT ?k1"
    using sys_Write_spec [OF R(3,2) g _ n(1) _ n(2), of nulldev_write "score S" buf sz "tx_room (senv S n)"] inc(3)
    by (auto simp: nulldev_fops_def nulldev_write_def)
  have "io_finish ?k1 f (Done (sz, []), ksched (monitor ?k1)) = Some (Done (sint sz, []), k3)"
    using k3(1) g n by (simp add: sys_Write_def nulldev_fops_def nulldev_write_def)
  note fr = io_finish_frame [OF this]
  show "\<exists>k'. do_call S n (WriteFid fd buf sz) k = Some (Returned (Data (sint sz) []), k') \<and>
      ready S k' fs \<and> closes_ok k' (spid S)"
    using do_ready [OF r, of "WriteFid fd buf sz" n _ k3 fs] k3 fr inc cok [OF k3(3)]
    by (intro exI [of _ "unlocked k3"]) (simp add: may_block_def)
qed

lemma fresh_null_device:
  assumes "fresh S k"
  shows "verdict_of test_null_device S n mem k = Some True"
proof -
  note F = freshD [OF assms]
  obtain k1 where k1: "do_call S n OpenNull k = Some (Returned (Val 0), k1)" "ready S k1 [1..<MAX_FILES]"
    "get_fcb k1 (spid S) 0 = Some 0" "streamobj (FT k1 0) = Some NULL_obj" "streamfunc (FT k1 0) = Some nulldev_fops"
    "closes_ok k1 (spid S)"
    using do_OpenNull [OF F(2,3) _ F(4), of n] by (auto simp: MAX_FILEID_def)
  obtain k2 where k2: "do_call S (n + 1) (ReadFid 0 10) k1 = Some (Returned (Data 10 (replicate 10 0)), k2)"
    "ready S k2 [1..<MAX_FILES]" "get_fcb k2 (spid S) 0 = Some 0" "closes_ok k2 (spid S)"
    "streamfunc (FT k2 0) = Some nulldev_fops" "streamobj (FT k2 0) = Some NULL_obj"
    using null_io(1) [OF k1(2,3,6,5,4), of "n + 1" 10] by auto
  obtain k3 where k3: "do_call S (n + 2) (WriteFid 0 [] 123456) k2 = Some (Returned (Data 123456 []), k3)"
    "ready S k3 [1..<MAX_FILES]" "closes_ok k3 (spid S)"
    using null_io(2) [OF k2(2-6), of "n + 2" "[]" 123456] by auto
  obtain k4 where k4: "do_call S (Suc (Suc (Suc n))) (CloseFid 0) k3 = Some (Returned (Val 0), k4)"
    using do_Close_ok [OF k3(2,3), of 0 "Suc (Suc (Suc n))"] by (auto simp: MAX_FILEID_def)
  have z: "drop 10 (ascii ''zavarakatranemia'') @ drop (10 - length (ascii ''zavarakatranemia'')) [0] = ascii ''anemia'' @ [0]"
    by (simp add: ascii_def)
  show ?thesis
    unfolding test_null_device_def null_read_def Let_def
    by (simp add: verdict_call(2) [OF k1(1)] verdict_call(1) [OF k2(1), simplified] data_of_def z
        verdict_call(2) [OF k3(1), simplified] verdict_call(2) [OF k4])
qed

text \<open>Opening and closing all terminals.\<close>

definition terminals :: "kernel \<Rightarrow> nat \<Rightarrow> bool" where
  "terminals k nt \<longleftrightarrow> nt \<le> MAX_TERMINALS \<and> serial_ports (devs k) = nt \<and> device_no (devs k) DEV_SERIAL = of_nat nt"

lemma terminals_unat: "terminals k nt \<Longrightarrow> unat (device_no (devs k) DEV_SERIAL) = nt"
  by (simp add: terminals_def unat_of_nat_small MAX_TERMINALS_def)

lemma terminals_call:
  assumes "terminals k nt" and "quiet k"
  shows "verdict_of (call GetTerminalDevices g) S n mem k = verdict_of (g (int nt)) S (n + 1) mem k"
  using verdict_call(2) [OF pure_call(2) [OF assms(2)]] terminals_unat [OF assms(1)] by (simp add: uint_nat)

lemma open_terminals_run:
  assumes "ready S k fs" "first_open k (spid S) i" "closes_ok k (spid S)" "terminals k nt"
    and "i \<le> nt" "nt - i \<le> length fs" "nt - i < b"
  shows "\<exists>n' k' fs'. verdict_of (open_terminals b i acc g) S n mem k = verdict_of (g (acc @ map int [i..<nt])) S n' mem k' \<and>
     ready S k' fs' \<and> closes_ok k' (spid S) \<and> terminals k' nt"
  using assms
proof (induction "nt - i" arbitrary: i k fs n b acc)
  case 0
  then obtain b' where "b = Suc b'" "i = nt" by (cases b) auto
  moreover have "quiet k" using 0 by (simp add: ready_def)
  ultimately show ?case using 0 terminals_call [OF "0.prems"(4)] by auto
next
  case (Suc d)
  then obtain b' f fs1 where b: "b = Suc b'" and lt: "i < nt" and fs: "fs = f # fs1" by (cases b; cases fs) auto
  have q: "quiet k" using Suc.prems by (simp add: ready_def)
  have i: "unat (of_nat i :: uint32) = i" "i < MAX_FILEID"
    using lt Suc.prems(4) by (simp_all add: terminals_def unat_of_nat_small MAX_TERMINALS_def MAX_FILEID_def)
  have u: "unat (device_no (devs k) DEV_SERIAL) = serial_ports (devs k)" "serial_ports (devs k) = nt"
    using terminals_unat [OF Suc.prems(4)] Suc.prems(4) by (simp_all add: terminals_def)
  have "(of_nat i :: uint32) < device_no (devs k) DEV_SERIAL"
    using i(1) lt u by (simp add: word_less_nat_alt)
  from ready_devices(2) [OF Suc.prems(1) this u(1)]
  have "device_open (devs k) DEV_SERIAL (of_nat i) = Some (0, Some (Serial_dcb i, serial_fops))" by (simp add: i)
  then obtain k1 where k1: "do_call S (n + 1) (OpenTerminal (of_nat i)) k = Some (Returned (Val (int i)), k1)"
    "ready S k1 fs1" "devs k1 = devs k" "first_open k1 (spid S) (i + 1)" "closes_ok k1 (spid S)"
    using do_open [OF Suc.prems(1) [unfolded fs] Suc.prems(2) i(2) Suc.prems(3), of "OpenTerminal (of_nat i)" DEV_SERIAL "of_nat i"]
    by (auto simp: sys_OpenTerminal_def serial_fops_def serial_close_def)
  have t1: "terminals k1 nt" using Suc.prems(4) k1(3) by (simp add: terminals_def)
  have "d = nt - (i + 1)" "i + 1 \<le> nt" "nt - (i + 1) \<le> length fs1" "nt - (i + 1) < b'"
    using Suc.hyps(2) Suc.prems(5-7) b fs lt by auto
  from Suc.hyps(1) [OF this(1) k1(2,4,5) t1 this(2-4), of "acc @ [int i]" "n + 2"] obtain n' k' fs' where
    "verdict_of (open_terminals b' (i + 1) (acc @ [int i]) g) S (n + 2) mem k1 =
       verdict_of (g ((acc @ [int i]) @ map int [i + 1..<nt])) S n' mem k'"
    "ready S k' fs'" "closes_ok k' (spid S)" "terminals k' nt"
    by blast
  moreover have "map int [i..<nt] = int i # map int [i + 1..<nt]" using lt by (simp add: upt_conv_Cons)
  moreover have "int i \<noteq> NOFILE" by (simp add: NOFILE_def)
  ultimately show ?case
    using terminals_call [OF Suc.prems(4) q] verdict_call(2) [OF k1(1)] lt b by (auto simp: simp del: upt.simps)
qed

lemma close_terminals_run:
  assumes "ready S k fs" "closes_ok k (spid S)" "terminals k nt" and "i \<le> nt" "nt - i < b"
  shows "verdict_of (for_terminals b i (\<lambda>i t. call (CloseFid (map int [0..<nt] ! i)) (\<lambda>r. ASSERT (r = 0) t)) (T_return 0)) S n mem k
     = Some True"
  using assms
proof (induction "nt - i" arbitrary: i k fs n b)
  case 0
  then obtain b' where "b = Suc b'" "i = nt" by (cases b) auto
  moreover have "quiet k" using 0 by (simp add: ready_def)
  ultimately show ?case using terminals_call [OF "0.prems"(3)] by simp
next
  case (Suc d)
  then obtain b' where b: "b = Suc b'" and lt: "i < nt" by (cases b) auto
  have q: "quiet k" using Suc.prems by (simp add: ready_def)
  have "int i < int MAX_FILEID" using lt Suc.prems(3) by (simp add: terminals_def MAX_TERMINALS_def MAX_FILEID_def)
  then obtain k1 fs1 where k1: "do_call S (n + 1) (CloseFid (int i)) k = Some (Returned (Val 0), k1)"
    "ready S k1 fs1" "devs k1 = devs k" "closes_ok k1 (spid S)"
    using do_Close_ok [OF Suc.prems(1,2), of "int i" "n + 1"] by auto
  have "terminals k1 nt" using Suc.prems(3) k1(3) by (simp add: terminals_def)
  from Suc.hyps(1) [of "i + 1" k1 fs1 b' "n + 2", OF _ k1(2,4) this] Suc.hyps(2) Suc.prems(4,5) lt b
  show ?case using terminals_call [OF Suc.prems(3) q] verdict_call(2) [OF k1(1)] by simp
qed

lemma fresh_terminals:
  assumes "fresh S k" and "terminals k nt"
  shows "verdict_of test_open_terminals S n mem k = Some True"
    and "verdict_of test_close_terminals S n mem k = Some True"
proof -
  note F = freshD [OF assms(1)]
  have nt: "nt \<le> MAX_TERMINALS" using assms(2) by (simp add: terminals_def)
  then have l: "nt - 0 \<le> length (0 # [1..<MAX_FILES])" "nt - 0 < MAX_TERMINALS + 1"
    by (simp_all add: MAX_FILES_def MAX_PROC_def MAX_TERMINALS_def)
  note run = open_terminals_run [OF F(2,3,4) assms(2) le0 l, of "[]" _ n mem]
  show "verdict_of test_open_terminals S n mem k = Some True"
    using run [of "\<lambda>trm. T_return 0"] unfolding test_open_terminals_def by auto
  obtain n' k' fs' where "verdict_of test_close_terminals S n mem k =
      verdict_of (for_terminals (MAX_TERMINALS + 1) 0
        (\<lambda>i t. call (CloseFid (map int [0..<nt] ! i)) (\<lambda>r. ASSERT (r = 0) t)) (T_return 0)) S n' mem k'"
    "ready S k' fs'" "closes_ok k' (spid S)" "terminals k' nt"
    using run [of "\<lambda>trm. for_terminals (MAX_TERMINALS + 1) 0 (\<lambda>i k. call (CloseFid (trm ! i)) (\<lambda>r. ASSERT (r = 0) k)) (T_return 0)"]
    unfolding test_close_terminals_def by auto
  then show "verdict_of test_close_terminals S n mem k = Some True"
    using close_terminals_run [of S k' fs' nt 0 "MAX_TERMINALS + 1" n' mem] nt by simp
qed

section \<open>Boot\<close>

lemma booted_fresh:
  assumes "fresh_monitor k" and "new_block e = Thread j" and "serial_ports (devs k) \<le> MAX_TERMINALS" and "spid S = 1"
  shows "\<exists>k'. boot_tinyos_kernel br e w w' k = Some k' \<and> fresh S k' \<and> terminals k' (serial_ports (devs k))"
proof -
  obtain k' where k': "boot_tinyos_kernel br e w w' k = Some k'" "stream_inv k' (\<lambda>_. 0) [0..<MAX_FILES]" "sem k' = 1"
    "waitset (kcvs (monitor k')) kernel_sem_cv = None" "initialized_devices (devs k) (devs k')"
    using booted [OF assms(1,2), of br w w'] by blast
  have p: "(1 :: nat) < MAX_PROC" by (simp add: MAX_PROC_def)
  have "get_fcb k' 1 fd = None" for fd
  proof (cases "get_fcb k' 1 fd")
    case (Some f)
    then show ?thesis using descriptor_ok(1,2) [OF k'(2) p, of "nat fd" f] get_fcb_Some [OF Some] by auto
  qed
  then have "fresh S k'" using k' p assms(4) by (auto simp: fresh_def ready_def quiet_def first_open_def)
  moreover have "terminals k' (serial_ports (devs k))"
    using k'(5) assms(3) by (simp add: initialized_devices_def terminals_def device_no_def)
  ultimately show ?thesis using k'(1) by blast
qed

end
