(* ===== verification/Terminal.thy ===== *)
theory Terminal
  imports Prelude C_Text "HOL-Library.Sublist"
begin

text \<open>
  The terminal emulator, \<^verbatim>\<open>terminal.c\<close>: a program of the host that copies bytes from its standard
  input to the keyboard pipe of a serial port and from the console pipe to its standard output.

  Entry 0 of the polling array is standard input, 1 standard output, 2 the keyboard pipe and 3 the console
  pipe. A descriptor that is ready is taken out of the set by making it negative, until its partner is
  ready too. What \<open>poll\<close>, \<open>read\<close> and \<open>write\<close> return is a \<open>round\<close>. \<open>EXIT_ON_STDIN_CLOSE\<close> is not defined in the
  sources, so its code is not compiled.
\<close>

section \<open>The polling array\<close>

text \<open>\<open>copied 0\<close> and \<open>copied 3\<close> are what has been read from standard input and from the console pipe, and what of
  it has been written on.\<close>

record term_io =
  fds :: "nat \<Rightarrow> int"
  tstate :: "nat \<Rightarrow> bool"
  errst :: "nat \<Rightarrow> bool"
  copied :: "nat \<Rightarrow> byte list \<times> byte list"
  complaints :: string

definition flip :: "nat \<Rightarrow> term_io \<Rightarrow> term_io" where
  "flip i t = t\<lparr>fds := (fds t)(i := - fds t i - 1)\<rparr>"

definition polled :: "term_io \<Rightarrow> nat \<Rightarrow> bool" where
  "polled t i \<longleftrightarrow> fds t i \<ge> 0"

text \<open>A round: for each entry, whether an event that was asked for occurred and whether an error occurred;
  for each direction, the byte read, if any, and whether it could be written.\<close>

record round =
  got_event :: "nat \<Rightarrow> bool"
  got_error :: "nat \<Rightarrow> bool"
  got_byte :: "nat \<Rightarrow> byte option"
  got_written :: "nat \<Rightarrow> bool"

definition update_indicator :: "round \<Rightarrow> nat \<Rightarrow> term_io \<Rightarrow> term_io" where
  "update_indicator r i t =
     (if polled t i then
        (let t1 = t\<lparr>tstate := (tstate t)(i := got_event r i)\<rparr>;
             t2 = (if tstate t1 i then flip i t1 else t1)
         in t2\<lparr>errst := (errst t2)(i := got_error r i)\<rparr>)
      else t)"

definition transfer_byte :: "round \<Rightarrow> nat \<Rightarrow> nat \<Rightarrow> term_io \<Rightarrow> term_io" where
  "transfer_byte r from to t =
     (let (inb, outb) = copied t from;
          t1 = (case got_byte r from of
                  Some b \<Rightarrow> t\<lparr>copied := (copied t)(from := (inb @ [b], if got_written r from then outb @ [b] else outb))\<rparr>
                | None \<Rightarrow> t)
      in flip to (flip from t1))"

definition complain :: "term_io \<Rightarrow> term_io" where
  "complain t = t\<lparr>complaints := complaints t @ (if errst t 0 then ''Error in 0'' @ nl else []) @
     (if errst t 1 then ''Error in 1'' @ nl else [])\<rparr>"

text \<open>One pass of the loop of \<open>io_loop\<close>: does it break?\<close>

definition io_round :: "round \<Rightarrow> term_io \<Rightarrow> bool \<times> term_io" where
  "io_round r t =
     (let t1 = complain (fold (update_indicator r) [0, 1, 2, 3] t);
          XKBD = (tstate t1 0 \<and> tstate t1 2);
          XCON = (tstate t1 1 \<and> tstate t1 3)
      in if \<not> XKBD \<and> \<not> XCON \<and> (errst t1 2 \<or> errst t1 3) then (True, t1)
         else
           (let t2 = (if XKBD then transfer_byte r 0 2 t1 else t1);
                t3 = (if XCON then transfer_byte r 3 1 t2 else t2)
            in (False, t3)))"

fun io_rounds :: "round list \<Rightarrow> term_io \<Rightarrow> bool \<times> term_io" where
  "io_rounds [] t = (False, t)"
| "io_rounds (r # rs) t = (case io_round r t of (True, t') \<Rightarrow> (True, t') | (False, t') \<Rightarrow> io_rounds rs t')"

definition io_loop :: "int \<Rightarrow> int \<Rightarrow> round list \<Rightarrow> term_io \<Rightarrow> bool \<times> term_io" where
  "io_loop kbdfd confd rs t = io_rounds rs (t\<lparr>fds := (fds t)(2 := kbdfd, 3 := confd)\<rparr>)"

definition term_io_init :: term_io where
  "term_io_init = \<lparr>fds = (\<lambda>i. if i = 1 then 1 else 0), tstate = (\<lambda>_. False), errst = (\<lambda>_. False),
     copied = (\<lambda>_. ([], [])), complaints = []\<rparr>"

section \<open>Connections\<close>

definition disconnected :: string where
  "disconnected = nl @ CHR 0x1B # ''[5;41;1;37m   *** DISCONNECTED ***   '' @ CHR 0x1B # ''[0m'' @ nl"

definition connected :: string where
  "connected = CHR 0x1B # ''[5;40;1;37m   *** CONNECTED ***   '' @ CHR 0x1B # ''[0m'' @ nl"

text \<open>What a connection brings: the two descriptors, each \<open>None\<close> when \<open>open\<close> fails, and the rounds. The
  result is what has been printed, and the state when the peer is still connected, or \<open>None\<close> after an error
  exit.\<close>

record connection =
  con_fd :: "int option"
  kbd_fd :: "int option"
  rounds :: "round list"

definition open_pipe :: "int option \<Rightarrow> int option" where
  "open_pipe fd = fd"

fun mainloop :: "connection list \<Rightarrow> term_io \<Rightarrow> string \<times> term_io option" where
  "mainloop [] t = (disconnected, Some t)"
| "mainloop (c # cs) t =
     (case (open_pipe (con_fd c), open_pipe (kbd_fd c)) of
        (Some confd, Some kbdfd) \<Rightarrow>
          (case io_loop kbdfd confd (rounds c) t of
             (True, t') \<Rightarrow> (case mainloop cs t' of (out, res) \<Rightarrow> (disconnected @ connected @ out, res))
           | (False, t') \<Rightarrow> (disconnected @ connected, Some t'))
      | _ \<Rightarrow> (disconnected, None))"

definition terminal_arg_ok :: "string list \<Rightarrow> bool" where
  "terminal_arg_ok argv \<longleftrightarrow> length argv = 2 \<and> length (argv ! 1) = 1 \<and> argv ! 1 ! 0 \<in> set ''0123''"

section \<open>What the loop keeps\<close>

text \<open>\<open>fd\<close> are the descriptors of the connection. An entry has its descriptor or the negated one; an entry
  out of the set has been ready; of two partners at most one is out of the set.\<close>

definition entry_ok :: "(nat \<Rightarrow> int) \<Rightarrow> term_io \<Rightarrow> nat \<Rightarrow> bool" where
  "entry_ok fd t i \<longleftrightarrow> (if polled t i then fds t i = fd i else fds t i = - fd i - 1 \<and> tstate t i)"

definition io_inv :: "(nat \<Rightarrow> int) \<Rightarrow> term_io \<Rightarrow> bool" where
  "io_inv fd t \<longleftrightarrow> (\<forall>i < 4. 0 \<le> fd i \<and> entry_ok fd t i) \<and> (polled t 0 \<or> polled t 2) \<and> (polled t 1 \<or> polled t 3)"

definition entry_set :: "(nat \<Rightarrow> int) \<Rightarrow> term_io \<Rightarrow> nat \<Rightarrow> bool" where
  "entry_set fd t i \<longleftrightarrow> entry_ok fd t i \<and> (tstate t i \<longleftrightarrow> \<not> polled t i)"

lemma update_sets:
  assumes "0 \<le> fd i" and "entry_ok fd t i"
  shows "entry_set fd (update_indicator r i t) i"
  using assms by (auto simp: update_indicator_def entry_set_def entry_ok_def polled_def flip_def Let_def split: if_splits)

lemma update_frame:
  "j \<noteq> i \<Longrightarrow> fds (update_indicator r i t) j = fds t j" "j \<noteq> i \<Longrightarrow> tstate (update_indicator r i t) j = tstate t j"
  "copied (update_indicator r i t) = copied t"
  by (simp_all add: update_indicator_def flip_def Let_def)

lemma entry_frame:
  "j \<noteq> i \<Longrightarrow> entry_ok fd (update_indicator r i t) j = entry_ok fd t j"
  "j \<noteq> i \<Longrightarrow> entry_set fd (update_indicator r i t) j = entry_set fd t j"
  by (simp_all add: entry_set_def entry_ok_def polled_def update_frame)

lemma updates_set:
  assumes "io_inv fd t"
  shows "\<forall>i < 4. entry_set fd (fold (update_indicator r) [0, 1, 2, 3] t) i"
proof -
  have "entry_ok fd t i" "0 \<le> fd i" if "i < 4" for i using assms that by (auto simp: io_inv_def)
  then have "entry_set fd (fold (update_indicator r) [0, 1, 2, 3] t) i" if "i \<in> {0, 1, 2, 3}" for i
    using that by (auto simp: entry_frame intro!: update_sets)
  moreover have "i \<in> {0, 1, 2, 3}" if "i < 4" for i :: nat using that by auto
  ultimately show ?thesis by blast
qed

lemma complain_simps [simp]:
  "fds (complain t) = fds t" "tstate (complain t) = tstate t" "errst (complain t) = errst t" "copied (complain t) = copied t"
  by (simp_all add: complain_def)

lemma complain_entry [simp]: "entry_set fd (complain t) i = entry_set fd t i" "polled (complain t) i = polled t i"
  by (simp_all add: entry_set_def entry_ok_def polled_def)

lemma transfer_simps:
  "fds (transfer_byte r from to t) i =
     (if i = to \<and> i = from then fds t i else if i = to \<or> i = from then - fds t i - 1 else fds t i)"
  "tstate (transfer_byte r from to t) = tstate t"
  by (auto simp: transfer_byte_def flip_def Let_def split: option.splits prod.splits)

lemma io_round_inv:
  assumes "io_inv fd t" and "io_round r t = (brk, t')"
  shows "io_inv fd t'"
proof -
  let ?t = "complain (fold (update_indicator r) [0, 1, 2, 3] t)"
  have s: "entry_set fd ?t i" and nn: "0 \<le> fd i" if "i < 4" for i
    using updates_set [OF assms(1), of r] assms(1) that by (auto simp: io_inv_def)
  define u where "u = ?t"
  have s': "entry_set fd u 0" "entry_set fd u 1" "entry_set fd u 2" "entry_set fd u 3"
    using s [of 0] s [of 1] s [of 2] s [of 3] by (simp_all add: u_def)
  have four: "(\<forall>i < (4 :: nat). P i) \<longleftrightarrow> P 0 \<and> P 1 \<and> P 2 \<and> P 3" for P
    by (auto simp: numeral_eq_Suc less_Suc_eq)
  have n: "0 \<le> fd 0" "0 \<le> fd 1" "0 \<le> fd 2" "0 \<le> fd 3" using nn by simp_all
  have "t' = (let v = (if tstate u 0 \<and> tstate u 2 then transfer_byte r 0 2 u else u)
      in if tstate u 1 \<and> tstate u 3 then transfer_byte r 3 1 v else v)"
    using assms(2) by (auto simp: io_round_def u_def Let_def transfer_simps split: if_splits)
  then show ?thesis
    using s' n unfolding io_inv_def four
    by (auto simp: entry_set_def entry_ok_def polled_def transfer_simps Let_def split: if_splits)
qed

text \<open>What arrives at the other end is what was read, less the bytes whose write failed.\<close>

definition copied_ok :: "bool \<Rightarrow> term_io \<Rightarrow> bool" where
  "copied_ok all_written t \<longleftrightarrow> (\<forall>i \<in> {0, 3}. subseq (snd (copied t i)) (fst (copied t i)) \<and>
     (all_written \<longrightarrow> snd (copied t i) = fst (copied t i)))"

definition writes_ok :: "round \<Rightarrow> bool" where
  "writes_ok r \<longleftrightarrow> got_written r 0 \<and> got_written r 3"

lemma transfer_copied:
  assumes "copied_ok w t" and "w \<longrightarrow> writes_ok r" and "from \<in> {0, 3}"
  shows "copied_ok w (transfer_byte r from to t)"
proof -
  obtain inb outb where c: "copied t from = (inb, outb)" by force
  have "subseq outb inb" "w \<longrightarrow> outb = inb" using assms(1,3) c by (auto simp: copied_ok_def)
  then have s: "subseq (outb @ [b]) (inb @ [b])" "subseq outb (inb @ [b])" for b
    by (auto simp: subseq_append list_emb_prefix subseq_rev_drop_many intro: subseq_order.trans)
  have "w \<longrightarrow> got_written r from" using assms(2,3) by (auto simp: writes_ok_def)
  moreover have "copied (transfer_byte r from to t) = (case got_byte r from of
      Some b \<Rightarrow> (copied t)(from := (inb @ [b], if got_written r from then outb @ [b] else outb)) | None \<Rightarrow> copied t)"
    using c by (simp add: transfer_byte_def flip_def Let_def split: option.splits)
  ultimately show ?thesis
    using assms(1) s \<open>w \<longrightarrow> outb = inb\<close> by (auto simp: copied_ok_def split: option.splits)
qed

lemma io_round_copied:
  assumes "copied_ok w t" and "w \<longrightarrow> writes_ok r" and "io_round r t = (brk, t')"
  shows "copied_ok w t'"
proof -
  let ?u = "complain (fold (update_indicator r) [0, 1, 2, 3] t)"
  have "copied_ok w ?u" using assms(1) by (simp add: copied_ok_def update_frame)
  moreover have "t' = (let v = (if tstate ?u 0 \<and> tstate ?u 2 then transfer_byte r 0 2 ?u else ?u)
      in if tstate ?u 1 \<and> tstate ?u 3 then transfer_byte r 3 1 v else v)"
    using assms(3) by (auto simp: io_round_def Let_def split: if_splits)
  ultimately show ?thesis using assms(2) by (simp add: Let_def transfer_copied)
qed

lemma io_rounds_ok:
  assumes "io_inv fd t" "copied_ok w t" and "w \<longrightarrow> list_all writes_ok rs" and "io_rounds rs t = (brk, t')"
  shows "io_inv fd t' \<and> copied_ok w t'"
  using assms
proof (induction rs arbitrary: t)
  case (Cons r rs)
  obtain b t1 where r: "io_round r t = (b, t1)" by force
  have "io_inv fd t1" "copied_ok w t1"
    using io_round_inv [OF Cons.prems(1) r] io_round_copied [OF Cons.prems(2) _ r] Cons.prems(3) by auto
  then show ?case using Cons r by (cases b) auto
qed simp

lemma reconnect_inv:
  assumes "io_inv fd t" and "0 \<le> kbdfd" "0 \<le> confd"
  shows "io_inv (fd(2 := kbdfd, 3 := confd)) (t\<lparr>fds := (fds t)(2 := kbdfd, 3 := confd)\<rparr>)"
  using assms by (auto simp: io_inv_def entry_ok_def polled_def)

definition good_connection :: "connection \<Rightarrow> bool" where
  "good_connection c \<longleftrightarrow> (\<forall>n. con_fd c = Some n \<or> kbd_fd c = Some n \<longrightarrow> 0 \<le> n)"

lemma mainloop_ok:
  assumes "io_inv fd t" "copied_ok w t" and "list_all good_connection cs"
    and "w \<longrightarrow> list_all (\<lambda>c. list_all writes_ok (rounds c)) cs" and "mainloop cs t = (out, Some t')"
  shows "\<exists>fd'. io_inv fd' t' \<and> copied_ok w t'"
  using assms
proof (induction cs arbitrary: t fd out)
  case (Cons c cs)
  then obtain confd kbdfd where c: "con_fd c = Some confd" "kbd_fd c = Some kbdfd"
    by (auto simp: open_pipe_def split: option.splits)
  have "0 \<le> confd" "0 \<le> kbdfd" using Cons.prems(3) c by (auto simp: good_connection_def)
  note i = reconnect_inv [OF Cons.prems(1) this(2,1)]
  obtain b t1 where r: "io_loop kbdfd confd (rounds c) t = (b, t1)" by force
  have "io_inv (fd(2 := kbdfd, 3 := confd)) t1 \<and> copied_ok w t1"
    using io_rounds_ok [OF i, of w "rounds c" b t1] r Cons.prems(2,4) by (simp add: io_loop_def copied_ok_def)
  then show ?case using Cons c r by (cases b) (auto simp: open_pipe_def split: prod.splits)
qed auto

section \<open>Properties\<close>


definition ex_round :: round where
  "ex_round = \<lparr>got_event = (\<lambda>i. i \<noteq> 3), got_error = (\<lambda>_. False), got_byte = (\<lambda>_. Some 65), got_written = (\<lambda>_. True)\<rparr>"


end
