(* ===== verification/Peripherals.thy ===== *)
theory Peripherals
  imports Bios "HOL-Library.Monad_Syntax"
begin

text \<open>
  The rest of the virtual machine of \<^verbatim>\<open>bios.c\<close>: the serial devices and terminals, the start of the
  machine and of its cores, and one round of the interrupt controller (\<open>PIC_daemon\<close>).

  The results of POSIX calls are arguments: what \<open>read\<close> and \<open>write\<close> return (a list, since the code
  repeats a call that was interrupted), whether \<open>open\<close> succeeds, what \<open>poll\<close> and \<open>select\<close> report and
  the signals that are queued.
\<close>

section \<open>State\<close>

datatype io_direction = IODIR_RX | IODIR_TX

record io_device =
  fd :: int
  iodir :: io_direction
  int_core :: nat
  ready :: bool
  last_int :: uint64

record terminal =
  con :: io_device
  kbd :: io_device

record 'h machine =
  cpu :: "'h bios"
  TERMS :: "nat \<Rightarrow> terminal"
  nterm :: nat
  PIC_loops :: uint64
  PIC_usr1_drained :: uint64
  PIC_usr1_queued :: uint64

definition SERIAL_TIMEOUT :: uint64 where "SERIAL_TIMEOUT = 300"

definition interrupt_pic_thread :: "'h machine \<Rightarrow> 'h machine" where
  "interrupt_pic_thread v = v\<lparr>PIC_usr1_queued := PIC_usr1_queued v + 1\<rparr>"

text \<open>\<open>clock_gettime\<close> gives seconds and nanoseconds.\<close>

definition get_coarse_time :: "itimer \<Rightarrow> uint64" where
  "get_coarse_time curtime = tv_nsec curtime div 1000000 + tv_sec curtime * 1000"

section \<open>Devices\<close>

text \<open>A result of \<open>read\<close> or \<open>write\<close>: 1 with the byte, 0 (end of file), or -1 with an \<open>errno\<close>.\<close>

datatype sysret = One byte | Zero | EINTR | EAGAIN | EPIPE

fun retry :: "sysret list \<Rightarrow> sysret option" where
  "retry [] = None"
| "retry (r # rs) = (if r = EINTR then retry rs else Some r)"

definition io_ready :: "bool \<Rightarrow> bool" where "io_ready revents = revents"

definition io_device_init :: "'h bios \<Rightarrow> int \<Rightarrow> io_direction \<Rightarrow> bool \<Rightarrow> io_device" where
  "io_device_init b f dir revents =
     \<lparr>fd = f, iodir = dir, int_core = 0, ready = io_ready revents, last_int = system_clock b\<rparr>"

text \<open>The byte that was read, and whether the PIC thread has to be woken. \<open>None\<close>: an assertion fails,
  or the call is interrupted for ever.\<close>

definition io_device_read :: "io_device \<Rightarrow> sysret list \<Rightarrow> (byte option \<times> io_device \<times> bool) option" where
  "io_device_read d rs = do {
     _ \<leftarrow> (if iodir d = IODIR_RX then Some () else None);
     rc \<leftarrow> retry rs;
     _ \<leftarrow> (if rc = EPIPE then None else Some ());
     Some (case rc of
        One b \<Rightarrow> (Some b, d, False)
      | _ \<Rightarrow> if ready d then (None, d\<lparr>ready := False\<rparr>, True) else (None, d, False))
   }"

definition io_device_write :: "io_device \<Rightarrow> sysret list \<Rightarrow> (bool \<times> io_device \<times> bool) option" where
  "io_device_write d rs = do {
     _ \<leftarrow> (if iodir d = IODIR_TX then Some () else None);
     rc \<leftarrow> retry rs;
     _ \<leftarrow> (if rc = Zero then None else Some ());
     Some (case rc of
        One b \<Rightarrow> (True, d, False)
      | _ \<Rightarrow> if ready d then (False, d\<lparr>ready := False\<rparr>, True) else (False, d, False))
   }"

text \<open>\<open>fds\<close>: the descriptors \<open>open\<close> returns for the two FIFOs, with the result of polling them.\<close>

definition terminal_init ::
  "'h bios \<Rightarrow> terminal \<Rightarrow> (int \<times> bool) option \<Rightarrow> (int \<times> bool) option \<Rightarrow> int \<times> terminal" where
  "terminal_init b t fcon fkbd =
     (case fcon of
        None \<Rightarrow> (-1, t)
      | Some (f, p) \<Rightarrow>
          let t1 = t\<lparr>con := io_device_init b f IODIR_TX p\<rparr>
          in case fkbd of
               None \<Rightarrow> (-1, t1)
             | Some (f', p') \<Rightarrow> (0, t1\<lparr>kbd := io_device_init b f' IODIR_RX p'\<rparr>))"

definition open_terminal ::
  "'h bios \<Rightarrow> terminal \<Rightarrow> (int \<times> bool) option \<Rightarrow> (int \<times> bool) option \<Rightarrow> terminal option" where
  "open_terminal b t fcon fkbd =
     (let (rc, t') = terminal_init b t fcon fkbd in if rc = -1 then None else Some t')"

definition check_terminal :: "bool \<Rightarrow> bool" where
  "check_terminal hup_or_err \<longleftrightarrow> \<not> hup_or_err"

section \<open>The serial ports as the kernel sees them\<close>

definition bios_serial_ports :: "'h machine \<Rightarrow> nat" where "bios_serial_ports v = nterm v"

definition upd_term :: "'h machine \<Rightarrow> nat \<Rightarrow> (terminal \<Rightarrow> terminal) \<Rightarrow> 'h machine" where
  "upd_term v i f = v\<lparr>TERMS := (TERMS v)(i := f (TERMS v i))\<rparr>"

definition bios_serial_interrupt_core :: "'h machine \<Rightarrow> nat \<Rightarrow> Interrupt \<Rightarrow> nat \<Rightarrow> 'h machine option" where
  "bios_serial_interrupt_core v serial intno coreid =
     (if serial < nterm v \<and> (intno = SERIAL_RX_READY \<or> intno = SERIAL_TX_READY) \<and> coreid < ncores (cpu v)
      then Some (upd_term v serial (\<lambda>t.
             if intno = SERIAL_RX_READY then t\<lparr>kbd := (kbd t)\<lparr>int_core := coreid\<rparr>\<rparr>
             else t\<lparr>con := (con t)\<lparr>int_core := coreid\<rparr>\<rparr>))
      else None)"

definition bios_read_serial :: "'h machine \<Rightarrow> nat \<Rightarrow> sysret list \<Rightarrow> (byte option \<times> 'h machine) option" where
  "bios_read_serial v serial rs = do {
     (r, d, wake) \<leftarrow> io_device_read (kbd (TERMS v serial)) rs;
     let v1 = upd_term v serial (\<lambda>t. t\<lparr>kbd := d\<rparr>);
     Some (r, if wake then interrupt_pic_thread v1 else v1)
   }"

definition bios_write_serial :: "'h machine \<Rightarrow> nat \<Rightarrow> sysret list \<Rightarrow> (bool \<times> 'h machine) option" where
  "bios_write_serial v serial rs = do {
     (r, d, wake) \<leftarrow> io_device_write (con (TERMS v serial)) rs;
     let v1 = upd_term v serial (\<lambda>t. t\<lparr>con := d\<rparr>);
     Some (r, if wake then interrupt_pic_thread v1 else v1)
   }"

section \<open>Start of the machine\<close>

definition cpu_cores :: "'h machine \<Rightarrow> nat" where "cpu_cores v = ncores (cpu v)"

fun boot_cores :: "nat list \<Rightarrow> 'h bios \<Rightarrow> 'h bios" where
  "boot_cores [] b = b"
| "boot_cores (c # cs) b =
     boot_cores cs ((upd_core b c (\<lambda>k. k\<lparr>core_id := c, halted := False, irq_count := 0,
           irq_delivered := (\<lambda>_. 0), irq_raised := (\<lambda>_. 0)\<rparr>))
        \<lparr>halted_heap := rlnode_init (halted_heap b) (Halted_node c) (Some c)\<rparr>)"

text \<open>\<open>vm_boot\<close> up to the call of \<open>PIC_daemon\<close>; \<open>None\<close>: a CHECK_CONDITION fails.\<close>

definition vm_boot :: "'h machine \<Rightarrow> nat \<Rightarrow> nat \<Rightarrow> itimer \<Rightarrow> 'h machine option" where
  "vm_boot v cores serialno curtime =
     (if 0 < cores \<and> cores \<le> MAX_CORES \<and> ncores (cpu v) = 0 \<and> serialno \<le> MAX_TERMINALS then
        (let b1 = (cpu v)\<lparr>PIC_active := True, system_clock := get_coarse_time curtime,
                    halted_heap := rlnode_init (halted_heap (cpu v)) Halted_list None, ncores := cores\<rparr>
         in Some (v\<lparr>cpu := boot_cores [0..<cores] b1,
                    PIC_loops := 0, PIC_usr1_queued := 0, PIC_usr1_drained := 0\<rparr>))
      else None)"

text \<open>The two parts of \<open>bootfunc_wrapper\<close>, before and after the boot code.\<close>

definition bootfunc_start :: "'h bios \<Rightarrow> nat \<Rightarrow> 'h bios" where
  "bootfunc_start b c =
     upd_core b c (\<lambda>k. k\<lparr>intvec := (\<lambda>_. None), intpending := (\<lambda>_. False), int_disabled := False\<rparr>)"

definition bootfunc_end :: "'h machine \<Rightarrow> nat \<Rightarrow> 'h machine" where
  "bootfunc_end v c =
     (let v1 = v\<lparr>cpu := upd_core (cpu v) c (\<lambda>k. k\<lparr>intvec := (\<lambda>_. None)\<rparr>)\<rparr>
      in if core_id (CORE (cpu v1) c) = 0
         then interrupt_pic_thread (v1\<lparr>cpu := (cpu v1)\<lparr>PIC_active := False\<rparr>\<rparr>) else v1)"

section \<open>The interrupt controller\<close>

fun open_terminals ::
  "nat list \<Rightarrow> (nat \<Rightarrow> (int \<times> bool) option \<times> (int \<times> bool) option) \<Rightarrow> 'h machine \<Rightarrow> 'h machine option" where
  "open_terminals [] fds v = Some v"
| "open_terminals (i # is) fds v = do {
     t \<leftarrow> open_terminal (cpu v) (TERMS v i) (fst (fds i)) (snd (fds i));
     open_terminals is fds (upd_term v i (\<lambda>_. t))
   }"

text \<open>A set of descriptors and the bound that is passed to \<open>select\<close>.\<close>

definition fdset_add :: "int set \<Rightarrow> int \<Rightarrow> int \<Rightarrow> int set \<times> int" where
  "fdset_add S f nfds = (insert f S, if f \<ge> nfds then f + 1 else nfds)"

fun pic_fdsets :: "nat list \<Rightarrow> (nat \<Rightarrow> bool) \<Rightarrow> 'h machine \<Rightarrow> int set \<times> int set \<times> int \<Rightarrow> int set \<times> int set \<times> int" where
  "pic_fdsets [] hup v s = s"
| "pic_fdsets (i # is) hup v (rd, wr, maxfd) =
     (if \<not> check_terminal (hup i) then pic_fdsets is hup v (rd, wr, maxfd)
      else
        (let t = TERMS v i;
             (rd1, max1) = (if \<not> ready (kbd t) then fdset_add rd (fd (kbd t)) maxfd else (rd, maxfd));
             (wr1, max2) = (if \<not> ready (con t) then fdset_add wr (fd (con t)) max1 else (wr, max1))
         in pic_fdsets is hup v (rd1, wr1, max2)))"

fun pic_alarms :: "nat list \<Rightarrow> 'h bios \<Rightarrow> 'h bios" where
  "pic_alarms [] b = b"
| "pic_alarms (c # cs) b = pic_alarms cs (raise_interrupt b c ALARM)"

definition pic_drain_sigusr1 :: "'h machine \<Rightarrow> nat \<Rightarrow> 'h machine" where
  "pic_drain_sigusr1 v n = v\<lparr>PIC_usr1_drained := PIC_usr1_drained v + of_nat n\<rparr>"

definition timed_out :: "'h machine \<Rightarrow> io_device \<Rightarrow> bool" where
  "timed_out v d \<longleftrightarrow> system_clock (cpu v) - last_int d > SERIAL_TIMEOUT"

definition pic_con :: "int set \<Rightarrow> nat \<Rightarrow> 'h machine \<Rightarrow> 'h machine" where
  "pic_con wr i v =
     (let d = con (TERMS v i) in
      if fd d \<in> wr \<or> timed_out v d then
        (let v1 = upd_term v i (\<lambda>t. t\<lparr>con := d\<lparr>ready := True, last_int := system_clock (cpu v)\<rparr>\<rparr>)
         in v1\<lparr>cpu := raise_interrupt (cpu v1) (int_core d) SERIAL_TX_READY\<rparr>)
      else v)"

definition pic_kbd :: "int set \<Rightarrow> nat \<Rightarrow> 'h machine \<Rightarrow> 'h machine" where
  "pic_kbd rd i v =
     (let d = kbd (TERMS v i) in
      if fd d \<in> rd \<or> timed_out v d then
        (let v1 = upd_term v i (\<lambda>t. t\<lparr>kbd := d\<lparr>ready := True, last_int := system_clock (cpu v)\<rparr>\<rparr>)
         in v1\<lparr>cpu := raise_interrupt (cpu v1) (int_core d) SERIAL_RX_READY\<rparr>)
      else v)"

fun pic_devices :: "nat list \<Rightarrow> int set \<Rightarrow> int set \<Rightarrow> 'h machine \<Rightarrow> 'h machine" where
  "pic_devices [] rd wr v = v"
| "pic_devices (i # is) rd wr v = pic_devices is rd wr (pic_kbd rd i (pic_con wr i v))"

text \<open>What one round of the loop gets from outside: the terminals that hung up, the outcome of
  \<open>select\<close> (\<open>None\<close>: an error; otherwise the descriptors that are ready), the time, the cores whose
  timer signals are queued and the number of queued SIGUSR1.\<close>

record pic_input =
  hung_up :: "nat \<Rightarrow> bool"
  select_ready :: "int set option"
  curtime :: itimer
  alarms :: "nat list"
  usr1 :: nat

definition PIC_round :: "int \<Rightarrow> int \<Rightarrow> pic_input \<Rightarrow> 'h machine \<Rightarrow> 'h machine" where
  "PIC_round sigalrmfd sigusr1fd inp v =
     (let (rd, wr, maxfd) = pic_fdsets [0..<nterm v] (hung_up inp) v ({}, {}, 0);
          (rd1, max1) = fdset_add rd sigalrmfd maxfd;
          (rd2, max2) = fdset_add rd1 sigusr1fd max1;
          v1 = v\<lparr>cpu := (cpu v)\<lparr>system_clock := get_coarse_time (curtime inp)\<rparr>\<rparr>
      in case select_ready inp of
           None \<Rightarrow> v1
         | Some R \<Rightarrow>
             (let v2 = v1\<lparr>PIC_loops := PIC_loops v1 + 1\<rparr>;
                  v3 = (if sigalrmfd \<in> rd2 \<inter> R then v2\<lparr>cpu := pic_alarms (alarms inp) (cpu v2)\<rparr> else v2);
                  v4 = (if sigusr1fd \<in> rd2 \<inter> R then pic_drain_sigusr1 v3 (usr1 inp) else v3)
              in pic_devices [0..<nterm v4] (rd2 \<inter> R) (wr \<inter> R) v4))"

definition PIC_start ::
  "(nat \<Rightarrow> (int \<times> bool) option \<times> (int \<times> bool) option) \<Rightarrow> nat \<Rightarrow> 'h machine \<Rightarrow> 'h machine option" where
  "PIC_start fds serialno v = open_terminals [0..<serialno] fds (v\<lparr>nterm := serialno\<rparr>)"

section \<open>The list of halted cores\<close>

definition hrep :: "'h bios \<Rightarrow> nat list \<Rightarrow> bool" where
  "hrep b cs \<longleftrightarrow>
     layout (halted_heap b) {Halted_list} (\<lambda>_. map Halted_node cs) (Halted_node ` ({..<ncores b} - set cs)) \<and>
     (\<forall>c < ncores b. rl_obj (halted_heap b) (Halted_node c) = Some c) \<and> set cs \<subseteq> {..<ncores b} \<and>
     (\<forall>c < ncores b. halted (CORE b c) \<longleftrightarrow> c \<in> set cs)"

lemma hrep_distinct: "hrep b cs \<Longrightarrow> distinct cs"
  using layout_distinct [of "halted_heap b" "{Halted_list}" "\<lambda>_. map Halted_node cs" _ Halted_list]
  by (auto simp: hrep_def distinct_map)

lemma hrep_cong:
  "hrep b cs \<Longrightarrow> halted_heap b' = halted_heap b \<Longrightarrow> ncores b' = ncores b \<Longrightarrow>
     (\<And>c. halted (CORE b' c) = halted (CORE b c)) \<Longrightarrow> hrep b' cs"
  by (simp add: hrep_def)

lemma core_restart_same [simp]:
  "ncores (core_restart b c) = ncores b" "sigusr1_queued (core_restart b c) = sigusr1_queued b"
  "system_clock (core_restart b c) = system_clock b"
  "CORE (core_restart b c) d =
     (if d = c then (CORE b d)\<lparr>halted := False\<rparr> else CORE b d)"
  by (simp_all add: core_restart_def Let_def)

lemma core_restart_hrep:
  assumes h: "hrep b cs" and c: "c < ncores b"
  shows "hrep (core_restart b c) (remove1 c cs)"
proof (cases "halted (CORE b c)")
  case True
  then have mem: "c \<in> set cs" using h c by (simp add: hrep_def)
  have d: "distinct cs" by (rule hrep_distinct [OF h])
  have "layout (fst (rlist_remove (halted_heap b) (Halted_node c))) {Halted_list}
      ((\<lambda>_. map Halted_node cs)(Halted_list := remove1 (Halted_node c) (map Halted_node cs)))
      (insert (Halted_node c) (Halted_node ` ({..<ncores b} - set cs)))"
    using h mem by (intro rl.remove) (auto simp: hrep_def)
  then have "layout (fst (rlist_remove (halted_heap b) (Halted_node c))) {Halted_list}
      (\<lambda>_. map Halted_node (remove1 c cs))
      (insert (Halted_node c) (Halted_node ` ({..<ncores b} - set cs)))"
    by (rule layout_single) (simp add: remove1_map_inj inj_def)
  moreover have "insert (Halted_node c) (Halted_node ` ({..<ncores b} - set cs)) =
      Halted_node ` ({..<ncores b} - set (remove1 c cs))" using c d by auto
  ultimately show ?thesis using True h d mem by (auto simp: hrep_def core_restart_def Let_def)
next
  case False
  then have "c \<notin> set cs" using h c by (simp add: hrep_def)
  then show ?thesis using False h by (simp add: core_restart_def remove1_idem)
qed

lemma restart_from_hrep:
  "hrep b cs \<Longrightarrow> set ds \<subseteq> {..<ncores b} \<Longrightarrow> hrep (restart_from ds b) (fold remove1 ds cs)"
  by (induction ds arbitrary: b cs) (auto simp: core_restart_hrep)

lemma fold_remove1: "distinct cs \<Longrightarrow> set (fold remove1 ds cs) = set cs - set ds"
  by (induction ds arbitrary: cs) auto

lemma restart_all_hrep:
  assumes "hrep b cs"
  shows "hrep (cpu_core_restart_all b) []"
proof -
  have "hrep (cpu_core_restart_all b) (fold remove1 [0..<ncores b] cs)"
    unfolding cpu_core_restart_all_def by (rule restart_from_hrep [OF assms]) auto
  moreover have "set (fold remove1 [0..<ncores b] cs) = {}"
    using fold_remove1 [OF hrep_distinct [OF assms], of "[0..<ncores b]"] assms by (auto simp: hrep_def)
  ultimately show ?thesis by simp
qed

lemma restart_one_hrep:
  assumes h: "hrep b (c # cs)"
  shows "cpu_core_restart_one b = upd_core (b\<lparr>halted_heap := halted_heap (cpu_core_restart_one b)\<rparr>) c
       (\<lambda>k. k\<lparr>halted := False\<rparr>) \<and> hrep (cpu_core_restart_one b) cs"
proof -
  let ?P = "rlist_pop_front (halted_heap b) Halted_list"
  have lay: "layout (halted_heap b) {Halted_list} (\<lambda>_. map Halted_node (c # cs))
      (Halted_node ` ({..<ncores b} - set (c # cs)))" and c: "c < ncores b" "halted (CORE b c)"
    using h by (auto simp: hrep_def)
  have d: "distinct (c # cs)" by (rule hrep_distinct [OF h])
  have ne: "\<not> is_rlist_empty (halted_heap b) Halted_list" using rl.is_empty [OF lay] by simp
  have n: "snd ?P = Halted_node c" using rl.pop_front_node [OF lay] by simp
  have "layout (fst ?P) {Halted_list} ((\<lambda>_. map Halted_node (c # cs))(Halted_list := map Halted_node cs))
      (insert (Halted_node c) (Halted_node ` ({..<ncores b} - set (c # cs))))"
    by (rule rl.pop_front [OF lay]) simp_all
  then have lay1: "layout (fst ?P) {Halted_list} (\<lambda>_. map Halted_node cs)
      (insert (Halted_node c) (Halted_node ` ({..<ncores b} - set (c # cs))))" by (rule layout_single) simp
  moreover have F: "insert (Halted_node c) (Halted_node ` ({..<ncores b} - set (c # cs))) =
      Halted_node ` ({..<ncores b} - set cs)" using c d by auto
  moreover have "fst (rlist_remove (fst ?P) (Halted_node c)) = fst ?P" using rl.remove_free [OF lay1] by simp
  moreover have obj: "rl_obj (halted_heap b) (Halted_node c) = Some c" using h c by (simp add: hrep_def)
  ultimately have eq: "cpu_core_restart_one b = upd_core (b\<lparr>halted_heap := fst ?P\<rparr>) c (\<lambda>k. k\<lparr>halted := False\<rparr>)"
    using ne n c by (cases b) (simp add: cpu_core_restart_one_def core_restart_def split_beta upd_core_def)
  show ?thesis using h d lay1 unfolding eq F by (auto simp: hrep_def)
qed

lemma halt_hrep:
  assumes h: "hrep b cs" and c: "c < ncores b" "\<not> halted (CORE b c)" and b': "cpu_core_halt b c = Some b'"
  shows "hrep b' (c # cs)"
proof -
  have n: "c \<notin> set cs" using h c by (simp add: hrep_def)
  have "layout (rlist_push_front (halted_heap b) Halted_list (Halted_node c)) {Halted_list}
      ((\<lambda>_. map Halted_node cs)(Halted_list := Halted_node c # map Halted_node cs))
      (Halted_node ` ({..<ncores b} - set cs) - {Halted_node c})"
    using h n c by (intro rl.push_front) (auto simp: hrep_def)
  then have "layout (rlist_push_front (halted_heap b) Halted_list (Halted_node c)) {Halted_list}
      (\<lambda>_. map Halted_node (c # cs)) (Halted_node ` ({..<ncores b} - set cs) - {Halted_node c})"
    by (rule layout_single) simp
  moreover have "Halted_node ` ({..<ncores b} - set cs) - {Halted_node c} =
      Halted_node ` ({..<ncores b} - set (c # cs))" by auto
  ultimately show ?thesis using h c b' by (auto simp: hrep_def cpu_core_halt_def split: if_splits)
qed

lemma boot_cores_same [simp]:
  "ncores (boot_cores cs b) = ncores b" "system_clock (boot_cores cs b) = system_clock b"
  by (induction cs arbitrary: b) simp_all

lemma boot_cores_append: "boot_cores (cs @ ds) b = boot_cores ds (boot_cores cs b)"
  by (induction cs arbitrary: b) simp_all

lemma boot_cores_hrep:
  assumes "layout (halted_heap b) {Halted_list} (\<lambda>_. []) {}"
  shows "layout (halted_heap (boot_cores [0..<n] b)) {Halted_list} (\<lambda>_. []) (Halted_node ` {..<n}) \<and>
     (\<forall>c < n. rl_obj (halted_heap (boot_cores [0..<n] b)) (Halted_node c) = Some c \<and>
        \<not> halted (CORE (boot_cores [0..<n] b) c))"
proof (induction n)
  case (Suc n)
  let ?b = "boot_cores [0..<n] b"
  have "layout (rlnode_init (halted_heap ?b) (Halted_node n) (Some n)) {Halted_list} (\<lambda>_. [])
      (insert (Halted_node n) (Halted_node ` {..<n}))"
    using Suc by (intro layout_init_node) auto
  moreover have "insert (Halted_node n) (Halted_node ` {..<n}) = Halted_node ` {..<Suc n}"
    by (auto simp: less_Suc_eq)
  ultimately show ?case using Suc
    by (auto simp: boot_cores_append less_Suc_eq rlnode_init_def rlnode_new_def)
qed (use assms in simp)

lemma vm_boot_hrep:
  assumes "vm_boot v cores serialno ct = Some v'"
  shows "hrep (cpu v') [] \<and> ncores (cpu v') = cores"
proof -
  let ?b = "(cpu v)\<lparr>PIC_active := True, system_clock := get_coarse_time ct,
    halted_heap := rlnode_init (halted_heap (cpu v)) Halted_list None, ncores := cores\<rparr>"
  have v': "cpu v' = boot_cores [0..<cores] ?b" using assms by (auto simp: vm_boot_def Let_def split: if_splits)
  have "layout (halted_heap (cpu v)) {} (\<lambda>_. []) {}" by (simp add: layout_def)
  then have "layout (rlnode_init (halted_heap (cpu v)) Halted_list None) {Halted_list}
      ((\<lambda>_. [])(Halted_list := [])) {}" by (rule layout_init_sentinel) auto
  then have "layout (halted_heap ?b) {Halted_list} (\<lambda>_. []) {}" by (simp add: fun_upd_idem)
  from boot_cores_hrep [OF this, of cores] show ?thesis by (simp add: v' hrep_def)
qed

section \<open>The machine between boot and shutdown\<close>

text \<open>Any code that keeps the halt state (handlers, masks, timers, the clock) is the step \<open>rest\<close>; a
  core that is halted executes nothing, so it does not halt a second time.\<close>

inductive vstep :: "'h bios \<Rightarrow> 'h bios \<Rightarrow> bool" where
  halt: "c < ncores b \<Longrightarrow> \<not> halted (CORE b c) \<Longrightarrow> cpu_core_halt b c = Some b' \<Longrightarrow> vstep b b'"
| restart: "c < ncores b \<Longrightarrow> vstep b (cpu_core_restart b c)"
| restart_one: "vstep b (cpu_core_restart_one b)"
| restart_all: "vstep b (cpu_core_restart_all b)"
| interrupt: "c < ncores b \<Longrightarrow> vstep b (raise_interrupt b c i)"
| rest: "halted_heap b' = halted_heap b \<Longrightarrow> ncores b' = ncores b \<Longrightarrow>
    (\<And>c. halted (CORE b' c) = halted (CORE b c)) \<Longrightarrow> vstep b b'"

definition vstart :: "'h bios \<Rightarrow> bool" where
  "vstart b \<longleftrightarrow> (\<exists>v cores serialno ct v'. vm_boot v cores serialno ct = Some v' \<and> b = cpu v')"

definition vinv :: "'h bios \<Rightarrow> bool" where "vinv b \<longleftrightarrow> (\<exists>cs. hrep b cs)"

lemma restart_one_nil: "hrep b [] \<Longrightarrow> cpu_core_restart_one b = b"
  using rl.is_empty [of "halted_heap b" "{Halted_list}" "\<lambda>_. []" _ Halted_list]
  by (auto simp: hrep_def cpu_core_restart_one_def)

lemma raise_interrupt_hrep:
  assumes "hrep b cs" and "c < ncores b"
  shows "hrep (raise_interrupt b c i) (remove1 c cs)"
proof -
  define b2 where "b2 = (let b1 = upd_core b c (\<lambda>k. k\<lparr>intpending := (intpending k)(i := True),
                irq_raised := (irq_raised k)(i := irq_raised k i + 1)\<rparr>)
      in b1\<lparr>sigusr1_queued := (sigusr1_queued b1)(c := Suc (sigusr1_queued b1 c))\<rparr>)"
  have "hrep b2 cs" by (rule hrep_cong [OF assms(1)]) (auto simp: b2_def Let_def)
  then have "hrep (core_restart b2 c) (remove1 c cs)"
    by (rule core_restart_hrep) (simp add: b2_def Let_def assms(2))
  then show ?thesis by (simp add: raise_interrupt_def b2_def cpu_core_restart_def Let_def)
qed

lemma vstep_vinv:
  assumes "vinv b" and "vstep b b'"
  shows "vinv b'"
  using assms(2,1)
proof cases
  case (halt c)
  then show ?thesis using assms(1) halt_hrep unfolding vinv_def by blast
next
  case (restart c)
  then show ?thesis using assms(1) core_restart_hrep unfolding vinv_def cpu_core_restart_def by blast
next
  case restart_one
  obtain cs where cs: "hrep b cs" using assms(1) by (auto simp: vinv_def)
  have "\<exists>ds. hrep (cpu_core_restart_one b) ds"
    using cs restart_one_nil [of b] restart_one_hrep [of b] by (cases cs) (force, blast)
  then show ?thesis using restart_one by (simp add: vinv_def)
next
  case restart_all
  then show ?thesis using assms(1) restart_all_hrep unfolding vinv_def by blast
next
  case (interrupt c i)
  then show ?thesis using assms(1) raise_interrupt_hrep unfolding vinv_def by blast
next
  case rest
  then show ?thesis using assms(1) hrep_cong unfolding vinv_def by blast
qed

interpretation halting: transition_invariant vstart vstep vinv
  by unfold_locales (auto simp: vstart_def vinv_def dest: vm_boot_hrep intro: vstep_vinv [unfolded vinv_def])

section \<open>Dispatching\<close>

text \<open>A handler returns with the interrupt state of its core as it found it.\<close>

definition well_behaved :: "nat \<Rightarrow> ('h \<Rightarrow> 'h bios \<Rightarrow> 'h bios) \<Rightarrow> bool" where
  "well_behaved c run \<longleftrightarrow> (\<forall>h b. intpending (CORE (run h b) c) = intpending (CORE b c) \<and>
     int_disabled (CORE (run h b) c) = int_disabled (CORE b c) \<and>
     irq_delivered (CORE (run h b) c) = irq_delivered (CORE b c))"

lemma dispatch_loop_effect:
  assumes run: "well_behaved c run" and "distinct is" and "\<not> int_disabled (CORE b c)"
  shows "intpending (CORE (dispatch_loop run c is b) c) =
       (\<lambda>i. intpending (CORE b c) i \<and> i \<notin> set is) \<and>
     irq_delivered (CORE (dispatch_loop run c is b) c) =
       (\<lambda>i. irq_delivered (CORE b c) i + (if i \<in> set is \<and> intpending (CORE b c) i then 1 else 0)) \<and>
     \<not> int_disabled (CORE (dispatch_loop run c is b) c)"
  using assms(2,3)
proof (induction "is" arbitrary: b)
  case (Cons j js)
  show ?case
  proof (cases "intpending (CORE b c) j")
    case True
    define b1 where "b1 = upd_core b c (\<lambda>k. k\<lparr>intpending := (intpending k)(j := False),
                    irq_delivered := (irq_delivered k)(j := irq_delivered k j + 1)\<rparr>)"
    define b2 where "b2 = (case intvec (CORE b1 c) j of Some handler \<Rightarrow> run handler b1 | None \<Rightarrow> b1)"
    have b2: "intpending (CORE b2 c) = (intpending (CORE b c))(j := False)"
      "irq_delivered (CORE b2 c) = (irq_delivered (CORE b c))(j := irq_delivered (CORE b c) j + 1)"
      "\<not> int_disabled (CORE b2 c)"
      using run Cons.prems(2) by (simp_all add: b2_def b1_def well_behaved_def split: option.splits)
    have "dispatch_loop run c (j # js) b = dispatch_loop run c js b2"
      using True Cons.prems(2) by (simp only: dispatch_loop.simps b2_def b1_def Let_def if_True if_False)
    then show ?thesis using Cons.IH [of b2] Cons.prems(1) b2 True by (auto simp: fun_eq_iff)
  next
    case False
    then show ?thesis using Cons.IH [of b] Cons.prems by (auto simp: fun_eq_iff)
  qed
qed simp

lemma interrupt_numbers_all: "set interrupt_numbers = UNIV" "distinct interrupt_numbers"
proof -
  have "i \<in> set interrupt_numbers" for i by (cases i) (simp_all add: interrupt_numbers_def)
  then show "set interrupt_numbers = UNIV" by auto
qed (simp add: interrupt_numbers_def)

lemma dispatch_effect:
  assumes "well_behaved c run" and "\<not> int_disabled (CORE b c)"
  shows "intpending (CORE (dispatch_interrupts run b c) c) = (\<lambda>_. False) \<and>
     irq_delivered (CORE (dispatch_interrupts run b c) c) =
       (\<lambda>i. irq_delivered (CORE b c) i + (if intpending (CORE b c) i then 1 else 0))"
  using dispatch_loop_effect [OF assms(1) interrupt_numbers_all(2) assms(2)]
  by (simp add: dispatch_interrupts_def interrupt_numbers_all)

section \<open>One round of the interrupt controller\<close>

lemma raise_interrupt_same [simp]:
  "intpending (CORE (raise_interrupt b c i) d) =
     (if d = c then (intpending (CORE b d))(i := True) else intpending (CORE b d))"
  "system_clock (raise_interrupt b c i) = system_clock b" "ncores (raise_interrupt b c i) = ncores b"
  by (auto simp: raise_interrupt_def cpu_core_restart_def Let_def)

lemma pic_alarms_same [simp]:
  "system_clock (pic_alarms cs b) = system_clock b" "ncores (pic_alarms cs b) = ncores b"
  by (induction cs arbitrary: b) simp_all

lemma pic_alarms_pending:
  "intpending (CORE (pic_alarms cs b) d) i \<longleftrightarrow> intpending (CORE b d) i \<or> i = ALARM \<and> d \<in> set cs"
  by (induction cs arbitrary: b) auto

lemma pic_fdsets_step:
  "\<exists>rd1 wr1 m1. pic_fdsets (i # is) hup v (rd, wr, m) = pic_fdsets is hup v (rd1, wr1, m1) \<and>
     rd1 = rd \<union> (if \<not> hup i \<and> \<not> ready (kbd (TERMS v i)) then {fd (kbd (TERMS v i))} else {}) \<and>
     wr1 = wr \<union> (if \<not> hup i \<and> \<not> ready (con (TERMS v i)) then {fd (con (TERMS v i))} else {}) \<and>
     ((\<forall>f \<in> rd \<union> wr. f < m) \<longrightarrow> (\<forall>f \<in> rd1 \<union> wr1. f < m1))"
proof (cases "hup i")
  case True
  then show ?thesis by (intro exI [of _ rd] exI [of _ wr] exI [of _ m]) (simp add: check_terminal_def)
next
  case False
  let ?t = "TERMS v i"
  define p where "p = (if \<not> ready (kbd ?t) then fdset_add rd (fd (kbd ?t)) m else (rd, m))"
  define q where "q = (if \<not> ready (con ?t) then fdset_add wr (fd (con ?t)) (snd p) else (wr, snd p))"
  have "pic_fdsets (i # is) hup v (rd, wr, m) = pic_fdsets is hup v (fst p, fst q, snd q)"
    using False by (simp add: check_terminal_def Let_def split_beta p_def q_def)
  moreover have pq: "fst p = rd \<union> (if \<not> hup i \<and> \<not> ready (kbd ?t) then {fd (kbd ?t)} else {})"
    "fst q = wr \<union> (if \<not> hup i \<and> \<not> ready (con ?t) then {fd (con ?t)} else {})"
    using False by (simp_all add: p_def q_def fdset_add_def)
  moreover have "(\<forall>f \<in> rd \<union> wr. f < m) \<longrightarrow> (\<forall>f \<in> fst p \<union> fst q. f < snd q)"
  proof (intro impI ballI)
    fix f
    assume m: "\<forall>f \<in> rd \<union> wr. f < m" and f: "f \<in> fst p \<union> fst q"
    have le: "m \<le> snd p" "snd p \<le> snd q" by (auto simp: p_def q_def fdset_add_def)
    have k: "fd (kbd ?t) < snd p" if "\<not> ready (kbd ?t)" using that by (simp add: p_def fdset_add_def)
    have c: "fd (con ?t) < snd q" if "\<not> ready (con ?t)" using that by (simp add: q_def fdset_add_def)
    consider "f \<in> rd \<union> wr" | "\<not> ready (kbd ?t)" "f = fd (kbd ?t)" | "\<not> ready (con ?t)" "f = fd (con ?t)"
      using f unfolding pq by (auto split: if_splits)
    then show "f < snd q"
    proof cases
      case 1
      then have "f < m" using m by blast
      then show ?thesis using le by simp
    next
      case 2
      then show ?thesis using k le by simp
    next
      case 3
      then show ?thesis using c by simp
    qed
  qed
  ultimately show ?thesis by blast
qed

lemma pic_fdsets_eq:
  assumes "pic_fdsets is hup v (rd, wr, m) = (rd', wr', m')"
  shows "rd' = rd \<union> {fd (kbd (TERMS v i)) |i. i \<in> set is \<and> \<not> hup i \<and> \<not> ready (kbd (TERMS v i))} \<and>
    wr' = wr \<union> {fd (con (TERMS v i)) |i. i \<in> set is \<and> \<not> hup i \<and> \<not> ready (con (TERMS v i))} \<and>
    ((\<forall>f \<in> rd \<union> wr. f < m) \<longrightarrow> (\<forall>f \<in> rd' \<union> wr'. f < m'))"
  using assms
proof (induction "is" arbitrary: rd wr m)
  case (Cons i "is")
  obtain rd1 wr1 m1 where s: "pic_fdsets is hup v (rd1, wr1, m1) = (rd', wr', m')"
    "rd1 = rd \<union> (if \<not> hup i \<and> \<not> ready (kbd (TERMS v i)) then {fd (kbd (TERMS v i))} else {})"
    "wr1 = wr \<union> (if \<not> hup i \<and> \<not> ready (con (TERMS v i)) then {fd (con (TERMS v i))} else {})"
    "(\<forall>f \<in> rd \<union> wr. f < m) \<longrightarrow> (\<forall>f \<in> rd1 \<union> wr1. f < m1)"
    using pic_fdsets_step [of i "is" hup v rd wr m] Cons.prems by metis
  note IH = Cons.IH [OF s(1)]
  have "rd' = rd \<union> {fd (kbd (TERMS v k)) |k. k \<in> set (i # is) \<and> \<not> hup k \<and> \<not> ready (kbd (TERMS v k))}"
    using IH s(2) by (auto split: if_splits)
  moreover have "wr' = wr \<union> {fd (con (TERMS v k)) |k. k \<in> set (i # is) \<and> \<not> hup k \<and> \<not> ready (con (TERMS v k))}"
    using IH s(3) by (auto split: if_splits)
  ultimately show ?case using IH s(4) by blast
qed simp

definition refreshed :: "'h machine \<Rightarrow> int set \<Rightarrow> io_device \<Rightarrow> io_device" where
  "refreshed v S d =
     (if fd d \<in> S \<or> timed_out v d then d\<lparr>ready := True, last_int := system_clock (cpu v)\<rparr> else d)"

lemma pic_con_effect:
  "TERMS (pic_con wr i v) = (TERMS v)(i := (TERMS v i)\<lparr>con := refreshed v wr (con (TERMS v i))\<rparr>)"
  "system_clock (cpu (pic_con wr i v)) = system_clock (cpu v)" "nterm (pic_con wr i v) = nterm v"
  "intpending (CORE (cpu (pic_con wr i v)) c) j \<longleftrightarrow> intpending (CORE (cpu v) c) j \<or>
     (fd (con (TERMS v i)) \<in> wr \<or> timed_out v (con (TERMS v i))) \<and>
     c = int_core (con (TERMS v i)) \<and> j = SERIAL_TX_READY"
  by (auto simp: pic_con_def refreshed_def upd_term_def Let_def)

lemma pic_kbd_effect:
  "TERMS (pic_kbd rd i v) = (TERMS v)(i := (TERMS v i)\<lparr>kbd := refreshed v rd (kbd (TERMS v i))\<rparr>)"
  "system_clock (cpu (pic_kbd rd i v)) = system_clock (cpu v)" "nterm (pic_kbd rd i v) = nterm v"
  "intpending (CORE (cpu (pic_kbd rd i v)) c) j \<longleftrightarrow> intpending (CORE (cpu v) c) j \<or>
     (fd (kbd (TERMS v i)) \<in> rd \<or> timed_out v (kbd (TERMS v i))) \<and>
     c = int_core (kbd (TERMS v i)) \<and> j = SERIAL_RX_READY"
  by (auto simp: pic_kbd_def refreshed_def upd_term_def Let_def)

lemma timed_out_cong: "system_clock (cpu v') = system_clock (cpu v) \<Longrightarrow> timed_out v' d = timed_out v d"
  by (simp add: timed_out_def)

lemma refreshed_cong: "system_clock (cpu v') = system_clock (cpu v) \<Longrightarrow> refreshed v' S d = refreshed v S d"
  by (simp add: refreshed_def timed_out_def)

definition wakes :: "'h machine \<Rightarrow> nat list \<Rightarrow> int set \<Rightarrow> int set \<Rightarrow> nat \<Rightarrow> Interrupt \<Rightarrow> bool" where
  "wakes v is rd wr c j \<longleftrightarrow> (\<exists>i \<in> set is.
     (fd (kbd (TERMS v i)) \<in> rd \<or> timed_out v (kbd (TERMS v i))) \<and> c = int_core (kbd (TERMS v i)) \<and> j = SERIAL_RX_READY \<or>
     (fd (con (TERMS v i)) \<in> wr \<or> timed_out v (con (TERMS v i))) \<and> c = int_core (con (TERMS v i)) \<and> j = SERIAL_TX_READY)"

lemma pic_devices_effect:
  assumes "distinct is"
  shows "TERMS (pic_devices is rd wr v) = (\<lambda>i. if i \<in> set is then
       (TERMS v i)\<lparr>con := refreshed v wr (con (TERMS v i)), kbd := refreshed v rd (kbd (TERMS v i))\<rparr> else TERMS v i) \<and>
     (\<forall>c j. intpending (CORE (cpu (pic_devices is rd wr v)) c) j \<longleftrightarrow>
        intpending (CORE (cpu v) c) j \<or> wakes v is rd wr c j)"
  using assms
proof (induction "is" arbitrary: v)
  case (Cons i "is")
  let ?w = "pic_con wr i v" let ?u = "pic_kbd rd i ?w"
  have clk: "system_clock (cpu ?u) = system_clock (cpu v)" by (simp add: pic_kbd_effect pic_con_effect)
  have tw: "TERMS ?w i = (TERMS v i)\<lparr>con := refreshed v wr (con (TERMS v i))\<rparr>" by (simp add: pic_con_effect)
  have tu: "TERMS ?u = (TERMS v)(i := (TERMS v i)\<lparr>con := refreshed v wr (con (TERMS v i)),
      kbd := refreshed v rd (kbd (TERMS v i))\<rparr>)"
    by (simp add: pic_kbd_effect pic_con_effect refreshed_cong [of ?w v])
  have pu: "intpending (CORE (cpu ?u) c) j \<longleftrightarrow> intpending (CORE (cpu v) c) j \<or> wakes v [i] rd wr c j" for c j
    by (auto simp: pic_kbd_effect(4) pic_con_effect(4) tw wakes_def timed_out_def pic_con_effect(2))
  have wu: "wakes ?u is rd wr c j = wakes v is rd wr c j" for c j
    unfolding wakes_def using Cons.prems by (intro bex_cong) (auto simp: tu timed_out_cong [OF clk])
  have split: "wakes v (i # is) rd wr c j \<longleftrightarrow> wakes v [i] rd wr c j \<or> wakes v is rd wr c j" for c j
    by (auto simp: wakes_def)
  have IH: "TERMS (pic_devices is rd wr ?u) = (\<lambda>k. if k \<in> set is then (TERMS ?u k)
        \<lparr>con := refreshed ?u wr (con (TERMS ?u k)), kbd := refreshed ?u rd (kbd (TERMS ?u k))\<rparr> else TERMS ?u k)"
    "intpending (CORE (cpu (pic_devices is rd wr ?u)) c) j \<longleftrightarrow>
       intpending (CORE (cpu ?u) c) j \<or> wakes ?u is rd wr c j" for c j
    using Cons.IH [of ?u] Cons.prems by simp_all
  have "TERMS (pic_devices (i # is) rd wr v) = (\<lambda>k. if k \<in> set (i # is) then
       (TERMS v k)\<lparr>con := refreshed v wr (con (TERMS v k)), kbd := refreshed v rd (kbd (TERMS v k))\<rparr> else TERMS v k)"
    using Cons.prems by (auto simp: IH(1) tu refreshed_cong [OF clk])
  moreover have "intpending (CORE (cpu (pic_devices (i # is) rd wr v)) c) j \<longleftrightarrow>
        intpending (CORE (cpu v) c) j \<or> wakes v (i # is) rd wr c j" for c j
    unfolding split using IH(2) [of c j] pu [of c j] wu [of c j] by simp
  ultimately show ?case by blast
qed (simp add: wakes_def)

section \<open>Properties\<close>


definition ex_dev :: "int \<Rightarrow> io_direction \<Rightarrow> io_device" where
  "ex_dev f dir = \<lparr>fd = f, iodir = dir, int_core = 1, ready = False, last_int = 0\<rparr>"

definition ex_machine :: "nat machine" where
  "ex_machine = \<lparr>cpu = \<lparr>CORE = (\<lambda>c. \<lparr>core_id = c, intvec = (\<lambda>_. None), intpending = (\<lambda>_. False),
       int_disabled = False, halted = False, irq_count = 0, irq_raised = (\<lambda>_. 0),
       irq_delivered = (\<lambda>_. 0), core_timer = \<lparr>tv_sec = 0, tv_nsec = 0\<rparr>\<rparr>),
     ncores = 0, halted_heap = \<lparr>rl_obj = (\<lambda>_. None), rl_prev = id, rl_next = id\<rparr>,
     sigusr1_queued = (\<lambda>_. 0), PIC_active = False, system_clock = 0\<rparr>,
   TERMS = (\<lambda>i. \<lparr>con = ex_dev (2 * int i + 10) IODIR_TX, kbd = ex_dev (2 * int i + 11) IODIR_RX\<rparr>),
   nterm = 1, PIC_loops = 0, PIC_usr1_drained = 0, PIC_usr1_queued = 0\<rparr>"

definition ex_vmboot :: "nat machine" where
  "ex_vmboot = the (vm_boot ex_machine 2 1 \<lparr>tv_sec = 5, tv_nsec = 0\<rparr>)"


text \<open>Interrupts are delivered exactly once. An interrupt that is raised while the core masks interrupts
  stays pending: the signal handler only counts the signal. Enabling interrupts leaves none pending
  and delivers each that was pending, the raised one included, once.\<close>

lemma interrupts_delivered_once:
  assumes "well_behaved c run" and "int_disabled (CORE b c)"
  shows "sigusr1_handler run (raise_interrupt b c i) c =
       upd_core (raise_interrupt b c i) c (\<lambda>k. k\<lparr>irq_count := irq_count k + 1\<rparr>) \<and>
     intpending (CORE (raise_interrupt b c i) c) i \<and>
     intpending (CORE (cpu_enable_interrupts run (raise_interrupt b c i) c) c) = (\<lambda>_. False) \<and>
     irq_delivered (CORE (cpu_enable_interrupts run (raise_interrupt b c i) c) c) =
       (\<lambda>j. irq_delivered (CORE b c) j + (if j = i \<or> intpending (CORE b c) j then 1 else 0))"
proof -
  let ?r = "raise_interrupt b c i"
  let ?e = "upd_core ?r c (\<lambda>k. k\<lparr>int_disabled := False\<rparr>)"
  have r: "int_disabled (CORE ?r c)" "irq_delivered (CORE ?r c) = irq_delivered (CORE b c)"
    using assms(2) by (simp_all add: raise_interrupt_def cpu_core_restart_def Let_def)
  have "cpu_enable_interrupts run ?r c = dispatch_interrupts run ?e c"
    using r by (simp add: cpu_enable_interrupts_def)
  moreover have "intpending (CORE (dispatch_interrupts run ?e c) c) = (\<lambda>_. False)"
    "irq_delivered (CORE (dispatch_interrupts run ?e c) c) =
       (\<lambda>j. irq_delivered (CORE b c) j + (if j = i \<or> intpending (CORE b c) j then 1 else 0))"
    using dispatch_effect [OF assms(1), of ?e] r(2) by (auto simp: fun_eq_iff)
  moreover have "sigusr1_handler run ?r c = upd_core ?r c (\<lambda>k. k\<lparr>irq_count := irq_count k + 1\<rparr>)"
    using r(1) by (simp add: sigusr1_handler_def)
  ultimately show ?thesis by simp
qed

lemma interrupts_delivered_once_witness:
  "(\<lambda>b. irq_delivered (CORE (cpu_enable_interrupts (\<lambda>h b. b) (raise_interrupt b 0 ALARM) 0) 0) ALARM = 1)
     (cpu_disable_interrupts (cpu ex_machine) 0)"
proof -
  have "well_behaved 0 (\<lambda>h b :: nat bios. b)" by (simp add: well_behaved_def)
  moreover have "int_disabled (CORE (cpu_disable_interrupts (cpu ex_machine) 0) 0)"
    by (simp add: cpu_disable_interrupts_def)
  ultimately show ?thesis
    using interrupts_delivered_once [of 0 "\<lambda>h b. b" "cpu_disable_interrupts (cpu ex_machine) 0" ALARM]
    by (simp add: cpu_disable_interrupts_def ex_machine_def)
qed

definition kbd_fds :: "'h machine \<Rightarrow> (nat \<Rightarrow> bool) \<Rightarrow> int set" where
  "kbd_fds v hup = {fd (kbd (TERMS v i)) |i. i < nterm v \<and> \<not> hup i \<and> \<not> ready (kbd (TERMS v i))}"

definition con_fds :: "'h machine \<Rightarrow> (nat \<Rightarrow> bool) \<Rightarrow> int set" where
  "con_fds v hup = {fd (con (TERMS v i)) |i. i < nterm v \<and> \<not> hup i \<and> \<not> ready (con (TERMS v i))}"

lemma wakes_cong:
  "TERMS v' = TERMS v \<Longrightarrow> system_clock (cpu v') = system_clock (cpu v) \<Longrightarrow>
     wakes v' is rd wr c j = wakes v is rd wr c j"
  by (simp add: wakes_def timed_out_def)

definition ticked :: "'h machine \<Rightarrow> pic_input \<Rightarrow> 'h machine" where
  "ticked v inp = v\<lparr>cpu := (cpu v)\<lparr>system_clock := get_coarse_time (curtime inp)\<rparr>\<rparr>"

text \<open>C40: One round of the interrupt controller. It offers to \<open>select\<close> the devices that are not ready and
  have not hung up; a device that \<open>select\<close> reports, or that has been silent for longer than
  SERIAL_TIMEOUT, is made ready, gets the current time and raises its interrupt on its core; a core
  whose timer expired gets ALARM; every other device stays as it is and no other interrupt is raised.
  A failing \<open>select\<close> changes nothing but the clock.\<close>

theorem PIC_round_correct:
  "case select_ready inp of
     None \<Rightarrow> PIC_round sigalrmfd sigusr1fd inp v = ticked v inp
   | Some R \<Rightarrow>
       (\<forall>i < nterm v. TERMS (PIC_round sigalrmfd sigusr1fd inp v) i =
          (TERMS v i)\<lparr>con := refreshed (ticked v inp) (con_fds v (hung_up inp) \<inter> R) (con (TERMS v i)),
             kbd := refreshed (ticked v inp) ((kbd_fds v (hung_up inp) \<union> {sigalrmfd, sigusr1fd}) \<inter> R)
                      (kbd (TERMS v i))\<rparr>) \<and>
       (\<forall>c j. intpending (CORE (cpu (PIC_round sigalrmfd sigusr1fd inp v)) c) j \<longleftrightarrow>
          intpending (CORE (cpu v) c) j \<or>
          wakes (ticked v inp) [0..<nterm v] ((kbd_fds v (hung_up inp) \<union> {sigalrmfd, sigusr1fd}) \<inter> R)
            (con_fds v (hung_up inp) \<inter> R) c j \<or>
          j = ALARM \<and> sigalrmfd \<in> R \<and> c \<in> set (alarms inp))"
proof -
  define v1 where "v1 = ticked v inp"
  define rd where "rd = kbd_fds v (hung_up inp) \<union> {sigalrmfd, sigusr1fd}"
  define wr where "wr = con_fds v (hung_up inp)"
  note v1_alt = v1_def [unfolded ticked_def]
  obtain rd0 wr0 m0 where s: "pic_fdsets [0..<nterm v] (hung_up inp) v ({}, {}, 0) = (rd0, wr0, m0)"
    by (rule prod_cases3)
  have sets: "rd0 = kbd_fds v (hung_up inp)" "wr0 = wr"
    using pic_fdsets_eq [OF s] by (auto simp: kbd_fds_def con_fds_def wr_def)
  have rd2: "insert sigusr1fd (insert sigalrmfd rd0) = rd" by (auto simp: rd_def sets)
  show ?thesis
  proof (cases "select_ready inp")
    case None
    then show ?thesis by (simp add: PIC_round_def s fdset_add_def ticked_def)
  next
    case (Some R)
    define v2 where "v2 = v1\<lparr>PIC_loops := PIC_loops v1 + 1\<rparr>"
    define v3 where "v3 = (if sigalrmfd \<in> rd \<inter> R then v2\<lparr>cpu := pic_alarms (alarms inp) (cpu v2)\<rparr> else v2)"
    define v4 where "v4 = (if sigusr1fd \<in> rd \<inter> R then pic_drain_sigusr1 v3 (usr1 inp) else v3)"
    have "PIC_round sigalrmfd sigusr1fd inp v = pic_devices [0..<nterm v4] (rd \<inter> R) (wr \<inter> R) v4"
      unfolding PIC_round_def s Let_def fdset_add_def prod.case rd2 sets(2) Some option.case v4_def v3_def v2_def v1_alt
      by (rule refl)
    moreover have "nterm v4 = nterm v" by (simp add: v4_def v3_def v2_def v1_alt pic_drain_sigusr1_def)
    ultimately have PIC: "PIC_round sigalrmfd sigusr1fd inp v = pic_devices [0..<nterm v] (rd \<inter> R) (wr \<inter> R) v4"
      by simp
    have t4: "TERMS v4 = TERMS v" "system_clock (cpu v4) = system_clock (cpu v1)" "TERMS v1 = TERMS v"
      by (simp_all add: v4_def v3_def v2_def v1_alt pic_drain_sigusr1_def)
    have p4: "intpending (CORE (cpu v4) c) j \<longleftrightarrow> intpending (CORE (cpu v) c) j \<or>
        j = ALARM \<and> sigalrmfd \<in> R \<and> c \<in> set (alarms inp)" for c j
      by (auto simp: v4_def v3_def v2_def v1_alt pic_drain_sigusr1_def pic_alarms_pending rd_def)
    have w: "wakes v4 [0..<nterm v] (rd \<inter> R) (wr \<inter> R) c j = wakes v1 [0..<nterm v] (rd \<inter> R) (wr \<inter> R) c j" for c j
      using t4 by (intro wakes_cong) simp_all
    have r: "refreshed v4 S d = refreshed v1 S d" for S d by (rule refreshed_cong [OF t4(2)])
    show ?thesis using Some pic_devices_effect [of "[0..<nterm v]" "rd \<inter> R" "wr \<inter> R" v4]
      unfolding PIC rd_def [symmetric] wr_def [symmetric] v1_def [symmetric] by (auto simp: t4 r w p4)
  qed
qed

theorem PIC_round_correct_witness:
  "(\<lambda>v. ready (kbd (TERMS v 0)) \<and> \<not> ready (con (TERMS v 0)) \<and> intpending (CORE (cpu v) 1) SERIAL_RX_READY \<and>
        \<not> intpending (CORE (cpu v) 1) SERIAL_TX_READY)
     (PIC_round 3 4 \<lparr>hung_up = (\<lambda>_. False), select_ready = Some {11}, curtime = \<lparr>tv_sec = 0, tv_nsec = 0\<rparr>,
        alarms = [], usr1 = 0\<rparr> ex_machine)"
  using PIC_round_correct [where inp = "\<lparr>hung_up = (\<lambda>_. False), select_ready = Some {11},
      curtime = \<lparr>tv_sec = 0, tv_nsec = 0\<rparr>, alarms = [], usr1 = 0\<rparr>" and v = ex_machine
      and sigalrmfd = 3 and sigusr1fd = 4]
  by (simp add: ex_machine_def ex_dev_def refreshed_def wakes_def ticked_def kbd_fds_def con_fds_def get_coarse_time_def
      timed_out_def SERIAL_TIMEOUT_def)

end
