(* ===== verification/Host_Programs.thy ===== *)
theory Host_Programs
  imports Shell Symposium Peripherals
begin

text \<open>
  The programs around the kernel: \<^verbatim>\<open>mtask.c\<close>, which boots a symposium, and the serial streams of
  \<^verbatim>\<open>bios_example5.c\<close>.
\<close>

section \<open>mtask\<close>

text \<open>\<open>console\<close> is \<open>tinyos_pseudo_console\<close>, \<open>symposium\<close> the address of \<open>SymposiumOfProcesses\<close>. The replacement of
  the C streams is not a system call.\<close>

definition open_std :: "int \<Rightarrow> int act \<Rightarrow> int act" where
  "open_std target k = Sys (OpenTerminal 0) (\<lambda>r.
     let fid = int_of r in
     if fid \<noteq> NOFILE \<and> fid \<noteq> target then Sys (Dup2 fid target) (\<lambda>_. Sys (CloseFid fid) (\<lambda>_. k)) else k)"

definition boot_symposium :: "(int act \<Rightarrow> int act) \<Rightarrow> funptr \<Rightarrow> int \<Rightarrow> byte list option \<Rightarrow> int act" where
  "boot_symposium console symposium al arg =
     (let rest = Sys (Exec (Some symposium) al arg) (\<lambda>_. Sys (CloseFid 0) (\<lambda>_. Sys (CloseFid 1) (\<lambda>_.
        wait_all (MAX_PROC + 1))))
      in Sys GetTerminalDevices (\<lambda>n. if int_of n > 0 then open_std 0 (open_std 1 rest) else console rest))"

text \<open>\<open>main\<close>: \<open>None\<close> is the usage message and exit. Otherwise the number of cores and terminals and the
  argument of the boot task; \<open>lg\<close> is the logarithm that \<open>adjust_symposium\<close> computes.\<close>

definition mtask_main :: "int \<Rightarrow> string list \<Rightarrow> (uint32 \<times> uint32 \<times> symposium_t) option" where
  "mtask_main lg argv =
     (if length argv \<noteq> 5 then None
      else
        (let nphil = atoi (argv ! 3); bts = atoi (argv ! 4) in
         if nphil \<le> 0 \<or> nphil > int MAX_PROC then None
         else if bts \<le> 0 then None
         else Some (of_int (atoi (argv ! 1)), of_int (atoi (argv ! 2)),
                    adjust_symposium \<lparr>N = nat nphil, bites = nat bts, fmin = 0, fmax = 0\<rparr> 0 0 lg)))"

section \<open>Serial streams\<close>

text \<open>\<open>read_serial\<close>: \<open>rx\<close> are the results of the polls. The first poll for a byte and those in the busy loop
  have the same effect; \<open>None\<close> means that it still polls.\<close>

fun read_serial :: "nat \<Rightarrow> byte \<Rightarrow> byte option list \<Rightarrow> byte list \<Rightarrow> (nat \<times> byte list) option" where
  "read_serial sz c rx buf =
     (if sz > 0 \<and> c \<noteq> 10 then
        (case rx of
           [] \<Rightarrow> None
         | None # rx' \<Rightarrow> read_serial sz c rx' buf
         | Some b # rx' \<Rightarrow> read_serial (sz - 1) b rx' (buf @ [b]))
      else Some (length buf, buf))"

declare read_serial.simps [simp del]

fun write_serial :: "byte list \<Rightarrow> bool list \<Rightarrow> byte list \<Rightarrow> (nat \<times> byte list) option" where
  "write_serial [] tx out = Some (length out, out)"
| "write_serial (b # buf) [] out = None"
| "write_serial (b # buf) (success # tx) out =
     (if success then write_serial buf tx (out @ [b]) else write_serial (b # buf) tx out)"

text \<open>\<open>read_serial\<close> delivers the bytes of the device in order, up to the first newline or the given size.\<close>

lemma read_serial_line:
  assumes "read_serial sz c rx buf = Some (n, buf')" and "c \<noteq> 10"
  shows "\<exists>got rest. buf' = buf @ got \<and> n = length buf' \<and> List.map_filter id rx = got @ rest \<and> length got \<le> sz \<and>
     (length got = sz \<or> got \<noteq> [] \<and> last got = 10) \<and> 10 \<notin> set (butlast got)"
  using assms
proof (induction rx arbitrary: sz c buf)
  case Nil
  then show ?case by (auto simp: read_serial.simps [of sz] split: if_splits)
next
  case (Cons v rx)
  show ?case
  proof (cases v)
    case None
    then show ?thesis
      using Cons.IH [of sz c buf] Cons.prems
      by (auto simp: read_serial.simps [of sz c "None # rx"] List.map_filter_simps split: if_splits)
  next
    case (Some b)
    consider "sz = 0" | "sz > 0" "b = 10" | "sz > 0" "b \<noteq> 10" by auto
    then show ?thesis
    proof cases
      case 1
      then show ?thesis using Cons.prems by (auto simp: read_serial.simps [of 0])
    next
      case 2
      then have "n = length buf + 1" "buf' = buf @ [10]" using Cons.prems Some
        by (auto simp: read_serial.simps [of sz c "Some 10 # rx"] read_serial.simps [of _ 10])
      then show ?thesis using 2 Some
        by - (rule exI [of _ "[10]"], rule exI [of _ "List.map_filter id rx"], simp add: List.map_filter_simps id_def)
    next
      case 3
      then have "read_serial (sz - 1) b rx (buf @ [b]) = Some (n, buf')"
        using Cons.prems Some by (simp add: read_serial.simps [of sz c "Some b # rx"])
      from Cons.IH [OF this 3(2)] obtain got rest where g: "buf' = (buf @ [b]) @ got" "n = length buf'"
        "List.map_filter id rx = got @ rest" "length got \<le> sz - 1"
        "length got = sz - 1 \<or> got \<noteq> [] \<and> last got = 10" "10 \<notin> set (butlast got)" by blast
      show ?thesis
        using g 3 Some by - (rule exI [of _ "b # got"], rule exI [of _ rest], auto simp: List.map_filter_simps id_def)
    qed
  qed
qed

text \<open>\<open>write_serial\<close> ends when the device has accepted every byte, and only then.\<close>

lemma write_serial_all:
  "write_serial buf tx out =
     (if length buf \<le> count_list tx True then Some (length out + length buf, out @ buf) else None)"
  by (induction buf tx out rule: write_serial.induct) auto


text \<open>The arguments that \<open>main\<close> accepts describe a symposium.\<close>

lemma mtask_main_ok:
  "mtask_main lg argv = Some (c, t, s) \<Longrightarrow> 0 < N s \<and> N s \<le> MAX_PROC \<and> 0 < bites s \<and> fmax s - fmin s = FGAP"
  by (auto simp: mtask_main_def adjust_symposium_def Let_def split: if_splits)

end
