(* ===== verification/Console.thy ===== *)
theory Console
  imports Kernel
begin

text \<open>
  The pseudo console, \<^verbatim>\<open>console.c\<close>: two streams that stand for the standard streams of the host, for
  machines without terminals.

  The bytes of standard input are the list \<open>rx\<close> of the read method; its end is the end of the input, and
  \<open>None\<close> in it is an error of \<open>fread\<close> at that place. After an error the loop of \<open>stdio_read\<close> reads into the
  buffer from its start again.
\<close>

fun stdio_read_loop :: "uint32 \<Rightarrow> byte option list \<Rightarrow> byte list \<Rightarrow> uint32 \<times> byte list" where
  "stdio_read_loop sz [] buf = (of_nat (length buf), buf)"
| "stdio_read_loop sz (v # rx) buf =
     (if length buf < unat sz then
        (case v of Some b \<Rightarrow> stdio_read_loop sz rx (buf @ [b]) | None \<Rightarrow> stdio_read_loop sz rx [])
      else (of_nat (length buf), buf))"

definition stdio_read :: read_op where
  "stdio_read c sc dev sz rx = (Done (stdio_read_loop sz rx []), sc)"

text \<open>\<open>tx\<close>: the bytes that \<open>fwrite\<close> could write, one by one.\<close>

definition stdio_write :: write_op where
  "stdio_write c sc dev buf sz tx =
     (let n = min (unat sz) (length (takeWhile id tx)) in (Done (of_nat n, take n buf), sc))"

definition stdio_close :: "stream_obj \<Rightarrow> int" where
  "stdio_close dev = 0"

text \<open>There is no \<open>Open\<close> method.\<close>

definition stdio_ops :: file_ops where
  "stdio_ops = \<lparr>Open = (\<lambda>_ _. None), Read = Some stdio_read, Read_again = stdio_read, Write = Some stdio_write,
     Close = stdio_close\<rparr>"

definition connect_console :: "nat \<Rightarrow> kernel \<Rightarrow> kernel" where
  "connect_console f k = upd_fcb k f (\<lambda>c. c\<lparr>streamobj := Some NULL_obj, streamfunc := Some stdio_ops\<rparr>)"

text \<open>\<open>None\<close>: \<open>abort\<close>.\<close>

definition tinyos_pseudo_console :: "kernel \<Rightarrow> nat \<Rightarrow> kernel option" where
  "tinyos_pseudo_console k cur =
     (case FCB_reserve 2 k cur of
        (Some (fid, fcb), k1) \<Rightarrow>
          if fid ! 0 \<noteq> 0 \<or> fid ! 1 \<noteq> 1 then None
          else Some (connect_console (fcb ! 1) (connect_console (fcb ! 0) k1))
      | (None, k1) \<Rightarrow> None)"

section \<open>Reading\<close>

lemma stdio_read_loop_fits:
  assumes "stdio_read_loop sz rx buf = (n, out)" and "length buf \<le> unat sz"
  shows "length out = unat n" and "n \<le> sz"
proof -
  have "length out \<le> unat sz \<and> n = of_nat (length out)"
    using assms by (induction sz rx buf rule: stdio_read_loop.induct) (auto split: if_splits option.splits)
  moreover have "unat sz < 2 ^ LENGTH(32)" by (rule unsigned_less)
  ultimately have "unat n = length out" "unat n \<le> unat sz" by (auto simp: unat_of_nat_small)
  then show "length out = unat n" "n \<le> sz" by (simp_all add: word_le_nat_alt)
qed

text \<open>Without errors the bytes come in order. A byte that was read before an error is lost.\<close>

lemma stdio_read_no_error:
  "stdio_read_loop sz (map Some bs) buf = (let out = buf @ take (unat sz - length buf) bs in (of_nat (length out), out))"
proof (induction bs arbitrary: buf)
  case (Cons b bs)
  then show ?case by (cases "unat sz - length buf") (auto simp: Let_def diff_Suc split: nat.splits)
qed simp

lemma stdio_read_loses: "stdio_read_loop 2 [Some 65, None, Some 66, Some 67] [] = (2, [66, 67])"
  by simp

section \<open>The descriptors\<close>

lemma refs_witness:
  assumes "0 < refs k f" shows "\<exists>p < MAX_PROC. Some f \<in> set (FIDT (PT k p))"
proof (rule ccontr)
  assume "\<not> ?thesis"
  then have "count_list (FIDT (PT k p)) (Some f) = 0" if "p < MAX_PROC" for p using that by (simp add: count_list_0_iff)
  then show False using assms by (simp add: refs_def)
qed

lemma first_two_free:
  assumes "t ! 0 = None" and "t ! 1 = None"
  shows "find_fids t 2 0 = Some [0, 1]"
  using assms by (simp add: numeral_2_eq_2 next_free.simps Let_def MAX_FILEID_def)

lemma reserve_refs:
  assumes "tables_ok k" "tables_ok k'" "p < MAX_PROC" "q < MAX_PROC"
    and same: "\<And>q. q \<noteq> p \<Longrightarrow> PT k' q = PT k q"
    and keep: "\<And>i g. FIDT (PT k p) ! i = Some g \<Longrightarrow> FIDT (PT k' p) ! i = Some g"
    and g: "Some g \<in> set (FIDT (PT k q))"
  shows "0 < refs k' g"
proof -
  have "Some g \<in> set (FIDT (PT k' q))"
  proof (cases "q = p")
    case True
    obtain i where "i < length (FIDT (PT k p))" "FIDT (PT k p) ! i = Some g" using g True by (auto simp: in_set_conv_nth)
    then show ?thesis using keep assms(1-3) True by (metis nth_mem tables_ok_def)
  next
    case False
    then show ?thesis using same g by simp
  qed
  then show ?thesis using refs_pos assms(4) by blast
qed

text \<open>On a process whose descriptors 0 and 1 are closed the console takes exactly these two and keeps the
  reference counts exact.\<close>

lemma pseudo_console_connects:
  assumes inv: "stream_inv k use (f0 # f1 # fs)" and p: "cur < MAX_PROC"
    and free: "FIDT (PT k cur) ! 0 = None" "FIDT (PT k cur) ! 1 = None"
  shows "\<exists>k'. tinyos_pseudo_console k cur = Some k' \<and> stream_inv k' use fs \<and>
     get_fcb k' cur 0 = Some f0 \<and> get_fcb k' cur 1 = Some f1 \<and>
     streamfunc (FT k' f0) = Some stdio_ops \<and> streamfunc (FT k' f1) = Some stdio_ops \<and>
     (\<forall>fd. fd \<noteq> 0 \<and> fd \<noteq> 1 \<longrightarrow> get_fcb k' cur fd = get_fcb k cur fd)"
proof -
  note I = stream_invD [OF inv]
  obtain k1 where k1: "FCB_reserve 2 k cur = (Some ([0, 1], [f0, f1]), k1)" "finv k1 use fs"
    "\<And>i. FIDT (PT k1 cur) ! i = (if i = 0 then Some f0 else if i = 1 then Some f1 else FIDT (PT k cur) ! i)"
    "\<And>q. q \<noteq> cur \<Longrightarrow> PT k1 q = PT k q" "\<And>g. opened k1 g = opened k g"
    using FCB_reserve_success [OF inv p first_two_free [OF free]] by auto
  define k' where "k' = connect_console f1 (connect_console f0 k1)"
  have t: "tables_ok k" "tables_ok k1" using finvD(2) I(1) k1(2) by blast+
  have len: "length (FIDT (PT k1 cur)) = MAX_FILEID" using t(2) p by (simp add: tables_ok_def)
  have PT: "PT k' = PT k1" by (simp add: k'_def connect_console_def)
  then have refs: "refs k' g = refs k1 g" for g by (intro refs_cong) simp
  have op: "opened k' g \<longleftrightarrow> g = f0 \<or> g = f1 \<or> opened k g" for g
    using k1(5) [of g] by (auto simp: k'_def connect_console_def opened_def)
  have "Some f0 \<in> set (FIDT (PT k1 cur))" "Some f1 \<in> set (FIDT (PT k1 cur))"
    unfolding in_set_conv_nth len using k1(3) [of 0] k1(3) [of 1] by (force simp: MAX_FILEID_def)+
  then have new: "0 < refs k1 f0" "0 < refs k1 f1" using refs_pos [OF p] by blast+
  have keep: "FIDT (PT k1 cur) ! i = Some g" if "FIDT (PT k cur) ! i = Some g" for i g
    using k1(3) [of i] free that by auto
  have old: "0 < refs k1 g" if g: "0 < refs k g" for g
  proof -
    obtain q where "q < MAX_PROC" "Some g \<in> set (FIDT (PT k q))" using refs_witness [OF g] by blast
    then show ?thesis using reserve_refs [OF t p _ k1(4) keep] by blast
  qed
  have used: "0 < int (refs k' g) + use g \<and> opened k' g" if g: "g < MAX_FILES" "g \<notin> set fs" for g
  proof (cases "g = f0 \<or> g = f1")
    case True
    then show ?thesis using new refs op I(2) [of g] by (auto intro: add_pos_nonneg)
  next
    case False
    then have "0 < int (refs k g) + use g" "opened k g" using I(4,5) [of g] g by auto
    then show ?thesis using old [of g] refs op I(2) [of g] by (cases "0 < refs k g") auto
  qed
  have "finv k' use fs" by (rule finv_cong [OF k1(2)]) (simp_all add: k'_def connect_console_def)
  then have "stream_inv k' use fs" using used I(2,3) by (simp add: stream_inv_def)
  moreover have "tinyos_pseudo_console k cur = Some k'" using k1(1) by (simp add: tinyos_pseudo_console_def k'_def)
  moreover have "get_fcb k' cur 0 = Some f0" "get_fcb k' cur 1 = Some f1"
      "\<forall>fd. fd \<noteq> 0 \<and> fd \<noteq> 1 \<longrightarrow> get_fcb k' cur fd = get_fcb k cur fd"
    using PT k1(3) by (auto simp: get_fcb_def MAX_FILEID_def nat_eq_iff)
  moreover have "streamfunc (FT k' f0) = Some stdio_ops" "streamfunc (FT k' f1) = Some stdio_ops"
    by (simp_all add: k'_def connect_console_def)
  ultimately show ?thesis by blast
qed

end
