(* ===== verification/Kernel_Machine.thy ===== *)
theory Kernel_Machine
  imports Kernel
begin

text \<open>
  The kernel as one machine: the calls of all processes, in any order.

  A process is in a system call for as long as one of its critical sections runs (the part of the call
  between two points where the kernel is unlocked), or it sleeps inside the call; the call it sleeps in is
  its entry in \<open>pending\<close>. The processes have one thread each, since \<open>CreateThread\<close> has no implementation. A
  step of the machine is the first critical section of a call, another one after a wakeup (\<open>resume\<close>), or
  any change of the scheduler and of the wait sets in between. A wakeup may come at any time, whether or not
  somebody signalled. A write that waits for its device holds the kernel lock; the machine allows the other
  processes to go on even then.

  The invariant \<open>kinv\<close> joins the process tree, the accounting of streams (the references that the pending
  calls hold included) and the device table, and adds what no single call can guarantee: that the parents
  lead to process 1, and that a process that waits for a child has one.
\<close>

section \<open>Calls that sleep\<close>

datatype pcall =
    P_read nat uint32 | P_write nat stream_obj write_op "byte list" uint32 | P_wait int | P_wait_any | P_exit int

text \<open>Where a call goes on that has returned \<open>Block\<close>.\<close>

fun suspended :: "sysreq \<Rightarrow> kernel \<Rightarrow> nat \<Rightarrow> pcall option" where
  "suspended (WaitChild pid) k cur = Some (if pid = NOPROC then P_wait_any else P_wait pid)"
| "suspended (Exit ev) k cur = Some (P_exit ev)"
| "suspended (ReadFid fd sz) k cur = map_option (\<lambda>f. P_read f sz) (get_fcb k cur fd)"
| "suspended (WriteFid fd buf sz) k cur = do {
     f \<leftarrow> get_fcb k cur fd;
     sobj \<leftarrow> streamobj (FT k f);
     ops \<leftarrow> streamfunc (FT k f);
     devwrite \<leftarrow> Write ops;
     Some (P_write f sobj devwrite buf sz)
   }"
| "suspended _ k cur = None"

text \<open>\<open>sys_Write\<close> from the loop of its device function on, with the local variables that it has read before; \<open>sys_Exit\<close> of the boot task from the loop of its \<open>WaitChild\<close> on.\<close>

definition sys_Write_again ::
  "kernel \<Rightarrow> nat \<Rightarrow> nat \<Rightarrow> stream_obj \<Rightarrow> write_op \<Rightarrow> byte list \<Rightarrow> uint32 \<Rightarrow> bool list \<Rightarrow>
     ((int \<times> byte list) io \<times> kernel) option" where
  "sys_Write_again k c fcb sobj devwrite buf sz tx =
     io_finish k fcb (devwrite c (ksched (monitor k)) sobj buf sz tx)"

definition sys_Exit_again :: "kernel \<Rightarrow> nat \<Rightarrow> nat \<Rightarrow> int \<Rightarrow> uint64 \<Rightarrow> (unit io \<times> kernel) option" where
  "sys_Exit_again k c cur ev curtime = do {
     (r, k1) \<leftarrow> wait_any_loop k cur;
     (case r of
        Block \<Rightarrow> Some (Block, k1)
      | Done (cpid, st) \<Rightarrow>
          if cpid \<noteq> NOPROC then sys_Exit k1 c cur ev curtime
          else do { k2 \<leftarrow> exit_rest k1 c cur ev curtime; Some (Done (), k2) })
   }"

fun resume :: "pcall \<Rightarrow> sys_env \<Rightarrow> nat \<Rightarrow> nat \<Rightarrow> kernel \<Rightarrow> (result io \<times> kernel) option" where
  "resume (P_read f sz) e c cur k = may_block (\<lambda>(n, b). Data n b) (sys_Read_again k c f sz (rx_bytes e))"
| "resume (P_write f sobj devwrite buf sz) e c cur k =
     may_block (\<lambda>(n, b). Data n b) (sys_Write_again k c f sobj devwrite buf sz (tx_room e))"
| "resume (P_wait pid) e c cur k = may_block (\<lambda>(p, st). Status p st) (Some (wait_specific_loop k (nat pid) pid))"
| "resume P_wait_any e c cur k = may_block (\<lambda>(p, st). Status p st) (wait_any_loop k cur)"
| "resume (P_exit ev) e c cur k = may_block (\<lambda>_. No_return) (sys_Exit_again k c cur ev (now e))"

section \<open>The machine\<close>

record ksys =
  kern :: kernel
  pending :: "nat \<Rightarrow> pcall option"

text \<open>The calling thread runs on core \<open>c\<close> of a consistent scheduler, and a thread that \<open>allocate_thread\<close>
  returns is not in use.\<close>

definition scheduled :: "sys_env \<Rightarrow> nat \<Rightarrow> kernel \<Rightarrow> bool" where
  "scheduled e c k \<longleftrightarrow> (\<exists>m Q i j. mon_ok m Q (monitor k) \<and> c \<in> up m \<and> pc m c = Run \<and> thread_at m c = Thread i \<and>
     new_block e = Thread j \<and> \<not> live (sch m) (Thread j))"

text \<open>Process 0 is the idle task; it makes no calls after boot.\<close>

definition active :: "ksys \<Rightarrow> nat \<Rightarrow> bool" where
  "active S cur \<longleftrightarrow> 0 < cur \<and> cur < MAX_PROC \<and> pstate (PT (kern S) cur) = ALIVE"

definition suspend :: "ksys \<Rightarrow> nat \<Rightarrow> pcall option \<Rightarrow> result io \<times> kernel \<Rightarrow> ksys" where
  "suspend S cur w r = \<lparr>kern = snd r, pending = (pending S)(cur := (case fst r of Block \<Rightarrow> w | Done _ \<Rightarrow> None))\<rparr>"

inductive sys_step :: "ksys \<Rightarrow> ksys \<Rightarrow> bool" where
  between: "sys_step S (S\<lparr>kern := (kern S)\<lparr>monitor := mn\<rparr>\<rparr>)"
| call: "active S cur \<Longrightarrow> pending S cur = None \<Longrightarrow> scheduled e c (kern S) \<Longrightarrow>
     SYSCALLS req e c cur (kern S) = Some r \<Longrightarrow> sys_step S (suspend S cur (suspended req (kern S) cur) r)"
| continue: "active S cur \<Longrightarrow> pending S cur = Some w \<Longrightarrow> scheduled e c (kern S) \<Longrightarrow>
     resume w e c cur (kern S) = Some r \<Longrightarrow> sys_step S (suspend S cur (Some w) r)"

definition sys_start :: "ksys \<Rightarrow> bool" where
  "sys_start S \<longleftrightarrow> (\<exists>br e w w' k j. fresh_monitor k \<and> new_block e = Thread j \<and> serial_ports (devs k) \<le> MAX_TERMINALS \<and>
     boot_tinyos_kernel br e w w' k = Some (kern S) \<and> (\<forall>p. pending S p = None))"

section \<open>The invariant\<close>

fun held_fcb :: "pcall option \<Rightarrow> nat option" where
  "held_fcb (Some (P_read f sz)) = Some f"
| "held_fcb (Some (P_write f sobj devwrite buf sz)) = Some f"
| "held_fcb _ = None"

definition uses :: "(nat \<Rightarrow> pcall option) \<Rightarrow> nat \<Rightarrow> int" where
  "uses pend f = int (card {p. p < MAX_PROC \<and> held_fcb (pend p) = Some f})"

definition child_of :: "kernel \<Rightarrow> nat \<Rightarrow> nat \<Rightarrow> bool" where
  "child_of k p q \<longleftrightarrow> q < MAX_PROC \<and> pstate (PT k q) \<noteq> FREE \<and> parent (PT k q) = Some p"

text \<open>Parents have a smaller rank, process 1 has the smallest.\<close>

definition ranked :: "kernel \<Rightarrow> (nat \<Rightarrow> nat) \<Rightarrow> bool" where
  "ranked k rank \<longleftrightarrow> rank 1 = 0 \<and> (\<forall>p q. child_of k p q \<longrightarrow> p \<noteq> 0 \<and> rank p < rank q)"

definition rooted :: "kernel \<Rightarrow> bool" where
  "rooted k \<longleftrightarrow> pstate (PT k 0) = ALIVE \<and> pstate (PT k 1) \<noteq> FREE \<and> FIDT (PT k 0) = replicate MAX_FILEID None \<and>
     (\<forall>p. 0 < p \<and> p < MAX_PROC \<and> pstate (PT k p) = ALIVE \<longrightarrow> pstate (PT k 1) = ALIVE) \<and> (\<exists>rank. ranked k rank)"

fun waits_ok :: "kernel \<Rightarrow> nat \<Rightarrow> pcall \<Rightarrow> bool" where
  "waits_ok k p (P_read f sz) \<longleftrightarrow> f < MAX_FILES"
| "waits_ok k p (P_write f sobj devwrite buf sz) \<longleftrightarrow> f < MAX_FILES"
| "waits_ok k p (P_wait pid) \<longleftrightarrow> 0 \<le> pid \<and> child_of k p (nat pid)"
| "waits_ok k p P_wait_any \<longleftrightarrow> (\<exists>q. child_of k p q)"
| "waits_ok k p (P_exit ev) \<longleftrightarrow> p = 1 \<and> (\<exists>q. child_of k p q)"

definition pend_ok :: "kernel \<Rightarrow> (nat \<Rightarrow> pcall option) \<Rightarrow> bool" where
  "pend_ok k pend \<longleftrightarrow> (\<forall>p w. pend p = Some w \<longrightarrow>
     0 < p \<and> p < MAX_PROC \<and> pstate (PT k p) = ALIVE \<and> waits_ok k p w)"

definition kinv :: "kernel \<Rightarrow> (nat \<Rightarrow> pcall option) \<Rightarrow> bool" where
  "kinv k pend \<longleftrightarrow> (\<exists>cs es ps fs. pinv k cs es ps \<and> stream_inv k (uses pend) fs) \<and>
     devices_ready (devs k) \<and> rooted k \<and> pend_ok k pend"

lemma kinvD:
  assumes "kinv k pend"
  obtains cs es ps fs where "pinv k cs es ps" "stream_inv k (uses pend) fs" "devices_ready (devs k)" "rooted k"
    "pend_ok k pend"
  using assms by (auto simp: kinv_def)

lemma kinvI:
  "pinv k cs es ps \<Longrightarrow> stream_inv k (uses pend) fs \<Longrightarrow> devices_ready (devs k) \<Longrightarrow> rooted k \<Longrightarrow> pend_ok k pend \<Longrightarrow>
     kinv k pend"
  by (auto simp: kinv_def)

lemma pend_okD:
  "pend_ok k pend \<Longrightarrow> pend p = Some w \<Longrightarrow> 0 < p \<and> p < MAX_PROC \<and> pstate (PT k p) = ALIVE \<and> waits_ok k p w"
  by (simp add: pend_ok_def)

lemma uses_upd:
  assumes "p < MAX_PROC"
  shows "uses (pend(p := w)) = moved (held_fcb w) 1 (moved (held_fcb (pend p)) (-1) (uses pend))"
proof
  fix f
  let ?A = "{q. q < MAX_PROC \<and> q \<noteq> p \<and> held_fcb (pend q) = Some f}"
  have fin: "finite ?A" by (rule finite_subset [of _ "{..<MAX_PROC}"]) auto
  have "{q. q < MAX_PROC \<and> held_fcb ((pend(p := v)) q) = Some f} = (if held_fcb v = Some f then insert p ?A else ?A)" for v
    using assms by auto
  then have c: "uses (pend(p := v)) f = int (card ?A) + (if held_fcb v = Some f then 1 else 0)" for v
    using fin by (simp add: uses_def)
  show "uses (pend(p := w)) f = moved (held_fcb w) 1 (moved (held_fcb (pend p)) (-1) (uses pend)) f"
    using c [of w] c [of "pend p"] by (simp add: moved_def)
qed

lemma uses_bound: "uses pend f < 2 ^ 31 - 1"
proof -
  have "card {p. p < MAX_PROC \<and> held_fcb (pend p) = Some f} \<le> card {..<MAX_PROC}" by (intro card_mono) auto
  then show ?thesis by (simp add: uses_def MAX_PROC_def)
qed

lemma uses_held: "p < MAX_PROC \<Longrightarrow> held_fcb (pend p) = Some f \<Longrightarrow> 1 \<le> uses pend f"
  using uses_upd [of p "pend(p := None)" "pend p"] by (simp add: moved_def uses_def)

text \<open>The tables after a step: nothing changes for the other processes that matters to them.\<close>

lemma waits_ok_mono: "waits_ok k p w \<Longrightarrow> (\<And>q. child_of k p q \<Longrightarrow> child_of k' p q) \<Longrightarrow> waits_ok k' p w"
  by (cases w) auto

lemma pend_ok_step:
  assumes "pend_ok k pend" and "\<And>p. p \<noteq> cur \<Longrightarrow> pstate (PT k p) = ALIVE \<Longrightarrow> pend p \<noteq> None \<Longrightarrow> pstate (PT k' p) = ALIVE"
    and "\<And>p q. p \<noteq> cur \<Longrightarrow> pend p \<noteq> None \<Longrightarrow> child_of k p q \<Longrightarrow> child_of k' p q"
    and "w = None \<or> 0 < cur \<and> cur < MAX_PROC \<and> pstate (PT k' cur) = ALIVE \<and> waits_ok k' cur (the w)"
  shows "pend_ok k' (pend(cur := w))"
proof -
  have "0 < p \<and> p < MAX_PROC \<and> pstate (PT k' p) = ALIVE \<and> waits_ok k' p v" if v: "(pend(cur := w)) p = Some v" for p v
  proof (cases "p = cur")
    case False
    then have "pend p = Some v" using v by simp
    then have P: "0 < p" "p < MAX_PROC" "pstate (PT k p) = ALIVE" "waits_ok k p v" "pend p \<noteq> None"
      using assms(1) by (auto simp: pend_ok_def)
    then show ?thesis using assms(2) [OF False] waits_ok_mono [OF P(4) assms(3) [OF False P(5)]] by simp
  qed (use assms(4) v in auto)
  then show ?thesis unfolding pend_ok_def by blast
qed

lemma rooted_cong:
  assumes "rooted k" and "\<And>p. pstate (PT k' p) = pstate (PT k p) \<and> parent (PT k' p) = parent (PT k p)"
    and "FIDT (PT k' 0) = FIDT (PT k 0)"
  shows "rooted k'"
proof -
  have "child_of k' p q = child_of k p q" for p q using assms(2) by (simp add: child_of_def)
  then show ?thesis using assms by (simp add: rooted_def ranked_def)
qed

section \<open>Calls on streams\<close>

text \<open>A call that changes, of the process table, only the file ids of one process.\<close>

definition files_only :: "nat \<Rightarrow> kernel \<Rightarrow> kernel \<Rightarrow> bool" where
  "files_only cur k k' \<longleftrightarrow> pheap k' = pheap k \<and> pcb_freelist k' = pcb_freelist k \<and> process_count k' = process_count k \<and>
     devs k' = devs k \<and> (\<exists>t. PT k' = (PT k)(cur := (PT k cur)\<lparr>FIDT := t\<rparr>))"

lemma files_only_refl [simp, intro]: "files_only cur k k"
  by (auto simp: files_only_def intro: exI [of _ "FIDT (PT k cur)"])

lemma files_only_same: "same_but_files k k' \<Longrightarrow> files_only cur k k'"
  by (auto simp: files_only_def same_but_files_def intro: exI [of _ "FIDT (PT k cur)"])

lemma files_only_trans: "files_only cur k k1 \<Longrightarrow> files_only cur k1 k2 \<Longrightarrow> files_only cur k k2"
  by (auto simp: files_only_def)

lemma files_only_upd:
  assumes "files_only cur k k1"
  shows "files_only cur k (set_fid k1 cur i v)" and "files_only cur k (FCB_incref k1 f)"
    and "files_only cur k (release_FCB k1 f)" and "files_only cur k (upd_fcb k1 f g)"
    and "files_only cur k (set_sched k1 sc)" and "files_only cur k (k1\<lparr>fheap := h\<rparr>)"
  using assms by (auto simp: files_only_def set_fid_def FCB_incref_def)

lemma files_only_decref: "FCB_decref k1 f = Some (r, k2) \<Longrightarrow> files_only cur k k1 \<Longrightarrow> files_only cur k k2"
  by (metis decref_same files_only_same files_only_trans)

lemma files_only_io: "io_finish k1 f r = Some (v, k2) \<Longrightarrow> files_only cur k k1 \<Longrightarrow> files_only cur k k2"
  by (auto simp: io_finish_def intro: files_only_upd files_only_decref split: prod.splits io.splits bind_splits)

lemma files_only_acquire: "acquire_FCB k1 = (r, k2) \<Longrightarrow> files_only cur k k1 \<Longrightarrow> files_only cur k k2"
  by (auto simp: acquire_FCB_def Let_def intro: files_only_upd split: prod.splits option.splits if_splits)

lemma open_files_only: "open_stream k cur major minor = Some (r, k') \<Longrightarrow> files_only cur k k'"
  by (auto simp: open_stream_def FCB_reserve_def numeral_1_eq_Suc_0 Let_def
      intro!: files_only_upd dest!: files_only_acquire [OF _ files_only_refl]
      split: option.splits prod.splits bool.splits bind_splits if_splits)

lemma Close_files_only: "sys_Close k cur fd = Some (r, k') \<Longrightarrow> files_only cur k k'"
  by (auto simp: sys_Close_def Let_def intro: files_only_decref files_only_upd split: option.splits)

lemma Dup2_files_only: "sys_Dup2 k cur fd fd' = Some (r, k') \<Longrightarrow> files_only cur k k'"
  by (auto simp: sys_Dup2_def Let_def intro!: files_only_upd intro: files_only_decref
      split: option.splits if_splits bind_splits)

lemma Read_files_only: "sys_Read k c cur fd sz rx = Some (r, k') \<Longrightarrow> files_only cur k k'"
  by (auto simp: sys_Read_def Let_def intro: files_only_upd files_only_decref files_only_io
      split: option.splits bind_splits)

lemma Write_files_only: "sys_Write k c cur fd buf sz tx = Some (r, k') \<Longrightarrow> files_only cur k k'"
  by (auto simp: sys_Write_def Let_def intro: files_only_upd files_only_decref files_only_io
      split: option.splits bind_splits)

lemma pinv_files:
  assumes "pinv k cs es ps" and "files_only cur k k'" and "pstate (PT k cur) = ALIVE"
  shows "pinv k' cs es ps"
proof -
  obtain t where t: "PT k' = (PT k)(cur := (PT k cur)\<lparr>FIDT := t\<rparr>)" using assms(2) by (auto simp: files_only_def)
  have same: "pstate (PT k' p) = pstate (PT k p) \<and> parent (PT k' p) = parent (PT k p)" for p by (simp add: t)
  have "chain k' a ps = chain k a ps" for a by (rule chain_cong) (simp add: same)
  then have "ppool k' ps = ppool k ps" using assms(2) by (simp add: ppool_def files_only_def)
  moreover have "family k' cs es = family k cs es" by (simp add: family_def same)
  moreover have "pcb_ok k' p = pcb_ok k p" for p using assms(3) by (auto simp: pcb_ok_def t)
  ultimately show ?thesis using assms(1,2) by (simp add: pinv_def same files_only_def)
qed

lemma files_step:
  assumes inv: "kinv k pend" and f: "files_only cur k k'" and cur: "0 < cur" "cur < MAX_PROC" "pstate (PT k cur) = ALIVE"
    and str: "stream_inv k' (uses (pend(cur := w))) fs" and w: "w = None \<or> held_fcb w \<noteq> None \<and> the (held_fcb w) < MAX_FILES"
  shows "kinv k' (pend(cur := w))"
proof -
  obtain cs es ps fs' where I: "pinv k cs es ps" "stream_inv k (uses pend) fs'" "devices_ready (devs k)" "rooted k"
    "pend_ok k pend" using kinvD [OF inv] .
  obtain t where t: "PT k' = (PT k)(cur := (PT k cur)\<lparr>FIDT := t\<rparr>)" using f by (auto simp: files_only_def)
  have "child_of k' p q = child_of k p q" for p q by (simp add: child_of_def t)
  moreover have "w = None \<or> waits_ok k' cur (the w)" using w by (cases w rule: held_fcb.cases) auto
  ultimately have "pend_ok k' (pend(cur := w))" using cur by (intro pend_ok_step [OF I(5)]) (auto simp: t)
  moreover have "rooted k'" using cur by (intro rooted_cong [OF I(4)]) (auto simp: t)
  moreover have "devices_ready (devs k')" using f I(3) by (simp add: files_only_def)
  ultimately show ?thesis using kinvI [OF pinv_files [OF I(1) f cur(3)] str] by blast
qed

text \<open>The calls one by one. \<open>ok_step\<close>: the call returns, and the invariant holds afterwards.\<close>

definition ok_step :: "kernel \<Rightarrow> (nat \<Rightarrow> pcall option) \<Rightarrow> nat \<Rightarrow> pcall option \<Rightarrow> (result io \<times> kernel) option \<Rightarrow> bool" where
  "ok_step k pend cur w res \<longleftrightarrow>
     (\<exists>r k'. res = Some (r, k') \<and> kinv k' (pend(cur := (case r of Block \<Rightarrow> w | Done _ \<Rightarrow> None))))"

lemma stream_call:
  assumes inv: "kinv k pend" and cur: "0 < cur" "cur < MAX_PROC" "pstate (PT k cur) = ALIVE" and free: "pend cur = None"
    and res: "res = Some (r, k')" "files_only cur k k'" "stream_inv k' (uses pend) fs"
  shows "ok_step k pend cur w (returns Val res)"
proof -
  have "pend(cur := None) = pend" using free by auto
  then have "kinv k' (pend(cur := None))" using files_step [OF inv res(2) cur, of None fs] res(3) by simp
  then show ?thesis using res(1) by (simp add: ok_step_def returns_def)
qed

lemma Close_step:
  assumes "kinv k pend" "0 < cur" "cur < MAX_PROC" "pstate (PT k cur) = ALIVE" "pend cur = None"
  shows "ok_step k pend cur w (returns Val (sys_Close k cur fd))"
proof -
  obtain fs where "stream_inv k (uses pend) fs" using kinvD [OF assms(1)] by blast
  from sys_Close_spec [OF this assms(3), of fd] show ?thesis
    using stream_call [OF assms] Close_files_only by blast
qed

lemma Dup2_step:
  assumes "kinv k pend" "0 < cur" "cur < MAX_PROC" "pstate (PT k cur) = ALIVE" "pend cur = None"
  shows "ok_step k pend cur w (returns Val (sys_Dup2 k cur fd fd'))"
proof -
  obtain fs where "stream_inv k (uses pend) fs" using kinvD [OF assms(1)] by blast
  from sys_Dup2_spec [OF this assms(3), of fd fd'] show ?thesis
    using stream_call [OF assms] Dup2_files_only by blast
qed

lemma open_step:
  assumes "kinv k pend" "0 < cur" "cur < MAX_PROC" "pstate (PT k cur) = ALIVE" "pend cur = None"
  shows "ok_step k pend cur w (returns Val (sys_OpenNull k cur))"
    and "ok_step k pend cur w (returns Val (sys_OpenTerminal k cur n))"
proof -
  obtain fs where s: "stream_inv k (uses pend) fs" and d: "devices_ready (devs k)" using kinvD [OF assms(1)] by blast
  have "ok_step k pend cur w (returns Val (open_stream k cur major minor))" if "major \<noteq> DEV_MAX" for major minor
  proof -
    have "device_open (devs k) major minor \<noteq> None" using d that by (cases major) (simp_all add: devices_ready_def)
    then obtain err res where "device_open (devs k) major minor = Some (err, res)" by auto
    from open_stream_spec [OF s assms(3) this] show ?thesis using stream_call [OF assms] open_files_only by blast
  qed
  then show "ok_step k pend cur w (returns Val (sys_OpenNull k cur))"
    "ok_step k pend cur w (returns Val (sys_OpenTerminal k cur n))"
    by (simp_all add: sys_OpenNull_def sys_OpenTerminal_def)
qed

text \<open>Reads and writes: the reference of a call that sleeps is one of those that \<open>uses\<close> counts.\<close>

lemma io_call:
  assumes inv: "kinv k pend" and cur: "0 < cur" "cur < MAX_PROC" "pstate (PT k cur) = ALIVE" and free: "pend cur = None"
    and f: "f < MAX_FILES" "r = Block \<Longrightarrow> held_fcb w = Some f" and res: "res = Some (r, k')" "files_only cur k k'"
      "case r of Block \<Rightarrow> stream_inv k' (moved (Some f) 1 (uses pend)) fs | Done _ \<Rightarrow> stream_inv k' (uses pend) fs"
  shows "ok_step k pend cur w (may_block (\<lambda>(n, b). Data n b) res)"
proof (cases r)
  case (Done v)
  have "pend(cur := None) = pend" using free by auto
  then have "kinv k' (pend(cur := None))" using files_step [OF inv res(2) cur, of None fs] res(3) Done by simp
  then show ?thesis using res(1) Done by (simp add: ok_step_def may_block_def)
next
  case Block
  have "uses (pend(cur := w)) = moved (Some f) 1 (uses pend)" using uses_upd [OF cur(2), of pend w] free f(2) Block by simp
  then have "kinv k' (pend(cur := w))" using files_step [OF inv res(2) cur, of w fs] res(3) Block f by simp
  then show ?thesis using res(1) Block by (simp add: ok_step_def may_block_def)
qed

lemma io_returns:
  assumes inv: "stream_inv k use fs" and f: "f < MAX_FILES" "f \<notin> set fs" "use f < 2 ^ 31 - 1"
  shows "\<exists>r k' fs'. (case meth of
       Some m \<Rightarrow> io_finish (FCB_incref k f) f m
     | None \<Rightarrow> do { (r, k2) \<leftarrow> FCB_decref (FCB_incref k f) f; Some (Done (-1, []), k2) }) = Some (r, k') \<and>
     (case r of Block \<Rightarrow> meth \<noteq> None \<and> stream_inv k' (moved (Some f) 1 use) fs' | Done _ \<Rightarrow> stream_inv k' use fs')"
proof -
  have inv1: "stream_inv (FCB_incref k f) (moved (Some f) 1 use) fs" by (rule take_reference [OF inv f])
  have u1: "1 \<le> moved (Some f) 1 use f" using stream_invD(2) [OF inv, of f] by (simp add: moved_def)
  show ?thesis
  proof (cases meth)
    case None
    then show ?thesis using drop_reference [OF inv1 f(1) u1] by auto
  next
    case (Some m)
    obtain res sc where m: "m = (res, sc)" by force
    from io_finish_spec [OF inv1 f(1) u1, of res sc] show ?thesis
      unfolding Some m moved_simps(3) by (cases res) auto
  qed
qed

lemma Read_step:
  assumes "kinv k pend" "0 < cur" "cur < MAX_PROC" "pstate (PT k cur) = ALIVE" "pend cur = None"
  shows "ok_step k pend cur (suspended (ReadFid fd sz) k cur) (may_block (\<lambda>(n, b). Data n b) (sys_Read k c cur fd sz rx))"
proof (cases "get_fcb k cur fd")
  case None
  have "pend(cur := None) = pend" using assms(5) by auto
  then show ?thesis using None assms(1) by (simp add: ok_step_def sys_Read_def may_block_def)
next
  case (Some f)
  obtain fs where s: "stream_inv k (uses pend) fs" using kinvD [OF assms(1)] by blast
  have f: "f < MAX_FILES" "f \<notin> set fs" "opened k f"
    using descriptor_ok [OF s assms(3), of "nat fd" f] get_fcb_Some [OF Some] by auto
  then obtain obj ops where o: "streamobj (FT k f) = Some obj" "streamfunc (FT k f) = Some ops"
    by (auto simp: opened_def)
  let ?meth = "map_option (\<lambda>devread. devread c (ksched (monitor k)) obj sz rx) (Read ops)"
  obtain r k' fs' where r: "sys_Read k c cur fd sz rx = Some (r, k')"
     "case r of Block \<Rightarrow> stream_inv k' (moved (Some f) 1 (uses pend)) fs' | Done _ \<Rightarrow> stream_inv k' (uses pend) fs'"
    using io_returns [OF s f(1,2) uses_bound, of ?meth] Some o
    by (fastforce simp: sys_Read_def split: option.splits io.splits)
  show ?thesis by (rule io_call [OF assms f(1) _ r(1) Read_files_only [OF r(1)] r(2)]) (simp add: Some)
qed

lemma Write_step:
  assumes "kinv k pend" "0 < cur" "cur < MAX_PROC" "pstate (PT k cur) = ALIVE" "pend cur = None"
  shows "ok_step k pend cur (suspended (WriteFid fd buf sz) k cur)
     (may_block (\<lambda>(n, b). Data n b) (sys_Write k c cur fd buf sz tx))"
proof (cases "get_fcb k cur fd")
  case None
  have "pend(cur := None) = pend" using assms(5) by auto
  then show ?thesis using None assms(1) by (simp add: ok_step_def sys_Write_def may_block_def)
next
  case (Some f)
  obtain fs where s: "stream_inv k (uses pend) fs" using kinvD [OF assms(1)] by blast
  have f: "f < MAX_FILES" "f \<notin> set fs" "opened k f"
    using descriptor_ok [OF s assms(3), of "nat fd" f] get_fcb_Some [OF Some] by auto
  then obtain obj ops where o: "streamobj (FT k f) = Some obj" "streamfunc (FT k f) = Some ops"
    by (auto simp: opened_def)
  let ?meth = "map_option (\<lambda>devwrite. devwrite c (ksched (monitor k)) obj buf sz tx) (Write ops)"
  obtain r k' fs' where r: "sys_Write k c cur fd buf sz tx = Some (r, k')" "r = Block \<longrightarrow> Write ops \<noteq> None"
     "case r of Block \<Rightarrow> stream_inv k' (moved (Some f) 1 (uses pend)) fs' | Done _ \<Rightarrow> stream_inv k' (uses pend) fs'"
    using io_returns [OF s f(1,2) uses_bound, of ?meth] Some o
    by (fastforce simp: sys_Write_def split: option.splits io.splits)
  show ?thesis
    by (rule io_call [OF assms f(1) _ r(1) Write_files_only [OF r(1)] r(3)]) (use Some o r(2) in auto)
qed

text \<open>After a wakeup.\<close>

lemma io_again:
  assumes inv: "kinv k pend" and cur: "0 < cur" "cur < MAX_PROC" "pstate (PT k cur) = ALIVE" and w: "held_fcb (pend cur) = Some f"
  shows "ok_step k pend cur (pend cur) (may_block (\<lambda>(n, b). Data n b) (io_finish k f (res, sc)))"
proof -
  obtain fs where s: "stream_inv k (uses pend) fs" and p: "pend_ok k pend" using kinvD [OF inv] by blast
  obtain v where v: "pend cur = Some v" using w by (cases "pend cur") auto
  then have f: "f < MAX_FILES" using pend_okD [OF p v] w by (cases v) auto
  obtain r k' fs' where r: "io_finish k f (res, sc) = Some (r, k')"
     "case r of Block \<Rightarrow> stream_inv k' (uses pend) fs | Done _ \<Rightarrow> stream_inv k' (moved (Some f) (-1) (uses pend)) fs'"
    using io_finish_spec [OF s f uses_held [of cur pend f, OF cur(2) w], of res sc] by (cases res) auto
  note fo = files_only_io [OF r(1) files_only_refl]
  show ?thesis
  proof (cases r)
    case Block
    have "pend(cur := pend cur) = pend" by simp
    then have "kinv k' (pend(cur := pend cur))"
      using files_step [OF inv fo cur, of "pend cur" fs] r(2) Block w f by simp
    then show ?thesis using r(1) Block by (simp add: ok_step_def may_block_def)
  next
    case (Done x)
    have "uses (pend(cur := None)) = moved (Some f) (-1) (uses pend)" using uses_upd [OF cur(2), of pend None] w by simp
    then have "kinv k' (pend(cur := None))" using files_step [OF inv fo cur, of None fs'] r(2) Done by simp
    then show ?thesis using r(1) Done by (simp add: ok_step_def may_block_def)
  qed
qed

lemma Read_again_step:
  assumes inv: "kinv k pend" and cur: "0 < cur" "cur < MAX_PROC" "pstate (PT k cur) = ALIVE"
    and w: "pend cur = Some (P_read f sz)"
  shows "ok_step k pend cur (pend cur) (may_block (\<lambda>(n, b). Data n b) (sys_Read_again k c f sz rx))"
proof -
  obtain fs where s: "stream_inv k (uses pend) fs" and p: "pend_ok k pend" using kinvD [OF inv] by blast
  have h: "held_fcb (pend cur) = Some f" using w by simp
  have "f < MAX_FILES" using pend_okD [OF p w] by simp
  moreover have "f \<notin> set fs"
    using finvD(3) [OF stream_invD(1) [OF s], of f] uses_held [of cur pend f, OF cur(2) h] by auto
  ultimately have "opened k f" using stream_invD(5) [OF s] by blast
  then obtain obj ops where o: "streamobj (FT k f) = Some obj" "streamfunc (FT k f) = Some ops"
    by (auto simp: opened_def)
  obtain res sc where "Read_again ops c (ksched (monitor k)) obj sz rx = (res, sc)" by force
  then have "sys_Read_again k c f sz rx = io_finish k f (res, sc)" using o by (simp add: sys_Read_again_def)
  then show ?thesis using io_again [OF inv cur h, of res sc] by simp
qed

section \<open>Calls on processes\<close>

lemma children_iff:
  assumes "pinv k cs es ps" and "p < MAX_PROC"
  shows "q \<in> set (cs p) \<longleftrightarrow> child_of k p q" and "q \<in> set (es p) \<longleftrightarrow> child_of k p q \<and> pstate (PT k q) = ZOMBIE"
proof -
  have "set (cs p) \<subseteq> {..<MAX_PROC}" using prepD(4) [OF pinvD(1) [OF assms(1)] assms(2)] by blast
  moreover have "set (es p) \<subseteq> {..<MAX_PROC}" using prepD(5) [OF pinvD(1) [OF assms(1)] assms(2)] by blast
  ultimately show "q \<in> set (cs p) \<longleftrightarrow> child_of k p q" "q \<in> set (es p) \<longleftrightarrow> child_of k p q \<and> pstate (PT k q) = ZOMBIE"
    using pinvD(4,5) [OF assms, of q] by (auto simp: child_of_def)
qed

text \<open>A parent is ALIVE, and a child is none of the processes 0 and 1.\<close>

lemma child_ofD:
  assumes "pinv k cs es ps" and "child_of k p q"
  shows "p < MAX_PROC" and "pstate (PT k p) = ALIVE" and "1 < q" and "q < MAX_PROC" and "p \<noteq> q"
  using pinvD(6) [OF assms(1), of q] assms(2) by (auto simp: child_of_def pcb_ok_def)

lemma rootedD:
  assumes "rooted k"
  obtains rank where "ranked k rank" "pstate (PT k 0) = ALIVE" "FIDT (PT k 0) = replicate MAX_FILEID None"
    "\<And>p. 0 < p \<Longrightarrow> p < MAX_PROC \<Longrightarrow> pstate (PT k p) = ALIVE \<Longrightarrow> pstate (PT k 1) = ALIVE"
  using assms by (auto simp: rooted_def)

lemma Exec_step:
  assumes inv: "kinv k pend" and cur: "0 < cur" "cur < MAX_PROC" "pstate (PT k cur) = ALIVE" and free: "pend cur = None"
    and s: "scheduled e c k"
  shows "ok_step k pend cur w (returns Val (sys_Exec k c cur call al arg (new_block e)))"
proof -
  obtain cs es ps fs where I: "pinv k cs es ps" "stream_inv k (uses pend) fs" "devices_ready (devs k)" "rooted k"
    "pend_ok k pend" using kinvD [OF inv] .
  obtain rank where R: "ranked k rank" "pstate (PT k 0) = ALIVE" "FIDT (PT k 0) = replicate MAX_FILEID None"
    "pstate (PT k 1) = ALIVE" using rootedD [OF I(4)] cur by metis
  obtain m j where m: "sinv m" "sch m = ksched (monitor k)" "\<not> live (sch m) (Thread j)" "new_block e = Thread j"
    using s by (auto simp: scheduled_def mon_ok_def)
  have same: "pend(cur := None) = pend" using free by auto
  show ?thesis
  proof (cases ps)
    case Nil
    then have "acquire_PCB k = (None, k)" using pinvD(2) [OF I(1)] pcbs.acquire_empty by blast
    then show ?thesis using same inv by (simp add: ok_step_def returns_def sys_Exec_def)
  next
    case (Cons newp ps')
    have I': "pinv k cs es (newp # ps')" using I(1) Cons by simp
    have n: "newp < MAX_PROC" "pstate (PT k newp) = FREE"
      using pinvD(2) [OF I'] pinvD(3) [OF I', of newp] by (auto simp: ppool_def)
    then have n1: "1 < newp" using R(2,4) by (cases newp; cases "newp - 1") auto
    obtain k' cs' where k': "sys_Exec k c cur call al arg (Thread j) = Some (int newp, k')" "pinv k' cs' es ps'"
      "stream_inv k' (uses pend) fs" "PT k' = (PT k)(newp := new_pcb k cur newp call al arg (Thread j))"
      using sys_Exec_Some [OF I' I(2) cur(2,3) m(1,2)] m(3) by blast
    have nopar: "\<not> child_of k newp q" for q using child_ofD(2) [OF I(1), of newp q] n(2) by auto
    have c: "child_of k' p q \<longleftrightarrow> child_of k p q \<or> p = cur \<and> q = newp" for p q
      using n n1 by (auto simp: child_of_def k'(4) new_pcb_def)
    have "newp \<noteq> cur" using n(2) cur(3) by auto
    then have "ranked k' (rank(newp := Suc (rank cur)))"
      using R(1) n1 cur(1) nopar n(2) c by (auto simp: ranked_def child_of_def)
    then have "rooted k'" using R(2-4) n1 by (auto simp: rooted_def k'(4))
    moreover have "pend_ok k' (pend(cur := None))"
      using c n(2) by (intro pend_ok_step [OF I(5)]) (auto simp: k'(4))
    moreover have "devices_ready (devs k')" using Exec_devs [OF k'(1)] I(3) by simp
    ultimately have "kinv k' (pend(cur := None))" using kinvI [OF k'(2)] k'(3) same by simp
    then show ?thesis using k'(1) m(4) by (simp add: ok_step_def returns_def)
  qed
qed

text \<open>Reaping: the zombies in \<open>Z\<close>, all of them children of the caller, become FREE.\<close>

lemma reap_step:
  assumes inv: "kinv k pend" and cur: "0 < cur" "cur < MAX_PROC" "pstate (PT k cur) = ALIVE"
    and Z: "\<And>q. q \<in> Z \<Longrightarrow> child_of k cur q \<and> pstate (PT k q) = ZOMBIE"
    and out: "\<And>p. p \<notin> Z \<Longrightarrow> PT k' p = PT k p" and freed: "\<And>p. p \<in> Z \<Longrightarrow> pstate (PT k' p) = FREE"
    and fr: "\<And>p. FIDT (PT k' p) = FIDT (PT k p)" "FT k' = FT k" "fheap k' = fheap k" "devs k' = devs k"
    and p': "pinv k' cs' es' ps'" and held: "held_fcb (pend cur) = None" "held_fcb w = None"
    and w: "w = None \<or> waits_ok k' cur (the w)"
  shows "kinv k' (pend(cur := w))"
proof -
  obtain cs es ps fs where I: "pinv k cs es ps" "stream_inv k (uses pend) fs" "devices_ready (devs k)" "rooted k"
    "pend_ok k pend" using kinvD [OF inv] .
  obtain rank where R: "ranked k rank" "pstate (PT k 0) = ALIVE" "FIDT (PT k 0) = replicate MAX_FILEID None"
    "pstate (PT k 1) = ALIVE" using rootedD [OF I(4)] cur by metis
  have alive: "pstate (PT k' p) = ALIVE" if "pstate (PT k p) = ALIVE" for p
    using that Z [of p] out [of p] by (cases "p \<in> Z") auto
  have sub: "child_of k p q" if "child_of k' p q" for p q
    using that out [of q] freed [of q] by (cases "q \<in> Z") (auto simp: child_of_def)
  have keep: "child_of k' p q" if "child_of k p q" "p \<noteq> cur" for p q
    using that Z [of q] out [of q] by (cases "q \<in> Z") (auto simp: child_of_def)
  have "ranked k' rank" using R(1) sub unfolding ranked_def by blast
  then have "rooted k'" using R(2-4) alive fr(1) by (auto simp: rooted_def)
  moreover have "pend_ok k' (pend(cur := w))"
    by (rule pend_ok_step [OF I(5)]) (use alive keep cur w in auto)
  moreover have "uses (pend(cur := w)) = uses pend" using uses_upd [OF cur(2), of pend w] held by simp
  moreover have "stream_inv k' (uses pend) fs" by (rule stream_inv_cong [OF I(2)]) (use fr in auto)
  ultimately show ?thesis using kinvI [OF p'] I(3) fr(4) by simp
qed

lemma WaitChild_result:
  assumes inv: "pinv k cs es ps" and cur: "cur < MAX_PROC"
  obtains (sleeps) "sys_WaitChild k cur pid = Some (Block, k)"
      "waits_ok k cur (if pid = NOPROC then P_wait_any else P_wait pid)"
  | (no_child) "sys_WaitChild k cur pid = Some (Done (NOPROC, None), k)"
      "\<not> waits_ok k cur (if pid = NOPROC then P_wait_any else P_wait pid)"
  | (reaps) q k' where "sys_WaitChild k cur pid = Some (Done (int q, Some (exitval (PT k q))), k')" "q \<in> set (es cur)"
      "reaped k cs es ps cur q k'"
proof (cases "pid = NOPROC")
  case True
  note W = wait_any_spec [OF assms]
  show thesis
  proof (cases "es cur")
    case Nil
    then have "sys_WaitChild k cur pid = Some (if cs cur = [] then Done (NOPROC, None) else Block, k)"
      using W True by (simp add: sys_WaitChild_def)
    moreover have "cs cur = [] \<longleftrightarrow> \<not> waits_ok k cur P_wait_any"
      using children_iff(1) [OF assms] by (cases "cs cur") auto
    ultimately show thesis using sleeps no_child True by (cases "cs cur = []") (simp_all del: waits_ok.simps)
  next
    case (Cons q qs)
    then show thesis using W True reaps [of q] by (auto simp: sys_WaitChild_def)
  qed
next
  case False
  note W = wait_specific_spec [OF assms, of pid]
  consider q where "pid = int q" "q \<in> set (es cur)" | q where "pid = int q" "q \<in> set (cs cur) - set (es cur)"
    | "\<forall>q. pid = int q \<longrightarrow> q \<notin> set (cs cur)" by blast
  then show thesis
  proof cases
    case (1 q)
    then show thesis using W False reaps [of q] by (auto simp: sys_WaitChild_def)
  next
    case (2 q)
    then show thesis using W False sleeps children_iff(1) [OF assms] by (auto simp: sys_WaitChild_def)
  next
    case 3
    then have "\<not> (0 \<le> pid \<and> child_of k cur (nat pid))" using children_iff(1) [OF assms] by (metis int_nat_eq)
    then show thesis using W False 3 no_child by (simp add: sys_WaitChild_def)
  qed
qed

text \<open>\<open>WaitChild\<close>, from its start or from its loop: while the process sleeps, its child stays.\<close>

lemma WaitChild_step:
  assumes inv: "kinv k pend" and cur: "0 < cur" "cur < MAX_PROC" "pstate (PT k cur) = ALIVE"
    and held: "held_fcb (pend cur) = None"
  shows "ok_step k pend cur (Some (if pid = NOPROC then P_wait_any else P_wait pid))
     (may_block (\<lambda>(p, st). Status p st) (sys_WaitChild k cur pid))"
proof -
  obtain cs es ps where I: "pinv k cs es ps" using kinvD [OF inv] by blast
  let ?w = "if pid = NOPROC then P_wait_any else P_wait pid"
  show ?thesis
  proof (rule WaitChild_result [OF I cur(2), of pid], goal_cases)
    case sleeps: 1
    have "kinv k (pend(cur := Some ?w))"
      by (rule reap_step [OF inv cur, of "{}"]) (use I held sleeps(2) in auto)
    then show ?thesis using sleeps(1) by (simp add: ok_step_def may_block_def)
  next
    case no_child: 2
    have "kinv k (pend(cur := None))" by (rule reap_step [OF inv cur, of "{}"]) (use I held in auto)
    then show ?thesis using no_child(1) by (simp add: ok_step_def may_block_def)
  next
    case reaps: (3 q k')
    have "child_of k cur q \<and> pstate (PT k q) = ZOMBIE" using children_iff(2) [OF I cur(2)] reaps(2) by blast
    then have "kinv k' (pend(cur := None))"
      by (intro reap_step [OF inv cur, of "{q}"]) (use held reaps(3) WaitChild_sem [OF reaps(1)] in \<open>auto simp: reaped_def\<close>)
    then show ?thesis using reaps(1) by (simp add: ok_step_def may_block_def)
  qed
qed

lemma wait_loops:
  assumes "pinv k cs es ps" and "cur < MAX_PROC"
  shows "child_of k cur q \<Longrightarrow> wait_any_loop k cur = sys_WaitChild k cur NOPROC"
    and "0 \<le> pid \<Longrightarrow> child_of k cur (nat pid) \<Longrightarrow> Some (wait_specific_loop k (nat pid) pid) = sys_WaitChild k cur pid"
proof -
  assume q: "child_of k cur q"
  have "sys_WaitChild k cur NOPROC \<noteq> Some (Done (NOPROC, None), k)"
  proof (rule WaitChild_result [OF assms, of NOPROC], goal_cases)
    case 2
    then show ?thesis using q by simp
  qed simp_all
  then show "wait_any_loop k cur = sys_WaitChild k cur NOPROC"
    by (auto simp: sys_WaitChild_def wait_for_any_child_def)
next
  assume "0 \<le> pid" "child_of k cur (nat pid)"
  then show "Some (wait_specific_loop k (nat pid) pid) = sys_WaitChild k cur pid"
    by (auto simp: sys_WaitChild_def wait_for_specific_child_def get_pcb_def child_of_def NOPROC_def)
qed

text \<open>\<open>Exit\<close>. The boot task exits last: without children it is the only process.\<close>

lemma last_process:
  assumes "pinv k cs es ps" and R: "ranked k rank" and "\<And>q. \<not> child_of k 1 q" and p: "1 < p" "p < MAX_PROC"
  shows "pstate (PT k p) = FREE"
  using p
proof (induction p rule: measure_induct_rule [where f = rank])
  case (less p)
  show ?case
  proof (rule ccontr)
    assume nf: "pstate (PT k p) \<noteq> FREE"
    then obtain r where r: "parent (PT k p) = Some r" "pstate (PT k r) = ALIVE"
      using pinvD(6) [OF assms(1) less.prems(2)] less.prems(1) by (auto simp: pcb_ok_def)
    then have c: "child_of k r p" using nf less.prems by (simp add: child_of_def)
    then have "r \<noteq> 0" "rank r < rank p" "r < MAX_PROC"
      using R child_ofD(1) [OF assms(1) c] by (auto simp: ranked_def)
    moreover have "r \<noteq> 1" using assms(3) c by auto
    ultimately show False using less.IH [of r] r(2) by simp
  qed
qed

lemma exit_step:
  assumes inv: "kinv k pend" and cur: "0 < cur" "cur < MAX_PROC" "pstate (PT k cur) = ALIVE" and free: "pend cur = None"
    and s: "scheduled e c k" and boot: "cur = 1 \<Longrightarrow> (\<And>q. \<not> child_of k 1 q)"
  shows "\<exists>k'. exit_rest k c cur ev ct = Some k' \<and> kinv k' pend"
proof -
  obtain cs es ps fs where I: "pinv k cs es ps" "stream_inv k (uses pend) fs" "devices_ready (devs k)" "rooted k"
    "pend_ok k pend" using kinvD [OF inv] .
  obtain rank where R: "ranked k rank" "pstate (PT k 0) = ALIVE" "FIDT (PT k 0) = replicate MAX_FILEID None"
    "pstate (PT k 1) = ALIVE" using rootedD [OF I(4)] cur by metis
  obtain m Q i where m: "mon_ok m Q (monitor k)" "c \<in> up m" "pc m c = Run" "thread_at m c = Thread i"
    using s by (auto simp: scheduled_def)
  have ch: "q \<in> set (cs cur) \<longleftrightarrow> child_of k cur q" for q by (rule children_iff(1) [OF I(1) cur(2)])
  have "cs 1 = []" if "cur = 1" using boot ch that by (cases "cs 1") auto
  then obtain k' fs' cs' es' where k': "exit_rest k c cur ev ct = Some k'" "pinv k' cs' es' ps"
    "stream_inv k' (uses pend) fs'" "PT k' = exited_table k cur (cs cur) ev"
    using exit_rest_spec [OF I(1,2) cur(2,3) R(4) _ m] by blast
  have self: "\<not> child_of k cur cur" using child_ofD(5) [OF I(1), of cur cur] by auto
  have c: "child_of k' p q \<longleftrightarrow> (if child_of k cur q then p = 1 else child_of k p q)" for p q
    using self cur(3) by (auto simp: child_of_def k'(4) exited_table_def ch)
  have st: "pstate (PT k' p) = (if p = cur then ZOMBIE else pstate (PT k p))" for p
    by (simp add: k'(4) exited_table_def)
  have "0 < rank q" if "child_of k p q" for p q using R(1) that unfolding ranked_def by (metis gr0I not_less0)
  then have "ranked k' rank" using R(1) c by (auto simp: ranked_def)
  moreover have "FIDT (PT k' 0) = replicate MAX_FILEID None" using R(3) by (simp add: k'(4) exited_table_def)
  moreover have "pstate (PT k' 1) = ALIVE" if "0 < p" "p < MAX_PROC" "pstate (PT k' p) = ALIVE" for p
  proof (cases "cur = 1")
    case True
    have "p \<noteq> 1" using that(3) True st by auto
    then have "pstate (PT k p) = FREE" using last_process [OF I(1) R(1) boot] True that by auto
    then show ?thesis using that(3) st by (auto split: if_splits)
  qed (use st R(4) in auto)
  moreover have "pstate (PT k' 0) = ALIVE" "pstate (PT k' 1) \<noteq> FREE" using R(2,4) st cur(1) by simp_all
  ultimately have "rooted k'" unfolding rooted_def by blast
  moreover have "pend_ok k' pend"
  proof -
    have "child_of k' p q" if "child_of k p q" "p \<noteq> cur" for p q
    proof -
      have "\<not> child_of k cur q" using that by (auto simp: child_of_def)
      then show ?thesis using c that(1) by simp
    qed
    then have "pend_ok k' (pend(cur := None))" by (intro pend_ok_step [OF I(5)]) (auto simp: st)
    then show ?thesis using free by (simp add: fun_upd_idem)
  qed
  moreover have "devices_ready (devs k')" using exit_rest_sem [OF k'(1)] I(3) by simp
  ultimately show ?thesis using k'(1) kinvI [OF k'(2,3)] by blast
qed

lemma Exit_step:
  assumes inv: "kinv k pend" and cur: "0 < cur" "cur < MAX_PROC" "pstate (PT k cur) = ALIVE"
    and held: "held_fcb (pend cur) = None" and s: "scheduled e c k"
  shows "ok_step k pend cur (Some (P_exit ev)) (may_block (\<lambda>_. No_return) (sys_Exit k c cur ev ct))"
proof -
  obtain cs es ps where I: "pinv k cs es ps" using kinvD [OF inv] by blast
  show ?thesis
  proof (cases "cur = 1")
    case False
    have "kinv k (pend(cur := None))" by (rule reap_step [OF inv cur, of "{}"]) (use I held in auto)
    from exit_step [OF this cur _ s, of ev ct] obtain k' where k': "exit_rest k c cur ev ct = Some k'"
      "kinv k' (pend(cur := None))" using False by auto
    have "sys_Exit k c cur ev ct = Some (Done (), k')"
      using k'(1) False by (simp add: sys_Exit_def sys_GetPid_def get_pid_def)
    then show ?thesis using k'(2) by (simp add: ok_step_def may_block_def)
  next
    case True
    note Z = children_iff [OF I cur(2)]
    obtain k1 cs' ps' where k1: "init_reap k cur = Some (if set (cs cur) \<subseteq> set (es cur) then Done () else Block, k1)"
      "pinv k1 cs' (es(cur := [])) ps'" "set ps' = set (es cur) \<union> set ps"
      "cs' = cs(cur := filter (\<lambda>q. q \<notin> set (es cur)) (cs cur))"
      "\<And>p. p \<notin> set (es cur) \<Longrightarrow> PT k1 p = PT k p" "\<And>p. FIDT (PT k1 p) = FIDT (PT k p)" "FT k1 = FT k"
      "fheap k1 = fheap k" "monitor k1 = monitor k" using init_reap_spec [OF I cur(2)] by auto
    have freed: "pstate (PT k1 p) = FREE" if "p \<in> set (es cur)" for p
      using pinvD(3) [OF k1(2), of p] k1(3) that Z(2) by (auto simp: child_of_def)
    have ch: "child_of k1 cur q \<longleftrightarrow> q \<in> set (cs cur) - set (es cur)" for q
      using children_iff(1) [OF k1(2) cur(2)] k1(4) by auto
    have step: "kinv k1 (pend(cur := w))" if "w = None \<or> waits_ok k1 cur (the w)" "held_fcb w = None" for w
      by (rule reap_step [OF inv cur, of "set (es cur)"])
        (use that held k1(2,5-8) freed Z init_reap_sem [OF k1(1)] in auto)
    show ?thesis
    proof (cases "set (cs cur) \<subseteq> set (es cur)")
      case False
      then obtain q where "child_of k1 cur q" using ch by blast
      then have "kinv k1 (pend(cur := Some (P_exit ev)))" using step [of "Some (P_exit ev)"] True by auto
      moreover have "sys_Exit k c cur ev ct = Some (Block, k1)"
        using k1(1) True False by (simp add: sys_Exit_def sys_GetPid_def get_pid_def)
      ultimately show ?thesis by (simp add: ok_step_def may_block_def)
    next
      case sub: True
      have p1: "PT k1 cur = PT k cur" using k1(5) Z(2) cur(3) by (metis pid_state.distinct(5))
      have s1: "scheduled e c k1" using s k1(9) by (simp add: scheduled_def)
      have no: "\<not> child_of k1 1 q" for q using ch sub True by blast
      have "kinv k1 (pend(cur := None))" using step [of None] by simp
      from exit_step [OF this cur(1,2) _ _ s1 no, of ev ct] obtain k' where k': "exit_rest k1 c cur ev ct = Some k'"
        "kinv k' (pend(cur := None))" using p1 cur(3) by auto
      have "sys_Exit k c cur ev ct = Some (Done (), k')"
        using k1(1) k'(1) True sub by (simp add: sys_Exit_def sys_GetPid_def get_pid_def)
      then show ?thesis using k'(2) by (simp add: ok_step_def may_block_def)
    qed
  qed
qed

lemma Exit_again:
  assumes "wait_any_loop k 1 = sys_WaitChild k 1 NOPROC"
  shows "sys_Exit_again k c 1 ev ct = sys_Exit k c 1 ev ct"
proof -
  have "init_reap k 1 = do {
     (r, k1) \<leftarrow> wait_any_loop k 1;
     (case r of
        Block \<Rightarrow> Some (Block, k1)
      | Done (cpid, st) \<Rightarrow> if cpid \<noteq> NOPROC then init_reap k1 1 else Some (Done (), k1))
   }" using init_reap.simps [of k 1] assms by simp
  then show ?thesis
    by (cases "wait_any_loop k 1")
       (auto simp: sys_Exit_again_def sys_Exit_def sys_GetPid_def get_pid_def split: io.splits)
qed

section \<open>Every step\<close>

lemma pure_step: "kinv k pend \<Longrightarrow> pend cur = None \<Longrightarrow> ok_step k pend cur w (Some (Done v, k))"
  by (simp add: ok_step_def fun_upd_idem)

lemma call_step:
  assumes "kinv k pend" "0 < cur" "cur < MAX_PROC" "pstate (PT k cur) = ALIVE" "pend cur = None" "scheduled e c k"
  shows "ok_step k pend cur (suspended req k cur) (SYSCALLS req e c cur k)"
proof -
  have h: "held_fcb (pend cur) = None" using assms(5) by simp
  note S = pure_step [OF assms(1,5)] Close_step [OF assms(1-5)] Dup2_step [OF assms(1-5)] open_step [OF assms(1-5)]
    Exec_step [OF assms] WaitChild_step [OF assms(1-4) h] Exit_step [OF assms(1-4) h assms(6)]
  show ?thesis using S Read_step [OF assms(1-5)] Write_step [OF assms(1-5)]
    by (cases req) (simp_all del: suspended.simps(3,4))
qed

lemma resume_step:
  assumes inv: "kinv k pend" and w: "pend cur = Some w" and s: "scheduled e c k"
  shows "ok_step k pend cur (Some w) (resume w e c cur k)"
proof -
  obtain cs es ps where I: "pinv k cs es ps" and "pend_ok k pend" using kinvD [OF inv] by blast
  from pend_okD [OF this(2) w] have cur: "0 < cur" "cur < MAX_PROC" "pstate (PT k cur) = ALIVE" and ok: "waits_ok k cur w"
    by auto
  show ?thesis
  proof (cases w)
    case (P_read f sz)
    then show ?thesis using Read_again_step [OF inv cur, of f sz c "rx_bytes e"] w by simp
  next
    case (P_write f sobj devwrite buf sz)
    obtain res sc where m: "devwrite c (ksched (monitor k)) sobj buf sz (tx_room e) = (res, sc)" by force
    show ?thesis using io_again [OF inv cur, of f res sc] w P_write m by (simp add: sys_Write_again_def)
  next
    case (P_wait pid)
    then show ?thesis
      using WaitChild_step [OF inv cur, of pid] wait_loops(2) [OF I cur(2), of pid] ok w by (auto simp: NOPROC_def)
  next
    case P_wait_any
    then show ?thesis using WaitChild_step [OF inv cur, of NOPROC] wait_loops(1) [OF I cur(2)] ok w by auto
  next
    case (P_exit ev)
    then show ?thesis
      using Exit_step [OF inv cur _ s, of ev "now e"] Exit_again wait_loops(1) [OF I cur(2)] ok w by auto
  qed
qed

lemma monitor_step:
  assumes "kinv k pend"
  shows "kinv (k\<lparr>monitor := mn\<rparr>) pend"
proof -
  obtain cs es ps fs where I: "pinv k cs es ps" "stream_inv k (uses pend) fs" "devices_ready (devs k)" "rooted k"
    "pend_ok k pend" using kinvD [OF assms] .
  have "child_of (k\<lparr>monitor := mn\<rparr>) = child_of k" by (simp add: child_of_def fun_eq_iff)
  then have "waits_ok (k\<lparr>monitor := mn\<rparr>) p w = waits_ok k p w" for p w by (cases w) simp_all
  then have "pend_ok (k\<lparr>monitor := mn\<rparr>) pend" using I(5) by (simp add: pend_ok_def)
  moreover have "rooted (k\<lparr>monitor := mn\<rparr>)" by (rule rooted_cong [OF I(4)]) simp_all
  moreover have "pinv (k\<lparr>monitor := mn\<rparr>) cs es ps" by (rule pinv_cong [OF I(1)]) simp_all
  moreover have "stream_inv (k\<lparr>monitor := mn\<rparr>) (uses pend) fs" by (rule stream_inv_cong [OF I(2)]) simp_all
  ultimately show ?thesis using kinvI I(3) by simp
qed

lemma boot_devices_ready:
  assumes "initialized_devices d d'" and "serial_ports d \<le> MAX_TERMINALS"
  shows "devices_ready d'"
proof -
  have n: "unat (of_nat (serial_ports d) :: uint32) = serial_ports d"
    using assms(2) by (intro unat_of_nat_small) (simp add: MAX_TERMINALS_def)
  have zero: "\<not> (1::uint32) \<le> minor \<longleftrightarrow> minor = 0" for minor by (auto simp: word_le_nat_alt not_le unat_eq_0)
  show ?thesis using assms(1) zero n
    by (auto simp: devices_ready_def device_open_def initialized_devices_def nulldev_fops_def nulldev_open_def
        serial_fops_def serial_open_def word_le_nat_alt not_le)
qed

lemma start_kinv:
  assumes "sys_start S"
  shows "kinv (kern S) (pending S)"
proof -
  obtain br e w w' k j where b: "fresh_monitor k" "new_block e = Thread j" "serial_ports (devs k) \<le> MAX_TERMINALS"
    "boot_tinyos_kernel br e w w' k = Some (kern S)" "pending S = (\<lambda>_. None)"
    using assms by (auto simp: sys_start_def fun_eq_iff)
  have B: "pinv (kern S) (\<lambda>_. []) (\<lambda>_. []) [2..<MAX_PROC]" "stream_inv (kern S) (\<lambda>_. 0) [0..<MAX_FILES]"
    "pstate (PT (kern S) 0) = ALIVE" "pstate (PT (kern S) 1) = ALIVE" "initialized_devices (devs k) (devs (kern S))"
    using booted [OF b(1,2), of br w w'] b(4) by auto
  have "uses (pending S) = (\<lambda>_. 0)" by (simp add: uses_def b(5) fun_eq_iff)
  moreover have "\<not> child_of (kern S) p q" for p q
  proof
    assume c: "child_of (kern S) p q"
    then show False using children_iff(1) [OF B(1) child_ofD(1) [OF B(1) c], of q] by simp
  qed
  then have "ranked (kern S) (\<lambda>_. 0)" by (simp add: ranked_def)
  moreover have "FIDT (PT (kern S) 0) = replicate MAX_FILEID None"
  proof -
    have "0 < MAX_PROC" by (simp add: MAX_PROC_def)
    have l: "length (FIDT (PT (kern S) 0)) = MAX_FILEID"
      using finvD(2) [OF stream_invD(1) [OF B(2)]] by (simp add: tables_ok_def MAX_PROC_def)
    have "FIDT (PT (kern S) 0) ! i = None" if "i < MAX_FILEID" for i
      using descriptor_ok(1,2) [OF B(2) \<open>0 < MAX_PROC\<close> that] by (cases "FIDT (PT (kern S) 0) ! i") auto
    then show ?thesis using l by (simp add: list_eq_iff_nth_eq)
  qed
  ultimately show ?thesis
    using B boot_devices_ready [OF B(5) b(3)] by (auto simp: kinv_def rooted_def pend_ok_def b(5))
qed

interpretation kernel_machine: transition_invariant sys_start sys_step "\<lambda>S. kinv (kern S) (pending S)"
proof
  show "sys_start S \<Longrightarrow> kinv (kern S) (pending S)" for S by (rule start_kinv)
  show "kinv (kern T) (pending T)" if inv: "kinv (kern S) (pending S)" and "sys_step S T" for S T
    using that(2)
  proof cases
    case (between mn)
    then show ?thesis using monitor_step [OF inv] by simp
  next
    case (call cur e c req r)
    then show ?thesis using call_step [OF inv, of cur e c req] by (auto simp: active_def ok_step_def suspend_def)
  next
    case (continue cur w e c r)
    then show ?thesis using resume_step [OF inv, of cur w e c] by (auto simp: ok_step_def suspend_def)
  qed
qed

text \<open>A system call with the kernel lock around it is one or more steps of the machine.\<close>

lemma suspended_monitor: "suspended req (k\<lparr>monitor := mn\<rparr>) cur = suspended req k cur"
  by (cases req) (simp_all add: get_fcb_def)

lemma between_reach: "reach sys_start sys_step \<lparr>kern = k, pending = pend\<rparr> \<Longrightarrow>
    reach sys_start sys_step \<lparr>kern = k\<lparr>monitor := mn\<rparr>, pending = pend\<rparr>"
  using between [of "\<lparr>kern = k, pending = pend\<rparr>" mn] by (auto intro: reach_trans)

lemma SYSCALL_steps:
  assumes S: "reach sys_start sys_step S" and cur: "active S cur" "pending S cur = None"
    and call: "SYSCALL c cur w w' e req (kern S) = Some (v, k')"
    and run: "\<And>k1. PRE_CALL c w (now e) (kern S) = Some (Proceeds, k1) \<Longrightarrow> scheduled e c k1"
  shows "reach sys_start sys_step \<lparr>kern = k', pending = (pending S)(cur :=
     (if v = Waits \<or> v = Polls then suspended req (kern S) cur else None))\<rparr>"
proof -
  obtain r k1 where k1: "PRE_CALL c w (now e) (kern S) = Some (r, k1)"
    using call by (auto simp: SYSCALL_def split: bind_splits)
  define S1 where "S1 = S\<lparr>kern := k1\<rparr>"
  have e1: "k1 = (kern S)\<lparr>monitor := monitor k1\<rparr>" using PRE_CALL_Some [OF k1] by blast
  have "S1 = S\<lparr>kern := (kern S)\<lparr>monitor := monitor k1\<rparr>\<rparr>" unfolding S1_def using e1 by (rule arg_cong)
  then have S1: "reach sys_start sys_step S1" using reach_trans [OF S between] by simp
  show ?thesis
  proof (cases r)
    case Sleeps
    then have "v = Locked_out" "k' = k1" using call k1 by (auto simp: SYSCALL_def)
    then show ?thesis using S1 cur(2) by (cases S) (simp add: S1_def fun_upd_idem)
  next
    case Proceeds
    then obtain ret k2 where k2: "SYSCALLS req e c cur k1 = Some (ret, k2)"
      using call k1 by (auto simp: SYSCALL_def split: bind_splits)
    have sus: "suspended req k1 cur = suspended req (kern S) cur"
      using suspended_monitor [where k = "kern S" and mn = "monitor k1"] e1 by simp
    have "pstate (PT k1 cur) = pstate (PT (kern S) cur)" by (subst e1) simp
    then have "active S1 cur" using cur(1) by (simp add: active_def S1_def)
    from sys_step.call [OF this, of e c req "(ret, k2)"] have step: "sys_step S1 (suspend S1 cur (suspended req k1 cur) (ret, k2))"
      using cur(2) run k1 k2 Proceeds by (simp add: S1_def)
    define pend where "pend = (pending S)(cur := (case ret of Block \<Rightarrow> suspended req (kern S) cur | Done _ \<Rightarrow> None))"
    have two: "reach sys_start sys_step \<lparr>kern = k2, pending = pend\<rparr>"
      using reach_trans [OF S1 step] sus by (simp add: S1_def suspend_def pend_def)
    have "\<exists>mn. k' = k2\<lparr>monitor := mn\<rparr>" and "v = Waits \<or> v = Polls \<longleftrightarrow> ret = Block"
      using call k1 k2 Proceeds
      by (auto simp: SYSCALL_def POST_CALL_def intro: exI [of _ "monitor k2"]
          split: io.splits result.splits option.splits bind_splits)
    then show ?thesis using between_reach [OF two] by (cases ret) (auto simp: pend_def)
  qed
qed

section \<open>Properties\<close>

lemma halted:
  assumes inv: "kinv k pend" and "pstate (PT k 1) \<noteq> ALIVE"
  shows "\<And>p. 1 < p \<Longrightarrow> p < MAX_PROC \<Longrightarrow> pstate (PT k p) = FREE" and "process_count k = 2"
    and "\<And>p. pend p = None" and "\<exists>fs. frep k fs \<and> set fs = {..<MAX_FILES}"
proof -
  obtain cs es ps fs where I: "pinv k cs es ps" "stream_inv k (uses pend) fs" "devices_ready (devs k)" "rooted k"
    "pend_ok k pend" using kinvD [OF inv] .
  obtain rank where R: "ranked k rank" "pstate (PT k 0) = ALIVE" "FIDT (PT k 0) = replicate MAX_FILEID None"
    "\<And>p. 0 < p \<Longrightarrow> p < MAX_PROC \<Longrightarrow> pstate (PT k p) = ALIVE \<Longrightarrow> pstate (PT k 1) = ALIVE" using rootedD [OF I(4)] by blast
  have dead: "pstate (PT k p) \<noteq> ALIVE" if "0 < p" "p < MAX_PROC" for p using R(4) that assms(2) by blast
  show free: "pstate (PT k p) = FREE" if p: "1 < p" "p < MAX_PROC" for p
  proof (rule ccontr)
    assume "pstate (PT k p) \<noteq> FREE"
    then obtain r where c: "child_of k r p"
      using pinvD(6) [OF I(1) p(2)] p by (auto simp: pcb_ok_def child_of_def)
    then show False using R(1) dead child_ofD(1,2) [OF I(1) c] by (auto simp: ranked_def)
  qed
  show none: "pend p = None" for p using pend_okD [OF I(5), of p] dead [of p] by (cases "pend p") auto
  have M: "1 < MAX_PROC" by (simp add: MAX_PROC_def)
  have "set ps \<subseteq> {..<MAX_PROC}" "0 \<notin> set ps" "1 \<notin> set ps"
    using pinvD(2) [OF I(1)] pinvD(3) [OF I(1), of 0] pinvD(3) [OF I(1), of 1] R(2) I(4) M
    by (auto simp: ppool_def rooted_def)
  moreover have "p \<in> set ps" if "1 < p" "p < MAX_PROC" for p using pinvD(3) [OF I(1) that(2)] free [OF that] by simp
  ultimately have "set ps = {2..<MAX_PROC}"
    by (auto simp: subset_iff numeral_2_eq_2 Suc_le_eq) (metis One_nat_def gr0I less_one nat_neq_iff)
  moreover have "distinct ps" using pinvD(2) [OF I(1)] by (simp add: ppool_def)
  ultimately have "length ps = MAX_PROC - 2" by (metis card_atLeastLessThan distinct_card)
  then show "process_count k = 2" using pinvD(7) [OF I(1)] by (simp add: MAX_PROC_def)
  have "FIDT (PT k p) = replicate MAX_FILEID None" if "p < MAX_PROC" for p
    using pinvD(6) [OF I(1) that] dead [OF _ that] R(3) by (cases "p = 0") (auto simp: pcb_ok_def)
  then have "refs k f = 0" for f by (simp add: refs_def count_list_0_iff)
  moreover have "uses pend f = 0" for f by (simp add: uses_def none)
  ultimately have "f \<in> set fs" if "f < MAX_FILES" for f using stream_invD(4) [OF I(2) that] by force
  moreover have fr: "frep k fs" using finvD(1) [OF stream_invD(1) [OF I(2)]] .
  moreover have "set fs \<subseteq> {..<MAX_FILES}" using fr by (simp add: frep_def)
  ultimately show "\<exists>fs. frep k fs \<and> set fs = {..<MAX_FILES}" by blast
qed

lemma unused_block: "sinv m \<Longrightarrow> \<exists>j. \<not> live (sch m) (Thread j)"
  using ex_new_if_finite [of "{k. live (sch m) (Thread k)}"] by (auto simp: sinv_def sinv_qw_def threads_ok_def)

text \<open>A booted kernel whose first process runs.\<close>

lemma ex_system:
  "\<exists>S e. reach sys_start sys_step S \<and> active S 1 \<and> (\<forall>p. pending S p = None) \<and> scheduled e 0 (kern S) \<and>
     (\<forall>q. \<not> child_of (kern S) 1 q)"
proof -
  let ?br = "\<lparr>init_task = 5, boot_argl = 2, boot_args = Some [7, 8]\<rparr>"
  have env: "new_block ex_env = Thread 3" by (simp add: ex_env_def)
  obtain k where k: "boot_tinyos_kernel ?br ex_env 0 1 ex_quiet = Some k" "pinv k (\<lambda>_. []) (\<lambda>_. []) [2..<MAX_PROC]"
    "pstate (PT k 1) = ALIVE" using booted [OF ex_quiet_facts(1) env, of ?br 0 1] by blast
  have "serial_ports (devs ex_quiet) \<le> MAX_TERMINALS"
    by (auto simp: ex_quiet_def ex_kernel_simps ex_ready_devices_def initialize_devices_def ex_devices_def
        MAX_TERMINALS_def Let_def dest!: init_serial_table split: prod.splits)
  then have "sys_start \<lparr>kern = k, pending = \<lambda>_. None\<rparr>"
    using k(1) ex_quiet_facts(1) env unfolding sys_start_def by fastforce
  then have r: "reach sys_start sys_step \<lparr>kern = k\<lparr>monitor := ex_mon ex_run\<rparr>, pending = \<lambda>_. None\<rparr>"
    by (intro between_reach reach_start)
  obtain j where j: "\<not> live (sch ex_run) (Thread j)" using unused_block ex_run_facts by blast
  have "scheduled (ex_env\<lparr>new_block := Thread j\<rparr>) 0 (k\<lparr>monitor := ex_mon ex_run\<rparr>)"
    using ex_mon_ok [of ex_run] ex_run_facts j by (auto simp: scheduled_def)
  moreover have "\<not> child_of (k\<lparr>monitor := ex_mon ex_run\<rparr>) 1 q" for q
    using children_iff(1) [OF k(2), of 1 q] by (simp add: child_of_def MAX_PROC_def)
  moreover have "active \<lparr>kern = k\<lparr>monitor := ex_mon ex_run\<rparr>, pending = \<lambda>_. None\<rparr> 1"
    using k(3) by (simp add: active_def MAX_PROC_def)
  ultimately show ?thesis using r by (metis ksys.select_convs)
qed

text \<open>C2: Whatever the processes do, in whatever order: after boot and any sequence of system calls and
  wakeups, the lists of children and of exited children, the free PCBs and the process counter agree with the
  process table, every stream counts exactly the descriptors and the sleeping calls that refer to it, and a
  process sleeps in \<open>WaitChild\<close> only while it has a child that it can wait for.\<close>

theorem reachable_kernels_consistent:
  assumes "reach sys_start sys_step S"
  shows "(\<exists>cs es ps fs. pinv (kern S) cs es ps \<and> stream_inv (kern S) (uses (pending S)) fs) \<and> rooted (kern S) \<and>
     (\<forall>p w. pending S p = Some w \<longrightarrow> active S p \<and> waits_ok (kern S) p w)"
  using kernel_machine.inv_reach [OF assms] by (auto simp: kinv_def active_def dest: pend_okD)

theorem reachable_kernels_consistent_witness:
  "\<exists>S. reach sys_start sys_step S \<and> active S 1 \<and> rooted (kern S)"
  using ex_system reachable_kernels_consistent by blast



text \<open>C3: The kernel leaks nothing. When the boot task has exited, every other process has been reaped, only
  the two first processes are counted, nobody sleeps in a call, and every stream is back in the free list.\<close>

theorem nothing_leaks:
  assumes "reach sys_start sys_step S" and "pstate (PT (kern S) 1) \<noteq> ALIVE"
  shows "(\<forall>p. 1 < p \<and> p < MAX_PROC \<longrightarrow> pstate (PT (kern S) p) = FREE) \<and> process_count (kern S) = 2 \<and>
     (\<forall>p. pending S p = None) \<and> (\<exists>fs. frep (kern S) fs \<and> set fs = {..<MAX_FILES})"
  using halted [OF kernel_machine.inv_reach [OF assms(1)] assms(2)] by blast

lemma boot_task_exits:
  assumes "kinv k pend" and "pstate (PT k 1) = ALIVE" and none: "\<And>q. \<not> child_of k 1 q" and s: "scheduled e c k"
  shows "\<exists>k'. sys_Exit k c 1 ev ct = Some (Done (), k') \<and> pstate (PT k' 1) = ZOMBIE"
proof -
  obtain cs es ps fs where I: "pinv k cs es ps" "stream_inv k (uses pend) fs" by (rule kinvD [OF assms(1)])
  have M: "(1::nat) < MAX_PROC" by (simp add: MAX_PROC_def)
  have "\<forall>q. q \<notin> set (cs 1)" "\<forall>q. q \<notin> set (es 1)" using children_iff [OF I(1) M] none by simp_all
  then have cs: "cs 1 = []" "es 1 = []" by (metis last_in_set)+
  obtain k1 where k1: "pinv k1 (cs(1 := [])) (es(1 := [])) ps" "stream_inv k1 (uses pend) fs" "PT k1 1 = PT k 1"
    "monitor k1 = monitor k" "sys_Exit k c 1 ev ct = map_option (\<lambda>k2. (Done (), k2)) (exit_rest k1 c 1 ev ct)"
    by (rule boot_task_reaps [OF I M assms(2), of c ev ct]) (simp add: cs del: One_nat_def)
  obtain m Q i where m: "mon_ok m Q (monitor k1)" "c \<in> up m" "pc m c = Run" "thread_at m c = Thread i"
    using s k1(4) by (auto simp: scheduled_def)
  have a: "pstate (PT k1 1) = ALIVE" using assms(2) k1(3) by simp
  obtain k' where "exit_rest k1 c 1 ev ct = Some k'" "PT k' = exited_table k1 1 ((cs(1 := [])) 1) ev"
    using exit_rest_spec [OF k1(1,2) M a a _ m, of ev ct] by auto
  then show ?thesis using k1(5) by (simp add: exited_table_def)
qed

theorem nothing_leaks_witness:
  "\<exists>S. reach sys_start sys_step S \<and> pstate (PT (kern S) 1) = ZOMBIE \<and> process_count (kern S) = 2"
proof -
  obtain S e where S: "reach sys_start sys_step S" "active S 1" "pending S 1 = None" "scheduled e 0 (kern S)"
    "\<And>q. \<not> child_of (kern S) 1 q" using ex_system by blast
  obtain k' where k': "sys_Exit (kern S) 0 1 3 (now e) = Some (Done (), k')" "pstate (PT k' 1) = ZOMBIE"
    using boot_task_exits [OF kernel_machine.inv_reach [OF S(1)] _ S(5,4)] S(2) by (auto simp: active_def)
  then have "SYSCALLS (Exit 3) e 0 1 (kern S) = Some (Done No_return, k')" by (simp add: may_block_def)
  from reach_trans [OF S(1) call [OF S(2-4) this]] nothing_leaks [of "suspend S 1 (suspended (Exit 3) (kern S) 1) (Done No_return, k')"]
  show ?thesis using k'(2) by (auto simp: suspend_def)
qed

text \<open>C4: The tables of file ids are well formed in every reachable state: each process has one entry for
  each file id, and an entry that is not empty names a stream that is open, has a device and methods, and is
  not in the free list. A process that is not running has no open file.\<close>

theorem descriptors_well_formed:
  assumes "reach sys_start sys_step S"
  shows "\<exists>fs. frep (kern S) fs \<and> (\<forall>p < MAX_PROC. length (FIDT (PT (kern S) p)) = MAX_FILEID \<and>
     (pstate (PT (kern S) p) \<noteq> ALIVE \<longrightarrow> FIDT (PT (kern S) p) = replicate MAX_FILEID None) \<and>
     (\<forall>fd f. get_fcb (kern S) p fd = Some f \<longrightarrow> f < MAX_FILES \<and> opened (kern S) f \<and> f \<notin> set fs))"
proof -
  obtain cs es ps fs where I: "pinv (kern S) cs es ps" "stream_inv (kern S) (uses (pending S)) fs"
    by (rule kinvD [OF kernel_machine.inv_reach [OF assms]])
  note F = finvD(1,2) [OF stream_invD(1) [OF I(2)]]
  have "f < MAX_FILES \<and> opened (kern S) f \<and> f \<notin> set fs" if "p < MAX_PROC" "get_fcb (kern S) p fd = Some f" for p fd f
    using descriptor_ok [OF I(2) that(1), of "nat fd" f] get_fcb_Some [OF that(2)] by auto
  moreover have "FIDT (PT (kern S) p) = replicate MAX_FILEID None"
    if "p < MAX_PROC" "pstate (PT (kern S) p) \<noteq> ALIVE" for p
    using pinvD(6) [OF I(1) that(1)] that(2) by (simp add: pcb_ok_def)
  ultimately show ?thesis using F by (auto simp: tables_ok_def intro!: exI [of _ fs])
qed

theorem descriptors_well_formed_witness:
  "\<exists>S. reach sys_start sys_step S \<and> length (FIDT (PT (kern S) 1)) = 16"
proof -
  obtain S where S: "reach sys_start sys_step S" using ex_system by blast
  have "1 < MAX_PROC" by (simp add: MAX_PROC_def)
  then show ?thesis using descriptors_well_formed [OF S] S by (auto simp: MAX_FILEID_def)
qed

end
