(* ===== verification/Util_Tests.thy ===== *)
theory Util_Tests
  imports Rlist_Props Exceptions Argv
begin

text \<open>
  The tests of the lists, of the string vectors and of the exceptions, \<^verbatim>\<open>test_util.c\<close>, on the models of
  \<open>Rlist\<close>, \<open>Argv\<close> and \<open>Exceptions\<close>.

  A test of the lists is a sequence of steps over a state that holds the nodes, the number of blocks that
  \<open>malloc\<close> has handed out and the flag that a failed ASSERT sets; a failed ASSERT does not stop the test.
  \<open>None\<close>: a loop does not end. What the variables hold at the start is arbitrary.
\<close>

section \<open>The steps of a test\<close>

text \<open>Nodes: variables of the test, elements of its array of nodes, blocks of \<open>malloc\<close>. Keys: the values of
  the union that the tests store, NULL, a number, the address of an array element and the address of a node.
  The tests compare only keys of the same kind.\<close>

datatype unode = Var nat | Elem nat | Heap nat

datatype ukey = Null_key | Num int | Item nat | At unode

type_synonym umem = "(unode, ukey) rlheap"

record utest =
  list_mem :: umem
  blocks :: nat
  flag_failure :: bool

type_synonym step = "utest \<Rightarrow> utest option"

fun seq :: "step list \<Rightarrow> step" where
  "seq [] st = Some st"
| "seq (t # ts) st = do { st1 \<leftarrow> t st; seq ts st1 }"

fun for_in :: "nat list \<Rightarrow> (nat \<Rightarrow> 's \<Rightarrow> 's option) \<Rightarrow> 's \<Rightarrow> 's option" where
  "for_in [] body st = Some st"
| "for_in (i # is) body st = do { st1 \<leftarrow> body i st; for_in is body st1 }"

definition record_check :: "bool \<Rightarrow> utest \<Rightarrow> utest" where
  "record_check b st = st\<lparr>flag_failure := flag_failure st \<or> \<not> b\<rparr>"

definition ASSERTS :: "(umem \<Rightarrow> bool) \<Rightarrow> step" where
  "ASSERTS P st = Some (record_check (P (list_mem st)) st)"

text \<open>\<open>ASSERT(rlist_len(L)==n)\<close>, and an ASSERT of \<open>rlist_equal\<close>.\<close>

definition ASSERT_len :: "unode \<Rightarrow> int \<Rightarrow> step" where
  "ASSERT_len L n st = do { l \<leftarrow> rlist_len (list_mem st) L; Some (record_check (l = word_of_int n) st) }"

definition ASSERT_equal :: "unode \<Rightarrow> unode \<Rightarrow> bool \<Rightarrow> step" where
  "ASSERT_equal L1 L2 b st = do { r \<leftarrow> rlist_equal (list_mem st) L1 L2; Some (record_check (r = b) st) }"

definition upd :: "(umem \<Rightarrow> umem) \<Rightarrow> step" where
  "upd f st = Some (st\<lparr>list_mem := f (list_mem st)\<rparr>)"

text \<open>\<open>rlnode_new(n)->num = v\<close>.\<close>

definition new_num :: "unode \<Rightarrow> int \<Rightarrow> umem \<Rightarrow> umem" where
  "new_num n v h = (let h1 = rlnode_new h n in h1\<lparr>rl_obj := (rl_obj h1)(n := Num v)\<rparr>)"

section \<open>Tests of the lists\<close>

text \<open>The strings of the tests are ASCII, where the signedness of \<open>char\<close> does not matter.\<close>

fun make_list_loop :: "unode \<Rightarrow> string \<Rightarrow> utest \<Rightarrow> utest" where
  "make_list_loop L [] st = st"
| "make_list_loop L (d # ds) st =
     (let node = Heap (blocks st)
      in make_list_loop L ds
           (st\<lparr>list_mem := rlist_push_back (new_num node (of_char d) (list_mem st)) L node, blocks := blocks st + 1\<rparr>))"

definition make_list :: "unode \<Rightarrow> string \<Rightarrow> step" where
  "make_list L data = seq
     [upd (\<lambda>h. rlnode_init h L Null_key),
      \<lambda>st. Some (make_list_loop L data st),
      ASSERT_len L (int (length data))]"

definition NData :: nat where "NData = 5"

definition Data :: "string list" where "Data = ['''', ''H'', ''Ha'', ''a'', ''asdas'']"

definition test_list_init :: step where
  "test_list_init = (let L = Var 0; n1 = Var 1; n2 = Var 2; R = Var 3 in seq
     [upd (\<lambda>h. rlnode_init h L Null_key),
      ASSERTS (\<lambda>h. rl_obj h L = Null_key),
      ASSERTS (\<lambda>h. rl_prev h L = rl_next h L),
      ASSERTS (\<lambda>h. rl_prev h L = L),
      upd (\<lambda>h. rlnode_init h n1 (At L)),
      upd (new_num n2 5),
      ASSERTS (\<lambda>h. rl_obj h n2 = Num 5),
      upd (\<lambda>h. h\<lparr>rl_obj := (rl_obj h)(R := Null_key), rl_prev := (rl_prev h)(R := R), rl_next := (rl_next h)(R := R)\<rparr>),
      ASSERTS (\<lambda>h. is_rlist_empty h R),
      ASSERTS (\<lambda>h. is_rlist_empty h L),
      ASSERTS (\<lambda>h. is_rlist_empty h n1),
      ASSERTS (\<lambda>h. is_rlist_empty h n2),
      upd (\<lambda>h. fst (rl_splice h n1 n2)),
      ASSERTS (\<lambda>h. \<not> is_rlist_empty h n1),
      ASSERTS (\<lambda>h. \<not> is_rlist_empty h n2),
      ASSERTS (\<lambda>h. rl_next h n1 = n2),
      ASSERTS (\<lambda>h. rl_next h n2 = n1),
      ASSERTS (\<lambda>h. rl_prev h n1 = n2),
      ASSERTS (\<lambda>h. rl_prev h n2 = n1),
      ASSERT_len n1 1,
      upd (\<lambda>h. fst (rl_splice h n1 n2)),
      ASSERTS (\<lambda>h. is_rlist_empty h n1),
      ASSERTS (\<lambda>h. is_rlist_empty h n2),
      ASSERT_len n1 0])"

definition push_counted :: "unode \<Rightarrow> nat \<Rightarrow> step" where
  "push_counted L i = seq
     [ASSERT_len L (int i),
      upd (new_num (Elem i) (int i)),
      upd (\<lambda>h. rlist_push_back h L (Elem i)),
      ASSERT_len L (int i + 1)]"

text \<open>\<open>l\<close> is an \<open>int\<close>, the length a \<open>size_t\<close>.\<close>

definition remove_counted :: "unode \<Rightarrow> nat \<Rightarrow> step" where
  "remove_counted L i st = do {
     len \<leftarrow> rlist_len (list_mem st) L;
     let l = sint (ucast len :: 32 word);
     seq [upd (\<lambda>h. fst (rlist_remove h (Elem i))), ASSERT_len L (l - 1)] st
   }"

definition test_list_len :: step where
  "test_list_len = (let L = Var 0 in seq
     [upd (\<lambda>h. rlnode_new h L),
      for_in [0..<10] (push_counted L),
      ASSERT_len L 10,
      for_in [0, 2, 4, 6, 8] (remove_counted L),
      for_in [1, 3, 5, 7, 9] (remove_counted L),
      for_in [0..<NData] (\<lambda>i. seq [make_list L (Data ! i), ASSERT_len L (int (length (Data ! i)))])])"

definition walk_back :: "nat \<Rightarrow> unode \<times> utest \<Rightarrow> (unode \<times> utest) option" where
  "walk_back i v = (case v of (I, st) \<Rightarrow> Some (rl_prev (list_mem st) I, record_check (I = Elem i) st))"

partial_function (option) pop_all :: "unode \<Rightarrow> nat \<Rightarrow> step" where
  "pop_all L i st =
     (if \<not> is_rlist_empty (list_mem st) L then
        (let (h, p) = rlist_pop_back (list_mem st) L
         in pop_all L (i + 1) (record_check (Elem i = p) (st\<lparr>list_mem := h\<rparr>)))
      else Some st)"

definition test_list_queue :: step where
  "test_list_queue = (let L = Var 0 in seq
     [upd (\<lambda>h. rlnode_new h L),
      for_in [0..<10] (\<lambda>i. seq [upd (\<lambda>h. rlnode_new h (Elem i)), upd (\<lambda>h. rlist_push_front h L (Elem i))]),
      \<lambda>st. map_option snd (for_in [0..<10] walk_back (rl_prev (list_mem st) L, st)),
      pop_all L 0,
      ASSERTS (\<lambda>h. is_rlist_empty h L),
      \<lambda>st. (let (h, I) = rlist_pop_back (list_mem st) L in Some (record_check (I = L) (st\<lparr>list_mem := h\<rparr>))),
      ASSERTS (\<lambda>h. is_rlist_empty h L)])"

text \<open>The nodes \<open>from\<close> up to \<open>to\<close>, with the addresses of the elements from \<open>key\<close> on.\<close>

fun build_list :: "unode \<Rightarrow> nat list \<Rightarrow> nat \<Rightarrow> umem \<Rightarrow> umem" where
  "build_list L [] key h = h"
| "build_list L (i # is) key h =
     build_list L is (key + 1) (rlist_push_back (rlnode_init h (Elem i) (Item key)) L (Elem i))"

definition short_data :: "int list" where "short_data = [4, 2, 5, 7, 8, 3, 2, 9, 3]"

definition gt5 :: "umem \<Rightarrow> unode \<Rightarrow> bool" where
  "gt5 h p = (case rl_obj h p of Item i \<Rightarrow> 5 \<le> short_data ! i | _ \<Rightarrow> False)"

partial_function (option) check_items :: "unode \<Rightarrow> unode \<Rightarrow> nat \<Rightarrow> step" where
  "check_items L p i st =
     (if p \<noteq> L then check_items L (rl_next (list_mem st) p) (i + 1) (record_check (rl_obj (list_mem st) p = Item i) st) else Some st)"

definition test_list_select :: step where
  "test_list_select = (let L = Var 0; Q = Var 1 in seq
     [upd (\<lambda>h. rlnode_new h L),
      ASSERT_len L 0,
      upd (build_list L [0..<9] 0),
      ASSERT_len L 9,
      \<lambda>st. check_items L (rl_next (list_mem st) L) 0 st,
      upd (\<lambda>h. rlnode_new h Q),
      \<lambda>st. map_option (\<lambda>h. st\<lparr>list_mem := h\<rparr>) (rlist_select (list_mem st) L Q gt5),
      ASSERT_len Q 4,
      ASSERT_len L 5])"

definition test_list_equal :: step where
  "test_list_equal = (let L1 = Var 0; L2 = Var 1 in
     for_in [0..<5] (\<lambda>i. for_in [0..<5] (\<lambda>j. seq
       [make_list L1 (Data ! i),
        make_list L2 (Data ! j),
        ASSERT_equal L1 L2 (i = j)])))"

definition test_list_prepend :: step where
  "test_list_prepend = (let Ld = Var 0; Ls = Var 1; Le = Var 2; La = Var 3 in seq
     [upd (\<lambda>h. rlnode_init h Ld Null_key),
      upd (\<lambda>h. rlnode_init h Ls Null_key),
      upd (\<lambda>h. rlnode_init h Le Null_key),
      upd (\<lambda>h. rlnode_init h La Null_key),
      upd (build_list Ld [0..<5] 0),
      upd (build_list Ls [5..<9] 5),
      upd (build_list La [9..<18] 0),
      upd (\<lambda>h. rlist_prepend h Ls Le),
      ASSERTS (\<lambda>h. is_rlist_empty h Le),
      upd (\<lambda>h. rlist_prepend h Le Ls),
      ASSERTS (\<lambda>h. is_rlist_empty h Ls),
      upd (\<lambda>h. rlist_prepend h Le Ld),
      ASSERTS (\<lambda>h. is_rlist_empty h Ld),
      ASSERT_len Le 9,
      ASSERT_equal Le La True])"

definition test_list_append :: step where
  "test_list_append = (let L1 = Var 0; L2 = Var 1; L3 = Var 2 in seq
     [make_list L1 ''Hello '',
      make_list L2 ''world'',
      upd (\<lambda>h. rlnode_init h L3 Null_key),
      upd (\<lambda>h. rlist_append h L3 L1),
      upd (\<lambda>h. rlist_append h L3 L2),
      make_list L1 ''Hello world'',
      ASSERT_equal L3 L1 True])"

definition rlist_tests :: "step list" where
  "rlist_tests = [test_list_init, test_list_len, test_list_queue, test_list_select, test_list_equal,
     test_list_prepend, test_list_append]"

section \<open>The lists as sequences\<close>

lemma record_check_True [simp]: "record_check True st = st"
  by (simp add: record_check_def)

lemma ASSERTS_holds: "P (list_mem st) \<Longrightarrow> ASSERTS P st = Some st"
  by (simp add: ASSERTS_def)

lemma ASSERT_len_holds:
  assumes "ring (list_mem st) (L # xs)" and "n = int (length xs)" and "length xs < 2 ^ 32"
  shows "ASSERT_len L n st = Some st"
proof -
  have "(ucast (of_nat (length xs) :: uint32) :: uint64) = word_of_int n"
    using assms(2,3) by (simp add: unsigned_of_nat take_bit_nat_eq_self)
  then show ?thesis using rlist_len_ring [OF assms(1)] by (simp add: ASSERT_len_def)
qed

lemma new_num_init: "new_num n v h = rlnode_init h n (Num v)"
  by (simp add: new_num_def rlnode_init_def)

lemma layout_weaken: "layout h S m F \<Longrightarrow> S' \<subseteq> S \<Longrightarrow> F' \<subseteq> F \<Longrightarrow> layout h S' m F'"
  unfolding layout_def by blast

lemma layout_cong: "layout h S m F \<Longrightarrow> (\<And>L. L \<in> S \<Longrightarrow> m' L = m L) \<Longrightarrow> layout h S m' F"
  unfolding layout_def by simp

text \<open>A node that is used for the first time is pushed.\<close>

lemma layout_push_new:
  assumes "layout h S m {}" and "L \<in> S" and "\<And>L'. L' \<in> S \<Longrightarrow> n \<noteq> L' \<and> n \<notin> set (m L')"
  shows "layout (rlist_push_back (rlnode_init h n v) L n) S (m(L := m L @ [n])) {}"
    and "layout (rlist_push_front (rlnode_init h n v) L n) S (m(L := n # m L)) {}"
proof -
  have "layout (rlnode_init h n v) S m {n}" by (rule layout_init_node [OF assms(1)]) (use assms(3) in auto)
  then show "layout (rlist_push_back (rlnode_init h n v) L n) S (m(L := m L @ [n])) {}"
    "layout (rlist_push_front (rlnode_init h n v) L n) S (m(L := n # m L)) {}"
    using layout_push_back [of "rlnode_init h n v" S m "{n}" L n] layout_push_front [of "rlnode_init h n v" S m "{n}" L n]
      assms(2) by auto
qed

definition new_blocks :: "nat \<Rightarrow> nat \<Rightarrow> unode list" where
  "new_blocks b n = map Heap [b..<b + n]"

definition unused :: "nat \<Rightarrow> unode set \<Rightarrow> (unode \<Rightarrow> unode list) \<Rightarrow> bool" where
  "unused b S m \<longleftrightarrow> (\<forall>L \<in> S. \<forall>j \<ge> b. Heap j \<noteq> L \<and> Heap j \<notin> set (m L))"

lemma new_blocks_simps [simp]:
  "new_blocks b 0 = []" "new_blocks b (Suc n) = Heap b # new_blocks (Suc b) n" "length (new_blocks b n) = n"
  "Heap j \<in> set (new_blocks b n) \<longleftrightarrow> b \<le> j \<and> j < b + n" "Var i \<notin> set (new_blocks b n)"
  by (auto simp: new_blocks_def upt_conv_Cons)

lemma make_list_loop_spec:
  assumes "layout (list_mem st) S m {}" and "L \<in> S" and "unused (blocks st) S m"
  shows "layout (list_mem (make_list_loop L data st)) S (m(L := m L @ new_blocks (blocks st) (length data))) {} \<and>
     blocks (make_list_loop L data st) = blocks st + length data \<and>
     flag_failure (make_list_loop L data st) = flag_failure st \<and>
     map (rl_obj (list_mem (make_list_loop L data st))) (new_blocks (blocks st) (length data)) = map (\<lambda>d. Num (of_char d)) data \<and>
     (\<forall>n. n \<notin> set (new_blocks (blocks st) (length data)) \<longrightarrow> rl_obj (list_mem (make_list_loop L data st)) n = rl_obj (list_mem st) n)"
  using assms
proof (induction data arbitrary: st m)
  case (Cons d ds)
  let ?n = "Heap (blocks st)"
  let ?st = "st\<lparr>list_mem := rlist_push_back (rlnode_init (list_mem st) ?n (Num (of_char d))) L ?n, blocks := blocks st + 1\<rparr>"
  have "layout (list_mem ?st) S (m(L := m L @ [?n])) {}"
    using layout_push_new(1) [OF Cons.prems(1,2), of ?n] Cons.prems(3) by (auto simp: unused_def)
  moreover have "unused (blocks ?st) S (m(L := m L @ [?n]))" using Cons.prems(3) by (auto simp: unused_def)
  ultimately have IH: "layout (list_mem (make_list_loop L ds ?st)) S (m(L := m L @ ?n # new_blocks (Suc (blocks st)) (length ds))) {}"
    "blocks (make_list_loop L ds ?st) = Suc (blocks st) + length ds" "flag_failure (make_list_loop L ds ?st) = flag_failure st"
    "map (rl_obj (list_mem (make_list_loop L ds ?st))) (new_blocks (Suc (blocks st)) (length ds)) = map (\<lambda>d. Num (of_char d)) ds"
    "\<forall>n. n \<notin> set (new_blocks (Suc (blocks st)) (length ds)) \<longrightarrow>
       rl_obj (list_mem (make_list_loop L ds ?st)) n = rl_obj (list_mem ?st) n"
    using Cons.IH [of ?st "m(L := m L @ [?n])"] Cons.prems(2) by (auto simp del: fun_upd_apply simp: fun_upd_same)
  have "make_list_loop L (d # ds) st = make_list_loop L ds ?st" by (simp add: new_num_init Let_def)
  then show ?case using IH by (simp del: fun_upd_apply make_list_loop.simps) (simp del: make_list_loop.simps)
qed simp

lemma make_list_spec:
  assumes "layout (list_mem st) S m {}" and "Var i \<notin> S" "\<And>L. L \<in> S \<Longrightarrow> Var i \<notin> set (m L)" and "unused (blocks st) S m"
    and "length data < 2 ^ 32"
  obtains st' where "make_list (Var i) data st = Some st'" "flag_failure st' = flag_failure st"
    "blocks st' = blocks st + length data"
    "layout (list_mem st') (insert (Var i) S) (m(Var i := new_blocks (blocks st) (length data))) {}"
    "map (rl_obj (list_mem st')) (new_blocks (blocks st) (length data)) = map (\<lambda>d. Num (of_char d)) data"
    "\<And>n. n \<noteq> Var i \<Longrightarrow> n \<notin> set (new_blocks (blocks st) (length data)) \<Longrightarrow> rl_obj (list_mem st') n = rl_obj (list_mem st) n"
proof -
  let ?L = "Var i"
  let ?st = "st\<lparr>list_mem := rlnode_init (list_mem st) ?L Null_key\<rparr>"
  have l: "layout (list_mem ?st) (insert ?L S) (m(?L := [])) {}"
    using layout_init_sentinel [OF assms(1,2)] assms(3) by simp
  moreover have "unused (blocks ?st) (insert ?L S) (m(?L := []))" using assms(4) by (auto simp: unused_def)
  moreover define st' where "st' = make_list_loop ?L data ?st"
  ultimately have S: "layout (list_mem st') (insert ?L S) (m(?L := new_blocks (blocks st) (length data))) {}"
    "blocks st' = blocks st + length data" "flag_failure st' = flag_failure st"
    "map (rl_obj (list_mem st')) (new_blocks (blocks st) (length data)) = map (\<lambda>d. Num (of_char d)) data"
    "\<forall>n. n \<notin> set (new_blocks (blocks st) (length data)) \<longrightarrow> rl_obj (list_mem st') n = rl_obj (list_mem ?st) n"
    using make_list_loop_spec [of ?st "insert ?L S" "m(?L := [])" ?L data] by auto
  have "ring (list_mem st') (?L # new_blocks (blocks st) (length data))" using layoutD(1) [OF S(1), of ?L] by simp
  then have "ASSERT_len ?L (int (length data)) st' = Some st'" using assms(5) by (intro ASSERT_len_holds) auto
  then have "make_list ?L data st = Some st'" by (simp add: make_list_def upd_def st'_def)
  then show ?thesis using that S by simp
qed

text \<open>No ASSERT of a test fails.\<close>

definition test_passes :: "step \<Rightarrow> utest \<Rightarrow> bool" where
  "test_passes t st \<longleftrightarrow> (\<exists>st'. t st = Some st' \<and> flag_failure st' = flag_failure st)"

declare seq.simps(2) [simp del]

lemma seq_step: "t st = Some st1 \<Longrightarrow> seq (t # ts) st = seq ts st1"
  by (simp add: seq.simps(2))

lemma seq_upd [simp]: "seq (upd f # ts) st = seq ts (st\<lparr>list_mem := f (list_mem st)\<rparr>)"
  by (simp add: upd_def seq_step)

lemma seq_ASSERTS [simp]: "P (list_mem st) \<Longrightarrow> seq (ASSERTS P # ts) st = seq ts st"
  by (simp add: ASSERTS_def seq_step)

lemma seq_len: "ring (list_mem st) (L # xs) \<Longrightarrow> n = int (length xs) \<Longrightarrow> length xs < 2 ^ 32 \<Longrightarrow>
    seq (ASSERT_len L n # ts) st = seq ts st"
  by (simp add: ASSERT_len_holds seq_step)

lemma passes_init: "test_passes test_list_init st"
proof -
  have "seq (ASSERT_len (Var 1) 1 # ts) st = seq ts st" if "ring (list_mem st) [Var 1, Var 2]" for ts st
    using seq_len [OF that] by simp
  moreover have "seq (ASSERT_len (Var 1) 0 # ts) st = seq ts st" if "ring (list_mem st) [Var 1]" for ts st
    using seq_len [OF that] by simp
  ultimately show ?thesis
    by (simp add: test_passes_def test_list_init_def new_num_init is_rlist_empty_def rl_splice_def rlnode_swap_def Let_def
        ring.simps del: One_nat_def)
qed

lemma for_in_append: "for_in (xs @ ys) body st = do { st1 \<leftarrow> for_in xs body st; for_in ys body st1 }"
  by (induction xs arbitrary: st) (auto split: bind_split)

lemma for_in_inv:
  assumes "I [] st"
    and "\<And>xs i ys st. is = xs @ i # ys \<Longrightarrow> I xs st \<Longrightarrow> \<exists>st'. body i st = Some st' \<and> I (xs @ [i]) st'"
  shows "\<exists>st'. for_in is body st = Some st' \<and> I is st'"
  using assms(2)
proof (induction "is" rule: rev_induct)
  case (snoc i "is")
  have "\<exists>st'. for_in is body st = Some st' \<and> I is st'" by (rule snoc.IH, rule snoc.prems) auto
  then obtain st1 where s1: "for_in is body st = Some st1" "I is st1" by blast
  obtain st2 where "body i st1 = Some st2" "I (is @ [i]) st2" using snoc.prems [of "is" i "[]" st1] s1(2) by auto
  then show ?case using s1(1) by (auto simp: for_in_append)
qed (use assms(1) in simp)

lemma for_in_upt:
  assumes "I 0 st" and "\<And>i st. i < n \<Longrightarrow> I i st \<Longrightarrow> \<exists>st'. body i st = Some st' \<and> I (Suc i) st'"
  shows "\<exists>st'. for_in [0..<n] body st = Some st' \<and> I n st'"
proof -
  have "\<exists>st'. for_in [0..<n] body st = Some st' \<and> I (length [0..<n]) st'"
  proof (rule for_in_inv)
    fix xs i ys and st :: 'a assume e: "[0..<n] = xs @ i # ys" and I: "I (length xs) st"
    have "i = length xs" "i < n"
      using arg_cong [OF e, of "\<lambda>l. l ! length xs"] arg_cong [OF e, of length] by (auto simp: nth_append)
    then show "\<exists>st'. body i st = Some st' \<and> I (length (xs @ [i])) st'" using assms(2) [of i st] I by simp
  qed (use assms(1) in simp)
  then show ?thesis by simp
qed

lemma rlnode_new_init: "rlnode_new h n = rlnode_init h n (rl_obj h n)"
  by (simp add: rlnode_init_def rlnode_new_def Let_def)

lemma layout_empty: "layout h {} m {}"
  by (simp add: layout_def)

lemma layout_sentinel: "layout (rlnode_init h L v) {L} (\<lambda>_. []) {}"
proof -
  have "layout (rlnode_init h L v) {L} ((\<lambda>_. [])(L := [])) {}" by (rule layout_init_sentinel [OF layout_empty]) auto
  then show ?thesis by (simp add: fun_upd_idem)
qed

lemma layout_one: "layout h {L} m F \<Longrightarrow> m L = xs \<Longrightarrow> layout h {L} (\<lambda>_. xs) {}"
  by (simp add: layout_def)

lemma push_counted_spec:
  assumes l: "layout (list_mem st) {Var v} (\<lambda>_. map Elem [0..<i]) {}" and i: "i < 2 ^ 31"
  shows "\<exists>st'. push_counted (Var v) i st = Some st' \<and> flag_failure st' = flag_failure st \<and>
     layout (list_mem st') {Var v} (\<lambda>_. map Elem [0..<Suc i]) {}"
proof -
  let ?st = "st\<lparr>list_mem := rlist_push_back (rlnode_init (list_mem st) (Elem i) (Num (int i))) (Var v) (Elem i)\<rparr>"
  have l2: "layout (list_mem ?st) {Var v} (\<lambda>_. map Elem [0..<Suc i]) {}"
    by (rule layout_one, simp, rule layout_push_new(1) [OF l]) auto
  have "ASSERT_len (Var v) (int i) st = Some st" by (rule ASSERT_len_holds [OF layoutD(1) [OF l]]) (use i in auto)
  moreover have "ASSERT_len (Var v) (int i + 1) ?st = Some ?st"
    by (rule ASSERT_len_holds [OF layoutD(1) [OF l2]]) (use i in auto)
  ultimately have "push_counted (Var v) i st = Some ?st" by (simp add: push_counted_def new_num_init seq_step)
  then show ?thesis using l2 by simp
qed

lemma length_as_int:
  assumes "n < 2 ^ 31"
  shows "sint (ucast (ucast (of_nat n :: uint32) :: uint64) :: 32 word) = int n"
proof -
  have "(ucast (ucast w :: uint64) :: 32 word) = w" for w :: uint32 by (rule bit_word_eqI) (auto simp: bit_ucast_iff)
  moreover have "sint (of_nat n :: 32 word) = int n" using assms by (simp add: signed_of_nat signed_take_bit_int_eq_self)
  ultimately show ?thesis by simp
qed

lemma remove_counted_spec:
  assumes l: "layout (list_mem st) {L} (\<lambda>_. ys) {}" and i: "Elem i \<in> set ys" and n: "length ys < 2 ^ 31"
  shows "\<exists>st'. remove_counted L i st = Some st' \<and> flag_failure st' = flag_failure st \<and>
     layout (list_mem st') {L} (\<lambda>_. remove1 (Elem i) ys) {}"
proof -
  let ?st = "st\<lparr>list_mem := fst (rlist_remove (list_mem st) (Elem i))\<rparr>"
  have l2: "layout (list_mem ?st) {L} (\<lambda>_. remove1 (Elem i) ys) {}"
    by (rule layout_one, simp, rule layout_remove [OF l]) (use i in auto)
  have r: "ring (list_mem st) (L # ys)" using layoutD(1) [OF l] by simp
  have "Suc (length (remove1 (Elem i) ys)) = length ys" using i by (induction ys) auto
  then have "int (length (remove1 (Elem i) ys)) = int (length ys) - 1" by linarith
  then have "ASSERT_len L (int (length ys) - 1) ?st = Some ?st"
    using n i by (intro ASSERT_len_holds [OF layoutD(1) [OF l2]]) (auto simp: length_remove1)
  then have "remove_counted L i st = Some ?st"
    using rlist_len_ring [OF r] by (simp add: remove_counted_def length_as_int [OF n] seq_step)
  then show ?thesis using l2 by simp
qed

lemma remove_all_spec:
  assumes "layout (list_mem st) {L} (\<lambda>_. ys) {}" and "distinct is" and "Elem ` set is \<subseteq> set ys" and "length ys < 2 ^ 31"
  shows "\<exists>st'. for_in is (remove_counted L) st = Some st' \<and> flag_failure st' = flag_failure st \<and>
     layout (list_mem st') {L} (\<lambda>_. filter (\<lambda>n. n \<notin> Elem ` set is) ys) {}"
proof (rule for_in_inv [where I = "\<lambda>xs st'. flag_failure st' = flag_failure st \<and>
     layout (list_mem st') {L} (\<lambda>_. filter (\<lambda>n. n \<notin> Elem ` set xs) ys) {}"])
  fix xs i zs and st1 :: utest
  let ?ys = "filter (\<lambda>n. n \<notin> Elem ` set xs) ys"
  assume e: "is = xs @ i # zs" and I: "flag_failure st1 = flag_failure st \<and> layout (list_mem st1) {L} (\<lambda>_. ?ys) {}"
  have "distinct ?ys" using layout_distinct [of "list_mem st1" "{L}" "\<lambda>_. ?ys" "{}" L] I by simp
  then have "remove1 (Elem i) ?ys = filter (\<lambda>n. n \<notin> Elem ` set (xs @ [i])) ys"
    by (auto simp: distinct_remove1_removeAll removeAll_filter_not_eq intro: filter_cong)
  moreover have "Elem i \<in> set ?ys" "length ?ys < 2 ^ 31"
    using e assms(2-4) le_less_trans [OF length_filter_le] by auto
  ultimately show "\<exists>st'. remove_counted L i st1 = Some st' \<and> flag_failure st' = flag_failure st \<and>
      layout (list_mem st') {L} (\<lambda>_. filter (\<lambda>n. n \<notin> Elem ` set (xs @ [i])) ys) {}"
    using remove_counted_spec [of st1 L ?ys i] I by auto
qed (use assms(1) in simp)

lemma make_list_passes: "length data < 2 ^ 32 \<Longrightarrow> \<exists>st'. seq [make_list (Var i) data, ASSERT_len (Var i) (int (length data))] st = Some st' \<and>
    flag_failure st' = flag_failure st"
proof -
  assume n: "length data < 2 ^ 32"
  obtain st' where st': "make_list (Var i) data st = Some st'" "flag_failure st' = flag_failure st"
    "layout (list_mem st') {Var i} ((\<lambda>_. [])(Var i := new_blocks (blocks st) (length data))) {}"
    by (rule make_list_spec [OF layout_empty, where i = i and data = data and m = "\<lambda>_. []" and st = st]) (use n in \<open>auto simp: unused_def\<close>)
  have "ASSERT_len (Var i) (int (length data)) st' = Some st'"
    by (rule ASSERT_len_holds [OF layoutD(1) [OF st'(3)]]) (use n in auto)
  then show ?thesis using st'(1,2) by (simp add: seq_step)
qed

lemma Data_short: "i < NData \<Longrightarrow> length (Data ! i) < 2 ^ 32"
proof -
  assume "i < NData"
  then have "Data ! i \<in> set Data" by (intro nth_mem) (simp add: NData_def Data_def)
  moreover have "\<forall>s \<in> set Data. length s < 2 ^ 32" by (simp add: Data_def)
  ultimately show ?thesis by blast
qed

lemma passes_len: "test_passes test_list_len st"
proof -
  let ?L = "Var 0" let ?F = "\<lambda>st'. flag_failure st' = flag_failure st"
  have "layout (rlnode_new (list_mem st) ?L) {?L} (\<lambda>_. map Elem [0..<0]) {}" by (simp add: rlnode_new_init layout_sentinel)
  then have "\<exists>st'. for_in [0..<10] (push_counted ?L) (st\<lparr>list_mem := rlnode_new (list_mem st) ?L\<rparr>) = Some st' \<and>
      (?F st' \<and> layout (list_mem st') {?L} (\<lambda>_. map Elem [0..<10]) {})"
    by (intro for_in_upt) (use push_counted_spec [of _ 0] in fastforce)+
  then obtain st1 where st1: "for_in [0..<10] (push_counted ?L) (st\<lparr>list_mem := rlnode_new (list_mem st) ?L\<rparr>) = Some st1"
    "?F st1" "layout (list_mem st1) {?L} (\<lambda>_. map Elem [0..<10]) {}" by blast
  have a1: "ASSERT_len ?L 10 st1 = Some st1" by (rule ASSERT_len_holds [OF layoutD(1) [OF st1(3)]]) auto
  obtain st2 where st2: "for_in [0, 2, 4, 6, 8] (remove_counted ?L) st1 = Some st2" "?F st2"
    "layout (list_mem st2) {?L} (\<lambda>_. map Elem [1, 3, 5, 7, 9]) {}"
  proof -
    have "filter (\<lambda>n. n \<notin> Elem ` set [0, 2, 4, 6, 8]) (map Elem [0..<10]) = map Elem [1, 3, 5, 7, 9]" by (simp add: upt_rec)
    moreover have "Elem ` set [0, 2, 4, 6, 8] \<subseteq> set (map Elem [0..<10])" by auto
    ultimately show ?thesis using remove_all_spec [OF st1(3), of "[0, 2, 4, 6, 8]"] st1(2) that by auto
  qed
  obtain st3 where st3: "for_in [1, 3, 5, 7, 9] (remove_counted ?L) st2 = Some st3" "?F st3"
    using remove_all_spec [OF st2(3), of "[1, 3, 5, 7, 9]"] st2(2) by auto
  have "\<exists>st'. for_in [0..<NData] (\<lambda>i. seq [make_list ?L (Data ! i), ASSERT_len ?L (int (length (Data ! i)))]) st3 =
      Some st' \<and> ?F st'"
  proof (rule for_in_upt)
    fix i and st' :: utest assume "i < NData" "?F st'"
    then have "length (Data ! i) < 2 ^ 32" "?F st'" using Data_short by simp_all
    then show "\<exists>st''. seq [make_list ?L (Data ! i), ASSERT_len ?L (int (length (Data ! i)))] st' = Some st'' \<and> ?F st''"
      using make_list_passes [of "Data ! i" 0 st'] by auto
  qed (rule st3(2))
  then show ?thesis unfolding test_passes_def test_list_len_def Let_def
    using st1(1) a1 st2(1) st3(1) by (auto simp: seq_step)
qed

text \<open>The test of the queue passes although \<open>rlist_pop_back\<close> empties the list: the loop ends after one
  node, and the test does not ask how many there were.\<close>

lemma pop_all_once:
  assumes "ring (list_mem st) (L # xs @ [Elem i])" and "L \<noteq> Elem i"
  shows "pop_all L i st = Some (st\<lparr>list_mem := fst (rlist_pop_back (list_mem st) L)\<rparr>)"
    and "rlist_pop_back (fst (rlist_pop_back (list_mem st) L)) L = (fst (rlist_pop_back (list_mem st) L), L)"
    and "is_rlist_empty (fst (rlist_pop_back (list_mem st) L)) L"
proof -
  let ?h = "fst (rlist_pop_back (list_mem st) L)"
  have p: "snd (rlist_pop_back (list_mem st) L) = Elem i" "ring ?h [L]" using pop_back_empties_list [OF assms(1)] by auto
  show e: "is_rlist_empty ?h L" using p(2) by (simp add: is_rlist_empty_def)
  show "rlist_pop_back ?h L = (?h, L)" using p(2) by (simp add: rlist_pop_back_def splice_same)
  have ne: "\<not> is_rlist_empty (list_mem st) L"
    using assms by (cases xs) (auto simp: is_rlist_empty_def ring.simps)
  have "pop_all L i st = pop_all L (i + 1) (st\<lparr>list_mem := ?h\<rparr>)"
    using ne p(1) by (simp add: pop_all.simps [of L i st] split_beta Let_def)
  also have "\<dots> = Some (st\<lparr>list_mem := ?h\<rparr>)" using e by (simp add: pop_all.simps [of L "Suc i"])
  finally show "pop_all L i st = Some (st\<lparr>list_mem := ?h\<rparr>)" .
qed

lemma push_front_spec:
  assumes l: "layout (list_mem st) {Var v} (\<lambda>_. map Elem (rev [0..<i])) {}"
  shows "\<exists>st'. seq [upd (\<lambda>h. rlnode_new h (Elem i)), upd (\<lambda>h. rlist_push_front h (Var v) (Elem i))] st = Some st' \<and>
     flag_failure st' = flag_failure st \<and> layout (list_mem st') {Var v} (\<lambda>_. map Elem (rev [0..<Suc i])) {}"
proof -
  have "layout (rlist_push_front (rlnode_new (list_mem st) (Elem i)) (Var v) (Elem i)) {Var v} (\<lambda>_. map Elem (rev [0..<Suc i])) {}"
    unfolding rlnode_new_init by (rule layout_one, rule layout_push_new(2) [OF l]) auto
  then show ?thesis by simp
qed

lemma passes_queue: "test_passes test_list_queue st"
proof -
  let ?L = "Var 0" let ?F = "\<lambda>st'. flag_failure st' = flag_failure st"
  let ?body = "\<lambda>i. seq [upd (\<lambda>h. rlnode_new h (Elem i)), upd (\<lambda>h. rlist_push_front h ?L (Elem i))]"
  have "\<exists>st'. for_in [0..<10] ?body (st\<lparr>list_mem := rlnode_new (list_mem st) ?L\<rparr>) = Some st' \<and>
      (?F st' \<and> layout (list_mem st') {?L} (\<lambda>_. map Elem (rev [0..<10])) {})"
  proof (rule for_in_upt)
    show "?F (st\<lparr>list_mem := rlnode_new (list_mem st) ?L\<rparr>) \<and>
        layout (list_mem (st\<lparr>list_mem := rlnode_new (list_mem st) ?L\<rparr>)) {?L} (\<lambda>_. map Elem (rev [0..<0])) {}"
      by (simp add: rlnode_new_init layout_sentinel)
  qed (use push_front_spec in fastforce)
  then obtain st1 where st1: "for_in [0..<10] ?body (st\<lparr>list_mem := rlnode_new (list_mem st) ?L\<rparr>) = Some st1" "?F st1"
    "layout (list_mem st1) {?L} (\<lambda>_. map Elem (rev [0..<10])) {}" by blast
  have r: "ring (list_mem st1) (?L # map Elem (rev [1..<10]) @ [Elem 0])"
    using layoutD(1) [OF st1(3)] by (simp add: upt_rec)
  have w: "map_option snd (for_in [0..<10] walk_back (rl_prev (list_mem st1) ?L, st1)) = Some st1"
    using r by (simp add: upt_rec walk_back_def ring.simps)
  note P = pop_all_once [OF r]
  show ?thesis unfolding test_passes_def test_list_queue_def Let_def
    using st1(1,2) w P by (simp add: seq_step)
qed

lemma build_list_spec:
  assumes "layout h S m {}" and "L \<in> S" and "distinct is"
    and "\<And>L' i. L' \<in> S \<Longrightarrow> i \<in> set is \<Longrightarrow> Elem i \<noteq> L' \<and> Elem i \<notin> set (m L')"
  shows "layout (build_list L is key h) S (m(L := m L @ map Elem is)) {} \<and>
     map (rl_obj (build_list L is key h)) (map Elem is) = map Item [key..<key + length is] \<and>
     (\<forall>n. n \<notin> Elem ` set is \<longrightarrow> rl_obj (build_list L is key h) n = rl_obj h n)"
  using assms
proof (induction "is" arbitrary: key h m)
  case (Cons i "is")
  let ?h = "rlist_push_back (rlnode_init h (Elem i) (Item key)) L (Elem i)"
  have l: "layout ?h S (m(L := m L @ [Elem i])) {}"
    by (rule layout_push_new(1) [OF Cons.prems(1,2)]) (use Cons.prems(4) in auto)
  have IH: "layout (build_list L is (key + 1) ?h) S ((m(L := m L @ [Elem i]))(L := (m(L := m L @ [Elem i])) L @ map Elem is)) {} \<and>
     map (rl_obj (build_list L is (key + 1) ?h)) (map Elem is) = map Item [key + 1..<key + 1 + length is] \<and>
     (\<forall>n. n \<notin> Elem ` set is \<longrightarrow> rl_obj (build_list L is (key + 1) ?h) n = rl_obj ?h n)"
    by (rule Cons.IH [OF l Cons.prems(2)]) (use Cons.prems(3,4) in auto)
  then have "layout (build_list L (i # is) key h) S (m(L := m L @ map Elem (i # is))) {}" by simp
  moreover have ni: "Elem i \<notin> Elem ` set is" using Cons.prems(3) by auto
  have "[key..<key + length (i # is)] = key # [key + 1..<key + 1 + length is]" by (subst upt_conv_Cons) simp_all
  then have "map (rl_obj (build_list L (i # is) key h)) (map Elem (i # is)) = map Item [key..<key + length (i # is)]"
    using IH ni by simp
  moreover have "\<forall>n. n \<notin> Elem ` set (i # is) \<longrightarrow> rl_obj (build_list L (i # is) key h) n = rl_obj h n"
    using IH by auto
  ultimately show ?case by blast
qed simp

lemma check_items_seg:
  assumes "seg (list_mem st) p xs L" and "L \<notin> set (p # xs)" and "map (rl_obj (list_mem st)) (p # xs) = map Item [i..<i + length (p # xs)]"
  shows "check_items L p i st = Some st"
  using assms
proof (induction xs arbitrary: p i)
  case Nil
  then show ?case by (simp add: check_items.simps [of L p] check_items.simps [of L L])
next
  case (Cons x xs)
  have "[i..<i + length (p # x # xs)] = i # [i + 1..<i + 1 + length (x # xs)]" by (subst upt_conv_Cons) simp_all
  then have k: "rl_obj (list_mem st) p = Item i" "map (rl_obj (list_mem st)) (x # xs) = map Item [i + 1..<i + 1 + length (x # xs)]"
    using Cons.prems(3) by (auto simp del: upt_Suc)
  have "check_items L p i st = check_items L x (i + 1) st"
    using Cons.prems(1,2) k(1) by (auto simp: check_items.simps [of L p])
  then show ?case using Cons.IH [OF _ _ k(2)] Cons.prems(1,2) by simp
qed

lemma check_items_ring:
  assumes r: "ring h (Var v # map Elem [0..<9])" and k: "map (rl_obj h) (map Elem [0..<9]) = map Item [0..<0 + length [0..<9]]"
  shows "check_items (Var v) (rl_next h (Var v)) 0 (st\<lparr>list_mem := h\<rparr>) = Some (st\<lparr>list_mem := h\<rparr>)"
proof -
  have up: "[0..<9] = 0 # [Suc 0..<9]" by (subst upt_conv_Cons) simp_all
  have n: "rl_next h (Var v) = Elem 0" and s: "seg h (Elem 0) (map Elem [Suc 0..<9]) (Var v)"
    using r unfolding up by (auto simp: ring.simps)
  have "check_items (Var v) (Elem 0) 0 (st\<lparr>list_mem := h\<rparr>) = Some (st\<lparr>list_mem := h\<rparr>)"
  proof (rule check_items_seg)
    show "seg (list_mem (st\<lparr>list_mem := h\<rparr>)) (Elem 0) (map Elem [Suc 0..<9]) (Var v)" using s by simp
    show "map (rl_obj (list_mem (st\<lparr>list_mem := h\<rparr>))) (Elem 0 # map Elem [Suc 0..<9]) = map Item [0..<0 + length (Elem 0 # map Elem [Suc 0..<9])]"
      using k unfolding up by simp
  qed auto
  then show ?thesis using n by simp
qed

lemma filter_short:
  assumes "\<And>i. i < 9 \<Longrightarrow> P (Elem i) = (5 \<le> short_data ! i)"
  shows "filter P (map Elem [0..<9]) = map Elem [2, 3, 4, 7]"
    "filter (\<lambda>n. \<not> P n) (map Elem [0..<9]) = map Elem [0, 1, 5, 6, 8]"
  by (simp_all add: upt_rec assms short_data_def)

lemma passes_select: "test_passes test_list_select st"
proof -
  let ?L = "Var 0" let ?Q = "Var 1" let ?h0 = "rlnode_new (list_mem st) ?L" let ?h1 = "build_list ?L [0..<9] 0 ?h0"
  let ?h2 = "rlnode_new ?h1 ?Q"
  have l0: "layout ?h0 {?L} (\<lambda>_. []) {}" by (simp add: rlnode_new_init layout_sentinel)
  have a0: "ASSERT_len ?L 0 (st\<lparr>list_mem := ?h0\<rparr>) = Some (st\<lparr>list_mem := ?h0\<rparr>)"
    by (rule ASSERT_len_holds [where xs = "[]"]) (use layoutD(1) [OF l0] in auto)
  have B: "layout ?h1 {?L} ((\<lambda>_. [])(?L := [] @ map Elem [0..<9])) {}"
     "map (rl_obj ?h1) (map Elem [0..<9]) = map Item [0..<0 + length [0..<9]]"
    using build_list_spec [OF l0, of ?L "[0..<9]" 0] by auto
  have r1: "ring ?h1 (?L # map Elem [0..<9])" using layoutD(1) [OF B(1), of ?L] by simp
  have a1: "ASSERT_len ?L 9 (st\<lparr>list_mem := ?h1\<rparr>) = Some (st\<lparr>list_mem := ?h1\<rparr>)"
    by (rule ASSERT_len_holds [where xs = "map Elem [0..<9]"]) (use r1 in auto)
  have c: "check_items ?L (rl_next ?h1 ?L) 0 (st\<lparr>list_mem := ?h1\<rparr>) = Some (st\<lparr>list_mem := ?h1\<rparr>)"
    by (rule check_items_ring [OF r1 B(2)])
  have "layout ?h2 {?Q, ?L} (((\<lambda>_. [])(?L := [] @ map Elem [0..<9]))(?Q := [])) {}"
    unfolding rlnode_new_init [of ?h1] by (rule layout_init_sentinel [OF B(1)]) auto
  then obtain h3 where h3: "rlist_select ?h2 ?L ?Q gt5 = Some h3"
    "layout h3 {?Q, ?L} ((((\<lambda>_. [])(?L := [] @ map Elem [0..<9]))(?Q := []))(?L := filter (\<lambda>n. \<not> gt5 ?h2 n) (map Elem [0..<9]),
       ?Q := [] @ filter (gt5 ?h2) (map Elem [0..<9]))) {}"
    by (rule rlist_select_layout [where L = ?L and M = ?Q and pred = gt5 and P = "gt5 ?h2"]) (auto simp: gt5_def)
  have g: "gt5 ?h2 (Elem i) = (5 \<le> short_data ! i)" if "i < 9" for i
  proof -
    have "rl_obj ?h1 (Elem i) = Item i" using arg_cong [OF B(2), of "\<lambda>l. l ! i"] that by simp
    then show ?thesis by (simp add: gt5_def rlnode_new_def)
  qed
  have fl: "filter (gt5 ?h2) (map Elem [0..<9]) = map Elem [2, 3, 4, 7]"
    "filter (\<lambda>n. \<not> gt5 ?h2 n) (map Elem [0..<9]) = map Elem [0, 1, 5, 6, 8]"
    using filter_short [of "gt5 ?h2"] g by blast+
  have "ASSERT_len ?Q 4 (st\<lparr>list_mem := h3\<rparr>) = Some (st\<lparr>list_mem := h3\<rparr>)"
    by (rule ASSERT_len_holds [where xs = "map Elem [2, 3, 4, 7]"]) (use layoutD(1) [OF h3(2), of ?Q] fl in auto)
  moreover have "ASSERT_len ?L 5 (st\<lparr>list_mem := h3\<rparr>) = Some (st\<lparr>list_mem := h3\<rparr>)"
    by (rule ASSERT_len_holds [where xs = "map Elem [0, 1, 5, 6, 8]"]) (use layoutD(1) [OF h3(2), of ?L] fl in auto)
  ultimately show ?thesis unfolding test_passes_def test_list_select_def Let_def
    using a0 a1 c h3(1) by (simp add: seq_step)
qed

lemma Num_chars: "map (\<lambda>d. Num (of_char d)) s = map (\<lambda>d. Num (of_char d)) t \<longleftrightarrow> s = t"
  using inj_map_eq_map [of "\<lambda>d. Num (of_char d)" s t] by (auto simp: inj_def)

lemma Data_distinct: "i < 5 \<Longrightarrow> j < 5 \<Longrightarrow> Data ! i = Data ! j \<longleftrightarrow> i = j"
proof -
  have "distinct Data" "length Data = 5" by (simp_all add: Data_def)
  then show "i < 5 \<Longrightarrow> j < 5 \<Longrightarrow> Data ! i = Data ! j \<longleftrightarrow> i = j" by (simp add: nth_eq_iff_index_eq)
qed

text \<open>Two lists made one after the other.\<close>

lemma make_two:
  assumes "length s < 2 ^ 32" "length t < 2 ^ 32"
  obtains st1 st2 where "make_list (Var 0) s st = Some st1" "make_list (Var 1) t st1 = Some st2"
    "flag_failure st2 = flag_failure st" "blocks st2 = blocks st + length s + length t"
    "layout (list_mem st2) {Var 1, Var 0} ((\<lambda>_. [])(Var 0 := new_blocks (blocks st) (length s),
       Var 1 := new_blocks (blocks st + length s) (length t))) {}"
    "map (rl_obj (list_mem st2)) (new_blocks (blocks st) (length s)) = map (\<lambda>d. Num (of_char d)) s"
    "map (rl_obj (list_mem st2)) (new_blocks (blocks st + length s) (length t)) = map (\<lambda>d. Num (of_char d)) t"
proof -
  obtain st1 where st1: "make_list (Var 0) s st = Some st1" "flag_failure st1 = flag_failure st"
    "blocks st1 = blocks st + length s"
    "layout (list_mem st1) {Var 0} ((\<lambda>_. [])(Var 0 := new_blocks (blocks st) (length s))) {}"
    "map (rl_obj (list_mem st1)) (new_blocks (blocks st) (length s)) = map (\<lambda>d. Num (of_char d)) s"
    by (rule make_list_spec [OF layout_empty, where i = 0 and data = s and m = "\<lambda>_. []" and st = st])
      (use assms in \<open>auto simp: unused_def\<close>)
  obtain st2 where st2: "make_list (Var 1) t st1 = Some st2" "flag_failure st2 = flag_failure st1"
    "blocks st2 = blocks st1 + length t"
    "layout (list_mem st2) {Var 1, Var 0} ((\<lambda>_. [])(Var 0 := new_blocks (blocks st) (length s),
       Var 1 := new_blocks (blocks st1) (length t))) {}"
    "map (rl_obj (list_mem st2)) (new_blocks (blocks st1) (length t)) = map (\<lambda>d. Num (of_char d)) t"
    "\<And>n. n \<noteq> Var 1 \<Longrightarrow> n \<notin> set (new_blocks (blocks st1) (length t)) \<Longrightarrow> rl_obj (list_mem st2) n = rl_obj (list_mem st1) n"
    by (rule make_list_spec [OF st1(4), where i = 1 and data = t]) (use assms st1(3) in \<open>auto simp: unused_def\<close>)
  have "rl_obj (list_mem st2) n = rl_obj (list_mem st1) n" if "n \<in> set (new_blocks (blocks st) (length s))" for n
    using that by (intro st2(6)) (auto simp: new_blocks_def st1(3))
  then have "map (rl_obj (list_mem st2)) (new_blocks (blocks st) (length s)) = map (\<lambda>d. Num (of_char d)) s"
    using st1(5) by (metis map_cong)
  then show ?thesis using that [OF st1(1) st2(1)] st1(2,3) st2 by simp
qed

lemma ASSERT_equal_holds:
  assumes "ring (list_mem st) (L1 # xs)" "ring (list_mem st) (L2 # ys)" and "(map (rl_obj (list_mem st)) xs = map (rl_obj (list_mem st)) ys) = b"
  shows "ASSERT_equal L1 L2 b st = Some st"
  using rlist_equal_ring [OF assms(1,2)] assms(3) by (simp add: ASSERT_equal_def)

lemma passes_equal: "test_passes test_list_equal st"
proof -
  let ?F = "\<lambda>st'. flag_failure st' = flag_failure st"
  let ?body = "\<lambda>i j. seq [make_list (Var 0) (Data ! i), make_list (Var 1) (Data ! j), ASSERT_equal (Var 0) (Var 1) (i = j)]"
  have body: "\<exists>st2. ?body i j st1 = Some st2 \<and> ?F st2" if ij: "i < 5" "j < 5" and F: "?F st1" for i j :: nat and st1
  proof -
    obtain s1 st2 where s: "make_list (Var 0) (Data ! i) st1 = Some s1" "make_list (Var 1) (Data ! j) s1 = Some st2"
      "flag_failure st2 = flag_failure st1"
      "layout (list_mem st2) {Var 1, Var 0} ((\<lambda>_. [])(Var 0 := new_blocks (blocks st1) (length (Data ! i)),
         Var 1 := new_blocks (blocks st1 + length (Data ! i)) (length (Data ! j)))) {}"
      "map (rl_obj (list_mem st2)) (new_blocks (blocks st1) (length (Data ! i))) = map (\<lambda>d. Num (of_char d)) (Data ! i)"
      "map (rl_obj (list_mem st2)) (new_blocks (blocks st1 + length (Data ! i)) (length (Data ! j))) = map (\<lambda>d. Num (of_char d)) (Data ! j)"
      by (rule make_two [of "Data ! i" "Data ! j" st1]) (use Data_short ij in \<open>auto simp: NData_def\<close>)
    have "ASSERT_equal (Var 0) (Var 1) (i = j) st2 = Some st2"
    proof (rule ASSERT_equal_holds)
      show "ring (list_mem st2) (Var 0 # new_blocks (blocks st1) (length (Data ! i)))" using layoutD(1) [OF s(4), of "Var 0"] by simp
      show "ring (list_mem st2) (Var 1 # new_blocks (blocks st1 + length (Data ! i)) (length (Data ! j)))"
        using layoutD(1) [OF s(4), of "Var 1"] by simp
    qed (simp add: s(5,6) Num_chars Data_distinct [OF ij])
    then show ?thesis using s(1-3) F by (simp add: seq_step)
  qed
  have row: "\<exists>st2. for_in [0..<5] (?body i) st1 = Some st2 \<and> ?F st2" if "i < 5" "?F st1" for i st1
    by (rule for_in_upt [where I = "\<lambda>_. ?F"], rule that(2), rule body [OF that(1)])
  have "\<exists>st2. for_in [0..<5] (\<lambda>i. for_in [0..<5] (?body i)) st = Some st2 \<and> ?F st2"
    by (rule for_in_upt [where I = "\<lambda>_. ?F"], rule refl, rule row)
  then show ?thesis unfolding test_passes_def test_list_equal_def Let_def .
qed

lemma list_ops_keep_keys [simp]:
  "rl_obj (rlist_prepend h L M) = rl_obj h" "rl_obj (rlist_append h L M) = rl_obj h"
  by (simp_all add: rlist_prepend_def rlist_append_def rlist_remove_def rlist_push_front_def rlist_push_back_def
      rl_splice_def rlnode_swap_def Let_def)

lemma empty_ring: "layout h S m F \<Longrightarrow> L \<in> S \<Longrightarrow> m L = [] \<Longrightarrow> is_rlist_empty h L"
  using layoutD(1) [of h S m F L] by (simp add: is_rlist_empty_def)

lemma build_list_new:
  assumes "layout h S m {}" and "L \<in> S" and "m L = []"
    and "\<And>L' n. L' \<in> S \<Longrightarrow> i \<le> n \<Longrightarrow> n < j \<Longrightarrow> Elem n \<noteq> L' \<and> Elem n \<notin> set (m L')"
    and "h' = build_list L [i..<j] key h"
  shows "layout h' S (m(L := map Elem [i..<j])) {}"
    and "map (rl_obj h') (map Elem [i..<j]) = map Item [key..<key + (j - i)]"
    and "n \<notin> Elem ` {i..<j} \<Longrightarrow> rl_obj h' n = rl_obj h n"
  using build_list_spec [OF assms(1,2), of "[i..<j]" key] assms(3-5) by auto

text \<open>The four lists of the test of \<open>rlist_prepend\<close>.\<close>

lemma prepend_setup:
  fixes h :: umem
  defines "h0 \<equiv> rlnode_init (rlnode_init (rlnode_init (rlnode_init h (Var 0) Null_key) (Var 1) Null_key) (Var 2) Null_key) (Var 3) Null_key"
  defines "h1 \<equiv> build_list (Var 3) [9..<18] 0 (build_list (Var 1) [5..<9] 5 (build_list (Var 0) [0..<5] 0 h0))"
  shows "layout h1 {Var 3, Var 2, Var 1, Var 0}
      ((\<lambda>_. [])(Var 0 := map Elem [0..<5], Var 1 := map Elem [5..<9], Var 3 := map Elem [9..<18])) {}"
    and "map (rl_obj h1) (map Elem [0..<5] @ map Elem [5..<9]) = map (rl_obj h1) (map Elem [9..<18])"
proof -
  let ?S = "{Var 3, Var 2, Var 1, Var 0}" let ?m = "\<lambda>_::unode. [] :: unode list"
  define a where "a = build_list (Var 0) [0..<5] 0 h0"
  define b where "b = build_list (Var 1) [5..<9] 5 a"
  have "layout h0 ?S ((((?m(Var 0 := []))(Var 1 := []))(Var 2 := []))(Var 3 := [])) {}"
    unfolding h0_def by (rule layout_init_sentinel)+ (auto simp: layout_empty)
  then have l0: "layout h0 ?S ?m {}" by (simp add: fun_upd_idem)
  note A = build_list_new [OF l0, where L = "Var 0" and i = 0 and j = 5 and key = 0 and h' = a]
  have A: "layout a ?S (?m(Var 0 := map Elem [0..<5])) {}"
    "map (rl_obj a) (map Elem [0..<5]) = map Item [0..<0 + (5 - 0)]"
    by (rule A; auto simp: a_def)+
  note B = build_list_new [OF A(1), where L = "Var 1" and i = 5 and j = 9 and key = 5 and h' = b]
  have B: "layout b ?S (?m(Var 0 := map Elem [0..<5], Var 1 := map Elem [5..<9])) {}"
    "map (rl_obj b) (map Elem [5..<9]) = map Item [5..<5 + (9 - 5)]"
    "\<And>n. n \<notin> Elem ` {5..<9} \<Longrightarrow> rl_obj b n = rl_obj a n"
    by (rule B; auto simp: b_def)+
  note C = build_list_new [OF B(1), where L = "Var 3" and i = 9 and j = 18 and key = 0 and h' = h1]
  have C: "layout h1 ?S (?m(Var 0 := map Elem [0..<5], Var 1 := map Elem [5..<9], Var 3 := map Elem [9..<18])) {}"
    "map (rl_obj h1) (map Elem [9..<18]) = map Item [0..<0 + (18 - 9)]"
    "\<And>n. n \<notin> Elem ` {9..<18} \<Longrightarrow> rl_obj h1 n = rl_obj b n"
    by (rule C; auto simp: a_def b_def h1_def)+
  have "map (rl_obj h1) (map Elem [5..<9]) = map (rl_obj b) (map Elem [5..<9])"
    by (rule map_cong [OF refl], rule C(3)) auto
  moreover have "map (rl_obj h1) (map Elem [0..<5]) = map (rl_obj a) (map Elem [0..<5])"
    by (rule map_cong [OF refl], rule trans [OF C(3) B(3)]) auto
  moreover have "[0..<9] = [0..<5] @ [5..<9]" using upt_add_eq_append [of 0 5 4] by simp
  ultimately show "map (rl_obj h1) (map Elem [0..<5] @ map Elem [5..<9]) = map (rl_obj h1) (map Elem [9..<18])"
    using A(2) B(2) C(2) by simp
  show "layout h1 ?S (?m(Var 0 := map Elem [0..<5], Var 1 := map Elem [5..<9], Var 3 := map Elem [9..<18])) {}" by (rule C(1))
qed

lemma passes_prepend: "test_passes test_list_prepend st"
proof -
  let ?S = "{Var 3, Var 2, Var 1, Var 0}"
  let ?m = "(\<lambda>_. [])(Var 0 := map Elem [0..<5], Var 1 := map Elem [5..<9], Var 3 := map Elem [9..<18])"
  define h1 where "h1 = build_list (Var 3) [9..<18] 0 (build_list (Var 1) [5..<9] 5 (build_list (Var 0) [0..<5] 0
    (rlnode_init (rlnode_init (rlnode_init (rlnode_init (list_mem st) (Var 0) Null_key) (Var 1) Null_key) (Var 2) Null_key) (Var 3) Null_key)))"
  define h2 where "h2 = rlist_prepend h1 (Var 1) (Var 2)"
  define h3 where "h3 = rlist_prepend h2 (Var 2) (Var 1)"
  define h4 where "h4 = rlist_prepend h3 (Var 2) (Var 0)"
  have l1: "layout h1 ?S ?m {}" and k: "map (rl_obj h1) (map Elem [0..<5] @ map Elem [5..<9]) = map (rl_obj h1) (map Elem [9..<18])"
    unfolding h1_def by (rule prepend_setup)+
  have l2: "layout h2 ?S (?m(Var 1 := ?m (Var 2) @ ?m (Var 1), Var 2 := [])) {}" (is "layout h2 ?S ?m2 {}")
    unfolding h2_def by (rule layout_prepend [OF l1]) auto
  have l3: "layout h3 ?S (?m2(Var 2 := ?m2 (Var 1) @ ?m2 (Var 2), Var 1 := [])) {}" (is "layout h3 ?S ?m3 {}")
    unfolding h3_def by (rule layout_prepend [OF l2]) auto
  have l4: "layout h4 ?S (?m3(Var 2 := ?m3 (Var 0) @ ?m3 (Var 2), Var 0 := [])) {}" (is "layout h4 ?S ?m4 {}")
    unfolding h4_def by (rule layout_prepend [OF l3]) auto
  have e: "is_rlist_empty h2 (Var 2)" "is_rlist_empty h3 (Var 1)" "is_rlist_empty h4 (Var 0)"
    by (rule empty_ring [OF l2], simp, simp, rule empty_ring [OF l3], simp, simp, rule empty_ring [OF l4]) simp_all
  have r: "ring h4 (Var 2 # map Elem [0..<5] @ map Elem [5..<9])" "ring h4 (Var 3 # map Elem [9..<18])"
    using layoutD(1) [OF l4, of "Var 2"] layoutD(1) [OF l4, of "Var 3"] by simp_all
  have a: "ASSERT_len (Var 2) 9 (st\<lparr>list_mem := h4\<rparr>) = Some (st\<lparr>list_mem := h4\<rparr>)"
    by (rule ASSERT_len_holds [where xs = "map Elem [0..<5] @ map Elem [5..<9]"]) (use r in auto)
  have "ASSERT_equal (Var 2) (Var 3) True (st\<lparr>list_mem := h4\<rparr>) = Some (st\<lparr>list_mem := h4\<rparr>)"
  proof (rule ASSERT_equal_holds)
    show "ring (list_mem (st\<lparr>list_mem := h4\<rparr>)) (Var 2 # map Elem [0..<5] @ map Elem [5..<9])"
      "ring (list_mem (st\<lparr>list_mem := h4\<rparr>)) (Var 3 # map Elem [9..<18])" using r by simp_all
  qed (use k in \<open>simp add: h4_def h3_def h2_def\<close>)
  then have "test_list_prepend st = Some (st\<lparr>list_mem := h4\<rparr>)"
    using a e by (simp add: test_list_prepend_def Let_def seq_step del: build_list.simps upt_rec_numeral One_nat_def
        flip: h1_def h2_def h3_def h4_def)
  then show ?thesis by (simp add: test_passes_def)
qed

text \<open>Two lists that are made and appended to a third have the elements of the list of both strings.\<close>

lemma append_passes:
  assumes n: "length (s @ t) < 2 ^ 32"
  shows "test_passes (seq [make_list (Var 0) s, make_list (Var 1) t, upd (\<lambda>h. rlnode_init h (Var 2) Null_key),
      upd (\<lambda>h. rlist_append h (Var 2) (Var 0)), upd (\<lambda>h. rlist_append h (Var 2) (Var 1)),
      make_list (Var 0) (s @ t), ASSERT_equal (Var 2) (Var 0) True]) st"
proof -
  let ?a = "new_blocks (blocks st) (length s)" let ?b = "new_blocks (blocks st + length s) (length t)"
  let ?m = "(\<lambda>_. [])(Var 0 := ?a, Var 1 := ?b)"
  have ns: "length s < 2 ^ 32" "length t < 2 ^ 32" using n by simp_all
  obtain st1 st2 where s: "make_list (Var 0) s st = Some st1" "make_list (Var 1) t st1 = Some st2"
    "flag_failure st2 = flag_failure st" "blocks st2 = blocks st + length s + length t"
    "layout (list_mem st2) {Var 1, Var 0} ?m {}"
    "map (rl_obj (list_mem st2)) ?a = map (\<lambda>d. Num (of_char d)) s" "map (rl_obj (list_mem st2)) ?b = map (\<lambda>d. Num (of_char d)) t"
    by (rule make_two [OF ns, of st])
  let ?h3 = "rlnode_init (list_mem st2) (Var 2) Null_key" let ?h4 = "rlist_append ?h3 (Var 2) (Var 0)"
  let ?st5 = "st2\<lparr>list_mem := rlist_append ?h4 (Var 2) (Var 1)\<rparr>"
  have "layout ?h3 {Var 2, Var 1, Var 0} (?m(Var 2 := [])) {}" by (rule layout_init_sentinel [OF s(5)]) auto
  then have "layout ?h4 {Var 2, Var 1, Var 0} (?m(Var 2 := [], Var 2 := ?a, Var 0 := [])) {}"
    using layout_append [of ?h3 "{Var 2, Var 1, Var 0}" "?m(Var 2 := [])" "{}" "Var 2" "Var 0"] by simp
  then have "layout (list_mem ?st5) {Var 2, Var 1, Var 0} (?m(Var 2 := [], Var 2 := ?a, Var 0 := [], Var 2 := ?a @ ?b, Var 1 := [])) {}"
    using layout_append [of ?h4 "{Var 2, Var 1, Var 0}" "?m(Var 2 := [], Var 2 := ?a, Var 0 := [])" "{}" "Var 2" "Var 1"] by simp
  from layout_weaken [OF this, of "{Var 2}" "{}"] have l5: "layout (list_mem ?st5) {Var 2} (\<lambda>_. ?a @ ?b) {}"
    by (rule layout_one) simp_all
  obtain st6 where s6: "make_list (Var 0) (s @ t) ?st5 = Some st6" "flag_failure st6 = flag_failure ?st5"
    "layout (list_mem st6) {Var 0, Var 2} ((\<lambda>_. ?a @ ?b)(Var 0 := new_blocks (blocks ?st5) (length (s @ t)))) {}"
    "map (rl_obj (list_mem st6)) (new_blocks (blocks ?st5) (length (s @ t))) = map (\<lambda>d. Num (of_char d)) (s @ t)"
    "\<And>n. n \<noteq> Var 0 \<Longrightarrow> n \<notin> set (new_blocks (blocks ?st5) (length (s @ t))) \<Longrightarrow> rl_obj (list_mem st6) n = rl_obj (list_mem ?st5) n"
    by (rule make_list_spec [OF l5, of 0 "s @ t"]) (use n s(4) in \<open>auto simp: unused_def\<close>)
  have "rl_obj (list_mem st6) n = rl_obj (list_mem st2) n" if n: "n \<in> set (?a @ ?b)" for n
  proof -
    obtain j where "n = Heap j" "j < blocks st2" using n s(4) by (auto simp: new_blocks_def)
    then show ?thesis using s6(5) [of n] by simp
  qed
  then have "map (rl_obj (list_mem st6)) (?a @ ?b) = map (rl_obj (list_mem st2)) (?a @ ?b)" by (intro map_cong) auto
  then have "map (rl_obj (list_mem st6)) (?a @ ?b) = map (rl_obj (list_mem st6)) (new_blocks (blocks ?st5) (length (s @ t)))"
    using s(6,7) s6(4) by simp
  then have "ASSERT_equal (Var 2) (Var 0) True st6 = Some st6"
    using layoutD(1) [OF s6(3), of "Var 2"] layoutD(1) [OF s6(3), of "Var 0"]
    by (intro ASSERT_equal_holds [where xs = "?a @ ?b" and ys = "new_blocks (blocks ?st5) (length (s @ t))"]) simp_all
  then show ?thesis using s(1-3) s6(1,2) by (simp add: test_passes_def seq_step)
qed

lemma passes_append: "test_passes test_list_append st"
  unfolding test_list_append_def Let_def using append_passes [of "''Hello ''" "''world''" st] by simp

section \<open>Tests of the string vectors\<close>

text \<open>\<open>junk\<close>: what the array \<open>args\<close> holds before \<open>argvpack\<close>. The lengths are stored in variables of type
  \<open>int\<close>. The result: no ASSERT failed.\<close>

definition test_argv :: "(nat \<Rightarrow> byte) \<Rightarrow> byte list list \<Rightarrow> bool option" where
  "test_argv junk argv = do {
     len \<leftarrow> argvlen argv;
     let l = sint (ucast len :: 32 word);
     (args, n) \<leftarrow> argvpack (map junk [0..<nat l]) argv;
     let argl = sint (ucast n :: 32 word);
     c \<leftarrow> argscount argl args;
     (uargv, e) \<leftarrow> argvunpack (length argv) argl args;
     Some (argl = l \<and> c = of_nat (length argv) \<and>
       list_all (\<lambda>i. cstring (argv ! i) 0 = cstring args (uargv ! i)) [0..<length argv])
   }"

definition string_const :: "string \<Rightarrow> byte list" where
  "string_const s = terminated (map of_char s)"

definition pack_case :: "(nat \<Rightarrow> byte) \<Rightarrow> string list \<Rightarrow> uint64 \<Rightarrow> bool option" where
  "pack_case junk Aargv n = do {
     l \<leftarrow> argvlen (map string_const Aargv);
     ok \<leftarrow> test_argv junk (map string_const Aargv);
     Some (l = n \<and> ok)
   }"

definition test_pack_unpack :: "(nat \<Rightarrow> byte) \<Rightarrow> bool option" where
  "test_pack_unpack junk = do {
     a \<leftarrow> pack_case junk [''Hello'', ''Goodbye''] 14;
     b \<leftarrow> pack_case junk [] 0;
     c \<leftarrow> pack_case junk [''Goodbye''] 8;
     d \<leftarrow> pack_case junk ['''', ''''] 2;
     e \<leftarrow> pack_case junk [''''] 1;
     Some (a \<and> b \<and> c \<and> d \<and> e)
   }"

lemma length_64_as_int: "n < 2 ^ 31 \<Longrightarrow> sint (ucast (of_nat n :: uint64) :: 32 word) = int n"
  by (simp add: signed_of_nat signed_take_bit_int_eq_self unsigned_of_nat take_bit_nat_eq_self)

lemma test_argv_passes:
  assumes z: "\<And>s. s \<in> set ss \<Longrightarrow> 0 \<notin> set s" and n: "length (packed ss) < 2 ^ 31"
  shows "argvlen (map terminated ss) = Some (of_nat (length (packed ss))) \<and> test_argv junk (map terminated ss) = Some True"
proof -
  let ?n = "length (packed ss)" let ?buf = "map junk [0..<?n]"
  have l: "argvlen (map terminated ss) = Some (of_nat ?n)" by (rule argvlen_packed [OF z])
  have p: "argvpack ?buf (map terminated ss) = Some (packed ss, of_nat ?n)"
    using argvpack_spec [OF z, of ss ?buf] n length_packed [of ss] by simp
  have c: "argscount (int ?n) (packed ss) = Some (of_nat (length ss))"
    using argscount_count [of "int ?n" "packed ss"] count_packed [OF z, of ss] by simp
  obtain argv where u: "argvunpack_loop (length ss) (packed ss) 0 = Some (argv, ?n)" "map (cstring (packed ss)) argv = ss"
    using argvunpack_loop_spec [OF z, of ss "[]" "[]"] by auto
  have "cstring (terminated (ss ! i)) 0 = cstring (packed ss) (argv ! i)" if "i < length ss" for i
  proof -
    have "length argv = length ss" using arg_cong [OF u(2), of length] by simp
    then have "cstring (packed ss) (argv ! i) = ss ! i" using arg_cong [OF u(2), of "\<lambda>l. l ! i"] that by simp
    moreover have "cstring (terminated (ss ! i)) 0 = ss ! i"
      using cstring_at [of "ss ! i" "[]" "[]"] z that by (simp add: terminated_def)
    ultimately show ?thesis by simp
  qed
  then show ?thesis using l p c u(1) by (simp add: test_argv_def length_64_as_int [OF n] argvunpack_def list_all_iff)
qed

lemma pack_case_passes:
  assumes "\<And>s c. s \<in> set ss \<Longrightarrow> c \<in> set s \<Longrightarrow> (of_char c :: byte) \<noteq> 0" and "length (packed (map (map of_char) ss)) < 2 ^ 31"
    and "n = of_nat (length (packed (map (map of_char) ss)))"
  shows "pack_case junk ss n = Some True"
proof -
  have e: "map string_const ss = map terminated (map (map of_char) ss)" by (simp add: string_const_def comp_def)
  have "0 \<notin> set s" if "s \<in> set (map (map of_char) ss)" for s :: "byte list" using that assms(1) by fastforce
  then show ?thesis unfolding pack_case_def e using test_argv_passes [of "map (map of_char) ss" junk] assms(2,3) by simp
qed

lemma passes_pack_unpack: "test_pack_unpack junk = Some True"
proof -
  note P = pack_case_passes [where junk = junk]
  have "pack_case junk [''Hello'', ''Goodbye''] 14 = Some True" by (rule P) (auto simp: length_packed)
  moreover have "pack_case junk [] 0 = Some True" by (rule P) auto
  moreover have "pack_case junk [''Goodbye''] 8 = Some True" by (rule P) (auto simp: length_packed)
  moreover have "pack_case junk ['''', ''''] 2 = Some True" by (rule P) auto
  moreover have "pack_case junk [''''] 1 = Some True" by (rule P) auto
  ultimately show ?thesis by (simp add: test_pack_unpack_def)
qed

section \<open>Tests of the exceptions\<close>

text \<open>The variables of the tests and the flag of the failed ASSERT. A sum that leaves the range of
  \<open>long long int\<close> counts as a failure.\<close>

record exc_test =
  count :: int
  sum1 :: int
  sum2 :: int
  exc_failed :: bool

definition check :: "bool \<Rightarrow> exc_test \<Rightarrow> exc_test" where
  "check b s = s\<lparr>exc_failed := exc_failed s \<or> \<not> b\<rparr>"

definition incr :: "exc_test \<Rightarrow> exc_test" where "incr s = s\<lparr>count := count s + 1\<rparr>"

definition set_count :: "int \<Rightarrow> exc_test stmt" where "set_count c = Do (\<lambda>s. (s\<lparr>count := c\<rparr>, False))"

definition ASSERT_count :: "int \<Rightarrow> exc_test stmt" where "ASSERT_count c = Do (\<lambda>s. (check (count s = c) s, False))"

definition ASSERT_0 :: "exc_test stmt" where "ASSERT_0 = Do (\<lambda>s. (check False s, False))"

definition RAISE_ERROR :: "exc_test stmt" where "RAISE_ERROR = Do (\<lambda>s. (s, True))"

definition no_handlers :: "exc_test exception_stack_frame" where
  "no_handlers = \<lparr>catchers = [], finalizers = []\<rparr>"

text \<open>A TRY block inside a handler: the frame of the block whose handler runs is below it, and an exception
  that leaves the inner block arrives there.\<close>

definition try_in_handler :: "exc_test stmt list \<Rightarrow> exc_test \<Rightarrow> exc_test \<times> bool" where
  "try_in_handler body s = (case run_stmt (TRY body) [no_handlers] s of (ctx, s1, jumped) \<Rightarrow> (s1, jumped))"

definition run_stmts :: "exc_test stmt list \<Rightarrow> exc_test \<Rightarrow> exc_test" where
  "run_stmts body s = fst (snd (run_block body [] s))"

definition test_exc_empty_body :: "exc_test \<Rightarrow> exc_test" where
  "test_exc_empty_body = run_stmts
     [set_count 0,
      TRY [],
      TRY
        [FINALLY (\<lambda>e s. (incr (check (count s = 0) (check (e = 0) s)), False)),
         ON_ERROR (\<lambda>e s. (check False s, False))],
      ASSERT_count 1,
      set_count 0,
      TRY
        [FINALLY (\<lambda>e s. let s1 = incr s in (check (count s1 = 2) s1, False)),
         FINALLY (\<lambda>e s. let s1 = incr s in (check (count s1 = 1) s1, False))],
      ASSERT_count 2,
      set_count 10,
      TRY
        [FINALLY (\<lambda>e s. let (s1, raises) = try_in_handler [FINALLY (\<lambda>e s. (incr s, False))] s
                        in if raises then (s1, True) else (incr s1, False)),
         ASSERT_count 10],
      ASSERT_count 12]"

definition test_exc_catcher_match :: "exc_test \<Rightarrow> exc_test" where
  "test_exc_catcher_match = run_stmts
     [set_count 0,
      TRY
        [ON_ERROR (\<lambda>e s. (incr s, False)),
         ON_ERROR (\<lambda>e s. (incr s, False)),
         RAISE_ERROR],
      ASSERT_count 2,
      set_count 0,
      TRY
        [RAISE_ERROR,
         ON_ERROR (\<lambda>e s. (check False s, False)),
         ON_ERROR (\<lambda>e s. (check False s, False))],
      ASSERT_count 0,
      set_count 0,
      TRY
        [ON_ERROR (\<lambda>e s. (incr s, False)),
         RAISE_ERROR,
         ON_ERROR (\<lambda>e s. (check False s, False))],
      ASSERT_count 1]"

definition foo2 :: "exc_test stmt" where "foo2 = RAISE_ERROR"

definition foo :: "exc_test stmt" where
  "foo = TRY
     [FINALLY (\<lambda>e s. (incr s, False)),
      foo2,
      ASSERT_0]"

text \<open>\<open>__bar\<close> in the context of its caller; its result is the final value of \<open>count\<close>.\<close>

definition bar :: "exc_test exception_context \<Rightarrow> exc_test \<Rightarrow> exc_test exception_context \<times> exc_test \<times> bool" where
  "bar ctx s = run_block
     [set_count 0,
      Do (\<lambda>s. (check (ctx \<noteq> []) s, False)),
      TRY
        [ON_ERROR (\<lambda>e s. (incr (check (count s = 1) s), False)),
         foo],
      ASSERT_count 2] ctx s"

definition test_exc_unwind :: "exc_test \<Rightarrow> exc_test" where
  "test_exc_unwind s =
     (let ctx = on_error (\<lambda>e s. (check False s, False)) (exc_push_frame [] no_handlers);
          (ctx1, s1, jumped) = bar ctx s;
          (ctx2, s2) = (if jumped then (ctx1, s1) else exc_exit_try ctx1 (check (count s1 = 2) s1))
      in check (ctx2 = []) s2)"

definition long_long :: "int \<Rightarrow> bool" where "long_long x \<longleftrightarrow> - (2 ^ 63) \<le> x \<and> x < 2 ^ 63"

definition add_sum :: "int \<Rightarrow> exc_test \<Rightarrow> exc_test" where
  "add_sum i s = check (long_long (sum1 s + i)) (s\<lparr>sum1 := sum1 s + i\<rparr>)"

definition add_sum2 :: "int \<Rightarrow> exc_test \<Rightarrow> exc_test" where
  "add_sum2 i s = check (long_long (sum2 s + i)) (s\<lparr>sum2 := sum2 s + i\<rparr>)"

definition compute_func :: "int \<Rightarrow> exc_test stmt" where "compute_func m = RAISE_ERROR"

definition inloop_body :: "int \<Rightarrow> exc_test stmt" where
  "inloop_body i = TRY
     [FINALLY (\<lambda>e s. (add_sum i s, False)),
      Do (\<lambda>s. (add_sum2 i s, False)),
      compute_func i]"

definition compute_func2 :: "int \<Rightarrow> int" where "compute_func2 m = m * 3"

definition inloop2_body :: "int \<Rightarrow> exc_test stmt" where
  "inloop2_body i = TRY
     [Do (\<lambda>s. (add_sum2 (3 * i) s, False)),
      Do (\<lambda>s. (add_sum (compute_func2 i) s, False))]"

definition loop_n :: nat where "loop_n = 10000000"

definition test_exc_inloop :: "exc_test \<Rightarrow> exc_test" where
  "test_exc_inloop s =
     (let s1 = fold (\<lambda>i. run_stmts [inloop_body (int i)]) [1..<loop_n + 1] (s\<lparr>sum1 := 0, sum2 := 0\<rparr>);
          n = int loop_n
      in check (sum2 s1 = n * (n + 1) div 2) s1)"

definition test_exc_inloop2 :: "exc_test \<Rightarrow> exc_test" where
  "test_exc_inloop2 s =
     (let s1 = fold (\<lambda>i. run_stmts [inloop2_body (int i)]) [1..<loop_n + 1] (s\<lparr>sum1 := 0, sum2 := 0\<rparr>);
          n = int loop_n
      in check (sum1 s1 = 3 * n * (n + 1) div 2) (check (sum1 s1 = sum2 s1) s1))"

definition exception_tests :: "(exc_test \<Rightarrow> exc_test) list" where
  "exception_tests = [test_exc_empty_body, test_exc_catcher_match, test_exc_unwind, test_exc_inloop, test_exc_inloop2]"

lemmas exc_steps = run_stmts_def set_count_def ASSERT_count_def ASSERT_0_def RAISE_ERROR_def no_handlers_def
  try_in_handler_def incr_def exc_push_frame_def

lemma check_True [simp]: "check True s = s"
  by (simp add: check_def)

lemma exc_empty_body_passes: "exc_failed (test_exc_empty_body s) = exc_failed s"
  by (simp add: test_exc_empty_body_def exc_steps)

lemma exc_catcher_match_passes: "exc_failed (test_exc_catcher_match s) = exc_failed s"
  by (simp add: test_exc_catcher_match_def exc_steps)

lemma exc_unwind_passes: "exc_failed (test_exc_unwind s) = exc_failed s"
  by (simp add: test_exc_unwind_def bar_def foo_def foo2_def exc_steps)

text \<open>One turn of each loop, and the loops for any number of turns that keeps the sums in range.\<close>

lemma inloop_turn: "run_stmts [inloop_body i] s = add_sum i (add_sum2 i s)"
  by (simp add: inloop_body_def compute_func_def exc_steps)

lemma inloop2_turn: "run_stmts [inloop2_body i] s = add_sum (3 * i) (add_sum2 (3 * i) s)"
  by (simp add: inloop2_body_def compute_func2_def exc_steps mult.commute)

lemma sums_in_range:
  assumes "\<And>k. k \<le> n \<Longrightarrow> long_long (c * (int k * (int k + 1) div 2))"
    and "\<And>i s. body i s = add_sum (c * int i) (add_sum2 (c * int i) s)"
  shows "fold body [1..<n + 1] (s\<lparr>sum1 := 0, sum2 := 0\<rparr>) =
     s\<lparr>sum1 := c * (int n * (int n + 1) div 2), sum2 := c * (int n * (int n + 1) div 2)\<rparr>"
  using assms(1)
proof (induction n)
  case (Suc n)
  have e: "c * (int n * (int n + 1) div 2) + c * int (Suc n) = c * (int (Suc n) * (int (Suc n) + 1) div 2)"
  proof -
    have "int (Suc n) * (int (Suc n) + 1) = int n * (int n + 1) + 2 * int (Suc n)" by (simp add: algebra_simps)
    then have "int (Suc n) * (int (Suc n) + 1) div 2 = int n * (int n + 1) div 2 + int (Suc n)" by simp
    then show ?thesis by (simp add: algebra_simps)
  qed
  have "fold body [1..<Suc n + 1] (s\<lparr>sum1 := 0, sum2 := 0\<rparr>) = body (Suc n) (fold body [1..<n + 1] (s\<lparr>sum1 := 0, sum2 := 0\<rparr>))"
    by simp
  also have "fold body [1..<n + 1] (s\<lparr>sum1 := 0, sum2 := 0\<rparr>) =
      s\<lparr>sum1 := c * (int n * (int n + 1) div 2), sum2 := c * (int n * (int n + 1) div 2)\<rparr>"
    by (rule Suc.IH) (use Suc.prems in auto)
  also have "body (Suc n) \<dots> = s\<lparr>sum1 := c * (int (Suc n) * (int (Suc n) + 1) div 2), sum2 := c * (int (Suc n) * (int (Suc n) + 1) div 2)\<rparr>"
    using Suc.prems [of "Suc n"] e unfolding assms(2) add_sum_def add_sum2_def by (simp add: check_def)
  finally show ?case .
qed simp

lemma loop_range:
  assumes "0 \<le> c" "c \<le> 3" "k \<le> loop_n"
  shows "long_long (c * (int k * (int k + 1) div 2))"
proof -
  have "int k * (int k + 1) \<le> 10000000 * 10000001" using assms(3) by (intro mult_mono) (auto simp: loop_n_def)
  then have "int k * (int k + 1) div 2 \<le> 50000005000000" by linarith
  then have "c * (int k * (int k + 1) div 2) \<le> 3 * 50000005000000" using assms(1,2) by (intro mult_mono) auto
  moreover have "0 \<le> c * (int k * (int k + 1) div 2)" using assms(1) by (intro mult_nonneg_nonneg) auto
  ultimately show ?thesis by (simp add: long_long_def)
qed

lemma exc_inloop_passes: "exc_failed (test_exc_inloop s) = exc_failed s"
proof -
  have "fold (\<lambda>i. run_stmts [inloop_body (int i)]) [1..<loop_n + 1] (s\<lparr>sum1 := 0, sum2 := 0\<rparr>) =
      s\<lparr>sum1 := 1 * (int loop_n * (int loop_n + 1) div 2), sum2 := 1 * (int loop_n * (int loop_n + 1) div 2)\<rparr>"
    by (rule sums_in_range, rule loop_range) (simp_all add: inloop_turn)
  then show ?thesis by (simp add: test_exc_inloop_def Let_def del: upt_Suc)
qed

lemma exc_inloop2_passes: "exc_failed (test_exc_inloop2 s) = exc_failed s"
proof -
  have e: "3 * (x * (x + 1) div 2) = 3 * x * (x + 1) div (2::int)" for x
  proof -
    have "even (x * (x + 1))" by simp
    then obtain y where "x * (x + 1) = 2 * y" by (elim evenE)
    then show ?thesis by (simp add: mult.assoc)
  qed
  have "fold (\<lambda>i. run_stmts [inloop2_body (int i)]) [1..<loop_n + 1] (s\<lparr>sum1 := 0, sum2 := 0\<rparr>) =
      s\<lparr>sum1 := 3 * (int loop_n * (int loop_n + 1) div 2), sum2 := 3 * (int loop_n * (int loop_n + 1) div 2)\<rparr>"
    by (rule sums_in_range) (simp_all add: loop_range inloop2_turn)
  then show ?thesis by (simp add: test_exc_inloop2_def Let_def e del: upt_Suc)
qed

section \<open>The verdict\<close>

text \<open>The tests of the lists, of the string vectors and of the exceptions pass, whatever the variables,
  the nodes and the buffers of the tests hold at the start: every loop ends, no ASSERT fails, and no access
  is outside a buffer.\<close>

lemma util_tests_pass:
  "list_all (\<lambda>t. \<exists>st'. t st = Some st' \<and> flag_failure st' = flag_failure st) rlist_tests \<and>
   test_pack_unpack junk = Some True \<and>
   list_all (\<lambda>t. exc_failed (t s) = exc_failed s) exception_tests"
  unfolding rlist_tests_def exception_tests_def list.pred_inject
  using passes_init [of st] passes_len [of st] passes_queue [of st] passes_select [of st] passes_equal [of st]
    passes_prepend [of st] passes_append [of st] passes_pack_unpack [of junk]
  by (simp add: test_passes_def exc_empty_body_passes exc_catcher_match_passes exc_unwind_passes exc_inloop_passes exc_inloop2_passes)

end
