(* ===== verification/Spec2Isabelle.thy ===== *)
theory Spec2Isabelle
  imports Rlist_Props Exceptions Remote_Server Term_Proxy Test_Runs Terminal Host_Programs Console
    Kernel_Machine Util_Tests
begin

text \<open>
  Verification of tinyos3, a small operating system kernel that runs on a virtual multicore machine
  inside one host process.

  \<^bold>\<open>The program.\<close> \<^verbatim>\<open>src/bios.c\<close> is the machine: cores (host threads) with interrupts (host signals),
  timers and serial terminals. The kernel on top of it has a scheduler for threads
  (\<^verbatim>\<open>kernel_sched.c\<close>), mutexes, condition variables and one kernel lock (\<^verbatim>\<open>kernel_cc.c\<close>), devices
  (\<^verbatim>\<open>kernel_dev.c\<close>), streams (\<^verbatim>\<open>kernel_streams.c\<close>), processes (\<^verbatim>\<open>kernel_proc.c\<close>), the table of system
  calls (\<^verbatim>\<open>kernel_sys.c\<close>) with stubs for threads, pipes and sockets, and the boot code
  (\<^verbatim>\<open>kernel_init.c\<close>). All of them keep their objects in the intrusive lists of \<^verbatim>\<open>util.h\<close>. Above the
  system calls there are a library (\<^verbatim>\<open>tinyoslib.c\<close>), the dining philosophers (\<^verbatim>\<open>symposium.c\<close>), a
  shell with its programs and a remote server (\<^verbatim>\<open>tinyos_shell.c\<close>), and a test program
  (\<^verbatim>\<open>validate_api.c\<close>) on a test library (\<^verbatim>\<open>unit_testing.c\<close>). A terminal is a host program of its own
  (\<^verbatim>\<open>terminal.c\<close>).

  \<^bold>\<open>Conventions.\<close> Every function of the source is a function of the same name. The state it changes
  is a record that it takes and returns. An assertion that fails, a FATAL, an access outside an
  array and a loop that does not end are \<open>None\<close>; a system call that goes to sleep returns \<open>Block\<close>, and
  the part of it that runs after the wakeup is a function of its own (\<open>..._again\<close>, \<open>..._loop\<close>,
  \<open>..._resume\<close>, \<open>..._leave\<close>). Objects are named by their index or, for threads, by their block. What
  the host returns (the clock, the rest of a timer, bytes of a terminal, the result of \<open>select\<close>, fresh
  memory) is an argument. Words keep their width where the code depends on it.

  \<^bold>\<open>The theories.\<close>
  \<^item> \<open>Prelude\<close>: types, rule collections, list lemmas, and two interfaces: \<open>transition_invariant\<close>
    (invariants of state machines) and \<open>resource_pool\<close> (free lists).
  \<^item> \<open>Rlist\<close>, \<open>Rlist_Props\<close>: \<open>rlnode\<close> and the list operations of \<^verbatim>\<open>util.h\<close> over an explicit heap. \<open>layout\<close>
    describes a heap that holds many lists; the interface \<open>intrusive_lists\<close> is what the kernel
    uses. The operations refine list operations, the loops end, \<open>rlist_pop_back\<close> does not pop.
  \<^item> \<open>Argv\<close>, \<open>Exceptions\<close>: the string vectors and the TRY blocks of \<^verbatim>\<open>util.h\<close> and \<^verbatim>\<open>util.c\<close>; packing is
    invertible, unwinding runs each handler once.
  \<^item> \<open>Bios\<close>, \<open>Peripherals\<close>: \<^verbatim>\<open>bios.c\<close>. Halting and restarting of cores, delivery of interrupts, the
    interrupt controller round by round, terminals.
  \<^item> \<open>Sched\<close>, \<open>Sched_Machine\<close>: \<^verbatim>\<open>kernel_sched.c\<close>, one function per critical section, and the machine that
    interleaves the critical sections of all cores. The invariant \<open>sinv\<close> holds in every reachable
    machine; from it follow that no assertion fails, that no thread is on two cores, that no ready
    thread is lost, and the order of the queue and of the timeouts.
  \<^item> \<open>CC\<close>: \<^verbatim>\<open>kernel_cc.c\<close>. The mutex instruction by instruction, the rings of waiters, the kernel
    semaphore; mutual exclusion, FIFO order, no lost wakeup.
  \<^item> \<open>Dev\<close>: \<^verbatim>\<open>kernel_dev.c\<close>. \<open>stream_reader\<close> is the contract of a driver's read method, interpreted by
    the null device and the serial driver.
  \<^item> \<open>Kernel_State\<close>, \<open>Streams\<close>: \<^verbatim>\<open>kernel_streams.c\<close>. \<open>stream_inv\<close> says that each reference count is the
    number of descriptors and running calls that use the FCB; every call keeps it.
  \<^item> \<open>Proc\<close>, \<open>Proc_Tree\<close>, \<open>Proc_Props\<close>: \<^verbatim>\<open>kernel_proc.c\<close>. \<open>pinv\<close> ties the free list, the lists of children
    and of exited children to the parent pointers and states; \<open>Exec\<close>, \<open>Exit\<close> and \<open>WaitChild\<close> keep it and
    do what they promise.
  \<^item> \<open>Kernel\<close>: the system call table with the kernel lock around every call, the stubs, the idle
    thread, and \<open>boot_tinyos_kernel\<close>, which is shown to establish the invariants.
  \<^item> \<open>Kernel_Machine\<close>: the calls of all processes in any order, as one transition system over the kernel and the
    calls that sleep. Every call returns in every reachable state, the process tree and the stream counts stay
    consistent, and when the boot task has exited nothing is left allocated.
  \<^item> \<open>Tinyoslib\<close>, \<open>Symposium\<close>, \<open>Shell\<close>: the programs. \<open>Execute\<close> hands its string vector through \<open>Exec\<close> to
    the program; philosophers exclude their neighbours and finish; the shell starts the commands of
    a pipeline in order.
  \<^item> \<open>Remote_Server\<close>: the listener, the client threads and the console of the remote server of
    \<^verbatim>\<open>tinyos_shell.c\<close> as steps that interleave at their calls and memory accesses. Clients get distinct
    numbers, a request arrives as it was packed, and the unprotected counter of connections can make the
    server hang.
  \<^item> \<open>C_Text\<close>: the functions of the C library on strings and numbers that the programs use.
  \<^item> \<open>Unit_Testing\<close>, \<open>Term_Proxy\<close>: \<^verbatim>\<open>unit_testing.c\<close>. \<open>run_test\<close> is compared with a definition of which
    tests pass; the proxies check and type patterns in the order in which they were given.
  \<^item> \<open>API_Tests\<close>, \<open>Socket_Tests\<close>, \<open>Test_Runs\<close>: the tests of \<^verbatim>\<open>validate_api.c\<close> as trees of system calls, and
    their execution by one process on the kernel of \<open>Kernel\<close>. The verdicts after boot are at the end of this
    theory, since they rest on nearly all of the kernel.
  \<^item> \<open>Terminal\<close>, \<open>Host_Programs\<close>: \<^verbatim>\<open>terminal.c\<close>, which copies every byte in order; \<^verbatim>\<open>mtask.c\<close> and the serial
    streams of \<^verbatim>\<open>bios_example5.c\<close>.
  \<^item> \<open>Console\<close>: \<^verbatim>\<open>console.c\<close>, two streams over those of the host that take the descriptors 0 and 1 and keep
    the reference counts exact.
  \<^item> \<open>Util_Tests\<close>: \<^verbatim>\<open>test_util.c\<close>, the tests of the lists, the string vectors and the exceptions, over the
    theories of those parts. All of them pass whatever memory holds at the start, the test of
    \<open>rlist_pop_back\<close> included, which does not notice that the list is emptied.

  \<^bold>\<open>Bounds.\<close> Pointer loops and the loop of the boot task are \<open>partial_function (option)\<close>, and the
  theorems say that they return. The loops of the shell that wait for all children or read all
  process records are unrolled \<open>MAX_PROC + 1\<close> times, one more than there are processes; the loops that
  receive or send a message of \<open>n\<close> bytes are unrolled \<open>n\<close> times, since each round moves at least one
  byte. Timeouts are those the kernel passes: NO_TIMEOUT or milliseconds times 1000. Loops of the API
  tests whose end depends on what their calls return take a bound as an argument and become
  \<open>T_unfinished\<close> beyond it; loops over the terminals are unrolled \<open>MAX_TERMINALS + 1\<close> times, which the proofs
  of their verdicts show to be enough.

  \<^bold>\<open>Not modelled.\<close> Signal masks, host threads and the switching of stacks below \<open>cpu_swap_context\<close> (host
  library code); the buffering of C streams; of
  \<^verbatim>\<open>validate_api.c\<close> the tests that measure time in floating point or inspect the memory of the host
  (\<open>test_boot\<close>, \<open>test_parallelism\<close>, the terminal I/O suite); the programs \<^verbatim>\<open>bios_example1.c\<close> to
  \<^verbatim>\<open>bios_example4.c\<close>, which print from the cores; \<^verbatim>\<open>test_example.c\<close>, two
  constant assertions.
\<close>

section \<open>The API tests on the booted kernel\<close>

text \<open>C24: On the kernel right after boot, the first process passes the basic tests of the API that
  one process can run by itself: its pid, the null device, opening and closing the terminals, duplicating,
  closing, reading and writing descriptors that are closed or illegal. Every call returns, no assertion of
  the kernel fails, and no ASSERT of a test fails, whatever the environment of the calls is.\<close>

theorem basic_tests_pass:
  assumes "fresh_monitor k" and "new_block e = Thread j" and "serial_ports (devs k) \<le> MAX_TERMINALS" and "spid S = 1"
  shows "\<exists>k'. boot_tinyos_kernel br e w w' k = Some k' \<and>
     (\<forall>t \<in> {test_pid_of_init_is_one, test_null_device, test_get_terminals (of_nat (serial_ports (devs k))),
         test_open_terminals, test_dup2_error_on_nonfile, test_dup2_error_on_invalid_fid,
         test_close_error_on_invalid_fid, test_close_success_on_valid_nonfile_fid, test_close_terminals,
         test_read_error_on_bad_fid, test_write_error_on_bad_fid buf}.
        verdict_of t S n mem k' = Some True)"
proof -
  obtain k' where k': "boot_tinyos_kernel br e w w' k = Some k'" "fresh S k'" "terminals k' (serial_ports (devs k))"
    using booted_fresh [OF assms] by blast
  have "device_no (devs k') DEV_SERIAL = of_nat (serial_ports (devs k))" using k'(3) by (simp add: terminals_def)
  then show ?thesis
    using k' fresh_simple_tests [OF k'(2), where n = n and mem = mem] fresh_null_device [OF k'(2)] fresh_dup2_invalid [OF k'(2)]
      fresh_terminals [OF k'(2,3)] assms(4) by auto
qed

definition ex_setup :: test_setup where
  "ex_setup = \<lparr>score = 0, spid = 1, snode = 0, snode' = 1, senv = (\<lambda>_. ex_env), sclock = (\<lambda>_. 0), scode = (\<lambda>_. 0)\<rparr>"

definition ex_boot :: boot_record where
  "ex_boot = \<lparr>init_task = 5, boot_argl = 0, boot_args = None\<rparr>"

lemma ex_boot_facts: "new_block ex_env = Thread 3" "serial_ports (devs ex_quiet) \<le> MAX_TERMINALS" "spid ex_setup = 1"
proof -
  have "serial_ports ex_ready_devices = 2"
    by (auto simp: ex_ready_devices_def initialize_devices_def ex_devices_def Let_def
        dest: init_serial_table split: prod.splits)
  then show "serial_ports (devs ex_quiet) \<le> MAX_TERMINALS"
    by (simp add: ex_quiet_def ex_kernel_simps MAX_TERMINALS_def)
qed (simp_all add: ex_env_def ex_setup_def)

theorem basic_tests_pass_witness:
  "\<exists>k'. boot_tinyos_kernel ex_boot ex_env 0 1 ex_quiet = Some k' \<and>
     verdict_of test_close_terminals ex_setup 0 (\<lambda>_. 0) k' = Some True"
  using basic_tests_pass [OF ex_quiet_facts(1) ex_boot_facts, of ex_boot 0 1 "[]" 0 "\<lambda>_. 0"] by blast

text \<open>C25: What the suites for pipes and sockets report on this kernel, in which these calls are not
  implemented. Every test of pipes fails. Of the socket tests, exactly the seven that only look for errors
  pass; for none the outcome is open.\<close>

theorem pipe_and_socket_verdicts:
  assumes "fresh_monitor k" and "new_block e = Thread j" and "serial_ports (devs k) \<le> MAX_TERMINALS" and "spid S = 1"
  shows "\<exists>k'. boot_tinyos_kernel br e w w' k = Some k' \<and>
     map (\<lambda>(name, t). verdict_of t S n mem k') (pipe_tests bound buf pp) = replicate 6 (Some False) \<and>
     map (\<lambda>(name, t). (name, verdict_of t S n mem k')) (socket_tests bound buf stk) =
       [(''test_socket_constructor_many_per_port'', Some False), (''test_socket_constructor_out_of_fids'', Some False),
        (''test_socket_constructor_illegal_port'', Some False), (''test_listen_success'', Some False),
        (''test_listen_fails_on_bad_fid'', Some True), (''test_listen_fails_on_NOPORT'', Some True),
        (''test_listen_fails_on_occupied_port'', Some False), (''test_listen_fails_on_initialized_socket'', Some False),
        (''test_accept_succeds'', Some False), (''test_accept_fails_on_bad_fid'', Some True),
        (''test_accept_fails_on_unbound_socket'', Some True), (''test_accept_fails_on_connected_socket'', Some False),
        (''test_accept_reusable'', Some False), (''test_accept_fails_on_exhausted_fid'', Some False),
        (''test_accept_unblocks_on_close'', Some False), (''test_connect_fails_on_bad_fid'', Some True),
        (''test_connect_fails_on_bad_socket'', Some False), (''test_connect_fails_on_illegal_port'', Some True),
        (''test_connect_fails_on_non_listened_port'', Some True), (''test_connect_fails_on_timeout'', Some False),
        (''test_socket_small_transfer'', Some False), (''test_socket_single_producer'', Some False),
        (''test_socket_multi_producer'', Some False), (''test_shudown_read'', Some False),
        (''test_shudown_write'', Some False)]"
proof -
  obtain k' where k': "boot_tinyos_kernel br e w w' k = Some k'" "fresh S k'"
    using booted_fresh [OF assms] by blast
  note q = freshD(1) [OF k'(2)]
  have "map (\<lambda>(name, t). verdict_of t S n mem k') (pipe_tests bound buf pp) = replicate 6 (Some False)"
    by (simp add: pipe_tests_def pipe_verdicts [OF q] numeral_eq_Suc)
  moreover note v = socket_failing [OF q] listen_failing [OF q] socket_passing [OF k'(2)]
  ultimately show ?thesis
    unfolding socket_tests_def using k'(1) by (intro exI [of _ k'] conjI) (simp_all only: list.map prod.case v)
qed

theorem pipe_and_socket_verdicts_witness:
  "\<exists>k'. boot_tinyos_kernel ex_boot ex_env 0 1 ex_quiet = Some k' \<and>
     map (\<lambda>(name, t). verdict_of t ex_setup 0 (\<lambda>_. 0) k') (pipe_tests 9 [] (0, 1)) = replicate 6 (Some False)"
  using pipe_and_socket_verdicts [OF ex_quiet_facts(1) ex_boot_facts, of ex_boot 0 1 0 "\<lambda>_. 0" 9 "[]" "(0, 1)" "[]"] by blast

end
